(* ===== verification/Prelude.thy ===== *)
theory Prelude
  imports Main "HOL-Library.Word"
begin

text \<open>
  Shared vocabulary of the development: the machine integers of the C++ code, the
  outcome of a C++ computation that may run into undefined behaviour, truncating
  division, zero-based reads that may fail, and the interfaces (locales) that several
  components share: round-tripping codecs and invariants of step functions.
\<close>

section \<open>Machine integers\<close>

type_synonym u8 = "8 word"
type_synonym u16 = "16 word"
type_synonym u32 = "32 word"
type_synonym u64 = "64 word"

definition int32_range :: "int \<Rightarrow> bool" where
  "int32_range v \<longleftrightarrow> - (2 ^ 31) \<le> v \<and> v < 2 ^ 31"

text \<open>C++ integer division truncates towards zero.\<close>

definition cpp_div :: "int \<Rightarrow> int \<Rightarrow> int" where
  "cpp_div a b = (let q = \<bar>a\<bar> div \<bar>b\<bar> in if (a < 0) = (b < 0) then q else - q)"

lemma cpp_div_0 [simp]: "cpp_div 0 b = 0"
  by (simp add: cpp_div_def)

lemma cpp_div_nonneg: "0 \<le> a \<Longrightarrow> 0 < b \<Longrightarrow> cpp_div a b = a div b"
  by (simp add: cpp_div_def)

lemma cpp_div_minus_left: "cpp_div (- a) b = - cpp_div a b"
  by (cases "a = 0") (auto simp: cpp_div_def Let_def)

lemma cpp_div_minus_right: "cpp_div a (- b) = - cpp_div a b"
  by (cases "b = 0") (auto simp: cpp_div_def Let_def)

text \<open>The quotient of a product \<open>d * p\<close> by \<open>q\<close> with \<open>0 \<le> p \<le> q\<close> stays between 0 and \<open>d\<close>.\<close>

lemma cpp_div_mult_nonneg:
  assumes "0 \<le> d" "0 \<le> p" "p \<le> q" "0 < q"
  shows "0 \<le> cpp_div (d * p) q \<and> cpp_div (d * p) q \<le> d"
proof -
  have "d * p \<le> d * q" using assms by (simp add: mult_left_mono)
  then have "(d * p) div q \<le> (d * q) div q" using assms by (intro zdiv_mono1) auto
  moreover have "0 \<le> (d * p) div q" using assms by (simp add: pos_imp_zdiv_nonneg_iff)
  ultimately show ?thesis using assms by (simp add: cpp_div_nonneg)
qed

lemma cpp_div_mult_pos:
  assumes "0 \<le> p" "p \<le> q" "0 < q"
  shows "min 0 d \<le> cpp_div (d * p) q \<and> cpp_div (d * p) q \<le> max 0 d"
proof (cases "0 \<le> d")
  case True
  with cpp_div_mult_nonneg [OF True assms] show ?thesis by simp
next
  case False
  then have "0 \<le> - d" by simp
  from cpp_div_mult_nonneg [OF this assms]
  have "0 \<le> - cpp_div (d * p) q \<and> - cpp_div (d * p) q \<le> - d"
    by (simp add: cpp_div_minus_left)
  with False show ?thesis by simp
qed

lemma cpp_div_mult_between:
  assumes "0 \<le> p \<and> p \<le> q \<and> 0 < q \<or> q \<le> p \<and> p \<le> 0 \<and> q < 0"
  shows "min 0 d \<le> cpp_div (d * p) q \<and> cpp_div (d * p) q \<le> max 0 d"
proof (cases "0 < q")
  case True
  with assms cpp_div_mult_pos show ?thesis by auto
next
  case False
  with assms have "0 \<le> - p" "- p \<le> - q" "0 < - q" by auto
  then have "min 0 d \<le> cpp_div (d * - p) (- q) \<and> cpp_div (d * - p) (- q) \<le> max 0 d"
    by (rule cpp_div_mult_pos)
  moreover have "cpp_div (d * - p) (- q) = cpp_div (d * p) q"
    by (simp only: mult_minus_right cpp_div_minus_left cpp_div_minus_right minus_minus)
  ultimately show ?thesis by simp
qed

section \<open>Bits of words\<close>

lemma unat_less_bits:
  fixes w :: "'a::len word"
  assumes "\<And>n. bit w n \<Longrightarrow> n < k"
  shows "unat w < 2 ^ k"
proof -
  have "take_bit k w = w"
    by (rule bit_word_eqI) (use assms in \<open>auto simp: bit_take_bit_iff\<close>)
  then have "unat w = take_bit k (unat w)" by (metis unsigned_take_bit_eq)
  then show ?thesis by (metis take_bit_nat_less_exp)
qed

lemma bit_u8: "bit (a::u8) n \<Longrightarrow> n < 8"
  using bit_imp_le_length [of a n] by simp

section \<open>Outcomes\<close>

text \<open>
  A C++ computation ends in a value or runs into a fault: a read or write outside a
  container or buffer, a null pointer, a value that was never set, a thrown exception.
\<close>

datatype fault =
    Out_Of_Range
  | Null_Deref
  | Indeterminate
  | Thrown string

type_synonym 'a outcome = "fault + 'a"

definition bindR :: "'a outcome \<Rightarrow> ('a \<Rightarrow> 'b outcome) \<Rightarrow> 'b outcome" where
  "bindR r f = (case r of Inl e \<Rightarrow> Inl e | Inr v \<Rightarrow> f v)"

lemma bindR_simps [simp]:
  "bindR (Inl e) f = Inl e"
  "bindR (Inr v) f = f v"
  by (simp_all add: bindR_def)

lemma bindR_eq_Inr: "bindR r f = Inr y \<longleftrightarrow> (\<exists>v. r = Inr v \<and> f v = Inr y)"
  by (cases r) simp_all

lemma bindR_assoc: "bindR (bindR r f) g = bindR r (\<lambda>v. bindR (f v) g)"
  by (cases r) simp_all

text \<open>A loop whose body may run into a fault, over the elements of a list.\<close>

fun foldR :: "('a \<Rightarrow> 's \<Rightarrow> 's outcome) \<Rightarrow> 'a list \<Rightarrow> 's \<Rightarrow> 's outcome" where
  "foldR f [] s = Inr s"
| "foldR f (x # xs) s = bindR (f x s) (foldR f xs)"

lemma foldR_append: "foldR f (xs @ ys) s = bindR (foldR f xs s) (foldR f ys)"
  by (induction xs arbitrary: s) (simp_all add: bindR_def split: sum.split)

text \<open>An invariant of the body is an invariant of the loop.\<close>

lemma foldR_invariant:
  assumes "foldR f xs s = Inr s'" "P s" "\<And>x s s'. x \<in> set xs \<Longrightarrow> P s \<Longrightarrow> f x s = Inr s' \<Longrightarrow> P s'"
  shows "P s'"
  using assms
proof (induction xs arbitrary: s)
  case (Cons x xs)
  then obtain t where t: "f x s = Inr t" "foldR f xs t = Inr s'" by (auto simp: bindR_eq_Inr)
  have "P t" using Cons.prems(2,3) t(1) by auto
  with Cons.IH [OF t(2)] Cons.prems(3) show ?case by auto
qed simp

lemma foldR_no_fault:
  assumes "\<And>x s. x \<in> set xs \<Longrightarrow> \<exists>s'. f x s = Inr s'"
  shows "\<exists>s'. foldR f xs s = Inr s'"
  using assms
proof (induction xs arbitrary: s)
  case (Cons x xs)
  from Cons.prems obtain t where "f x s = Inr t" by auto
  with Cons show ?case by auto
qed simp

text \<open>A read at a zero-based index.\<close>

definition read_at :: "'a list \<Rightarrow> nat \<Rightarrow> 'a outcome" where
  "read_at xs i = (if i < length xs then Inr (xs ! i) else Inl Out_Of_Range)"

lemma read_at_lt [simp]: "i < length xs \<Longrightarrow> read_at xs i = Inr (xs ! i)"
  by (simp add: read_at_def)

lemma read_at_ge [simp]: "length xs \<le> i \<Longrightarrow> read_at xs i = Inl Out_Of_Range"
  by (simp add: read_at_def)

section \<open>Interfaces\<close>

text \<open>
  A codec: what \<open>enc\<close> writes, \<open>dec\<close> reads back, for the values \<open>ok\<close> admits. Clients
  use that encodings of admitted values never collide.
\<close>

locale codec =
  fixes enc :: "'a \<Rightarrow> 'b"
    and dec :: "'b \<Rightarrow> 'a outcome"
    and ok :: "'a \<Rightarrow> bool"
  assumes dec_enc: "ok x \<Longrightarrow> dec (enc x) = Inr x"
begin

lemma enc_inject: "ok x \<Longrightarrow> ok y \<Longrightarrow> enc x = enc y \<longleftrightarrow> x = y"
  by (metis dec_enc sum.inject(2))

lemma enc_inj_on: "inj_on enc {x. ok x}"
  by (auto simp: inj_on_def enc_inject)

lemma dec_enc_list: "list_all ok xs \<Longrightarrow> map (\<lambda>x. dec (enc x)) xs = map Inr xs"
  by (induction xs) (simp_all add: dec_enc)

end

text \<open>
  A state machine driven by inputs, with an invariant its step keeps: the invariant then
  holds after any run.
\<close>

locale invariant_step =
  fixes step :: "'i \<Rightarrow> 's \<Rightarrow> 's"
    and inv :: "'s \<Rightarrow> bool"
  assumes inv_step: "inv s \<Longrightarrow> inv (step i s)"
begin

lemma inv_fold: "inv s \<Longrightarrow> inv (fold step is s)"
  by (induction "is" arbitrary: s) (simp_all add: inv_step)

end

section \<open>Lists\<close>

lemma butlast_append_last_len: "xs \<noteq> [] \<Longrightarrow> length (butlast xs @ [x]) = length xs"
  by simp

lemma nth_butlast_snoc: "xs \<noteq> [] \<Longrightarrow> i < length xs - 1 \<Longrightarrow> (butlast xs @ [x]) ! i = xs ! i"
  by (simp add: nth_append nth_butlast)

text \<open>
  Going round a closed sequence of booleans, the value changes an even number of times;
  from \<open>prev\<close> to the end it changes an odd number of times exactly when the ends differ.
\<close>

lemma odd_changes:
  fixes bs :: "bool list"
  shows "odd (length (filter (\<lambda>(b, p). b \<noteq> p) (zip bs (prev # bs)))) \<longleftrightarrow> prev \<noteq> last (prev # bs)"
proof (induction bs arbitrary: prev)
  case Nil
  show ?case by simp
next
  case (Cons a bs)
  show ?case
  proof (cases "prev = a")
    case True
    with Cons [of a] show ?thesis by simp
  next
    case False
    then have "a = (\<not> prev)" by simp
    with Cons [of a] show ?thesis by simp
  qed
qed

end
