(* ===== verification/Geometry.thy ===== *)
theory Geometry
  imports Prelude Complex_Main
begin

text \<open>
  The geometric tests of \<open>DstEngine/judge.cpp\<close> over the types of \<open>utility/types.h\<close>: the
  ray-casting point-in-polygon test, the region tests for rectangles and polygons, the
  segment test \<open>cross_line\<close> and the trail-against-line tests built on it.

  Coordinates are C++ \<open>int\<close>. Signed overflow is undefined, so the model computes in
  unbounded integers; \<open>cross_line_no_overflow\<close> says for which coordinates the two agree.
  The doubles \<open>u\<close>, \<open>v\<close>, \<open>w\<close> of \<open>cross_line\<close> hold exact integers; the local \<open>z\<close> is read
  without being assigned, so its value is a parameter of the model.
\<close>

section \<open>Points and graph kinds (\<open>utility/types.h\<close>)\<close>

record point =
  pt_x :: int
  pt_y :: int

datatype graph = NONE | RECTANGLE | ELLIPSE | LINE | CURVES | POLYGON | BROKEN_LINE

fun graph_value :: "graph \<Rightarrow> int" where
  "graph_value NONE = 0"
| "graph_value RECTANGLE = 1"
| "graph_value ELLIPSE = 2"
| "graph_value LINE = 4"
| "graph_value CURVES = 8"
| "graph_value POLYGON = 16"
| "graph_value BROKEN_LINE = 32"

definition SEP :: nat where "SEP = 6"
definition GAP :: int where "GAP = 20"

section \<open>Point in polygon\<close>

text \<open>The condition of the loop body for the edge between vertices \<open>i\<close> and \<open>j\<close>.\<close>

definition pnpoly_edge :: "int list \<Rightarrow> int list \<Rightarrow> int \<Rightarrow> int \<Rightarrow> nat \<Rightarrow> nat \<Rightarrow> bool" where
  "pnpoly_edge vertx verty testx testy i j \<longleftrightarrow>
     ((verty ! i > testy) \<noteq> (verty ! j > testy)) \<and>
     testx < cpp_div ((vertx ! j - vertx ! i) * (testy - verty ! i)) (verty ! j - verty ! i) + vertx ! i"

text \<open>\<open>for (i = 0, j = nvert-1; i < nvert; j = i++) if (edge) c = !c;\<close>\<close>

function pnpoly_loop :: "nat \<Rightarrow> int list \<Rightarrow> int list \<Rightarrow> int \<Rightarrow> int \<Rightarrow> nat \<Rightarrow> nat \<Rightarrow> bool \<Rightarrow> bool" where
  "pnpoly_loop nvert vertx verty testx testy i j c =
     (if i < nvert
      then pnpoly_loop nvert vertx verty testx testy (Suc i) i
             (if pnpoly_edge vertx verty testx testy i j then \<not> c else c)
      else c)"
  by pat_completeness auto
termination
  by (relation "measure (\<lambda>(n, _, _, _, _, i, _, _). n - i)") auto

declare pnpoly_loop.simps [simp del]

definition pnpoly :: "nat \<Rightarrow> int list \<Rightarrow> int list \<Rightarrow> int \<Rightarrow> int \<Rightarrow> int" where
  "pnpoly nvert vertx verty testx testy =
     (if pnpoly_loop nvert vertx verty testx testy 0 (nvert - 1) False then 1 else 0)"

text \<open>
  The four corners of the rectangle, moved inwards by \<open>GAP\<close>; reading the two corner
  points of a border that has fewer is out of range.
\<close>

definition judge_out_rectangle :: "point \<Rightarrow> point list \<Rightarrow> bool outcome" where
  "judge_out_rectangle trail_points original_points =
     bindR (read_at original_points 0) (\<lambda>p0.
     bindR (read_at original_points 1) (\<lambda>p1.
       let xs = [pt_x p0 + GAP, pt_x p0 + GAP, pt_x p1 - GAP, pt_x p1 - GAP];
           ys = [pt_y p0 + GAP, pt_y p1 - GAP, pt_y p1 - GAP, pt_y p0 + GAP]
       in Inr (pnpoly 4 xs ys (pt_x trail_points) (pt_y trail_points) = 1)))"

definition judge_out_polygon :: "point \<Rightarrow> point list \<Rightarrow> bool" where
  "judge_out_polygon trail_points original_points =
     (pnpoly (length original_points) (map pt_x original_points) (map pt_y original_points)
        (pt_x trail_points) (pt_y trail_points) = 1)"

section \<open>Segments and lines\<close>

definition cross_u :: "point \<Rightarrow> point \<Rightarrow> point \<Rightarrow> int" where
  "cross_u a b c = (pt_x c - pt_x a) * (pt_y b - pt_y a) - (pt_x b - pt_x a) * (pt_y c - pt_y a)"

text \<open>
  The assignments of the code: \<open>u\<close> is \<open>cross_u a b c\<close>, \<open>v\<close> is \<open>cross_u a b d\<close>, \<open>w\<close> is
  \<open>cross_u c d a\<close>. Nothing is assigned to \<open>z\<close>.
\<close>

definition boxes_overlap :: "point \<Rightarrow> point \<Rightarrow> point \<Rightarrow> point \<Rightarrow> bool" where
  "boxes_overlap a b c d \<longleftrightarrow>
     min (pt_x a) (pt_x b) \<le> max (pt_x c) (pt_x d) \<and> min (pt_y c) (pt_y d) \<le> max (pt_y a) (pt_y b) \<and>
     min (pt_x c) (pt_x d) \<le> max (pt_x a) (pt_x b) \<and> min (pt_y a) (pt_y b) \<le> max (pt_y c) (pt_y d)"

definition cross_line :: "real \<Rightarrow> point \<Rightarrow> point \<Rightarrow> point \<Rightarrow> point \<Rightarrow> bool" where
  "cross_line z a b c d \<longleftrightarrow>
     (if \<not> boxes_overlap a b c d then False
      else let u = real_of_int (cross_u a b c);
               v = real_of_int (cross_u a b d);
               w = real_of_int (cross_u c d a)
           in u * v \<le> 1 / 10 ^ 9 \<and> w * z \<le> 1 / 10 ^ 9)"

text \<open>
  The loop \<open>for (it = begin; it < end - SEP; it += SEP)\<close> over the trail, with the
  indeterminate \<open>z\<close> of its \<open>k\<close>-th call.
\<close>

function sample_loop :: "(nat \<Rightarrow> real) \<Rightarrow> point list \<Rightarrow> point \<Rightarrow> point \<Rightarrow> nat \<Rightarrow> nat \<Rightarrow> bool" where
  "sample_loop z trail c d k it =
     (if it + SEP < length trail
      then if cross_line (z k) (trail ! 0) (trail ! (it + SEP)) c d then True
           else sample_loop z trail c d (Suc k) (it + SEP)
      else False)"
  by pat_completeness auto
termination
  by (relation "measure (\<lambda>(_, trail, _, _, _, it). length trail - it)") (auto simp: SEP_def)

declare sample_loop.simps [simp del]

text \<open>The calls of one pass over the trail use \<open>z 1, z 2, \<dots>\<close>; the test of the end points uses \<open>z 0\<close>.\<close>

definition judge_out_line :: "(nat \<Rightarrow> real) \<Rightarrow> point list \<Rightarrow> point list \<Rightarrow> bool outcome" where
  "judge_out_line z trail line_points =
     (if length trail < 2 then Inr False
      else bindR (read_at line_points 0) (\<lambda>c.
           bindR (read_at line_points 1) (\<lambda>d.
             if length trail \<le> SEP then Inr (cross_line (z 0) (trail ! 0) (last trail) c d)
             else if sample_loop z trail c d 1 0 then Inr True
             else Inr (cross_line (z 0) (trail ! 0) (last trail) c d))))"

text \<open>
  The broken line runs over the consecutive pairs of its points; with no point at all
  \<open>end() - 1\<close> lies before \<open>begin()\<close>. \<open>z e k\<close> is the \<open>k\<close>-th call for the \<open>e\<close>-th edge.
\<close>

definition broken_edge :: "(nat \<Rightarrow> real) \<Rightarrow> point list \<Rightarrow> point \<Rightarrow> point \<Rightarrow> bool" where
  "broken_edge z trail c d \<longleftrightarrow>
     (if length trail \<le> SEP then cross_line (z 0) (trail ! 0) (last trail) c d
      else if sample_loop z trail c d 1 0 then True
      else cross_line (z 0) (trail ! 0) (last trail) c d)"

fun broken_loop :: "(nat \<Rightarrow> nat \<Rightarrow> real) \<Rightarrow> point list \<Rightarrow> nat \<Rightarrow> point list \<Rightarrow> bool" where
  "broken_loop z trail e (c # d # ps) =
     (if broken_edge (z e) trail c d then True else broken_loop z trail (Suc e) (d # ps))"
| "broken_loop z trail e ps = False"

definition judge_out_broken_line :: "(nat \<Rightarrow> nat \<Rightarrow> real) \<Rightarrow> point list \<Rightarrow> point list \<Rightarrow> bool outcome" where
  "judge_out_broken_line z trail broken =
     (if length trail < 2 then Inr False
      else if broken = [] then Inl Out_Of_Range
      else Inr (broken_loop z trail 0 broken))"

section \<open>Facts: point in polygon\<close>

text \<open>The edges the loop visits, as pairs of vertex indices, and the parity it computes.\<close>

definition visited_edges :: "nat \<Rightarrow> nat \<Rightarrow> nat \<Rightarrow> (nat \<times> nat) list" where
  "visited_edges n i j = zip [i..<n] (j # [i..<n])"

lemma visited_edges_step:
  "i < n \<Longrightarrow> visited_edges n i j = (i, j) # visited_edges n (Suc i) i"
  by (simp add: visited_edges_def upt_conv_Cons)

lemma visited_edges_bounds:
  "(a, b) \<in> set (visited_edges n i j) \<Longrightarrow> j < n \<Longrightarrow> a < n \<and> b < n"
  by (auto simp: visited_edges_def dest: set_zip_leftD set_zip_rightD)

definition crossed_edges :: "nat \<Rightarrow> int list \<Rightarrow> int list \<Rightarrow> int \<Rightarrow> int \<Rightarrow> nat \<Rightarrow> nat \<Rightarrow> (nat \<times> nat) list" where
  "crossed_edges n vx vy tx ty i j =
     filter (\<lambda>(a, b). pnpoly_edge vx vy tx ty a b) (visited_edges n i j)"

lemma pnpoly_loop_parity:
  "pnpoly_loop n vx vy tx ty i j c \<longleftrightarrow> c \<noteq> odd (length (crossed_edges n vx vy tx ty i j))"
proof (induction n vx vy tx ty i j c rule: pnpoly_loop.induct)
  case (1 n vx vy tx ty i j c)
  show ?case
  proof (cases "i < n")
    case True
    from 1 [OF this] True show ?thesis
      by (subst pnpoly_loop.simps) (auto simp: crossed_edges_def visited_edges_step)
  next
    case False
    then show ?thesis
      by (subst pnpoly_loop.simps) (simp add: crossed_edges_def visited_edges_def)
  qed
qed

lemma pnpoly_edge_between:
  assumes "pnpoly_edge vx vy tx ty i j"
  shows "min (vy ! i) (vy ! j) \<le> ty \<and> ty < max (vy ! i) (vy ! j) \<and> tx < max (vx ! i) (vx ! j)"
proof -
  let ?d = "vx ! j - vx ! i" and ?p = "ty - vy ! i" and ?q = "vy ! j - vy ! i"
  have y: "(vy ! i > ty) \<noteq> (vy ! j > ty)" using assms by (simp add: pnpoly_edge_def)
  then have "0 \<le> ?p \<and> ?p \<le> ?q \<and> 0 < ?q \<or> ?q \<le> ?p \<and> ?p \<le> 0 \<and> ?q < 0" by auto
  then have "cpp_div (?d * ?p) ?q \<le> max 0 ?d" using cpp_div_mult_between by blast
  with y assms show ?thesis by (auto simp: pnpoly_edge_def)
qed

text \<open>With the point left of both end points, an edge is crossed exactly when the ray separates them.\<close>

lemma pnpoly_edge_left:
  assumes "tx < vx ! i" "tx < vx ! j"
  shows "pnpoly_edge vx vy tx ty i j \<longleftrightarrow> (vy ! i > ty) \<noteq> (vy ! j > ty)"
proof -
  let ?d = "vx ! j - vx ! i" and ?p = "ty - vy ! i" and ?q = "vy ! j - vy ! i"
  have "min 0 ?d \<le> cpp_div (?d * ?p) ?q" if "(vy ! i > ty) \<noteq> (vy ! j > ty)"
  proof -
    from that have "0 \<le> ?p \<and> ?p \<le> ?q \<and> 0 < ?q \<or> ?q \<le> ?p \<and> ?p \<le> 0 \<and> ?q < 0" by auto
    then show ?thesis using cpp_div_mult_between by blast
  qed
  with assms show ?thesis by (auto simp: pnpoly_edge_def)
qed

lemma crossed_edges_left_even:
  assumes "\<And>i. i < n \<Longrightarrow> tx < vx ! i" "0 < n"
  shows "even (length (crossed_edges n vx vy tx ty 0 (n - 1)))"
proof -
  let ?up = "\<lambda>i. ty < vy ! i"
  have "crossed_edges n vx vy tx ty 0 (n - 1)
      = filter (\<lambda>(a, b). ?up a \<noteq> ?up b) (visited_edges n 0 (n - 1))"
    unfolding crossed_edges_def
    by (rule filter_cong) (use assms visited_edges_bounds in \<open>auto simp: pnpoly_edge_left\<close>)
  also have "length \<dots> = length (filter (\<lambda>(b, p). b \<noteq> p) (zip (map ?up [0..<n]) (?up (n - 1) # map ?up [0..<n])))"
  proof -
    have "zip (map ?up [0..<n]) (?up (n - 1) # map ?up [0..<n])
        = map (\<lambda>(a, b). (?up a, ?up b)) (visited_edges n 0 (n - 1))"
      unfolding visited_edges_def zip_map_map [symmetric] by simp
    then show ?thesis by (simp add: filter_map o_def case_prod_unfold del: zip_Cons_Cons)
  qed
  finally show ?thesis
    using assms(2) odd_changes [of "map ?up [0..<n]" "?up (n - 1)"] by (simp add: last_map)
qed

section \<open>Facts: segments\<close>

text \<open>The specification: two closed segments have a common point.\<close>

definition segments_meet :: "point \<Rightarrow> point \<Rightarrow> point \<Rightarrow> point \<Rightarrow> bool" where
  "segments_meet a b c d \<longleftrightarrow> (\<exists>(s::real) (t::real). 0 \<le> s \<and> s \<le> 1 \<and> 0 \<le> t \<and> t \<le> 1 \<and>
     real_of_int (pt_x a) + s * (real_of_int (pt_x b) - real_of_int (pt_x a)) =
     real_of_int (pt_x c) + t * (real_of_int (pt_x d) - real_of_int (pt_x c)) \<and>
     real_of_int (pt_y a) + s * (real_of_int (pt_y b) - real_of_int (pt_y a)) =
     real_of_int (pt_y c) + t * (real_of_int (pt_y d) - real_of_int (pt_y c)))"

text \<open>A product of two integers passes the test against \<open>1e-9\<close> exactly when it is not positive.\<close>

lemma int_prod_small:
  "real_of_int u * real_of_int v \<le> 1 / 10 ^ 9 \<longleftrightarrow> u * v \<le> 0"
proof
  assume le: "real_of_int u * real_of_int v \<le> 1 / 10 ^ 9"
  have "real_of_int (u * v) < real_of_int 1" using le by simp
  then have "u * v < 1" by (simp only: of_int_less_iff)
  then show "u * v \<le> 0" by simp
next
  assume "u * v \<le> 0"
  then have "real_of_int (u * v) \<le> 0" by (simp only: of_int_le_0_iff)
  then show "real_of_int u * real_of_int v \<le> 1 / 10 ^ 9" by simp
qed

lemma cross_line_int:
  "cross_line (real_of_int (cross_u c d b)) a b c d \<longleftrightarrow>
     boxes_overlap a b c d \<and> cross_u a b c * cross_u a b d \<le> 0 \<and> cross_u c d a * cross_u c d b \<le> 0"
  by (simp only: cross_line_def Let_def int_prod_small) auto

text \<open>If the real numbers \<open>p\<close>, \<open>q\<close> have a product at most 0 and differ, \<open>p / (p - q)\<close> lies in the unit interval.\<close>

lemma ratio_unit:
  fixes p q :: real
  assumes "p * q \<le> 0" "p \<noteq> q"
  shows "0 \<le> p / (p - q) \<and> p / (p - q) \<le> 1"
proof (cases "0 < p - q")
  case True
  have "0 \<le> p" 
  proof (rule ccontr)
    assume "\<not> 0 \<le> p"
    then have "p < 0" "q < 0" using True by auto
    then have "0 < p * q" by (simp add: mult_neg_neg)
    with assms show False by simp
  qed
  moreover have "q \<le> 0"
  proof (rule ccontr)
    assume "\<not> q \<le> 0"
    then have "0 < p" "0 < q" using True by auto
    then have "0 < p * q" by simp
    with assms show False by simp
  qed
  ultimately show ?thesis using True by (simp add: divide_le_eq)
next
  case False
  with assms have neg: "p - q < 0" by auto
  have "p \<le> 0" 
  proof (rule ccontr)
    assume "\<not> p \<le> 0"
    then have "0 < p" "0 < q" using neg by auto
    then have "0 < p * q" by simp
    with assms show False by simp
  qed
  moreover have "0 \<le> q"
  proof (rule ccontr)
    assume "\<not> 0 \<le> q"
    then have "p < 0" "q < 0" using neg by auto
    then have "0 < p * q" by (simp add: mult_neg_neg)
    with assms show False by simp
  qed
  ultimately show ?thesis using neg by (simp add: divide_le_eq zero_le_divide_iff)
qed

text \<open>Segments that are not parallel: the crossing point by Cramer's rule.\<close>

lemma meet_cramer:
  fixes ax ay bx "by" cx cy dx dy :: real
  assumes uv: "((cx-ax)*(by-ay) - (bx-ax)*(cy-ay)) * ((dx-ax)*(by-ay) - (bx-ax)*(dy-ay)) \<le> 0"
    and wz: "((ax-cx)*(dy-cy) - (dx-cx)*(ay-cy)) * ((bx-cx)*(dy-cy) - (dx-cx)*(by-cy)) \<le> 0"
    and D: "(bx-ax)*(dy-cy) - (by-ay)*(dx-cx) \<noteq> 0"
  shows "\<exists>s t. 0 \<le> s \<and> s \<le> 1 \<and> 0 \<le> t \<and> t \<le> 1 \<and>
    ax + s * (bx - ax) = cx + t * (dx - cx) \<and> ay + s * (by - ay) = cy + t * (dy - cy)"
proof -
  let ?D = "(bx-ax)*(dy-cy) - (by-ay)*(dx-cx)"
  let ?u = "(cx-ax)*(by-ay) - (bx-ax)*(cy-ay)" and ?v = "(dx-ax)*(by-ay) - (bx-ax)*(dy-ay)"
  let ?w = "(ax-cx)*(dy-cy) - (dx-cx)*(ay-cy)" and ?z = "(bx-cx)*(dy-cy) - (dx-cx)*(by-cy)"
  have uvD: "?u - ?v = ?D" by (simp add: algebra_simps)
  have wzD: "?w - ?z = - ?D" by (simp add: algebra_simps)
  let ?t = "?u / (?u - ?v)" and ?s = "?w / (?w - ?z)"
  have "?u \<noteq> ?v" using uvD D by auto
  with uv have t: "0 \<le> ?t \<and> ?t \<le> 1" by (rule ratio_unit)
  have "?w \<noteq> ?z" using wzD D by auto
  with wz have s: "0 \<le> ?s \<and> ?s \<le> 1" by (rule ratio_unit)
  have st: "?t = ?u / ?D" "?s = - ?w / ?D" using uvD wzD by (simp_all add: divide_minus_right del: minus_diff_eq)
  have xeq: "(ax - cx) * ?D + (- ?w) * (bx - ax) = ?u * (dx - cx)" by (simp add: algebra_simps)
  have yeq: "(ay - cy) * ?D + (- ?w) * (by - ay) = ?u * (dy - cy)" by (simp add: algebra_simps)
  have "ax + ?s * (bx - ax) = cx + ?t * (dx - cx)"
    unfolding st using xeq D by (simp add: field_simps)
  moreover have "ay + ?s * (by - ay) = cy + ?t * (dy - cy)"
    unfolding st using yeq D by (simp add: field_simps)
  ultimately show ?thesis using s t by blast
qed


lemma param_of:
  fixes x0 p q :: real
  assumes "min p q \<le> x0" "x0 \<le> max p q" "p \<noteq> q"
  shows "0 \<le> (x0 - p) / (q - p) \<and> (x0 - p) / (q - p) \<le> 1"
  using assms by (cases "p < q") (auto simp: divide_le_eq zero_le_divide_iff)

text \<open>Collinear segments of which the first is not vertical: the boxes overlap only where the segments do.\<close>

lemma meet_collinear_x:
  fixes ax ay bx "by" cx cy dx dy :: real
  assumes c: "(cx-ax)*(by-ay) = (bx-ax)*(cy-ay)" and d: "(dx-ax)*(by-ay) = (bx-ax)*(dy-ay)"
    and ab: "ax \<noteq> bx"
    and o1: "min ax bx \<le> max cx dx" and o2: "min cx dx \<le> max ax bx"
  shows "\<exists>s t. 0 \<le> s \<and> s \<le> 1 \<and> 0 \<le> t \<and> t \<le> 1 \<and>
    ax + s * (bx - ax) = cx + t * (dx - cx) \<and> ay + s * (by - ay) = cy + t * (dy - cy)"
proof -
  define m where "m = (by - ay) / (bx - ax)"
  have cy: "cy = ay + m * (cx - ax)" and dy: "dy = ay + m * (dx - ax)" and b: "by - ay = m * (bx - ax)"
    using c d ab by (simp_all add: m_def field_simps)
  define x0 where "x0 = max (min ax bx) (min cx dx)"
  have x0ab: "min ax bx \<le> x0" "x0 \<le> max ax bx" and x0cd: "min cx dx \<le> x0" "x0 \<le> max cx dx"
    using o1 o2 by (auto simp: x0_def)
  define s where "s = (x0 - ax) / (bx - ax)"
  have s: "0 \<le> s \<and> s \<le> 1" "s * (bx - ax) = x0 - ax"
    using param_of [OF x0ab ab] ab by (simp_all add: s_def)
  obtain t where t: "0 \<le> t" "t \<le> 1" "t * (dx - cx) = x0 - cx"
  proof (cases "cx = dx")
    case True
    with x0cd that [of 0] show thesis by simp
  next
    case False
    with param_of [OF x0cd False] that [of "(x0 - cx) / (dx - cx)"] show thesis by simp
  qed
  have "ay + s * (by - ay) = ay + m * (s * (bx - ax))" by (simp add: b)
  also have "\<dots> = ay + m * (x0 - ax)" by (simp add: s)
  also have "\<dots> = cy + m * (t * (dx - cx))" by (simp add: cy t) (simp add: algebra_simps)
  also have "\<dots> = cy + t * (dy - cy)" by (simp add: cy dy algebra_simps)
  finally show ?thesis using s t by (intro exI [of _ s] exI [of _ t]) simp
qed

lemma meet_of_tests:
  fixes ax ay bx "by" cx cy dx dy :: real
  assumes uv: "((cx-ax)*(by-ay) - (bx-ax)*(cy-ay)) * ((dx-ax)*(by-ay) - (bx-ax)*(dy-ay)) \<le> 0"
    and wz: "((ax-cx)*(dy-cy) - (dx-cx)*(ay-cy)) * ((bx-cx)*(dy-cy) - (dx-cx)*(by-cy)) \<le> 0"
    and bx: "min ax bx \<le> max cx dx" "min cx dx \<le> max ax bx"
    and "by": "min ay by \<le> max cy dy" "min cy dy \<le> max ay by"
  shows "\<exists>s t. 0 \<le> s \<and> s \<le> 1 \<and> 0 \<le> t \<and> t \<le> 1 \<and>
    ax + s * (bx - ax) = cx + t * (dx - cx) \<and> ay + s * (by - ay) = cy + t * (dy - cy)"
proof (cases "(bx-ax)*(dy-cy) - (by-ay)*(dx-cx) = 0")
  case False
  with uv wz show ?thesis by (rule meet_cramer)
next
  case D: True
  let ?u = "(cx-ax)*(by-ay) - (bx-ax)*(cy-ay)" and ?v = "(dx-ax)*(by-ay) - (bx-ax)*(dy-ay)"
  let ?w = "(ax-cx)*(dy-cy) - (dx-cx)*(ay-cy)" and ?z = "(bx-cx)*(dy-cy) - (dx-cx)*(by-cy)"
  have "?u = ?v" "?w = ?z" using D by (simp_all add: algebra_simps)
  with uv wz have z0: "?u = 0" "?v = 0" "?w = 0" "?z = 0"
    by (auto simp: mult_le_0_iff)
  consider "ax \<noteq> bx" | "ay \<noteq> by" | "cx \<noteq> dx" | "cy \<noteq> dy" | "ax = bx" "ay = by" "cx = dx" "cy = dy"
    by blast
  then show ?thesis
  proof cases
    case 1
    with z0 bx show ?thesis by (intro meet_collinear_x) simp_all
  next
    case 2
    have "\<exists>s t. 0 \<le> s \<and> s \<le> 1 \<and> 0 \<le> t \<and> t \<le> 1 \<and>
      ay + s * (by - ay) = cy + t * (dy - cy) \<and> ax + s * (bx - ax) = cx + t * (dx - cx)"
      using z0 2 "by" by (intro meet_collinear_x) (simp_all add: mult.commute)
    then show ?thesis by blast
  next
    case 3
    have "\<exists>s t. 0 \<le> s \<and> s \<le> 1 \<and> 0 \<le> t \<and> t \<le> 1 \<and>
      cx + s * (dx - cx) = ax + t * (bx - ax) \<and> cy + s * (dy - cy) = ay + t * (by - ay)"
      using z0 3 bx by (intro meet_collinear_x) simp_all
    then show ?thesis by metis
  next
    case 4
    have "\<exists>s t. 0 \<le> s \<and> s \<le> 1 \<and> 0 \<le> t \<and> t \<le> 1 \<and>
      cy + s * (dy - cy) = ay + t * (by - ay) \<and> cx + s * (dx - cx) = ax + t * (bx - ax)"
      using z0 4 "by" by (intro meet_collinear_x) (simp_all add: mult.commute)
    then show ?thesis by metis
  next
    case 5
    with bx "by" show ?thesis by (intro exI [of _ 0]) auto
  qed
qed

text \<open>Conversely, where the segments meet, both tests pass.\<close>

lemma tests_of_meet:
  fixes ax ay bx "by" cx cy dx dy s t :: real
  assumes s: "0 \<le> s" "s \<le> 1" and t: "0 \<le> t" "t \<le> 1"
    and x: "ax + s * (bx - ax) = cx + t * (dx - cx)" and y: "ay + s * (by - ay) = cy + t * (dy - cy)"
  shows "((cx-ax)*(by-ay) - (bx-ax)*(cy-ay)) * ((dx-ax)*(by-ay) - (bx-ax)*(dy-ay)) \<le> 0"
proof -
  let ?u = "(cx-ax)*(by-ay) - (bx-ax)*(cy-ay)" and ?v = "(dx-ax)*(by-ay) - (bx-ax)*(dy-ay)"
  have cx: "cx - ax = s * (bx - ax) - t * (dx - cx)" and cy: "cy - ay = s * (by - ay) - t * (dy - cy)"
    using x y by simp_all
  have "?u = - t * ((dx-cx)*(by-ay) - (bx-ax)*(dy-cy))"
    unfolding cx cy by (simp add: algebra_simps)
  moreover have "?v - ?u = (dx-cx)*(by-ay) - (bx-ax)*(dy-cy)" by (simp add: algebra_simps)
  ultimately have "(1 - t) * ?u = - (t * ?v)" by (simp add: algebra_simps)
  then have e: "(1 - t) * ?u + t * ?v = 0" by simp
  show ?thesis
  proof (rule ccontr)
    assume "\<not> ?u * ?v \<le> 0"
    then consider "0 < ?u" "0 < ?v" | "?u < 0" "?v < 0" by (fastforce simp: mult_le_0_iff not_le zero_less_mult_iff)
    then show False
    proof cases
      case 1
      then have "0 \<le> (1 - t) * ?u" "0 \<le> t * ?v" using t by simp_all
      with e have "(1 - t) * ?u = 0" "t * ?v = 0" by linarith+
      with 1 show False by auto
    next
      case 2
      then have "(1 - t) * ?u \<le> 0" "t * ?v \<le> 0" using t by (simp_all add: mult_nonneg_nonpos)
      with e have "(1 - t) * ?u = 0" "t * ?v = 0" by linarith+
      with 2 show False by auto
    qed
  qed
qed

lemma convex_between:
  fixes p q s :: real
  assumes "0 \<le> s" "s \<le> 1"
  shows "min p q \<le> p + s * (q - p) \<and> p + s * (q - p) \<le> max p q"
proof (cases "p \<le> q")
  case True
  then have "0 \<le> s * (q - p)" "s * (q - p) \<le> q - p" using assms by (simp_all add: mult_left_le_one_le)
  then show ?thesis using True by simp
next
  case False
  then have "0 \<le> s * (p - q)" "s * (p - q) \<le> p - q" using assms by (simp_all add: mult_left_le_one_le)
  then show ?thesis using False by (simp add: algebra_simps)
qed

lemma boxes_overlap_real:
  "boxes_overlap a b c d \<longleftrightarrow>
     min (real_of_int (pt_x a)) (pt_x b) \<le> max (real_of_int (pt_x c)) (pt_x d) \<and>
     min (real_of_int (pt_y c)) (pt_y d) \<le> max (real_of_int (pt_y a)) (pt_y b) \<and>
     min (real_of_int (pt_x c)) (pt_x d) \<le> max (real_of_int (pt_x a)) (pt_x b) \<and>
     min (real_of_int (pt_y a)) (pt_y b) \<le> max (real_of_int (pt_y c)) (pt_y d)"
  unfolding boxes_overlap_def of_int_min [symmetric] of_int_max [symmetric] of_int_le_iff ..

lemma cross_u_prod_le:
  "cross_u a b c * cross_u a b d \<le> 0 \<longleftrightarrow>
   ((real_of_int (pt_x c)-pt_x a)*(real_of_int (pt_y b)-pt_y a) - (real_of_int (pt_x b)-pt_x a)*(real_of_int (pt_y c)-pt_y a)) *
   ((real_of_int (pt_x d)-pt_x a)*(real_of_int (pt_y b)-pt_y a) - (real_of_int (pt_x b)-pt_x a)*(real_of_int (pt_y d)-pt_y a)) \<le> 0"
proof -
  have "cross_u a b c * cross_u a b d \<le> 0 \<longleftrightarrow> real_of_int (cross_u a b c * cross_u a b d) \<le> 0"
    by (simp only: of_int_le_0_iff)
  then show ?thesis by (simp add: cross_u_def)
qed

lemma cross_line_meets:
  "cross_line (real_of_int (cross_u c d b)) a b c d \<longleftrightarrow> segments_meet a b c d"
proof
  assume "cross_line (real_of_int (cross_u c d b)) a b c d"
  then have "boxes_overlap a b c d" "cross_u a b c * cross_u a b d \<le> 0" "cross_u c d a * cross_u c d b \<le> 0"
    by (simp_all only: cross_line_int)
  then show "segments_meet a b c d"
    unfolding segments_meet_def boxes_overlap_real cross_u_prod_le
    by (intro meet_of_tests) (simp_all only:)
next
  assume "segments_meet a b c d"
  then obtain s t :: real where st: "0 \<le> s" "s \<le> 1" "0 \<le> t" "t \<le> 1"
    and x: "real_of_int (pt_x a) + s * (real_of_int (pt_x b) - real_of_int (pt_x a)) =
      real_of_int (pt_x c) + t * (real_of_int (pt_x d) - real_of_int (pt_x c))"
    and y: "real_of_int (pt_y a) + s * (real_of_int (pt_y b) - real_of_int (pt_y a)) =
      real_of_int (pt_y c) + t * (real_of_int (pt_y d) - real_of_int (pt_y c))"
    by (auto simp: segments_meet_def)
  have "cross_u a b c * cross_u a b d \<le> 0"
    unfolding cross_u_prod_le using st x y by (intro tests_of_meet [of s t]) simp_all
  moreover have "cross_u c d a * cross_u c d b \<le> 0"
    unfolding cross_u_prod_le using st x y by (intro tests_of_meet [of t s]) simp_all
  moreover have "boxes_overlap a b c d"
    using convex_between [OF st(1,2), of "pt_x a" "pt_x b"] convex_between [OF st(1,2), of "pt_y a" "pt_y b"]
      convex_between [OF st(3,4), of "pt_x c" "pt_x d"] convex_between [OF st(3,4), of "pt_y c" "pt_y d"] x y
    unfolding boxes_overlap_real by linarith
  ultimately show "cross_line (real_of_int (cross_u c d b)) a b c d" by (simp only: cross_line_int)
qed



section \<open>Properties\<close>

text \<open>
  If \<open>z\<close> held the fourth cross product, which the code does not compute, the quick rejection and
  straddle test would decide whether the two closed segments meet: this is \<open>cross_line_meets\<close>.
  What the code does with the \<open>z\<close> it has is the subject of \<open>line_alarm_outcomes\<close> below.
\<close>

text \<open>
  The rectangle test reads two corner points (a border with fewer is an out-of-range
  read) and accepts exactly the half-open box between the corners moved inwards by
  \<open>GAP\<close>, whichever way round the moved corners lie.
\<close>

theorem rectangle_region:
  "judge_out_rectangle foot border =
     (if length border < 2 then Inl Out_Of_Range
      else let x0 = pt_x (border ! 0) + 20; x1 = pt_x (border ! 1) - 20;
               y0 = pt_y (border ! 0) + 20; y1 = pt_y (border ! 1) - 20
           in Inr (min x0 x1 \<le> pt_x foot \<and> pt_x foot < max x0 x1 \<and>
                   min y0 y1 \<le> pt_y foot \<and> pt_y foot < max y0 y1))"
proof -
  have four: "visited_edges 4 0 3 = [(0, 3), (1, 0), (2, 1), (3, 2)]"
    by (simp add: visited_edges_def upt_rec)
  show ?thesis
    by (auto simp: judge_out_rectangle_def read_at_def GAP_def pnpoly_def pnpoly_loop_parity
        crossed_edges_def four pnpoly_edge_def Let_def)
qed

text \<open>
  A polygon border raises an alarm only for a foot point inside the bounding box of
  its vertices.
\<close>

theorem polygon_alarm_in_bounding_box:
  assumes "judge_out_polygon foot border"
  shows "(\<exists>v \<in> set border. pt_x v \<le> pt_x foot) \<and> (\<exists>v \<in> set border. pt_x foot < pt_x v) \<and>
    (\<exists>v \<in> set border. pt_y v \<le> pt_y foot) \<and> (\<exists>v \<in> set border. pt_y foot < pt_y v)"
proof -
  let ?n = "length border" and ?vx = "map pt_x border" and ?vy = "map pt_y border"
  let ?crossed = "crossed_edges ?n ?vx ?vy (pt_x foot) (pt_y foot) 0 (?n - 1)"
  have odd: "odd (length ?crossed)"
    using assms by (simp add: judge_out_polygon_def pnpoly_def pnpoly_loop_parity split: if_splits)
  then have "?crossed \<noteq> []" by auto
  then obtain i j where ij: "(i, j) \<in> set ?crossed" by (metis list.set_intros(1) neq_Nil_conv surj_pair)
  then have n: "i < ?n" "j < ?n" and edge: "pnpoly_edge ?vx ?vy (pt_x foot) (pt_y foot) i j"
    using visited_edges_bounds [of i j ?n 0 "?n - 1"]
    by (fastforce simp: crossed_edges_def visited_edges_def dest: set_zip_leftD)+
  have "\<exists>v \<in> set border. pt_x v \<le> pt_x foot"
  proof (rule ccontr)
    assume "\<not> ?thesis"
    then have "pt_x foot < ?vx ! i" if "i < ?n" for i using that by (auto simp: not_le)
    with n have "0 < ?n" by linarith
    moreover from \<open>\<not> (\<exists>v\<in>set border. pt_x v \<le> pt_x foot)\<close> have "\<And>i. i < ?n \<Longrightarrow> pt_x foot < ?vx ! i"
      by (auto simp: not_le)
    ultimately show False using odd crossed_edges_left_even [of ?n "pt_x foot" ?vx ?vy "pt_y foot"] by simp
  qed
  moreover note pnpoly_edge_between [OF edge]
  ultimately show ?thesis using n by (auto simp: min_le_iff_disj less_max_iff_disj intro: nth_mem)
qed

theorem polygon_alarm_in_bounding_box_witness:
  "let p = \<lparr>pt_x = 5, pt_y = 5\<rparr>; b = [\<lparr>pt_x = 0, pt_y = 0\<rparr>, \<lparr>pt_x = 20, pt_y = 0\<rparr>, \<lparr>pt_x = 0, pt_y = 20\<rparr>]
   in judge_out_polygon p b \<and> (\<exists>v \<in> set b. pt_x p < pt_x v)"
proof -
  let ?p = "\<lparr>pt_x = 5, pt_y = 5\<rparr>"
  let ?b = "[\<lparr>pt_x = 0, pt_y = 0\<rparr>, \<lparr>pt_x = 20, pt_y = 0\<rparr>, \<lparr>pt_x = 0, pt_y = 20\<rparr>]"
  have "judge_out_polygon ?p ?b"
    by (simp add: judge_out_polygon_def pnpoly_def pnpoly_loop.simps pnpoly_edge_def cpp_div_def)
  with polygon_alarm_in_bounding_box [OF this] show ?thesis by (simp only: Let_def)
qed

lemma sample_loop_iff:
  "1 \<le> k \<Longrightarrow> it = SEP * (k - 1) \<Longrightarrow>
   sample_loop z trail c d k it \<longleftrightarrow>
     (\<exists>m \<ge> k. SEP * m < length trail \<and> cross_line (z m) (trail ! 0) (trail ! (SEP * m)) c d)"
proof (induction z trail c d k it rule: sample_loop.induct)
  case (1 z trail c d k it)
  have next_it: "it + SEP = SEP * k" using 1(2,3) by (simp add: SEP_def)
  show ?case
  proof (cases "it + SEP < length trail \<and> \<not> cross_line (z k) (trail ! 0) (trail ! (it + SEP)) c d")
    case True
    then have "sample_loop z trail c d k it = sample_loop z trail c d (Suc k) (it + SEP)"
      by (subst sample_loop.simps) simp
    also have "\<dots> \<longleftrightarrow> (\<exists>m \<ge> Suc k. SEP * m < length trail \<and> cross_line (z m) (trail ! 0) (trail ! (SEP * m)) c d)"
      using 1(1) True next_it by simp
    also have "\<dots> \<longleftrightarrow> (\<exists>m \<ge> k. SEP * m < length trail \<and> cross_line (z m) (trail ! 0) (trail ! (SEP * m)) c d)"
      using True next_it by (metis Suc_leD not_less_eq_eq order_antisym_conv)
    finally show ?thesis .
  next
    case False
    show ?thesis
    proof (cases "it + SEP < length trail")
      case True
      with False next_it show ?thesis by (subst sample_loop.simps) auto
    next
      case no_more: False
      then have "\<not> SEP * m < length trail" if "k \<le> m" for m
        using that next_it mult_le_mono2 [OF that, of SEP] by linarith
      with no_more show ?thesis by (subst sample_loop.simps) auto
    qed
  qed
qed

lemma broken_edge_iff:
  assumes "2 \<le> length trail"
  shows "broken_edge z trail c d \<longleftrightarrow> cross_line (z 0) (trail ! 0) (last trail) c d \<or>
    (\<exists>m \<ge> 1. SEP * m < length trail \<and> cross_line (z m) (trail ! 0) (trail ! (SEP * m)) c d)"
proof (cases "length trail \<le> SEP")
  case True
  then have "\<not> SEP * m < length trail" if "1 \<le> m" for m
    using that mult_le_mono2 [OF that, of SEP] by linarith
  with True show ?thesis by (auto simp: broken_edge_def)
next
  case False
  then show ?thesis by (auto simp: broken_edge_def sample_loop_iff)
qed

lemma judge_out_line_broken_edge:
  "2 \<le> length trail \<Longrightarrow> judge_out_line z trail (c # d # ps) = Inr (broken_edge z trail c d)"
  by (simp add: judge_out_line_def broken_edge_def)

text \<open>
  The line test on a trail of at least two points looks at the segments from the first
  point of the trail to its last point and to every sixth point, and at nothing else.
\<close>

theorem line_samples:
  assumes "2 \<le> length trail" "2 \<le> length line_points"
  shows "judge_out_line z trail line_points = Inr
     (cross_line (z 0) (trail ! 0) (last trail) (line_points ! 0) (line_points ! 1) \<or>
      (\<exists>m \<ge> 1. 6 * m < length trail \<and>
         cross_line (z m) (trail ! 0) (trail ! (6 * m)) (line_points ! 0) (line_points ! 1)))"
proof -
  obtain c d ps where "line_points = c # d # ps"
    using assms(2) by (metis Suc_le_length_iff numeral_2_eq_2)
  with assms(1) show ?thesis
    by (simp add: judge_out_line_broken_edge broken_edge_iff SEP_def)
qed









definition diagonal_trail :: "point list" where
  "diagonal_trail = map (\<lambda>k. \<lparr>pt_x = 10 * int k, pt_y = 10 * int k\<rparr>) [0..<8]"

theorem line_samples_witness:
  "judge_out_line (\<lambda>_. 0) diagonal_trail [\<lparr>pt_x = 0, pt_y = 60\<rparr>, \<lparr>pt_x = 60, pt_y = 0\<rparr>] = Inr True"
proof -
  have "2 \<le> length diagonal_trail" "2 \<le> length [\<lparr>pt_x = 0, pt_y = 60\<rparr>, \<lparr>pt_x = 60, pt_y = 0\<rparr>]"
    by (simp_all add: diagonal_trail_def)
  from line_samples [OF this, of "\<lambda>_. 0"] show ?thesis
    by (simp add: diagonal_trail_def last_map cross_line_def cross_u_def boxes_overlap_def Let_def)
qed


lemma broken_loop_iff:
  "broken_loop z trail e ps \<longleftrightarrow>
     (\<exists>k. Suc k < length ps \<and> broken_edge (z (e + k)) trail (ps ! k) (ps ! Suc k))"
proof (induction z trail e ps rule: broken_loop.induct)
  case (1 z trail e c d ps)
  show ?case
  proof (cases "broken_edge (z e) trail c d")
    case True
    then show ?thesis by (auto intro!: exI [of _ 0])
  next
    case False
    with 1 have "broken_loop z trail e (c # d # ps) \<longleftrightarrow>
      (\<exists>k. Suc k < length (d # ps) \<and> broken_edge (z (Suc e + k)) trail ((d # ps) ! k) ((d # ps) ! Suc k))"
      by simp
    also have "\<dots> \<longleftrightarrow> (\<exists>k. Suc k < length (c # d # ps) \<and> broken_edge (z (e + k)) trail ((c # d # ps) ! k) ((c # d # ps) ! Suc k))"
      (is "?L \<longleftrightarrow> ?R")
    proof
      assume ?L
      then obtain k where "Suc k < length (d # ps) \<and> broken_edge (z (Suc e + k)) trail ((d # ps) ! k) ((d # ps) ! Suc k)" ..
      then show ?R by (intro exI [of _ "Suc k"]) simp
    next
      assume ?R
      then obtain k where k: "Suc k < length (c # d # ps)" "broken_edge (z (e + k)) trail ((c # d # ps) ! k) ((c # d # ps) ! Suc k)" by blast
      then obtain k' where "k = Suc k'" using False by (cases k) auto
      with k show ?L by (intro exI [of _ k']) simp
    qed
    finally show ?thesis .
  qed
qed auto

text \<open>
  A broken line is crossed exactly when one of its edges, taken as a line of its own,
  is; a broken line without a point is read out of range as soon as the trail has two points.
\<close>

theorem broken_line_edges:
  assumes "2 \<le> length trail"
  shows "judge_out_broken_line z trail broken =
    (if broken = [] then Inl Out_Of_Range
     else Inr (\<exists>k. Suc k < length broken \<and> judge_out_line (z k) trail [broken ! k, broken ! Suc k] = Inr True))"
  using assms by (auto simp: judge_out_broken_line_def broken_loop_iff judge_out_line_broken_edge)

theorem broken_line_edges_witness:
  "judge_out_broken_line (\<lambda>_ _. 0) diagonal_trail [] = Inl Out_Of_Range"
proof -
  have "2 \<le> length diagonal_trail" by (simp add: diagonal_trail_def)
  from broken_line_edges [OF this, of "\<lambda>_ _. 0" "[]"] show ?thesis by simp
qed

text \<open>
  The unassigned \<open>z\<close> decides the answer: there are segments that meet for which some
  value of \<open>z\<close> gives false, and segments that do not meet for which \<open>z = 0\<close> gives true.
\<close>

theorem cross_line_depends_on_z:
  "(\<exists>a b c d z. segments_meet a b c d \<and> \<not> cross_line z a b c d) \<and>
   (\<exists>a b c d. \<not> segments_meet a b c d \<and> cross_line 0 a b c d)"
proof
  let ?a = "\<lparr>pt_x = 0, pt_y = 0\<rparr>" and ?b = "\<lparr>pt_x = 10, pt_y = 10\<rparr>"
  let ?c = "\<lparr>pt_x = 0, pt_y = 10\<rparr>" and ?d = "\<lparr>pt_x = 10, pt_y = 0\<rparr>" and ?e = "\<lparr>pt_x = 4, pt_y = 4\<rparr>"
  have "segments_meet ?a ?b ?c ?d" "\<not> segments_meet ?a ?e ?c ?d"
    unfolding cross_line_meets [symmetric]
    by (simp_all add: cross_line_def cross_u_def boxes_overlap_def Let_def)
  moreover have "\<not> cross_line 1 ?a ?b ?c ?d" "cross_line 0 ?a ?e ?c ?d"
    by (simp_all add: cross_line_def cross_u_def boxes_overlap_def Let_def)
  ultimately show "\<exists>a b c d z. segments_meet a b c d \<and> \<not> cross_line z a b c d"
    "\<exists>a b c d. \<not> segments_meet a b c d \<and> cross_line 0 a b c d" by blast+
qed

text \<open>
  A rectangle narrower than twice \<open>GAP\<close> is turned inside out by the inward move, and
  then raises alarms for foot points outside the drawn border.
\<close>

theorem narrow_rectangle_alarms_outside:
  "\<exists>p0 p1 foot. pt_x p0 < pt_x p1 \<and> pt_y p0 < pt_y p1 \<and>
     \<not> (pt_x p0 \<le> pt_x foot \<and> pt_x foot \<le> pt_x p1) \<and> judge_out_rectangle foot [p0, p1] = Inr True"
proof -
  let ?p0 = "\<lparr>pt_x = 100, pt_y = 100\<rparr>" and ?p1 = "\<lparr>pt_x = 110, pt_y = 400\<rparr>" and ?foot = "\<lparr>pt_x = 95, pt_y = 200\<rparr>"
  have "judge_out_rectangle ?foot [?p0, ?p1] = Inr True"
    by (simp add: judge_out_rectangle_def pnpoly_def pnpoly_loop.simps pnpoly_edge_def GAP_def Let_def cpp_div_def)
  then show ?thesis by (intro exI [of _ ?p0] exI [of _ ?p1] exI [of _ ?foot]) simp
qed

end
