(* ===== verification/Trails.thy ===== *)
theory Trails
  imports Geometry
begin

text \<open>
  \<open>DstEngine/trail.h\<close>: the trail of one tracked person. A trail keeps the last detection
  box, its age in frames since the last insertion, whether the current frame may still
  extend it, and the foot points collected so far. The floats of \<open>cal_dis\<close> are idealised
  as reals.
\<close>

section \<open>State and operations\<close>

definition TIME_STAMP :: u32 where "TIME_STAMP = 120"
definition MUCH :: nat where "MUCH = 60"
definition THRESOD :: real where "THRESOD = 1 / 5"
definition NORMALIZE :: real where "NORMALIZE = 2203"
definition THETA :: real where "THETA = 1 / 2"

record trail =
  tr_count :: u32
  tr_insertable :: bool
  tr_lt :: point
  tr_rb :: point
  tr_points :: "point list"

text \<open>\<open>temp.x = round(a.x + b.x) / 2; temp.y = b.y\<close>: the half is a double, cut to an \<open>int\<close>.\<close>

definition foot_of :: "point \<Rightarrow> point \<Rightarrow> point" where
  "foot_of a b = \<lparr>pt_x = cpp_div (pt_x a + pt_x b) 2, pt_y = pt_y b\<rparr>"

definition new_trail :: "point \<Rightarrow> point \<Rightarrow> trail" where
  "new_trail a b =
     \<lparr>tr_count = 0, tr_insertable = False, tr_lt = a, tr_rb = b, tr_points = [foot_of a b]\<rparr>"

definition check_states :: "trail \<Rightarrow> bool" where
  "check_states t \<longleftrightarrow> tr_count t < TIME_STAMP"

definition clear_trail :: "trail \<Rightarrow> trail" where
  "clear_trail t = t\<lparr>tr_points := [foot_of (tr_lt t) (tr_rb t)]\<rparr>"

definition close_insertable :: "trail \<Rightarrow> trail" where
  "close_insertable t = t\<lparr>tr_insertable := False\<rparr>"

definition open_insertable :: "trail \<Rightarrow> trail" where
  "open_insertable t = t\<lparr>tr_insertable := True\<rparr>"

definition update_states_insert :: "point \<Rightarrow> point \<Rightarrow> trail \<Rightarrow> trail" where
  "update_states_insert x y t =
     (let t' = t\<lparr>tr_count := 0, tr_lt := x, tr_rb := y, tr_insertable := False\<rparr>
      in if length (tr_points t') > MUCH
         then t'\<lparr>tr_points := [foot_of (tr_lt t') (tr_rb t')]\<rparr>
         else t')"

definition trail_insert :: "point \<Rightarrow> point \<Rightarrow> trail \<Rightarrow> trail" where
  "trail_insert a b t = update_states_insert a b (t\<lparr>tr_points := tr_points t @ [foot_of a b]\<rparr>)"

definition update_states_common :: "trail \<Rightarrow> trail" where
  "update_states_common t = t\<lparr>tr_count := tr_count t + 1, tr_insertable := True\<rparr>"

text \<open>Intersection over union of the box \<open>a, b\<close> and the trail's last box.\<close>

definition trail_iou :: "trail \<Rightarrow> point \<Rightarrow> point \<Rightarrow> real" where
  "trail_iou t a b =
     (let w = min (pt_x b) (pt_x (tr_rb t)) - max (pt_x a) (pt_x (tr_lt t));
          h = min (pt_y b) (pt_y (tr_rb t)) - max (pt_y a) (pt_y (tr_lt t))
      in if w \<le> 0 \<or> h \<le> 0 then 0
         else let SA = (pt_x b - pt_x a) * (pt_y b - pt_y a);
                  SB = (pt_x (tr_rb t) - pt_x (tr_lt t)) * (pt_y (tr_rb t) - pt_y (tr_lt t))
              in real_of_int (w * h) / real_of_int (SA + SB - w * h))"

definition trail_dis :: "trail \<Rightarrow> point \<Rightarrow> point \<Rightarrow> real" where
  "trail_dis t a b =
     (let mid_1_x = real_of_int (pt_x a + pt_x b) / 2;
          mid_1_y = real_of_int (pt_y a + pt_y b) / 2;
          mid_2_x = real_of_int (pt_x (tr_lt t) + pt_x (tr_rb t)) / 2;
          mid_2_y = real_of_int (pt_y (tr_lt t) + pt_y (tr_rb t)) / 2
      in sqrt ((mid_1_x - mid_2_x) ^ 2 + (mid_1_y - mid_2_y) ^ 2) / NORMALIZE)"

definition cal_dis :: "trail \<Rightarrow> point \<Rightarrow> point \<Rightarrow> real" where
  "cal_dis t a b = THETA * trail_iou t a b - (1 - THETA) * trail_dis t a b"

section \<open>Well-formed trails\<close>

text \<open>
  The age never passes \<open>TIME_STAMP\<close>, there are between 1 and \<open>MUCH\<close> points, and a trail
  closed for the frame has age 0.
\<close>

definition trail_ok :: "trail \<Rightarrow> bool" where
  "trail_ok t \<longleftrightarrow> tr_count t \<le> TIME_STAMP \<and> 1 \<le> length (tr_points t) \<and> length (tr_points t) \<le> MUCH \<and>
     (\<not> tr_insertable t \<longrightarrow> tr_count t = 0)"

lemma update_states_insert_simps [simp]:
  "tr_insertable (update_states_insert x y t) = False"
  "tr_count (update_states_insert x y t) = 0"
  "tr_lt (update_states_insert x y t) = x"
  "tr_rb (update_states_insert x y t) = y"
  by (simp_all add: update_states_insert_def Let_def)

lemma trail_insert_simps [simp]:
  "tr_insertable (trail_insert a b t) = False"
  "tr_count (trail_insert a b t) = 0"
  "tr_lt (trail_insert a b t) = a"
  "tr_rb (trail_insert a b t) = b"
  by (simp_all add: trail_insert_def)

lemma trail_insert_points:
  "tr_points (trail_insert a b t) =
     (if length (tr_points t) < MUCH then tr_points t @ [foot_of a b] else [foot_of a b])"
  by (auto simp: trail_insert_def update_states_insert_def Let_def)

lemma new_trail_simps [simp]:
  "tr_insertable (new_trail a b) = False"
  "tr_count (new_trail a b) = 0"
  "tr_lt (new_trail a b) = a"
  "tr_rb (new_trail a b) = b"
  "tr_points (new_trail a b) = [foot_of a b]"
  by (simp_all add: new_trail_def)

lemma clear_trail_simps [simp]:
  "tr_insertable (clear_trail t) = tr_insertable t"
  "tr_count (clear_trail t) = tr_count t"
  "tr_lt (clear_trail t) = tr_lt t"
  "tr_rb (clear_trail t) = tr_rb t"
  "tr_points (clear_trail t) = [foot_of (tr_lt t) (tr_rb t)]"
  by (simp_all add: clear_trail_def)

lemma trail_ok_new [simp]: "trail_ok (new_trail a b)"
  by (simp add: trail_ok_def MUCH_def)

lemma trail_ok_insert [simp]: "trail_ok (trail_insert a b t)"
  by (simp add: trail_ok_def trail_insert_points MUCH_def)

lemma trail_ok_clear [simp]: "trail_ok t \<Longrightarrow> trail_ok (clear_trail t)"
  by (simp add: trail_ok_def MUCH_def)

lemma trail_ok_open [simp]: "trail_ok t \<Longrightarrow> trail_ok (open_insertable t)"
  by (simp add: trail_ok_def open_insertable_def)

text \<open>The per-frame ageing, applied only to trails younger than \<open>TIME_STAMP\<close>, cannot wrap.\<close>

lemma age_step:
  fixes c :: u32
  assumes "c < 120"
  shows "c + 1 \<le> 120" "unat (c + 1) = Suc (unat c)"
proof -
  have lt: "unat c < 120" using assms by (simp add: word_less_nat_alt)
  then show suc: "unat (c + 1) = Suc (unat c)"
    by (simp add: unat_word_ariths)
  with lt show "c + 1 \<le> 120" by (simp add: word_le_nat_alt)
qed

lemma trail_ok_common [simp]:
  "check_states t \<Longrightarrow> trail_ok t \<Longrightarrow> trail_ok (update_states_common t)"
  by (simp add: trail_ok_def check_states_def update_states_common_def TIME_STAMP_def age_step)

lemma last_trail_insert: "last (tr_points (trail_insert a b t)) = foot_of a b"
  by (simp add: trail_insert_points)

section \<open>The matching weight\<close>

text \<open>A box of the frame: corners in order, inside \<open>w\<close> by \<open>h\<close>.\<close>

definition box_in :: "int \<Rightarrow> int \<Rightarrow> point \<Rightarrow> point \<Rightarrow> bool" where
  "box_in w h a b \<longleftrightarrow> 0 \<le> pt_x a \<and> pt_x a \<le> pt_x b \<and> pt_x b \<le> w \<and> 0 \<le> pt_y a \<and> pt_y a \<le> pt_y b \<and> pt_y b \<le> h"

lemma overlap_area_le:
  assumes "a \<le> b" "c \<le> d" "a' \<le> b'" "c' \<le> d'"
    and "0 < min b b' - max a a'" "0 < min d d' - max c c'"
  shows "0 < (min b b' - max a a') * (min d d' - max c c')"
    and "(min b b' - max a a') * (min d d' - max c c') \<le> (b - a) * (d - c :: int)"
    and "(min b b' - max a a') * (min d d' - max c c') \<le> (b' - a') * (d' - c' :: int)"
  using assms by (auto intro!: mult_mono mult_pos_pos)

lemma trail_iou_bounds:
  assumes "pt_x a \<le> pt_x b" "pt_y a \<le> pt_y b" "pt_x (tr_lt t) \<le> pt_x (tr_rb t)" "pt_y (tr_lt t) \<le> pt_y (tr_rb t)"
  shows "0 \<le> trail_iou t a b \<and> trail_iou t a b \<le> 1"
proof -
  let ?w = "min (pt_x b) (pt_x (tr_rb t)) - max (pt_x a) (pt_x (tr_lt t))"
  let ?h = "min (pt_y b) (pt_y (tr_rb t)) - max (pt_y a) (pt_y (tr_lt t))"
  show ?thesis
  proof (cases "?w \<le> 0 \<or> ?h \<le> 0")
    case True
    then show ?thesis by (auto simp: trail_iou_def Let_def)
  next
    case False
    let ?SA = "(pt_x b - pt_x a) * (pt_y b - pt_y a)"
    let ?SB = "(pt_x (tr_rb t) - pt_x (tr_lt t)) * (pt_y (tr_rb t) - pt_y (tr_lt t))"
    from False have pos: "0 < ?w" "0 < ?h" by auto
    from overlap_area_le [OF assms(1,2,3,4) pos]
    have "0 < ?w * ?h" "?w * ?h \<le> ?SA" "?w * ?h \<le> ?SB" by auto
    then have "0 < real_of_int (?w * ?h)" "real_of_int (?w * ?h) \<le> real_of_int (?SA + ?SB - ?w * ?h)"
      by linarith+
    moreover have "trail_iou t a b = real_of_int (?w * ?h) / real_of_int (?SA + ?SB - ?w * ?h)"
      using False unfolding trail_iou_def Let_def by (subst if_not_P) auto
    ultimately show ?thesis by simp
  qed
qed

lemma trail_dis_frame:
  assumes "box_in 1920 1080 a b" "box_in 1920 1080 (tr_lt t) (tr_rb t)"
  shows "trail_dis t a b < 1"
proof -
  let ?dx = "real_of_int (pt_x a + pt_x b) / 2 - real_of_int (pt_x (tr_lt t) + pt_x (tr_rb t)) / 2"
  let ?dy = "real_of_int (pt_y a + pt_y b) / 2 - real_of_int (pt_y (tr_lt t) + pt_y (tr_rb t)) / 2"
  have "\<bar>?dx\<bar> \<le> 1920" "\<bar>?dy\<bar> \<le> 1080"
    using assms by (auto simp: box_in_def abs_le_iff field_simps)
  then have "?dx ^ 2 \<le> 1920 ^ 2" "?dy ^ 2 \<le> 1080 ^ 2"
    by (metis power2_abs abs_ge_zero power_mono)+
  then have "?dx ^ 2 + ?dy ^ 2 < 2203 ^ 2" by simp
  then have "sqrt (?dx ^ 2 + ?dy ^ 2) < 2203" by (rule real_less_lsqrt [rotated 1]) simp
  then show ?thesis by (simp add: trail_dis_def NORMALIZE_def Let_def)
qed

text \<open>For boxes of a 1920 by 1080 frame the weight is above the start value of the search.\<close>

lemma cal_dis_frame:
  assumes "box_in 1920 1080 a b" "box_in 1920 1080 (tr_lt t) (tr_rb t)"
  shows "THETA - 1 < cal_dis t a b" "cal_dis t a b \<le> THETA"
proof -
  have "0 \<le> trail_iou t a b" "trail_iou t a b \<le> 1"
    using trail_iou_bounds [of a b t] assms by (auto simp: box_in_def)
  moreover have "trail_dis t a b < 1" by (rule trail_dis_frame [OF assms])
  moreover have "0 \<le> trail_dis t a b"
    by (simp add: trail_dis_def Let_def NORMALIZE_def)
  ultimately show "THETA - 1 < cal_dis t a b" "cal_dis t a b \<le> THETA"
    by (simp_all add: cal_dis_def THETA_def)
qed

end
