(* ===== verification/Base64.thy ===== *)
theory Base64
  imports Prelude
begin

unbundle bit_operations_syntax

text \<open>
  \<open>co/base/hash/base64.cc\<close>: the encoder the alarm pictures go through and its decoder. The
  input of the encoder is a buffer of bytes, the encoded text is a string. The 32-bit
  accumulator \<open>m\<close> of the decoder is a word whose sign bit marks a character outside the
  alphabet, where the platform's \<open>char\<close> is signed.
\<close>

section \<open>Encoding\<close>

definition entab :: string where
  "entab = ''ABCDEFGHIJKLMNOPQRSTUVWXYZabcdefghijklmnopqrstuvwxyz0123456789+/''"

definition en :: "u32 \<Rightarrow> char" where
  "en i = entab ! unat i"

definition u32_of :: "u8 \<Rightarrow> u32" where
  "u32_of b = ucast b"

text \<open>One round of the loop for three bytes, and the two shapes of the remainder.\<close>

definition en_group :: "u8 \<Rightarrow> u8 \<Rightarrow> u8 \<Rightarrow> string" where
  "en_group a b c =
     (let a = u32_of a; b = u32_of b; c = u32_of c in
       [en (drop_bit 2 a),
        en ((push_bit 4 a OR drop_bit 4 b) AND 0x3f),
        en ((push_bit 2 b OR drop_bit 6 c) AND 0x3f),
        en (c AND 0x3f)])"

definition en_rest1 :: "u8 \<Rightarrow> string" where
  "en_rest1 c =
     (let c = u32_of c in
       [en (drop_bit 2 c), en (push_bit 4 (c AND 0x03)), CHR ''='', CHR ''=''])"

definition en_rest2 :: "u8 \<Rightarrow> u8 \<Rightarrow> string" where
  "en_rest2 a b =
     (let a = u32_of a; b = u32_of b in
       [en (drop_bit 2 a),
        en (push_bit 4 (a AND 0x03) OR drop_bit 4 b),
        en (push_bit 2 (b AND 0x0f)),
        CHR ''=''])"

fun base64_encode :: "u8 list \<Rightarrow> string" where
  "base64_encode (a # b # c # s) = en_group a b c @ base64_encode s"
| "base64_encode [a, b] = en_rest2 a b"
| "base64_encode [c] = en_rest1 c"
| "base64_encode [] = []"

section \<open>Decoding\<close>

definition detab :: "int list" where
  "detab = [
    - 1, - 1, - 1, - 1, - 1, - 1, - 1, - 1, - 1, - 1, - 1, - 1, - 1, - 1, - 1, - 1,
    - 1, - 1, - 1, - 1, - 1, - 1, - 1, - 1, - 1, - 1, - 1, - 1, - 1, - 1, - 1, - 1,
    - 1, - 1, - 1, - 1, - 1, - 1, - 1, - 1, - 1, - 1, - 1, 62, - 1, - 1, - 1, 63,
    52, 53, 54, 55, 56, 57, 58, 59, 60, 61, - 1, - 1, - 1, - 1, - 1, - 1,
    - 1, 0, 1, 2, 3, 4, 5, 6, 7, 8, 9, 10, 11, 12, 13, 14,
    15, 16, 17, 18, 19, 20, 21, 22, 23, 24, 25, - 1, - 1, - 1, - 1, - 1,
    - 1, 26, 27, 28, 29, 30, 31, 32, 33, 34, 35, 36, 37, 38, 39, 40,
    41, 42, 43, 44, 45, 46, 47, 48, 49, 50, 51, - 1, - 1, - 1, - 1, - 1,
    - 1, - 1, - 1, - 1, - 1, - 1, - 1, - 1, - 1, - 1, - 1, - 1, - 1, - 1, - 1, - 1,
    - 1, - 1, - 1, - 1, - 1, - 1, - 1, - 1, - 1, - 1, - 1, - 1, - 1, - 1, - 1, - 1,
    - 1, - 1, - 1, - 1, - 1, - 1, - 1, - 1, - 1, - 1, - 1, - 1, - 1, - 1, - 1, - 1,
    - 1, - 1, - 1, - 1, - 1, - 1, - 1, - 1, - 1, - 1, - 1, - 1, - 1, - 1, - 1, - 1,
    - 1, - 1, - 1, - 1, - 1, - 1, - 1, - 1, - 1, - 1, - 1, - 1, - 1, - 1, - 1, - 1,
    - 1, - 1, - 1, - 1, - 1, - 1, - 1, - 1, - 1, - 1, - 1, - 1, - 1, - 1, - 1, - 1,
    - 1, - 1, - 1, - 1, - 1, - 1, - 1, - 1, - 1, - 1, - 1, - 1, - 1, - 1, - 1, - 1,
    - 1, - 1, - 1, - 1, - 1, - 1, - 1, - 1, - 1, - 1, - 1, - 1, - 1, - 1, - 1, - 1]"

text \<open>
  The table is of plain \<open>char\<close>: whether \<open>-1\<close> stays negative is up to the platform. It does on
  x86; on the ARM targets the repository builds for, a plain \<open>char\<close> is unsigned and the entry
  reads 255. The flag \<open>sg\<close> says which one it is.
\<close>

definition plain_char :: "bool \<Rightarrow> int \<Rightarrow> int" where
  "plain_char sg v = (if sg then v else v mod 256)"

definition de :: "bool \<Rightarrow> char \<Rightarrow> u32" where
  "de sg c = word_of_int (plain_char sg (detab ! of_char c))"

definition negative :: "u32 \<Rightarrow> bool" where
  "negative m \<longleftrightarrow> sint m < 0"

definition byte2 :: "u32 \<Rightarrow> u8" where
  "byte2 m = ucast (drop_bit 16 (m AND 0x00ff0000))"

definition byte1 :: "u32 \<Rightarrow> u8" where
  "byte1 m = ucast (drop_bit 8 (m AND 0x0000ff00))"

definition byte0 :: "u32 \<Rightarrow> u8" where
  "byte0 m = ucast (m AND 0x000000ff)"

definition is_newline :: "char \<Rightarrow> bool" where
  "is_newline c \<longleftrightarrow> c = CHR 0x0D \<or> c = CHR 0x0A"

text \<open>The exception carries the first \<open>n\<close> bytes of the whole input, \<open>n\<close> being what is left to decode.\<close>

definition decode_error :: "string \<Rightarrow> nat \<Rightarrow> fault" where
  "decode_error p n = Thrown (''base64 decode error: '' @ take n p)"

text \<open>Up to two line end characters after a group of the loop.\<close>

fun skip_newline :: "string \<Rightarrow> string" where
  "skip_newline (c # d # s) =
     (if is_newline c then if is_newline d then s else d # s else c # d # s)"
| "skip_newline s = s"

lemma skip_newline_length [simp]: "length (skip_newline s) \<le> length s"
  by (cases s rule: skip_newline.cases) auto

text \<open>The last group: exactly four characters, of which up to two are padding.\<close>

definition de_final :: "bool \<Rightarrow> string \<Rightarrow> string \<Rightarrow> u8 list \<Rightarrow> u8 list outcome" where
  "de_final sg p s x =
     (if length s \<noteq> 4 then Inl (decode_error p (length s))
      else let m = push_bit 18 (de sg (s ! 0)) OR push_bit 12 (de sg (s ! 1))
       in if negative m then Inl (decode_error p 4)
          else let x = x @ [byte2 m]
           in if s ! 2 = CHR ''='' then
                if s ! 3 = CHR ''='' then Inr x else Inl (decode_error p 4)
              else let m = m OR push_bit 6 (de sg (s ! 2))
               in if negative m then Inl (decode_error p 4)
                  else let x = x @ [byte1 m]
                   in if s ! 3 \<noteq> CHR ''='' then
                        let m = m OR de sg (s ! 3)
                        in if negative m then Inl (decode_error p 4) else Inr (x @ [byte0 m])
                      else Inr x)"

text \<open>
  Line end characters at the end of the input are dropped first; looking at \<open>s[n - 1]\<close>
  when nothing is left reads before the buffer.
\<close>

definition de_tail :: "bool \<Rightarrow> string \<Rightarrow> string \<Rightarrow> u8 list \<Rightarrow> u8 list outcome" where
  "de_tail sg p s x =
     (if s = [] then Inl Out_Of_Range
      else if is_newline (last s) then
        let s = butlast s
        in if s = [] then Inl Out_Of_Range
           else de_final sg p (if is_newline (last s) then butlast s else s) x
      else de_final sg p s x)"

function de_loop :: "bool \<Rightarrow> string \<Rightarrow> string \<Rightarrow> u8 list \<Rightarrow> u8 list outcome" where
  "de_loop sg p s x =
     (if 8 \<le> length s then
        let m = push_bit 18 (de sg (s ! 0)) OR push_bit 12 (de sg (s ! 1)) OR push_bit 6 (de sg (s ! 2)) OR de sg (s ! 3)
        in if negative m then Inl (decode_error p (length s))
           else de_loop sg p (skip_newline (drop 4 s)) (x @ [byte2 m, byte1 m, byte0 m])
      else de_tail sg p s x)"
  by pat_completeness auto
termination
  by (relation "measure (\<lambda>(_, _, s, _). length s)")
     (auto intro: le_less_trans [OF skip_newline_length])

declare de_loop.simps [simp del]

definition base64_decode :: "bool \<Rightarrow> string \<Rightarrow> u8 list outcome" where
  "base64_decode sg p = de_loop sg p p []"

section \<open>The alphabet\<close>

lemma length_entab: "length entab = 64"
  by (simp add: entab_def)

lemma detab_entab: "list_all (\<lambda>i. detab ! of_char (entab ! i) = int i) [0..<64]"
  by code_simp

lemma entab_plain: "list_all (\<lambda>c. c \<noteq> CHR ''='' \<and> \<not> is_newline c) entab"
  by code_simp

lemma less_64: "unat i < 64" if "i < 64" for i :: u32
  using that by (simp add: word_less_nat_alt)

lemma de_en [simp]:
  assumes "i < 64" shows "de sg (en i) = i"
proof -
  have i: "unat i < 64" by (rule less_64 [OF assms])
  then have "unat i \<in> set [0..<64]" by simp
  with detab_entab have "detab ! of_char (entab ! unat i) = int (unat i)"
    by (simp only: list_all_iff)
  moreover have "int (unat i) mod 256 = int (unat i)" using i by (intro mod_pos_pos_trivial) linarith+
  ultimately have "plain_char sg (detab ! of_char (entab ! unat i)) = int (unat i)" by (simp add: plain_char_def)
  then show ?thesis by (simp add: de_def en_def)
qed

lemma en_plain:
  assumes "i < 64" shows "en i \<noteq> CHR ''=''" "\<not> is_newline (en i)"
proof -
  have "entab ! unat i \<in> set entab" using less_64 [OF assms] by (simp add: length_entab)
  with entab_plain show "en i \<noteq> CHR ''=''" "\<not> is_newline (en i)"
    by (auto simp: list_all_iff en_def)
qed

section \<open>Bits of the groups\<close>

lemma bit_lits:
  "bit (0x3f::u32) n \<longleftrightarrow> n < 6" "bit (3::u32) n \<longleftrightarrow> n < 2" "bit (15::u32) n \<longleftrightarrow> n < 4"
proof -
  have "(0x3f::u32) = mask 6" "(3::u32) = mask 2" "(15::u32) = mask 4" by (simp_all add: mask_eq_exp_minus_1)
  then show "bit (0x3f::u32) n \<longleftrightarrow> n < 6" "bit (3::u32) n \<longleftrightarrow> n < 2" "bit (15::u32) n \<longleftrightarrow> n < 4" 
    by (auto simp only: bit_mask_iff) (auto)
qed
lemma bit_u32_of: "bit (u32_of a) n \<longleftrightarrow> bit a n"
  by (auto simp: u32_of_def bit_simps dest: bit_imp_le_length)
lemmas bit_fold = bit_or_iff bit_and_iff bit_push_bit_iff bit_drop_bit_eq o_apply bit_lits bit_u32_of

lemma sixbit [simp]:
  "drop_bit 2 (u32_of a) < 64" "x AND 0x3f < (64 :: u32)"
  "push_bit 4 (y AND 3) < (64 :: u32)" "push_bit 2 (y AND 15) < (64 :: u32)"
  "push_bit 4 (y AND 3) OR drop_bit 4 (u32_of b) < (64 :: u32)"
proof -
  have *: "w < 64" if "\<And>n. bit w n \<Longrightarrow> n < 6" for w :: u32
    using unat_less_bits [of w 6] that by (simp add: word_less_nat_alt)
  show   "drop_bit 2 (u32_of a) < 64" "x AND 0x3f < (64 :: u32)"
  "push_bit 4 (y AND 3) < (64 :: u32)" "push_bit 2 (y AND 15) < (64 :: u32)"
  "push_bit 4 (y AND 3) OR drop_bit 4 (u32_of b) < (64 :: u32)"
   by (rule *; unfold bit_fold; auto dest: bit_u8)+
qed
lemma masks: "bit (0x00ff0000::u32) n \<longleftrightarrow> 16 \<le> n \<and> n < 24" "bit (0x0000ff00::u32) n \<longleftrightarrow> 8 \<le> n \<and> n < 16"
  "bit (0xff::u32) n \<longleftrightarrow> n < 8"
proof -
  have "(0x00ff0000::u32) = push_bit 16 (mask 8)" "(0x0000ff00::u32) = push_bit 8 (mask 8)" "(255::u32) = mask 8" by (simp_all add: mask_eq_exp_minus_1)
  then show "bit (0x00ff0000::u32) n \<longleftrightarrow> 16 \<le> n \<and> n < 24" "bit (0x0000ff00::u32) n \<longleftrightarrow> 8 \<le> n \<and> n < 16"
  "bit (0xff::u32) n \<longleftrightarrow> n < 8"
   by (auto simp only: bit_mask_iff bit_push_bit_iff) (auto)
qed

lemma shift_idx: "18 \<le> n \<Longrightarrow> Suc (Suc (n - 18)) = n - 16" by simp

lemma group_bits:
  fixes a b c :: u8
  defines "m \<equiv> push_bit 18 (drop_bit 2 (u32_of a)) OR push_bit 12 ((push_bit 4 (u32_of a) OR drop_bit 4 (u32_of b)) AND 0x3f)
     OR push_bit 6 ((push_bit 2 (u32_of b) OR drop_bit 6 (u32_of c)) AND 0x3f) OR (u32_of c AND 0x3f)"
  shows "bit m n \<longleftrightarrow> (if n < 8 then bit c n else if n < 16 then bit b (n - 8) else bit a (n - 16))"
proof -
  consider "n < 2" | "2 \<le> n" "n < 6" | "6 \<le> n" "n < 8" | "8 \<le> n" "n < 12" | "12 \<le> n" "n < 16" | "16 \<le> n" "n < 18" | "18 \<le> n" "n < 24" | "24 \<le> n" by linarith
  then show ?thesis
    unfolding m_def bit_fold by cases (auto dest: bit_u8 simp: shift_idx)
qed


lemma rest1_bits:
  fixes c :: u8
  shows "bit (push_bit 18 (drop_bit 2 (u32_of c)) OR push_bit 12 (push_bit 4 (u32_of c AND 3))) n
    \<longleftrightarrow> 16 \<le> n \<and> bit c (n - 16)"
proof -
  consider "n < 16" | "16 \<le> n" "n < 18" | "18 \<le> n" "n < 24" | "24 \<le> n" by linarith
  then show ?thesis
    unfolding bit_fold by cases (auto dest: bit_u8 simp: shift_idx)
qed

lemma rest2_bits_hi:
  fixes a b :: u8
  shows "bit (push_bit 18 (drop_bit 2 (u32_of a)) OR push_bit 12 (push_bit 4 (u32_of a AND 3) OR drop_bit 4 (u32_of b))) n
    \<longleftrightarrow> (if n < 12 then False else if n < 16 then bit b (n - 8) else bit a (n - 16))"
proof -
  consider "n < 12" | "12 \<le> n" "n < 16" | "16 \<le> n" "n < 18" | "18 \<le> n" "n < 24" | "24 \<le> n" by linarith
  then show ?thesis
    unfolding bit_fold by cases (auto dest: bit_u8 simp: shift_idx)
qed

lemma rest2_bits:
  fixes a b :: u8
  shows "bit ((push_bit 18 (drop_bit 2 (u32_of a)) OR push_bit 12 (push_bit 4 (u32_of a AND 3) OR drop_bit 4 (u32_of b)))
     OR push_bit 6 (push_bit 2 (u32_of b AND 15))) n
    \<longleftrightarrow> (if n < 8 then False else if n < 16 then bit b (n - 8) else bit a (n - 16))"
proof -
  consider "n < 8" | "8 \<le> n" "n < 12" | "12 \<le> n" "n < 16" | "16 \<le> n" "n < 18" | "18 \<le> n" "n < 24" | "24 \<le> n" by linarith
  then show ?thesis
    unfolding bit_fold by cases (auto dest: bit_u8 simp: shift_idx)
qed

lemma negative_bit: "negative m \<longleftrightarrow> bit m 31"
  using bit_last_iff [of m] by (simp add: negative_def)

lemma byte_bits:
  "n < 8 \<Longrightarrow> bit (byte2 m) n \<longleftrightarrow> bit m (n + 16)"
  "n < 8 \<Longrightarrow> bit (byte1 m) n \<longleftrightarrow> bit m (n + 8)"
  "n < 8 \<Longrightarrow> bit (byte0 m) n \<longleftrightarrow> bit m n"
  unfolding byte2_def byte1_def byte0_def bit_ucast_iff bit_and_iff bit_drop_bit_eq o_apply masks
  by (auto simp: add.commute)

text \<open>Three bytes with the accumulator bits of the groups.\<close>


lemma masks_u8: "bit (0xf0::u8) n \<longleftrightarrow> 4 \<le> n \<and> n < 8" "bit (0xc0::u8) n \<longleftrightarrow> 6 \<le> n \<and> n < 8"
proof -
  have "(0xf0::u8) = push_bit 4 (mask 4)" "(0xc0::u8) = push_bit 6 (mask 2)" by (simp_all add: mask_eq_exp_minus_1)
  then show "bit (0xf0::u8) n \<longleftrightarrow> 4 \<le> n \<and> n < 8" "bit (0xc0::u8) n \<longleftrightarrow> 6 \<le> n \<and> n < 8" by (auto simp only: bit_mask_iff bit_push_bit_iff) (auto)
qed

lemma bytes_of_bits:
  assumes "\<And>n. bit m n \<longleftrightarrow> (if n < 8 then bit c n else if n < 16 then bit b (n - 8) else bit a (n - 16))"
  shows "\<not> negative m" "byte2 m = a" "byte1 m = b" "byte0 m = c"
proof -
  show "\<not> negative m" using bit_u8 [of a 15] by (auto simp: negative_bit assms)
  show "byte2 m = a" "byte1 m = b" "byte0 m = c"
    by (rule bit_word_eqI; simp add: byte_bits assms)+
qed

lemma len_4: "length s = 4 \<longleftrightarrow> (\<exists>a b c d. s = [a, b, c, d])"
  by (auto simp: numeral_eq_Suc length_Suc_conv)


lemma de_final_pad2:
  assumes "i < 64" "j < 64" "\<not> negative (push_bit 18 i OR push_bit 12 j)"
    "byte2 (push_bit 18 i OR push_bit 12 j) = a"
  shows "de_final sg p [en i, en j, CHR ''='', CHR ''=''] x = Inr (x @ [a])"
  using assms by (simp add: de_final_def Let_def)

lemma de_final_pad1:
  assumes "i < 64" "j < 64" "k < 64"
    and "\<not> negative (push_bit 18 i OR push_bit 12 j)" "byte2 (push_bit 18 i OR push_bit 12 j) = a"
    and "\<not> negative ((push_bit 18 i OR push_bit 12 j) OR push_bit 6 k)" "byte1 ((push_bit 18 i OR push_bit 12 j) OR push_bit 6 k) = b"
  shows "de_final sg p [en i, en j, en k, CHR ''=''] x = Inr (x @ [a, b])"
  using assms en_plain [of k] by (simp add: de_final_def Let_def)

lemma de_final_full:
  assumes "i < 64" "j < 64" "k < 64" "l < 64"
    and "\<not> negative (push_bit 18 i OR push_bit 12 j)" "byte2 (push_bit 18 i OR push_bit 12 j) = a"
    and "\<not> negative ((push_bit 18 i OR push_bit 12 j) OR push_bit 6 k)" "byte1 ((push_bit 18 i OR push_bit 12 j) OR push_bit 6 k) = b"
    and "\<not> negative (((push_bit 18 i OR push_bit 12 j) OR push_bit 6 k) OR l)" "byte0 (((push_bit 18 i OR push_bit 12 j) OR push_bit 6 k) OR l) = c"
  shows "de_final sg p [en i, en j, en k, en l] x = Inr (x @ [a, b, c])"
  using assms en_plain [of k] en_plain [of l] by (simp add: de_final_def Let_def)

lemma de_final_rest1: "de_final sg p (en_rest1 c) x = Inr (x @ [c])"
  unfolding en_rest1_def Let_def
proof (rule de_final_pad2)
  let ?m = "push_bit 18 (drop_bit 2 (u32_of c)) OR push_bit 12 (push_bit 4 (u32_of c AND 3))"
  have "bit ?m n \<longleftrightarrow> (if n < 8 then bit (0::u8) n else if n < 16 then bit (0::u8) (n - 8) else bit c (n - 16))" for n
    unfolding rest1_bits by auto
  from bytes_of_bits(1,2) [of ?m, OF this] show "\<not> negative ?m" "byte2 ?m = c" by auto
qed (rule sixbit)+

lemma de_final_rest2: "de_final sg p (en_rest2 a b) x = Inr (x @ [a, b])"
  unfolding en_rest2_def Let_def
proof (rule de_final_pad1)
  let ?m = "push_bit 18 (drop_bit 2 (u32_of a)) OR push_bit 12 (push_bit 4 (u32_of a AND 3) OR drop_bit 4 (u32_of b))"
  have "bit ?m n \<longleftrightarrow> (if n < 8 then bit (0::u8) n else if n < 16 then bit (b AND 0xf0) (n - 8) else bit a (n - 16))" for n
    unfolding rest2_bits_hi bit_and_iff masks_u8 by auto
  from bytes_of_bits(1,2) [of ?m, OF this] show "\<not> negative ?m" "byte2 ?m = a" by auto
  let ?n = "?m OR push_bit 6 (push_bit 2 (u32_of b AND 15))"
  have "bit ?n n \<longleftrightarrow> (if n < 8 then bit (0::u8) n else if n < 16 then bit b (n - 8) else bit a (n - 16))" for n
    unfolding rest2_bits by auto
  from bytes_of_bits(1,3) [of ?n, OF this] show "\<not> negative ?n" "byte1 ?n = b" by auto
qed (rule sixbit)+


lemma group_bits_hi:
  fixes a b c :: u8
  shows "bit (push_bit 18 (drop_bit 2 (u32_of a)) OR push_bit 12 ((push_bit 4 (u32_of a) OR drop_bit 4 (u32_of b)) AND 0x3f)) n
    \<longleftrightarrow> (if n < 12 then False else if n < 16 then bit b (n - 8) else bit a (n - 16))"
proof -
  consider "n < 12" | "12 \<le> n" "n < 16" | "16 \<le> n" "n < 18" | "18 \<le> n" "n < 24" | "24 \<le> n" by linarith
  then show ?thesis
    unfolding bit_fold by cases (auto dest: bit_u8 simp: shift_idx)
qed

lemma group_bits_mid:
  fixes a b c :: u8
  shows "bit (push_bit 18 (drop_bit 2 (u32_of a)) OR push_bit 12 ((push_bit 4 (u32_of a) OR drop_bit 4 (u32_of b)) AND 0x3f)
     OR push_bit 6 ((push_bit 2 (u32_of b) OR drop_bit 6 (u32_of c)) AND 0x3f)) n
    \<longleftrightarrow> (if n < 8 then 6 \<le> n \<and> bit c n else if n < 16 then bit b (n - 8) else bit a (n - 16))"
proof -
  consider "n < 6" | "6 \<le> n" "n < 8" | "8 \<le> n" "n < 12" | "12 \<le> n" "n < 16" | "16 \<le> n" "n < 18" | "18 \<le> n" "n < 24" | "24 \<le> n" by linarith
  then show ?thesis
    unfolding bit_fold by cases (auto dest: bit_u8 simp: shift_idx)
qed

lemma de_final_group: "de_final sg p (en_group a b c) x = Inr (x @ [a, b, c])"
  unfolding en_group_def Let_def
proof (rule de_final_full)
  let ?m = "push_bit 18 (drop_bit 2 (u32_of a)) OR push_bit 12 ((push_bit 4 (u32_of a) OR drop_bit 4 (u32_of b)) AND 0x3f)"
  have "bit ?m n \<longleftrightarrow> (if n < 8 then bit (0::u8) n else if n < 16 then bit (b AND 0xf0) (n - 8) else bit a (n - 16))" for n
    unfolding group_bits_hi bit_and_iff masks_u8 by auto
  from bytes_of_bits(1,2) [of ?m, OF this] show "\<not> negative ?m" "byte2 ?m = a" by auto
  let ?k = "?m OR push_bit 6 ((push_bit 2 (u32_of b) OR drop_bit 6 (u32_of c)) AND 0x3f)"
  have "bit ?k n \<longleftrightarrow> (if n < 8 then bit (c AND 0xc0) n else if n < 16 then bit b (n - 8) else bit a (n - 16))" for n
    unfolding or.assoc group_bits_mid bit_and_iff masks_u8 by auto
  from bytes_of_bits(1,3) [of ?k, OF this] show "\<not> negative ?k" "byte1 ?k = b" by auto
  let ?l = "?k OR (u32_of c AND 0x3f)"
  have "bit ?l n \<longleftrightarrow> (if n < 8 then bit c n else if n < 16 then bit b (n - 8) else bit a (n - 16))" for n
    unfolding or.assoc group_bits by auto
  from bytes_of_bits(1,4) [of ?l, OF this] show "\<not> negative ?l" "byte0 ?l = c" by auto
qed (rule sixbit)+

lemma de_loop_4:
  assumes "i < 64" "j < 64" "k < 64" "l < 64" "4 \<le> length s" "skip_newline s = s"
    and "\<not> negative (push_bit 18 i OR push_bit 12 j OR push_bit 6 k OR l)"
    and "byte2 (push_bit 18 i OR push_bit 12 j OR push_bit 6 k OR l) = a"
    and "byte1 (push_bit 18 i OR push_bit 12 j OR push_bit 6 k OR l) = b"
    and "byte0 (push_bit 18 i OR push_bit 12 j OR push_bit 6 k OR l) = c"
  shows "de_loop sg p ([en i, en j, en k, en l] @ s) x = de_loop sg p s (x @ [a, b, c])"
  using assms by (subst de_loop.simps) (simp add: Let_def)

lemma de_loop_group:
  assumes "4 \<le> length s" "skip_newline s = s"
  shows "de_loop sg p (en_group a b c @ s) x = de_loop sg p s (x @ [a, b, c])"
  unfolding en_group_def Let_def
  by (rule de_loop_4; (rule sixbit assms bytes_of_bits group_bits)+)

lemma de_loop_final:
  assumes "length s = 4" "\<not> is_newline (last s)"
  shows "de_loop sg p s x = de_final sg p s x"
  using assms by (subst de_loop.simps) (auto simp: de_tail_def)

lemma encode_length: "length (base64_encode s) = 4 * ((length s + 2) div 3)"
proof (induction s rule: base64_encode.induct)
  case (1 a b c s)
  have "(length (a # b # c # s) + 2) div 3 = Suc ((length s + 2) div 3)" by simp
  with 1 show ?case by (simp add: en_group_def Let_def)
qed (simp_all add: en_rest1_def en_rest2_def Let_def)

lemma last_group_plain:
  "\<not> is_newline (last (en_group a b c))" "\<not> is_newline (last (en_rest1 c))" "\<not> is_newline (last (en_rest2 a b))"
  using en_plain(2) [OF sixbit(2)] by (simp_all add: en_group_def en_rest1_def en_rest2_def Let_def is_newline_def)

lemma skip_encode: "skip_newline (base64_encode s) = base64_encode s"
  by (cases s rule: base64_encode.cases)
     (simp_all add: en_group_def en_rest1_def en_rest2_def Let_def en_plain)

lemma de_loop_encode: "s \<noteq> [] \<Longrightarrow> de_loop sg p (base64_encode s) x = Inr (x @ s)"
proof (induction s arbitrary: x rule: base64_encode.induct)
  case (1 a b c s)
  have g: "length (en_group a b c) = 4" by (simp add: en_group_def Let_def)
  show ?case
  proof (cases "s = []")
    case True
    with g show ?thesis by (simp add: de_loop_final last_group_plain de_final_group)
  next
    case False
    then have "4 \<le> length (base64_encode s)" by (cases s) (auto simp: encode_length)
    with 1 False show ?thesis by (simp add: de_loop_group skip_encode)
  qed
next
  case (2 a b)
  have "length (en_rest2 a b) = 4" by (simp add: en_rest2_def Let_def)
  then show ?case by (simp add: de_loop_final last_group_plain de_final_rest2)
next
  case (3 c)
  have "length (en_rest1 c) = 4" by (simp add: en_rest1_def Let_def)
  then show ?case by (simp add: de_loop_final last_group_plain de_final_rest1)
qed simp


lemma de_final_length: "de_final sg p s x = Inr y \<Longrightarrow> 4 * length y \<le> 4 * length x + 3 * length s"
  by (auto simp: de_final_def Let_def split: if_splits)

lemma de_tail_length: "de_tail sg p s x = Inr y \<Longrightarrow> 4 * length y \<le> 4 * length x + 3 * length s"
  by (fastforce simp: de_tail_def Let_def split: if_splits dest: de_final_length)

lemma de_loop_length: "de_loop sg p s x = Inr y \<Longrightarrow> 4 * length y \<le> 4 * length x + 3 * length s"
proof (induction sg p s x rule: de_loop.induct)
  case (1 sg p s x)
  show ?case
  proof (cases "8 \<le> length s")
    case True
    let ?m = "push_bit 18 (de sg (s ! 0)) OR push_bit 12 (de sg (s ! 1)) OR push_bit 6 (de sg (s ! 2)) OR de sg (s ! 3)"
    have loop: "\<not> negative ?m" "de_loop sg p (skip_newline (drop 4 s)) (x @ [byte2 ?m, byte1 ?m, byte0 ?m]) = Inr y"
      using 1(2) True by (subst (asm) de_loop.simps; auto simp: Let_def split: if_splits)+
    from 1(1) [OF True refl loop] skip_newline_length [of "drop 4 s"] True show ?thesis by simp
  next
    case False
    with 1(2) show ?thesis by (subst (asm) de_loop.simps) (auto dest: de_tail_length)
  qed
qed

section \<open>Properties\<close>

interpretation base64: codec base64_encode "base64_decode sg" "\<lambda>s. s \<noteq> []" for sg
  by unfold_locales (simp add: base64_decode_def de_loop_encode)

text \<open>
  C36. Decoding what was encoded gives the bytes back, for every non-empty buffer, whether
  a plain \<open>char\<close> of the platform is signed or not.
\<close>

theorem base64_roundtrip:
  assumes "s \<noteq> []"
  shows "base64_decode sg (base64_encode s) = Inr s"
  using assms by (rule base64.dec_enc)

theorem base64_roundtrip_witness:
  "base64_encode [77, 97, 110, 77] = ''TWFuTQ=='' \<and> base64_decode False ''TWFuTQ=='' = Inr [77, 97, 110, 77]"
proof -
  have enc: "base64_encode [77, 97, 110, 77] = ''TWFuTQ==''" by code_simp
  have "base64_decode False (base64_encode [77, 97, 110, 77]) = Inr [77, 97, 110, 77]"
    by (rule base64_roundtrip) simp
  with enc show ?thesis by simp
qed

text \<open>
  Whatever the input, a decoding that succeeds fits the buffer of \<open>n * 3 >> 2\<close> bytes
  allocated for it.
\<close>

theorem base64_decode_fits:
  assumes "base64_decode sg p = Inr y"
  shows "length y \<le> drop_bit 2 (length p * 3)"
  using assms de_loop_length [of sg p p "[]" y]
  by (simp add: base64_decode_def drop_bit_eq_div)

theorem base64_decode_fits_witness:
  "length [77, 97 :: u8] \<le> drop_bit 2 (length ''TWE='' * 3)"
proof (rule base64_decode_fits)
  show "base64_decode True ''TWE='' = Inr [77, 97]" by code_simp
qed

text \<open>
  Decoding an empty text reads the byte before the buffer, although an empty buffer is
  what encoding nothing gives.
\<close>

theorem base64_decode_empty_faults:
  "base64_encode [] = [] \<and> base64_decode sg [] = Inl Out_Of_Range"
  by (simp add: base64_decode_def de_loop.simps de_tail_def)

text \<open>
  Where a plain \<open>char\<close> is unsigned the test for a negative accumulator never fires: a text
  with characters outside the alphabet is decoded to bytes, where the signed table reports it.
\<close>

lemma de_unsigned_bits: "bit (de False c) n \<Longrightarrow> n < 8"
proof -
  assume "bit (de False c) n"
  then have "bit (take_bit 8 (detab ! of_char c)) n"
    by (simp add: de_def plain_char_def take_bit_eq_mod bit_word_of_int_iff)
  then show "n < 8" by (simp only: bit_take_bit_iff)
qed

lemma unsigned_table_accepts_anything:
  "\<not> negative (push_bit 18 (de False a) OR push_bit 12 (de False b) OR push_bit 6 (de False c) OR de False d)"
  by (auto simp: negative_bit bit_or_iff bit_push_bit_iff dest: de_unsigned_bits)

theorem invalid_text_is_decoded_on_arm:
  "base64_decode True ''TW!u'' = Inl (Thrown ''base64 decode error: TW!u'') \<and>
   base64_decode False ''TW!u'' = Inr [0x4d, 0x7f, 0xee]"
  by (intro conjI; code_simp)

end
