(* ===== verification/CText.thy ===== *)
theory CText
  imports Prelude
begin

text \<open>
  Strings as the C++ code handles them: decimal and hexadecimal printing, reading a
  character at an index (the terminating NUL at the end), scanning loops over an index,
  and the byte-wise order of \<open>std::string\<close> that \<open>std::map\<close> keys follow.
\<close>

section \<open>Printing numbers\<close>

fun digit_char :: "nat \<Rightarrow> char" where
  "digit_char d = (if d < 10 then char_of (48 + d) else char_of (87 + d))"

text \<open>\<open>%d\<close>: the shortest decimal text.\<close>

fun dec_nat :: "nat \<Rightarrow> string" where
  "dec_nat n = (if n < 10 then [digit_char n] else dec_nat (n div 10) @ [digit_char (n mod 10)])"

declare dec_nat.simps [simp del]

definition dec_int :: "int \<Rightarrow> string" where
  "dec_int z = (if z < 0 then CHR ''-'' # dec_nat (nat (- z)) else dec_nat (nat z))"

text \<open>\<open>%04x\<close>, for values below \<open>2 ^ 16\<close>.\<close>

definition hex4 :: "nat \<Rightarrow> string" where
  "hex4 n = [digit_char (n div 4096 mod 16), digit_char (n div 256 mod 16),
     digit_char (n div 16 mod 16), digit_char (n mod 16)]"

text \<open>\<open>%0kd\<close>: padded on the left with zeros to \<open>k\<close> characters.\<close>

definition dec_pad :: "nat \<Rightarrow> nat \<Rightarrow> string" where
  "dec_pad k n = replicate (k - length (dec_nat n)) (CHR ''0'') @ dec_nat n"

section \<open>Reading numbers\<close>

definition is_digit :: "char \<Rightarrow> bool" where
  "is_digit c \<longleftrightarrow> (48 :: nat) \<le> of_char c \<and> of_char c \<le> (57 :: nat)"

definition digit_val :: "char \<Rightarrow> nat" where
  "digit_val c = of_char c - 48"

definition nat_of_digits :: "string \<Rightarrow> nat" where
  "nat_of_digits ds = foldl (\<lambda>n c. 10 * n + digit_val c) 0 ds"

text \<open>\<open>atoi\<close>: white space, an optional sign and the longest run of digits.\<close>

definition c_space :: "char \<Rightarrow> bool" where
  "c_space c \<longleftrightarrow> c = CHR '' '' \<or> (9 :: nat) \<le> of_char c \<and> of_char c \<le> (13 :: nat)"

definition atoi :: "string \<Rightarrow> int" where
  "atoi s =
     (case dropWhile c_space s of
        [] \<Rightarrow> 0
      | c # t \<Rightarrow>
          if c = CHR ''-'' then - int (nat_of_digits (takeWhile is_digit t))
          else if c = CHR ''+'' then int (nat_of_digits (takeWhile is_digit t))
          else int (nat_of_digits (takeWhile is_digit (c # t))))"

section \<open>Indexing a string\<close>

text \<open>\<open>str[i]\<close>, where \<open>str[str.size()]\<close> is NUL.\<close>

definition char_at :: "string \<Rightarrow> nat \<Rightarrow> char" where
  "char_at s i = (if i < length s then s ! i else CHR 0x00)"

text \<open>\<open>while (p(str[i])) i++;\<close> for a test that NUL fails.\<close>

function skip_while :: "(char \<Rightarrow> bool) \<Rightarrow> string \<Rightarrow> nat \<Rightarrow> nat" where
  "skip_while p s i = (if i < length s \<and> p (char_at s i) then skip_while p s (Suc i) else i)"
  by pat_completeness auto
termination
  by (relation "measure (\<lambda>(_, s, i). length s - i)") auto

declare skip_while.simps [simp del]

lemma skip_while_ge: "i \<le> skip_while p s i"
proof (induction p s i rule: skip_while.induct)
  case (1 p s i)
  then show ?case by (subst skip_while.simps) auto
qed

lemma skip_while_le: "i \<le> length s \<Longrightarrow> skip_while p s i \<le> length s"
proof (induction p s i rule: skip_while.induct)
  case (1 p s i)
  then show ?case by (subst skip_while.simps) auto
qed

lemma char_at_drop [simp]: "drop i s = c # r \<Longrightarrow> char_at s i = c"
  by (metis char_at_def drop_all linorder_not_less list.distinct(1) nth_via_drop)

lemma drop_Suc_of [simp]: "drop i s = c # r \<Longrightarrow> drop (Suc i) s = r"
  by (metis drop_Suc list.sel(3) tl_drop)

lemma drop_lt: "drop i s = c # r \<Longrightarrow> i < length s"
  by (metis drop_all leI list.distinct(1))

lemma drop_add_of: "drop i s = xs @ r \<Longrightarrow> drop (i + length xs) s = r"
  by (metis add.commute append_eq_conv_conj drop_drop)

lemma skip_while_stop: "drop i s = c # r \<Longrightarrow> \<not> p c \<Longrightarrow> skip_while p s i = i"
  by (subst skip_while.simps) simp

lemma skip_while_end: "length s \<le> i \<Longrightarrow> skip_while p s i = i"
  by (subst skip_while.simps) simp

lemma skip_while_run:
  "drop i s = xs @ r \<Longrightarrow> list_all p xs \<Longrightarrow> (case r of [] \<Rightarrow> True | c # _ \<Rightarrow> \<not> p c) \<Longrightarrow>
   skip_while p s i = i + length xs"
proof (induction xs arbitrary: i)
  case Nil
  then show ?case by (cases r) (auto intro: skip_while_stop skip_while_end)
next
  case (Cons x xs)
  then have "skip_while p s i = skip_while p s (Suc i)"
    by (subst skip_while.simps) (auto dest: drop_lt)
  with Cons show ?case by (auto simp del: drop_Suc_of dest: drop_Suc_of)
qed

section \<open>The order of strings\<close>

text \<open>\<open>std::string::operator<\<close> compares bytes as unsigned.\<close>

fun str_less :: "string \<Rightarrow> string \<Rightarrow> bool" where
  "str_less [] [] = False"
| "str_less [] (d # t) = True"
| "str_less (c # s) [] = False"
| "str_less (c # s) (d # t) = (if c = d then str_less s t else (of_char c :: nat) < of_char d)"

lemma str_less_irrefl [simp]: "\<not> str_less s s"
  by (induction s) auto

lemma str_less_trans: "str_less s t \<Longrightarrow> str_less t u \<Longrightarrow> str_less s u"
proof (induction s t arbitrary: u rule: str_less.induct)
  case (2 d t)
  then show ?case by (cases u) auto
next
  case (4 c s d t)
  then show ?case by (cases u) (auto split: if_splits)
qed auto

lemma str_less_linear: "s = t \<or> str_less s t \<or> str_less t s"
proof (induction s t rule: str_less.induct)
  case (4 c s d t)
  show ?case
  proof (cases "c = d")
    case True
    with 4 show ?thesis by simp
  next
    case False
    then have "(of_char c :: nat) \<noteq> of_char d" by simp
    then have "(of_char c :: nat) < of_char d \<or> (of_char d :: nat) < of_char c" by (rule nat_neq_iff [THEN iffD1])
    with False show ?thesis by (auto simp del: of_char_eq_iff)
  qed
qed auto

lemma str_less_asym: "str_less s t \<Longrightarrow> \<not> str_less t s"
  using str_less_trans by fastforce

text \<open>\<open>std::map\<close> with string keys: an association list in the order of the keys.\<close>

fun map_put :: "string \<Rightarrow> 'v \<Rightarrow> (string \<times> 'v) list \<Rightarrow> (string \<times> 'v) list" where
  "map_put k v [] = [(k, v)]"
| "map_put k v ((k', v') # m) =
     (if k = k' then (k, v) # m
      else if str_less k k' then (k, v) # (k', v') # m
      else (k', v') # map_put k v m)"

definition map_find :: "string \<Rightarrow> (string \<times> 'v) list \<Rightarrow> 'v option" where
  "map_find k m = map_of m k"

definition keys_sorted :: "(string \<times> 'v) list \<Rightarrow> bool" where
  "keys_sorted m \<longleftrightarrow> sorted_wrt str_less (map fst m)"

lemma map_find_put: "map_find k' (map_put k v m) = (if k' = k then Some v else map_find k' m)"
  by (induction k v m rule: map_put.induct) (auto simp: map_find_def)

lemma set_map_put: "fst ` set (map_put k v m) = insert k (fst ` set m)"
  by (induction k v m rule: map_put.induct) auto

lemma keys_sorted_Cons:
  "keys_sorted ((k, v) # m) \<longleftrightarrow> (\<forall>k' \<in> fst ` set m. str_less k k') \<and> keys_sorted m"
  by (auto simp: keys_sorted_def)

lemma keys_sorted_Nil [simp]: "keys_sorted []"
  by (simp add: keys_sorted_def)

lemma keys_sorted_put: "keys_sorted m \<Longrightarrow> keys_sorted (map_put k v m)"
proof (induction k v m rule: map_put.induct)
  case (2 k v k' v' m)
  then show ?case
    using str_less_linear [of k k'] by (auto simp: keys_sorted_Cons set_map_put intro: str_less_trans)
qed (simp add: keys_sorted_def)

text \<open>Putting keys in ascending order appends.\<close>

lemma map_put_last: "\<forall>k' \<in> fst ` set m. str_less k' k \<Longrightarrow> map_put k v m = m @ [(k, v)]"
proof (induction m)
  case (Cons kv m)
  obtain k' v' where kv: "kv = (k', v')" by (cases kv)
  with Cons.prems have "str_less k' k" by auto
  then have "k \<noteq> k'" "\<not> str_less k k'" using str_less_asym by auto
  with Cons kv show ?case by auto
qed simp

section \<open>Printing and reading back\<close>

lemma digit_char_dec [simp]: "d < 10 \<Longrightarrow> of_char (digit_char d) = 48 + d"
  by (simp add: of_char_of)

lemma is_digit_digit_char [simp]: "d < 10 \<Longrightarrow> is_digit (digit_char d)"
  by (simp add: is_digit_def del: digit_char.simps)

lemma digit_val_digit_char [simp]: "d < 10 \<Longrightarrow> digit_val (digit_char d) = d"
  by (simp add: digit_val_def del: digit_char.simps)

lemma dec_nat_digits: "list_all is_digit (dec_nat n)"
proof (induction n rule: dec_nat.induct)
  case (1 n)
  then show ?case
    by (subst dec_nat.simps) (simp del: digit_char.simps)
qed

lemma dec_nat_nonempty [simp]: "dec_nat n \<noteq> []"
  by (subst dec_nat.simps) simp

lemma nat_of_digits_dec [simp]: "nat_of_digits (dec_nat n) = n"
proof (induction n rule: dec_nat.induct)
  case (1 n)
  then show ?case
    by (subst dec_nat.simps) (auto simp: nat_of_digits_def simp del: digit_char.simps)
qed

lemma dec_nat_inject [simp]: "dec_nat m = dec_nat n \<longleftrightarrow> m = n"
  by (metis nat_of_digits_dec)

lemma dec_nat_first:
  "0 < n \<Longrightarrow> \<exists>d r. dec_nat n = digit_char d # r \<and> 0 < d \<and> d < 10"
proof (induction n rule: dec_nat.induct)
  case (1 n)
  show ?case
  proof (cases "n < 10")
    case True
    with 1(2) show ?thesis by (subst dec_nat.simps) (auto simp del: digit_char.simps)
  next
    case False
    then have "0 < n div 10" by simp
    from 1(1) [OF False this] obtain d r where dr: "dec_nat (n div 10) = digit_char d # r" "0 < d" "d < 10" by blast
    with False show ?thesis by (subst dec_nat.simps) (auto simp del: digit_char.simps)
  qed
qed

lemma takeWhile_digits_dec:
  assumes "case r of [] \<Rightarrow> True | c # _ \<Rightarrow> \<not> is_digit c"
  shows "takeWhile is_digit (dec_nat n @ r) = dec_nat n"
proof -
  have "takeWhile is_digit r = []" using assms by (cases r) auto
  moreover have "\<forall>c \<in> set (dec_nat n). is_digit c"
    using dec_nat_digits by (simp add: list_all_iff)
  ultimately show ?thesis by (simp add: takeWhile_append2)
qed

lemma digit_not_sign: "is_digit c \<Longrightarrow> c \<noteq> CHR ''-'' \<and> c \<noteq> CHR ''+'' \<and> \<not> c_space c"
  by (auto simp: is_digit_def c_space_def)

lemma atoi_dec_int:
  assumes "case r of [] \<Rightarrow> True | c # _ \<Rightarrow> \<not> is_digit c"
  shows "atoi (dec_int z @ r) = z"
proof (cases "z < 0")
  case True
  with takeWhile_digits_dec [OF assms, of "nat (- z)"] show ?thesis
    by (simp add: atoi_def dec_int_def c_space_def)
next
  case False
  obtain c t where ct: "dec_nat (nat z) = c # t" by (cases "dec_nat (nat z)") auto
  then have "is_digit c" using dec_nat_digits [of "nat z"] by simp
  with digit_not_sign have c: "c \<noteq> CHR ''-''" "c \<noteq> CHR ''+''" "\<not> c_space c" by auto
  have "takeWhile is_digit (c # t @ r) = c # t"
    using takeWhile_digits_dec [OF assms, of "nat z"] ct by simp
  moreover have "nat_of_digits (c # t) = nat z" using ct nat_of_digits_dec [of "nat z"] by simp
  ultimately show ?thesis using False c ct by (simp add: atoi_def dec_int_def)
qed

lemma dec_int_inject [simp]: "dec_int y = dec_int z \<longleftrightarrow> y = z"
  by (metis atoi_dec_int append_Nil2 list.case(1))

end
