(* ===== verification/Json11.thy ===== *)
theory Json11
  imports CText Complex_Main
begin

text \<open>
  \<open>utility/json11.cpp\<close>, first part: JSON values, their accessors, comparison, shape check
  and serialisation. A double is idealised as a rational number; how \<open>snprintf\<close> prints one
  with \<open>%.17g\<close> is the parameter \<open>g17\<close> of the printer. The shared pointers hold immutable
  values, so a value is a tree.
\<close>

section \<open>Values\<close>

datatype json =
    JNull
  | JDouble rat
  | JInt int
  | JBool bool
  | JString string
  | JArray "json list"
  | JObject "(string \<times> json) list"

text \<open>\<open>Json::Type\<close>, in the order of the enumeration.\<close>

datatype jtype = T_NUL | T_NUMBER | T_BOOL | T_STRING | T_ARRAY | T_OBJECT

fun jtype_value :: "jtype \<Rightarrow> nat" where
  "jtype_value T_NUL = 0"
| "jtype_value T_NUMBER = 1"
| "jtype_value T_BOOL = 2"
| "jtype_value T_STRING = 3"
| "jtype_value T_ARRAY = 4"
| "jtype_value T_OBJECT = 5"

fun json_type :: "json \<Rightarrow> jtype" where
  "json_type JNull = T_NUL"
| "json_type (JDouble _) = T_NUMBER"
| "json_type (JInt _) = T_NUMBER"
| "json_type (JBool _) = T_BOOL"
| "json_type (JString _) = T_STRING"
| "json_type (JArray _) = T_ARRAY"
| "json_type (JObject _) = T_OBJECT"

section \<open>Accessors\<close>

text \<open>Each accessor answers with a default on a value of another type.\<close>

fun number_value :: "json \<Rightarrow> rat" where
  "number_value (JDouble d) = d"
| "number_value (JInt i) = of_int i"
| "number_value _ = 0"

text \<open>\<open>static_cast<int>\<close> of a double cuts towards zero.\<close>

definition cut_rat :: "rat \<Rightarrow> int" where
  "cut_rat q = (if q < 0 then - \<lfloor>- q\<rfloor> else \<lfloor>q\<rfloor>)"

fun int_value :: "json \<Rightarrow> int" where
  "int_value (JDouble d) = cut_rat d"
| "int_value (JInt i) = i"
| "int_value _ = 0"

fun bool_value :: "json \<Rightarrow> bool" where
  "bool_value (JBool b) = b"
| "bool_value _ = False"

fun string_value :: "json \<Rightarrow> string" where
  "string_value (JString s) = s"
| "string_value _ = []"

fun array_items :: "json \<Rightarrow> json list" where
  "array_items (JArray vs) = vs"
| "array_items _ = []"

fun object_items :: "json \<Rightarrow> (string \<times> json) list" where
  "object_items (JObject kvs) = kvs"
| "object_items _ = []"

fun json_index :: "json \<Rightarrow> nat \<Rightarrow> json" where
  "json_index (JArray vs) i = (if i \<ge> length vs then JNull else vs ! i)"
| "json_index _ i = JNull"

fun json_member :: "json \<Rightarrow> string \<Rightarrow> json" where
  "json_member (JObject kvs) k = (case map_find k kvs of None \<Rightarrow> JNull | Some v \<Rightarrow> v)"
| "json_member _ k = JNull"

section \<open>Serialisation\<close>

text \<open>
  The loop over the characters of a string. The two three-byte sequences E2 80 A8 and
  E2 80 A9 are looked up past the current character; past the end the string reads NUL.
\<close>

definition BS :: char where "BS = CHR 0x5C"

fun dump_chars :: "string \<Rightarrow> string" where
  "dump_chars [] = []"
| "dump_chars (ch # s) =
     (if ch = BS then [BS, BS] @ dump_chars s
      else if ch = CHR 0x22 then [BS, CHR 0x22] @ dump_chars s
      else if ch = CHR 0x08 then [BS, CHR ''b''] @ dump_chars s
      else if ch = CHR 0x0C then [BS, CHR ''f''] @ dump_chars s
      else if ch = CHR 0x0A then [BS, CHR ''n''] @ dump_chars s
      else if ch = CHR 0x0D then [BS, CHR ''r''] @ dump_chars s
      else if ch = CHR 0x09 then [BS, CHR ''t''] @ dump_chars s
      else if of_char ch \<le> (0x1f :: nat) then [BS, CHR ''u''] @ hex4 (of_char ch) @ dump_chars s
      else if ch = CHR 0xE2 \<and> char_at s 0 = CHR 0x80 \<and> char_at s 1 = CHR 0xA8
        then [BS] @ ''u2028'' @ dump_chars (drop 2 s)
      else if ch = CHR 0xE2 \<and> char_at s 0 = CHR 0x80 \<and> char_at s 1 = CHR 0xA9
        then [BS] @ ''u2029'' @ dump_chars (drop 2 s)
      else ch # dump_chars s)"

definition dump_string :: "string \<Rightarrow> string" where
  "dump_string s = [CHR 0x22] @ dump_chars s @ [CHR 0x22]"

text \<open>\<open>first\<close> says whether a separator is due before the next element.\<close>

fun dump_json :: "(rat \<Rightarrow> string) \<Rightarrow> json \<Rightarrow> string"
  and dump_items :: "(rat \<Rightarrow> string) \<Rightarrow> bool \<Rightarrow> json list \<Rightarrow> string"
  and dump_members :: "(rat \<Rightarrow> string) \<Rightarrow> bool \<Rightarrow> (string \<times> json) list \<Rightarrow> string" where
  "dump_json g17 JNull = ''null''"
| "dump_json g17 (JDouble d) = g17 d"
| "dump_json g17 (JInt i) = dec_int i"
| "dump_json g17 (JBool b) = (if b then ''true'' else ''false'')"
| "dump_json g17 (JString s) = dump_string s"
| "dump_json g17 (JArray vs) = ''['' @ dump_items g17 True vs @ '']''"
| "dump_json g17 (JObject kvs) = ''{'' @ dump_members g17 True kvs @ ''}''"
| "dump_items g17 first [] = []"
| "dump_items g17 first (v # vs) =
     (if first then [] else '', '') @ dump_json g17 v @ dump_items g17 False vs"
| "dump_members g17 first [] = []"
| "dump_members g17 first ((k, v) # kvs) =
     (if first then [] else '', '') @ dump_string k @ '': '' @ dump_json g17 v @ dump_members g17 False kvs"

section \<open>Comparison\<close>

text \<open>
  \<open>operator==\<close>: values of one type compare by content, numbers by \<open>number_value\<close>. Equal
  pointers are equal trees, so the pointer test is subsumed.
\<close>

fun json_eq :: "json \<Rightarrow> json \<Rightarrow> bool"
  and items_eq :: "json list \<Rightarrow> json list \<Rightarrow> bool"
  and members_eq :: "(string \<times> json) list \<Rightarrow> (string \<times> json) list \<Rightarrow> bool" where
  "json_eq JNull JNull = True"
| "json_eq (JBool a) (JBool b) = (a = b)"
| "json_eq (JString a) (JString b) = (a = b)"
| "json_eq (JArray a) (JArray b) = items_eq a b"
| "json_eq (JObject a) (JObject b) = members_eq a b"
| "json_eq a b = (json_type a = T_NUMBER \<and> json_type b = T_NUMBER \<and> number_value a = number_value b)"
| "items_eq [] [] = True"
| "items_eq (a # as) (b # bs) = (json_eq a b \<and> items_eq as bs)"
| "items_eq _ _ = False"
| "members_eq [] [] = True"
| "members_eq ((j, a) # as) ((k, b) # bs) = (j = k \<and> json_eq a b \<and> members_eq as bs)"
| "members_eq _ _ = False"

text \<open>
  \<open>operator<\<close>: by type first, then by content; vectors and maps compare
  lexicographically, a pair by its key and then by its value.
\<close>

function (sequential) json_less :: "json \<Rightarrow> json \<Rightarrow> bool"
  and items_less :: "json list \<Rightarrow> json list \<Rightarrow> bool"
  and members_less :: "(string \<times> json) list \<Rightarrow> (string \<times> json) list \<Rightarrow> bool" where
  "json_less JNull JNull = False"
| "json_less (JBool a) (JBool b) = (\<not> a \<and> b)"
| "json_less (JString a) (JString b) = str_less a b"
| "json_less (JArray a) (JArray b) = items_less a b"
| "json_less (JObject a) (JObject b) = members_less a b"
| "json_less a b =
     (if json_type a \<noteq> json_type b then jtype_value (json_type a) < jtype_value (json_type b)
      else number_value a < number_value b)"
| "items_less [] [] = False"
| "items_less [] (b # bs) = True"
| "items_less (a # as) [] = False"
| "items_less (a # as) (b # bs) =
     (if json_less a b then True else if json_less b a then False else items_less as bs)"
| "members_less [] [] = False"
| "members_less [] (b # bs) = True"
| "members_less (a # as) [] = False"
| "members_less ((j, a) # as) ((k, b) # bs) =
     (if str_less j k then True else if str_less k j then False
      else if json_less a b then True else if json_less b a then False
      else members_less as bs)"
  by pat_completeness auto
termination
  by (relation "measure (case_sum (\<lambda>(a, b). size a + size b)
       (case_sum (\<lambda>(a, b). size_list size a + size_list size b)
          (\<lambda>(a, b). size_list (size_prod (\<lambda>_. 0) size) a + size_list (size_prod (\<lambda>_. 0) size) b)))") auto

section \<open>Shape check\<close>

fun shape_loop :: "(rat \<Rightarrow> string) \<Rightarrow> json \<Rightarrow> (string \<times> jtype) list \<Rightarrow> string \<Rightarrow> bool \<times> string" where
  "shape_loop g17 v [] err = (True, err)"
| "shape_loop g17 v ((k, t) # types) err =
     (if json_type (json_member v k) \<noteq> t
      then (False, ''bad type for '' @ k @ '' in '' @ dump_json g17 v)
      else shape_loop g17 v types err)"

definition has_shape :: "(rat \<Rightarrow> string) \<Rightarrow> json \<Rightarrow> (string \<times> jtype) list \<Rightarrow> string \<Rightarrow> bool \<times> string" where
  "has_shape g17 v types err =
     (if json_type v \<noteq> T_OBJECT then (False, ''expected JSON object, got '' @ dump_json g17 v)
      else shape_loop g17 v types err)"

section \<open>Facts\<close>

lemma shape_loop_iff:
  "fst (shape_loop g17 v types err) \<longleftrightarrow> (\<forall>(k, t) \<in> set types. json_type (json_member v k) = t)"
  by (induction g17 v types err rule: shape_loop.induct) auto

lemma json_index_items: "json_index v i = (if i < length (array_items v) then array_items v ! i else JNull)"
  by (cases v) auto

lemma json_eq_refl [simp]:
  "json_eq v v" "items_eq vs vs" "members_eq kvs kvs"
proof (induction v and vs and kvs rule: dump_json_dump_items_dump_members.induct
    [of "\<lambda>_ v. json_eq v v" "\<lambda>_ _ vs. items_eq vs vs" "\<lambda>_ _ kvs. members_eq kvs kvs"])
qed auto

lemma json_less_irrefl:
  "\<not> json_less v v" "\<not> items_less vs vs" "\<not> members_less kvs kvs"
proof (induction v and vs and kvs rule: dump_json_dump_items_dump_members.induct
    [of "\<lambda>_ v. \<not> json_less v v" "\<lambda>_ _ vs. \<not> items_less vs vs" "\<lambda>_ _ kvs. \<not> members_less kvs kvs"])
qed auto

end
