(* ===== verification/JsonParser.thy ===== *)
theory JsonParser
  imports Json11
begin

text \<open>
  \<open>utility/json11.cpp\<close>, second part: \<open>JsonParser\<close>. The parser state is the read position,
  the error text and the failure flag; the input text and the strategy do not change. The
  loops of \<open>parse_json\<close> over the members of an object or an array carry fuel, which
  \<open>json_parse_total\<close> shows never to run out; the nesting depth is bounded by the code.
\<close>

unbundle bit_operations_syntax

datatype strategy = STANDARD | COMMENTS

record parser =
  p_i :: nat
  p_err :: string
  p_failed :: bool

definition max_depth :: nat where "max_depth = 200"

section \<open>Errors\<close>

text \<open>
  \<open>esc\<close>: a character for an error message. A plain \<open>char\<close> is unsigned on the ARM targets of
  the build; where it is signed, a byte from 128 on is printed as a negative number. Only
  the text of errors depends on it.
\<close>

definition esc :: "char \<Rightarrow> string" where
  "esc c =
     (if (0x20 :: nat) \<le> of_char c \<and> of_char c \<le> (0x7f :: nat)
      then [CHR 0x27, c, CHR 0x27] @ '' ('' @ dec_nat (of_char c) @ '')''
      else ''('' @ dec_nat (of_char c) @ '')'')"

definition in_range :: "int \<Rightarrow> int \<Rightarrow> int \<Rightarrow> bool" where
  "in_range x lower upper \<longleftrightarrow> lower \<le> x \<and> x \<le> upper"

definition char_in :: "char \<Rightarrow> char \<Rightarrow> char \<Rightarrow> bool" where
  "char_in c lower upper = in_range (of_char c) (of_char lower) (of_char upper)"

definition fail :: "string \<Rightarrow> parser \<Rightarrow> parser" where
  "fail msg st = st\<lparr>p_err := (if \<not> p_failed st then msg else p_err st), p_failed := True\<rparr>"

section \<open>White space and comments\<close>

definition json_space :: "char \<Rightarrow> bool" where
  "json_space c \<longleftrightarrow> c = CHR '' '' \<or> c = CHR 0x0D \<or> c = CHR 0x0A \<or> c = CHR 0x09"

definition consume_whitespace :: "string \<Rightarrow> parser \<Rightarrow> parser" where
  "consume_whitespace str st = st\<lparr>p_i := skip_while json_space str (p_i st)\<rparr>"

text \<open>
  The loop to the closing tokens of a comment: the position after it, or where the input
  turned out too short. The string has at least two characters here, so \<open>size() - 2\<close> does
  not wrap.
\<close>

function comment_end :: "string \<Rightarrow> nat \<Rightarrow> bool \<times> nat" where
  "comment_end str i =
     (if char_at str i = CHR ''*'' \<and> char_at str (i + 1) = CHR ''/'' then (True, i + 2)
      else if length str - 2 < i + 1 then (False, i + 1)
      else comment_end str (i + 1))"
  by pat_completeness auto
termination
  by (relation "measure (\<lambda>(str, i). length str - i)") auto

declare comment_end.simps [simp del]

definition consume_comment :: "string \<Rightarrow> parser \<Rightarrow> bool \<times> parser" where
  "consume_comment str st =
     (if char_at str (p_i st) = CHR ''/'' then
        let st = st\<lparr>p_i := p_i st + 1\<rparr>
        in if p_i st = length str
           then (False, fail ''unexpected end of input after start of comment'' st)
           else if char_at str (p_i st) = CHR ''/''
           then (True, st\<lparr>p_i := skip_while (\<lambda>c. c \<noteq> CHR 0x0A) str (p_i st + 1)\<rparr>)
           else if char_at str (p_i st) = CHR ''*'' then
             let st = st\<lparr>p_i := p_i st + 1\<rparr>
             in if length str - 2 < p_i st
                then (False, fail ''unexpected end of input inside multi-line comment'' st)
                else case comment_end str (p_i st) of
                    (True, i) \<Rightarrow> (True, st\<lparr>p_i := i\<rparr>)
                  | (False, i) \<Rightarrow> (False, fail ''unexpected end of input inside multi-line comment'' (st\<lparr>p_i := i\<rparr>))
           else (False, fail ''malformed comment'' st)
      else (False, st))"

lemma char_at_nonnul: "char_at str i = c \<Longrightarrow> c \<noteq> CHR 0x00 \<Longrightarrow> i < length str"
  by (auto simp: char_at_def split: if_splits)

lemma comment_end_ge: "comment_end str i = (b, j) \<Longrightarrow> i < j"
proof (induction str i rule: comment_end.induct)
  case (1 str i)
  then show ?case by (subst (asm) comment_end.simps) (auto split: if_splits)
qed

lemma consume_comment_advances:
  "consume_comment str st = (True, st') \<Longrightarrow> p_i st < p_i st' \<and> p_i st < length str"
  using skip_while_ge [of "Suc (Suc (p_i st))" "\<lambda>c. c \<noteq> CHR 0x0A" str]
  by (auto simp: consume_comment_def Let_def split: if_splits prod.splits bool.splits
      dest!: comment_end_ge intro: char_at_nonnul)

text \<open>The do-while of \<open>consume_garbage\<close>.\<close>

function garbage_loop :: "string \<Rightarrow> parser \<Rightarrow> parser" where
  "garbage_loop str st =
     (let (comment_found, st1) = consume_comment str st
      in if p_failed st1 then st1
         else let st2 = consume_whitespace str st1
              in if comment_found then garbage_loop str st2 else st2)"
  by pat_completeness auto
termination
proof (relation "measure (\<lambda>(str, st). length str - p_i st)", goal_cases)
  case (2 str st p found st1 st2)
  then have "consume_comment str st = (True, st1)" by simp
  then have "p_i st < p_i st1" "p_i st < length str" by (auto dest: consume_comment_advances)
  with 2 skip_while_ge [of "p_i st1" json_space str] show ?case
    by (auto simp: consume_whitespace_def)
qed simp

declare garbage_loop.simps [simp del]

definition consume_garbage :: "string \<Rightarrow> strategy \<Rightarrow> parser \<Rightarrow> parser" where
  "consume_garbage str strat st =
     (let st = consume_whitespace str st
      in if strat = COMMENTS then garbage_loop str st else st)"

definition get_next_token :: "string \<Rightarrow> strategy \<Rightarrow> parser \<Rightarrow> char \<times> parser" where
  "get_next_token str strat st =
     (let st = consume_garbage str strat st
      in if p_failed st then (CHR 0x00, st)
         else if p_i st = length str then (CHR 0x00, fail ''unexpected end of input'' st)
         else (char_at str (p_i st), st\<lparr>p_i := p_i st + 1\<rparr>))"

section \<open>Strings\<close>

definition to_char :: "int \<Rightarrow> char" where
  "to_char z = char_of (nat (z mod 256))"

text \<open>The bytes \<open>encode_utf8\<close> appends.\<close>

definition encode_utf8 :: "int \<Rightarrow> string" where
  "encode_utf8 pt =
     (if pt < 0 then []
      else if pt < 0x80 then [to_char pt]
      else if pt < 0x800 then
        [to_char (drop_bit 6 pt OR 0xC0), to_char ((pt AND 0x3F) OR 0x80)]
      else if pt < 0x10000 then
        [to_char (drop_bit 12 pt OR 0xE0), to_char ((drop_bit 6 pt AND 0x3F) OR 0x80),
         to_char ((pt AND 0x3F) OR 0x80)]
      else
        [to_char (drop_bit 18 pt OR 0xF0), to_char ((drop_bit 12 pt AND 0x3F) OR 0x80),
         to_char ((drop_bit 6 pt AND 0x3F) OR 0x80), to_char ((pt AND 0x3F) OR 0x80)])"

definition hex_char :: "char \<Rightarrow> bool" where
  "hex_char c \<longleftrightarrow> char_in c (CHR ''a'') (CHR ''f'') \<or> char_in c (CHR ''A'') (CHR ''F'') \<or> char_in c (CHR ''0'') (CHR ''9'')"

definition hex_val :: "char \<Rightarrow> int" where
  "hex_val c =
     (if is_digit c then of_char c - 48
      else if char_in c (CHR ''a'') (CHR ''f'') then of_char c - 87
      else of_char c - 55)"

text \<open>\<open>strtol(.., 16)\<close> of a run of hexadecimal digits.\<close>

definition strtol16 :: "string \<Rightarrow> int" where
  "strtol16 s = foldl (\<lambda>n c. 16 * n + hex_val c) 0 s"

definition bad_u :: "string \<Rightarrow> string" where
  "bad_u e = ''bad '' @ [BS] @ ''u escape: '' @ e"

text \<open>
  The loop of \<open>parse_string\<close>: \<open>out\<close> is the text so far, \<open>pend\<close> the pending escaped code
  point or -1. The parser position is carried separately as \<open>i\<close>.
\<close>

function string_loop :: "string \<Rightarrow> nat \<Rightarrow> string \<Rightarrow> int \<Rightarrow> parser \<Rightarrow> string \<times> parser" where
  "string_loop str i out pend st =
     (if i = length str then ([], fail ''unexpected end of input in string'' (st\<lparr>p_i := i\<rparr>))
      else let ch = char_at str i; i = i + 1
       in if ch = CHR 0x22 then (out @ encode_utf8 pend, st\<lparr>p_i := i\<rparr>)
          else if in_range (of_char ch) 0 0x1f
          then ([], fail (''unescaped '' @ esc ch @ '' in string'') (st\<lparr>p_i := i\<rparr>))
          else if ch \<noteq> BS then string_loop str i (out @ encode_utf8 pend @ [ch]) (- 1) st
          else if i = length str then ([], fail ''unexpected end of input in string'' (st\<lparr>p_i := i\<rparr>))
          else let ch = char_at str i; i = i + 1
           in if ch = CHR ''u'' then
                let e = take 4 (drop i str)
                in if length e < 4 then ([], fail (bad_u e) (st\<lparr>p_i := i\<rparr>))
                   else if \<not> list_all hex_char e then ([], fail (bad_u e) (st\<lparr>p_i := i\<rparr>))
                   else let codepoint = strtol16 e
                    in if in_range pend 0xD800 0xDBFF \<and> in_range codepoint 0xDC00 0xDFFF
                       then string_loop str (i + 4)
                              (out @ encode_utf8 ((push_bit 10 (pend - 0xD800) OR (codepoint - 0xDC00)) + 0x10000))
                              (- 1) st
                       else string_loop str (i + 4) (out @ encode_utf8 pend) codepoint st
              else let out = out @ encode_utf8 pend
               in if ch = CHR ''b'' then string_loop str i (out @ [CHR 0x08]) (- 1) st
                  else if ch = CHR ''f'' then string_loop str i (out @ [CHR 0x0C]) (- 1) st
                  else if ch = CHR ''n'' then string_loop str i (out @ [CHR 0x0A]) (- 1) st
                  else if ch = CHR ''r'' then string_loop str i (out @ [CHR 0x0D]) (- 1) st
                  else if ch = CHR ''t'' then string_loop str i (out @ [CHR 0x09]) (- 1) st
                  else if ch = CHR 0x22 \<or> ch = BS \<or> ch = CHR ''/''
                  then string_loop str i (out @ [ch]) (- 1) st
                  else ([], fail (''invalid escape character '' @ esc ch) (st\<lparr>p_i := i\<rparr>)))"
  by pat_completeness auto
termination
proof (relation "measure (\<lambda>(str, i, _). length str - i)", goal_cases)
  case 1
  show ?case by simp
qed (auto simp: char_at_def BS_def in_range_def split: if_splits)

declare string_loop.simps [simp del]

definition parse_string :: "string \<Rightarrow> parser \<Rightarrow> string \<times> parser" where
  "parse_string str st = string_loop str (p_i st) [] (- 1) st"

section \<open>Numbers and literals\<close>

definition scale10 :: "int \<Rightarrow> rat" where
  "scale10 e = (if 0 \<le> e then 10 ^ nat e else 1 / 10 ^ nat (- e))"

definition exponent_of :: "string \<Rightarrow> int" where
  "exponent_of s =
     (case s of
        [] \<Rightarrow> 0
      | c # t \<Rightarrow>
          if c = CHR ''e'' \<or> c = CHR ''E'' then
            (case t of
               [] \<Rightarrow> 0
             | d # u \<Rightarrow>
                 if d = CHR ''-'' then - int (nat_of_digits (takeWhile is_digit u))
                 else if d = CHR ''+'' then int (nat_of_digits (takeWhile is_digit u))
                 else int (nat_of_digits (takeWhile is_digit (d # u))))
          else 0)"

text \<open>\<open>strtod\<close> on a decimal literal, without rounding.\<close>

definition strtod_abs :: "string \<Rightarrow> rat" where
  "strtod_abs s =
     (let ip = takeWhile is_digit s;
          s2 = dropWhile is_digit s;
          frac = (case s2 of [] \<Rightarrow> False | c # _ \<Rightarrow> c = CHR ''.'');
          fp = (if frac then takeWhile is_digit (tl s2) else []);
          s3 = (if frac then dropWhile is_digit (tl s2) else s2)
      in of_nat (nat_of_digits (ip @ fp)) * scale10 (exponent_of s3 - int (length fp)))"

definition strtod :: "string \<Rightarrow> rat" where
  "strtod s =
     (case s of [] \<Rightarrow> 0 | c # t \<Rightarrow> if c = CHR ''-'' then - strtod_abs t else strtod_abs s)"

definition digits10 :: nat where "digits10 = 9"

definition not_exp :: "char \<Rightarrow> bool" where
  "not_exp c \<longleftrightarrow> c \<noteq> CHR ''e'' \<and> c \<noteq> CHR ''E''"

text \<open>The fractional part and the exponent: the new position or an error.\<close>

definition number_frac :: "string \<Rightarrow> nat \<Rightarrow> (string \<times> nat) + nat" where
  "number_frac str i =
     (if char_at str i = CHR ''.'' then
        let i = i + 1
        in if \<not> is_digit (char_at str i) then Inl (''at least one digit required in fractional part'', i)
           else Inr (skip_while is_digit str i)
      else Inr i)"

definition number_exp :: "string \<Rightarrow> nat \<Rightarrow> (string \<times> nat) + nat" where
  "number_exp str i =
     (if char_at str i = CHR ''e'' \<or> char_at str i = CHR ''E'' then
        let i = i + 1;
            i = (if char_at str i = CHR ''+'' \<or> char_at str i = CHR ''-'' then i + 1 else i)
        in if \<not> is_digit (char_at str i) then Inl (''at least one digit required in exponent'', i)
           else Inr (skip_while is_digit str i)
      else Inr i)"

text \<open>The integer part, after an optional sign.\<close>

definition number_int :: "string \<Rightarrow> nat \<Rightarrow> (string \<times> nat) + nat" where
  "number_int str i =
     (if char_at str i = CHR ''0'' then
        let i = i + 1
        in if is_digit (char_at str i) then Inl (''leading 0s not permitted in numbers'', i) else Inr i
      else if char_in (char_at str i) (CHR ''1'') (CHR ''9'') then Inr (skip_while is_digit str (i + 1))
      else Inl (''invalid '' @ esc (char_at str i) @ '' in number'', i))"

definition parse_number :: "string \<Rightarrow> parser \<Rightarrow> json \<times> parser" where
  "parse_number str st =
     (let start_pos = p_i st;
          i = (if char_at str start_pos = CHR ''-'' then start_pos + 1 else start_pos)
      in case number_int str i of
           Inl (msg, i) \<Rightarrow> (JNull, fail msg (st\<lparr>p_i := i\<rparr>))
         | Inr i \<Rightarrow>
             if char_at str i \<noteq> CHR ''.'' \<and> not_exp (char_at str i) \<and> i - start_pos \<le> digits10
             then (JInt (atoi (drop start_pos str)), st\<lparr>p_i := i\<rparr>)
             else (case number_frac str i of
                     Inl (msg, i) \<Rightarrow> (JNull, fail msg (st\<lparr>p_i := i\<rparr>))
                   | Inr i \<Rightarrow>
                       (case number_exp str i of
                          Inl (msg, i) \<Rightarrow> (JNull, fail msg (st\<lparr>p_i := i\<rparr>))
                        | Inr i \<Rightarrow> (JDouble (strtod (drop start_pos str)), st\<lparr>p_i := i\<rparr>))))"

text \<open>\<open>expect\<close> steps back to the character just read; \<open>i\<close> is not 0 there.\<close>

definition expect :: "string \<Rightarrow> string \<Rightarrow> json \<Rightarrow> parser \<Rightarrow> json \<times> parser" where
  "expect str expected res st =
     (let i = p_i st - 1; got = take (length expected) (drop i str)
      in if got = expected then (res, st\<lparr>p_i := i + length expected\<rparr>)
         else (JNull, fail (''parse error: expected '' @ expected @ '', got '' @ got) (st\<lparr>p_i := i\<rparr>)))"

section \<open>Values\<close>

text \<open>
  The loop over the members of an object, \<open>p\<close> parsing a value one level deeper; \<open>ch\<close> is
  the token just read. \<open>None\<close> is running out of fuel.
\<close>

fun object_loop :: "(parser \<Rightarrow> (json \<times> parser) option) \<Rightarrow> string \<Rightarrow> strategy \<Rightarrow> nat \<Rightarrow> char \<Rightarrow>
    (string \<times> json) list \<Rightarrow> parser \<Rightarrow> (json \<times> parser) option" where
  "object_loop p str strat 0 ch data st = None"
| "object_loop p str strat (Suc fuel) ch data st =
     (if ch \<noteq> CHR 0x22 then Some (JNull, fail (''expected '' @ [CHR 0x27, CHR 0x22, CHR 0x27] @ '' in object, got '' @ esc ch) st)
      else let (key, st) = parse_string str st
       in if p_failed st then Some (JNull, st)
          else let (ch, st) = get_next_token str strat st
           in if ch \<noteq> CHR '':'' then Some (JNull, fail (''expected '' @ [CHR 0x27, CHR '':'', CHR 0x27] @ '' in object, got '' @ esc ch) st)
              else (case p st of
                 None \<Rightarrow> None
               | Some (v, st) \<Rightarrow>
                   let data = map_put key v data
                   in if p_failed st then Some (JNull, st)
                      else let (ch, st) = get_next_token str strat st
                       in if ch = CHR ''}'' then Some (JObject data, st)
                          else if ch \<noteq> CHR '','' then Some (JNull, fail (''expected '' @ [CHR 0x27, CHR '','', CHR 0x27] @ '' in object, got '' @ esc ch) st)
                          else let (ch, st) = get_next_token str strat st
                           in object_loop p str strat fuel ch data st))"

text \<open>The loop over the elements of an array; it steps back to the token just read.\<close>

fun array_loop :: "(parser \<Rightarrow> (json \<times> parser) option) \<Rightarrow> string \<Rightarrow> strategy \<Rightarrow> nat \<Rightarrow>
    json list \<Rightarrow> parser \<Rightarrow> (json \<times> parser) option" where
  "array_loop p str strat 0 data st = None"
| "array_loop p str strat (Suc fuel) data st =
     (case p (st\<lparr>p_i := p_i st - 1\<rparr>) of
        None \<Rightarrow> None
      | Some (v, st) \<Rightarrow>
          let data = data @ [v]
          in if p_failed st then Some (JNull, st)
             else let (ch, st) = get_next_token str strat st
              in if ch = CHR '']'' then Some (JArray data, st)
                 else if ch \<noteq> CHR '','' then Some (JNull, fail (''expected '' @ [CHR 0x27, CHR '','', CHR 0x27] @ '' in list, got '' @ esc ch) st)
                 else let (ch, st) = get_next_token str strat st
                  in array_loop p str strat fuel data st)"

text \<open>
  \<open>parse_json\<close>; the first argument is how many levels of nesting are left, 0 being a depth
  greater than \<open>max_depth\<close>.
\<close>

fun parse_json :: "nat \<Rightarrow> string \<Rightarrow> strategy \<Rightarrow> parser \<Rightarrow> (json \<times> parser) option" where
  "parse_json 0 str strat st = Some (JNull, fail ''exceeded maximum nesting depth'' st)"
| "parse_json (Suc d) str strat st =
     (let (ch, st) = get_next_token str strat st
      in if p_failed st then Some (JNull, st)
         else if ch = CHR ''-'' \<or> is_digit ch then Some (parse_number str (st\<lparr>p_i := p_i st - 1\<rparr>))
         else if ch = CHR ''t'' then Some (expect str ''true'' (JBool True) st)
         else if ch = CHR ''f'' then Some (expect str ''false'' (JBool False) st)
         else if ch = CHR ''n'' then Some (expect str ''null'' JNull st)
         else if ch = CHR 0x22 then
           Some (case parse_string str st of (s, st) \<Rightarrow> (JString s, st))
         else if ch = CHR ''{'' then
           (let (ch, st) = get_next_token str strat st
            in if ch = CHR ''}'' then Some (JObject [], st)
               else object_loop (parse_json d str strat) str strat (length str + 2) ch [] st)
         else if ch = CHR ''['' then
           (let (ch, st) = get_next_token str strat st
            in if ch = CHR '']'' then Some (JArray [], st)
               else array_loop (parse_json d str strat) str strat (length str + 2) [] st)
         else Some (JNull, fail (''expected value, got '' @ esc ch) st))"

declare parse_json.simps [simp del]

definition parser_start :: "string \<Rightarrow> parser" where
  "parser_start err = \<lparr>p_i = 0, p_err = err, p_failed = False\<rparr>"

text \<open>\<open>Json::parse\<close>: the value and the error text.\<close>

definition json_parse :: "string \<Rightarrow> string \<Rightarrow> strategy \<Rightarrow> (json \<times> string) option" where
  "json_parse str err strat =
     (case parse_json (max_depth + 1) str strat (parser_start err) of
        None \<Rightarrow> None
      | Some (result, st) \<Rightarrow>
          let st = consume_garbage str strat st
          in if p_failed st then Some (JNull, p_err st)
             else if p_i st \<noteq> length str then
               Some (JNull, p_err (fail (''unexpected trailing '' @ esc (char_at str (p_i st))) st))
             else Some (result, p_err st))"

text \<open>\<open>Json::parse_multi\<close>: the values, the stop position and the error text.\<close>

fun multi_loop :: "string \<Rightarrow> strategy \<Rightarrow> nat \<Rightarrow> json list \<Rightarrow> nat \<Rightarrow> parser \<Rightarrow> (json list \<times> nat \<times> string) option" where
  "multi_loop str strat 0 json_vec stop_pos st = None"
| "multi_loop str strat (Suc fuel) json_vec stop_pos st =
     (if p_i st \<noteq> length str \<and> \<not> p_failed st then
        (case parse_json (max_depth + 1) str strat st of
           None \<Rightarrow> None
         | Some (v, st) \<Rightarrow>
             let json_vec = json_vec @ [v]
             in if p_failed st then Some (json_vec, stop_pos, p_err st)
                else let st = consume_garbage str strat st
                 in if p_failed st then Some (json_vec, stop_pos, p_err st)
                    else multi_loop str strat fuel json_vec (p_i st) st)
      else Some (json_vec, stop_pos, p_err st))"

definition parse_multi :: "string \<Rightarrow> string \<Rightarrow> strategy \<Rightarrow> (json list \<times> nat \<times> string) option" where
  "parse_multi str err strat = multi_loop str strat (length str + 1) [] 0 (parser_start err)"

section \<open>Progress of the parser\<close>

definition adv :: "string \<Rightarrow> parser \<Rightarrow> parser \<Rightarrow> bool" where
  "adv str st st' \<longleftrightarrow>
     (p_i st \<le> length str \<longrightarrow> p_i st' \<le> length str) \<and>
     (p_failed st \<longrightarrow> p_failed st' \<and> p_err st' = p_err st) \<and>
     (p_failed st' \<and> \<not> p_failed st \<longrightarrow> p_err st' \<noteq> []) \<and>
     (\<not> p_failed st' \<longrightarrow> p_i st \<le> p_i st' \<and> p_err st' = p_err st)"

definition advs :: "string \<Rightarrow> parser \<Rightarrow> parser \<Rightarrow> bool" where
  "advs str st st' \<longleftrightarrow> adv str st st' \<and> (\<not> p_failed st' \<longrightarrow> p_i st < p_i st')"

lemma adv_refl [simp]: "adv str st st"
  by (simp add: adv_def)

lemma adv_trans: "adv str a b \<Longrightarrow> adv str b c \<Longrightarrow> adv str a c"
  by (auto simp: adv_def)

lemma advs_adv: "advs str a b \<Longrightarrow> adv str a b"
  by (simp add: advs_def)

lemma advs_trans1: "advs str a b \<Longrightarrow> adv str b c \<Longrightarrow> advs str a c"
  by (auto simp: advs_def adv_def)

lemma advs_trans2: "adv str a b \<Longrightarrow> advs str b c \<Longrightarrow> advs str a c"
  by (auto simp: advs_def adv_def)

lemma adv_fail: "adv str a b \<Longrightarrow> msg \<noteq> [] \<Longrightarrow> adv str a (fail msg b)"
  by (auto simp: adv_def fail_def)

lemma advs_fail: "adv str a b \<Longrightarrow> msg \<noteq> [] \<Longrightarrow> advs str a (fail msg b)"
  by (auto simp: advs_def adv_def fail_def)

lemma adv_move: "p_i st \<le> j \<Longrightarrow> (p_i st \<le> length str \<Longrightarrow> j \<le> length str) \<Longrightarrow> adv str st (st\<lparr>p_i := j\<rparr>)"
  by (auto simp: adv_def)

lemma advs_move: "p_i st < j \<Longrightarrow> (p_i st \<le> length str \<Longrightarrow> j \<le> length str) \<Longrightarrow> advs str st (st\<lparr>p_i := j\<rparr>)"
  by (auto simp: adv_def advs_def)

lemma adv_whitespace: "adv str st (consume_whitespace str st)"
  by (simp add: consume_whitespace_def adv_move skip_while_ge skip_while_le)

lemma comment_end_le:
  "comment_end str i = (b, j) \<Longrightarrow> i + 2 \<le> length str \<Longrightarrow> j \<le> length str"
proof (induction str i rule: comment_end.induct)
  case (1 str i)
  then show ?case by (subst (asm) comment_end.simps) (auto split: if_splits)
qed

lemma adv_comment: "consume_comment str st = (b, st') \<Longrightarrow> adv str st st'"
proof -
  assume eq: "consume_comment str st = (b, st')"
  show ?thesis
  proof (cases "char_at str (p_i st) = CHR ''/''")
    case False
    with eq show ?thesis by (simp add: consume_comment_def)
  next
    case True
    then have lt: "p_i st < length str" by (rule char_at_nonnul) simp
    have lt1: "p_i st + 1 < length str" if "char_at str (p_i st + 1) = c" "c \<noteq> CHR 0x00" for c
      using that by (rule char_at_nonnul)
    show ?thesis
      using eq True lt lt1 [of "CHR ''/''"] lt1 [of "CHR ''*''"] skip_while_ge [of "Suc (Suc (p_i st))" "\<lambda>c. c \<noteq> CHR 0x0A" str]
        skip_while_le [of "Suc (Suc (p_i st))" str "\<lambda>c. c \<noteq> CHR 0x0A"]
        comment_end_ge [of str "Suc (Suc (p_i st))"] comment_end_le [of str "Suc (Suc (p_i st))"]
      by (auto simp: consume_comment_def Let_def adv_def fail_def
          split: if_splits prod.splits bool.splits)
  qed
qed


lemma adv_garbage_loop: "adv str st (garbage_loop str st)"
proof (induction str st rule: garbage_loop.induct)
  case (1 str st)
  obtain found st1 where c: "consume_comment str st = (found, st1)" by fastforce
  note st1 = adv_comment [OF c]
  note st2 = adv_trans [OF st1 adv_whitespace]
  show ?case
  proof (cases "p_failed st1 \<or> \<not> found")
    case True
    with c st1 st2 show ?thesis by (subst garbage_loop.simps) (auto simp: Let_def)
  next
    case False
    with c have "garbage_loop str st = garbage_loop str (consume_whitespace str st1)"
      by (subst garbage_loop.simps) (simp add: Let_def)
    moreover have "adv str (consume_whitespace str st1) (garbage_loop str (consume_whitespace str st1))"
      using 1 c False by simp
    ultimately show ?thesis using st2 by (simp add: adv_trans)
  qed
qed

lemma adv_garbage: "adv str st (consume_garbage str strat st)"
  by (auto simp: consume_garbage_def Let_def intro: adv_trans [OF adv_whitespace adv_garbage_loop] adv_whitespace)

lemma advs_next:
  assumes "get_next_token str strat st = (ch, st')" "p_i st \<le> length str"
  shows "advs str st st'"
proof -
  note g = adv_garbage [of str st strat]
  let ?g = "consume_garbage str strat st"
  show ?thesis
  proof (cases "p_failed ?g")
    case True
    with assms g show ?thesis by (auto simp: get_next_token_def Let_def advs_def)
  next
    case False
    show ?thesis
    proof (cases "p_i ?g = length str")
      case True
      with False assms g show ?thesis by (auto simp: get_next_token_def Let_def intro: advs_fail)
    next
      case neq: False
      with False assms g have "st' = ?g\<lparr>p_i := p_i ?g + 1\<rparr>" "p_i ?g < length str"
        by (auto simp: get_next_token_def Let_def adv_def)
      then have "advs str ?g st'" by (simp add: advs_move)
      with g show ?thesis by (rule advs_trans2)
    qed
  qed
qed

lemma next_failed_NUL: "get_next_token str strat st = (ch, st') \<Longrightarrow> p_failed st' \<Longrightarrow> ch = CHR 0x00"
  by (auto simp: get_next_token_def Let_def split: if_splits)



lemma advs_string_loop:
  "i \<le> length str \<Longrightarrow> string_loop str i out pend st = (s, st') \<Longrightarrow> advs str (st\<lparr>p_i := i\<rparr>) st'"
proof (induction "length str - i" arbitrary: i out pend rule: less_induct)
  case less
  let ?st = "st\<lparr>p_i := i\<rparr>"
  have m: "advs str ?st (fail msg (st\<lparr>p_i := j\<rparr>))" if "msg \<noteq> []" "i \<le> j" "j \<le> length str" for msg j
    using that adv_move [of ?st j str] by (intro advs_fail) auto
  have IH: "advs str ?st st'" if "string_loop str j out' pend' st = (s, st')" "i < j" "j \<le> length str" for j out' pend'
  proof -
    have "advs str (st\<lparr>p_i := j\<rparr>) st'" using less.hyps [of j] that by simp
    moreover have "adv str ?st (st\<lparr>p_i := j\<rparr>)" using that adv_move [of ?st j str] by simp
    ultimately show ?thesis by (rule advs_trans2 [rotated])
  qed
  have mv: "advs str ?st (st\<lparr>p_i := Suc i\<rparr>)" if "Suc i \<le> length str"
    using that advs_move [of ?st "Suc i" str] by simp
  show ?case
  proof (cases "i = length str")
    case True
    with less.prems(2) m [of _ i] show ?thesis by (subst (asm) string_loop.simps) auto
  next
    case False
    with less.prems(1) have i: "Suc i \<le> length str" by simp
    then have i2: "Suc i \<noteq> length str \<Longrightarrow> Suc (Suc i) \<le> length str" by simp
    from less.prems(2) False show ?thesis
      by (subst (asm) string_loop.simps)
         (auto simp: Let_def bad_u_def i i2 m mv split: if_splits elim!: IH)
  qed
qed

lemma advs_string:
  "parse_string str st = (s, st') \<Longrightarrow> p_i st \<le> length str \<Longrightarrow> advs str st st'"
  using advs_string_loop [of "p_i st" str "[]" "- 1" st s st'] by (simp add: parse_string_def)

lemma not_digit_NUL [simp]: "\<not> is_digit (CHR 0x00)"
  by (simp add: is_digit_def)

lemma number_int_bounds:
  "i \<le> length str \<Longrightarrow> number_int str i = Inr j \<Longrightarrow> i < j \<and> j \<le> length str"
  "i \<le> length str \<Longrightarrow> number_int str i = Inl (msg, j) \<Longrightarrow> msg \<noteq> [] \<and> i \<le> j \<and> j \<le> length str"
  using skip_while_ge [of "Suc i" is_digit str] skip_while_le [of "Suc i" str is_digit]
  by (auto simp: number_int_def Let_def char_at_def char_in_def in_range_def split: if_splits)

lemma number_frac_bounds:
  "i \<le> length str \<Longrightarrow> number_frac str i = Inr j \<Longrightarrow> i \<le> j \<and> j \<le> length str"
  "i \<le> length str \<Longrightarrow> number_frac str i = Inl (msg, j) \<Longrightarrow> msg \<noteq> [] \<and> i \<le> j \<and> j \<le> length str"
  using skip_while_ge [of "Suc i" is_digit str] skip_while_le [of "Suc i" str is_digit]
  by (auto simp: number_frac_def Let_def char_at_def split: if_splits)

lemma number_exp_bounds:
  "i \<le> length str \<Longrightarrow> number_exp str i = Inr j \<Longrightarrow> i \<le> j \<and> j \<le> length str"
  "i \<le> length str \<Longrightarrow> number_exp str i = Inl (msg, j) \<Longrightarrow> msg \<noteq> [] \<and> i \<le> j \<and> j \<le> length str"
  using skip_while_ge [of "Suc i" is_digit str] skip_while_le [of "Suc i" str is_digit]
    skip_while_ge [of "Suc (Suc i)" is_digit str] skip_while_le [of "Suc (Suc i)" str is_digit]
  by (auto simp: number_exp_def Let_def char_at_def split: if_splits)


lemma advs_number_tail:
  assumes j: "p_i st < j" "j \<le> length str"
    and eq: "(case number_frac str j of
                     Inl (msg, i) \<Rightarrow> (JNull, fail msg (st\<lparr>p_i := i\<rparr>))
                   | Inr i \<Rightarrow>
                       (case number_exp str i of
                          Inl (msg, i) \<Rightarrow> (JNull, fail msg (st\<lparr>p_i := i\<rparr>))
                        | Inr i \<Rightarrow> (JDouble d, st\<lparr>p_i := i\<rparr>))) = (v, st')"
  shows "advs str st st'"
proof -
  have f: "advs str st (fail msg (st\<lparr>p_i := j\<rparr>))" if "msg \<noteq> [] \<and> p_i st \<le> j \<and> j \<le> length str" for msg j
    using that by (intro advs_fail adv_move) auto
  have g: "advs str st (st\<lparr>p_i := j\<rparr>)" if "p_i st < j \<and> j \<le> length str" for j
    using that by (intro advs_move) auto
  show ?thesis
  proof (cases "number_frac str j")
    case (Inl e)
    obtain msg k where "e = (msg, k)" by fastforce
    with Inl eq number_frac_bounds(2) [OF j(2), of msg k] j show ?thesis by (auto intro!: f)
  next
    case (Inr k)
    with number_frac_bounds(1) [OF j(2) Inr] j have k: "p_i st < k" "k \<le> length str" by auto
    show ?thesis
    proof (cases "number_exp str k")
      case (Inl e)
      obtain msg l where "e = (msg, l)" by fastforce
      with Inl Inr eq number_exp_bounds(2) [OF k(2), of msg l] k show ?thesis by (auto intro!: f)
    next
      case e: (Inr l)
      with Inr eq number_exp_bounds(1) [OF k(2) e] k show ?thesis by (auto intro!: g)
    qed
  qed
qed

lemma advs_number:
  assumes "parse_number str st = (v, st')" "p_i st \<le> length str"
  shows "advs str st st'"
proof -
  let ?i = "if char_at str (p_i st) = CHR ''-'' then p_i st + 1 else p_i st"
  have i: "p_i st \<le> ?i" "?i \<le> length str" using assms(2) by (auto simp: char_at_def)
  show ?thesis
  proof (cases "number_int str ?i")
    case (Inl e)
    obtain msg j where e: "e = (msg, j)" by fastforce
    with Inl number_int_bounds(2) [OF i(2), of msg j] i have "advs str st (fail msg (st\<lparr>p_i := j\<rparr>))"
      by (intro advs_fail adv_move) auto
    with Inl e assms show ?thesis by (auto simp: parse_number_def Let_def)
  next
    case (Inr j)
    with number_int_bounds(1) [OF i(2) Inr] i have j: "p_i st < j" "j \<le> length str" by auto
    show ?thesis
    proof (cases "char_at str j \<noteq> CHR ''.'' \<and> not_exp (char_at str j) \<and> j - p_i st \<le> digits10")
      case True
      with Inr assms advs_move [OF j(1), of str] j show ?thesis by (auto simp: parse_number_def Let_def)
    next
      case False
      show ?thesis
        by (rule advs_number_tail [OF j])
           (use Inr assms(1) False in \<open>simp only: parse_number_def Let_def sum.case if_False\<close>)
    qed
  qed
qed

lemma advs_expect:
  assumes "expect str expected v st = (w, st')" "0 < p_i st" "1 < length expected" "p_i st \<le> length str"
  shows "advs str st st'"
proof (cases "take (length expected) (drop (p_i st - 1) str) = expected")
  case True
  then have "length expected \<le> length str - (p_i st - 1)"
    by (metis length_drop length_take min.cobounded1 min.commute)
  with assms True show ?thesis by (auto simp: expect_def Let_def intro!: advs_move)
next
  case False
  have "adv str st (fail msg (st\<lparr>p_i := p_i st - 1\<rparr>))" if "msg \<noteq> []" for msg
    using that assms by (auto simp: adv_def fail_def)
  moreover have "p_failed (fail msg s)" for msg s by (simp add: fail_def)
  ultimately show ?thesis using assms False by (auto simp: expect_def Let_def advs_def)
qed

text \<open>What the loops need of the parser one level deeper.\<close>

definition sub_ok :: "string \<Rightarrow> (parser \<Rightarrow> (json \<times> parser) option) \<Rightarrow> bool" where
  "sub_ok str p \<longleftrightarrow> (\<forall>st. p_i st \<le> length str \<longrightarrow> (\<exists>v st'. p st = Some (v, st') \<and> advs str st st'))"

lemma sub_okE:
  assumes "sub_ok str p" "p_i st \<le> length str"
  obtains v st' where "p st = Some (v, st')" "advs str st st'"
  using assms by (auto simp: sub_ok_def)

lemma advs_le: "advs str a b \<Longrightarrow> p_i a \<le> length str \<Longrightarrow> p_i b \<le> length str"
  by (simp add: advs_def adv_def)

lemma object_loop_ok:
  assumes "sub_ok str p"
  shows "p_i st \<le> length str \<Longrightarrow> 0 < fuel \<Longrightarrow> ch = CHR 0x22 \<Longrightarrow> length str - p_i st < fuel \<Longrightarrow>
    \<exists>v st'. object_loop p str strat fuel ch data st = Some (v, st') \<and> adv str st st'"
proof (induction fuel arbitrary: ch data st)
  case (Suc fuel)
  note le = Suc.prems(1)
  obtain key s1 where p1: "parse_string str st = (key, s1)" by fastforce
  note a1 = advs_string [OF p1 le]
  note l1 = advs_le [OF a1 le]
  obtain c1 s2 where p2: "get_next_token str strat s1 = (c1, s2)" by fastforce
  note a2 = advs_next [OF p2 l1]
  note l2 = advs_le [OF a2 l1]
  obtain v s3 where p3: "p s2 = Some (v, s3)" and a3: "advs str s2 s3" by (rule sub_okE [OF assms l2])
  note l3 = advs_le [OF a3 l2]
  obtain c2 s4 where p4: "get_next_token str strat s3 = (c2, s4)" by fastforce
  note a4 = advs_next [OF p4 l3]
  note l4 = advs_le [OF a4 l3]
  obtain c3 s5 where p5: "get_next_token str strat s4 = (c3, s5)" by fastforce
  note a5 = advs_next [OF p5 l4]
  note l5 = advs_le [OF a5 l4]
  have b1: "adv str st s1" by (rule advs_adv [OF a1])
  have b2: "adv str st s2" by (rule adv_trans [OF b1 advs_adv [OF a2]])
  have b3: "adv str st s3" by (rule adv_trans [OF b2 advs_adv [OF a3]])
  have b4: "adv str st s4" by (rule adv_trans [OF b3 advs_adv [OF a4]])
  have b5: "adv str st s5" by (rule adv_trans [OF b4 advs_adv [OF a5]])
  note step = p1 p2 p3 p4 p5 Let_def
  show ?case
  proof (cases "p_failed s1 \<or> c1 \<noteq> CHR '':'' \<or> p_failed s3 \<or> c2 = CHR ''}'' \<or> c2 \<noteq> CHR '',''")
    case True
    with Suc.prems(3) b1 b2 b3 b4 show ?thesis by (auto simp: step intro: adv_fail)
  next
    case False
    then have eq: "object_loop p str strat (Suc fuel) ch data st = object_loop p str strat fuel c3 (map_put key v data) s5"
      using Suc.prems(3) by (simp add: step)
    show ?thesis
    proof (cases "c3 = CHR 0x22")
      case True
      then have "\<not> p_failed s5" using next_failed_NUL [OF p5] by auto
      then have "p_i st < p_i s5" using b1 a2 a3 a4 a5 a1 by (auto simp: advs_def adv_def)
      with Suc.prems(4) l5 le have fuel: "0 < fuel" "length str - p_i s5 < fuel" by linarith+
      from Suc.IH [OF l5 fuel(1) True fuel(2)] obtain w st'
        where "object_loop p str strat fuel c3 (map_put key v data) s5 = Some (w, st')" "adv str s5 st'" by blast
      with eq b5 show ?thesis by (auto intro: adv_trans)
    next
      case c3: False
      show ?thesis
      proof (cases fuel)
        case 0
        have "\<not> p_failed s3" "\<not> p_failed s4" using False next_failed_NUL [OF p4] by auto
        then have "p_i st < p_i s4" "p_i s4 \<le> length str" using a1 a2 a3 a4 l4 by (auto simp: advs_def adv_def)
        with Suc.prems(4) 0 show ?thesis by simp
      next
        case (Suc n)
        with c3 eq b5 show ?thesis by (auto intro: adv_fail)
      qed
    qed
  qed
qed simp

lemma array_loop_ok:
  assumes "sub_ok str p"
  shows "p_i st \<le> length str \<Longrightarrow> 0 < fuel \<Longrightarrow> (\<not> p_failed st \<Longrightarrow> length str - p_i st + 1 < fuel) \<Longrightarrow>
    \<exists>v st'. array_loop p str strat fuel data st = Some (v, st') \<and> adv str st st'"
proof (induction fuel arbitrary: data st)
  case (Suc fuel)
  note le = Suc.prems(1)
  let ?s0 = "st\<lparr>p_i := p_i st - 1\<rparr>"
  have l0: "p_i ?s0 \<le> length str" using le by simp
  obtain v s1 where p1: "p ?s0 = Some (v, s1)" and a1: "advs str ?s0 s1" by (rule sub_okE [OF assms l0])
  note l1 = advs_le [OF a1 l0]
  have b1: "adv str st s1" using a1 by (auto simp: adv_def advs_def)
  obtain c2 s2 where p2: "get_next_token str strat s1 = (c2, s2)" by fastforce
  note a2 = advs_next [OF p2 l1]
  note l2 = advs_le [OF a2 l1]
  obtain c3 s3 where p3: "get_next_token str strat s2 = (c3, s3)" by fastforce
  note a3 = advs_next [OF p3 l2]
  note l3 = advs_le [OF a3 l2]
  have b2: "adv str st s2" by (rule adv_trans [OF b1 advs_adv [OF a2]])
  have b3: "adv str st s3" by (rule adv_trans [OF b2 advs_adv [OF a3]])
  note step = p1 [simplified] p2 p3 Let_def
  show ?case
  proof (cases "p_failed s1 \<or> c2 = CHR '']'' \<or> c2 \<noteq> CHR '',''")
    case True
    with b1 b2 show ?thesis by (auto simp: step intro: adv_fail)
  next
    case False
    then have eq: "array_loop p str strat (Suc fuel) data st = array_loop p str strat fuel (data @ [v]) s3"
      by (simp add: step)
    have nf: "\<not> p_failed s2" using False next_failed_NUL [OF p2] by auto
    then have nst: "\<not> p_failed st" "p_i st < p_i s2" using b1 b2 a2 by (auto simp: adv_def advs_def)
    then have fuel: "0 < fuel" using Suc.prems(3) by simp
    have "length str - p_i s3 + 1 < fuel" if "\<not> p_failed s3"
      using that a3 nst l3 Suc.prems(3) by (auto simp: advs_def)
    then obtain w st' where "array_loop p str strat fuel (data @ [v]) s3 = Some (w, st')" "adv str s3 st'"
      using Suc.IH [OF l3 fuel] by blast
    with eq b3 show ?thesis by (auto intro: adv_trans)
  qed
qed simp

lemma parse_json_ok: "sub_ok str (parse_json d str strat)"
proof (induction d)
  case 0
  show ?case by (auto simp: sub_ok_def parse_json.simps intro!: advs_fail)
next
  case (Suc d)
  show ?case
    unfolding sub_ok_def
  proof (intro allI impI)
    fix st :: parser
    assume le: "p_i st \<le> length str"
    obtain ch s1 where n: "get_next_token str strat st = (ch, s1)" by fastforce
    note a1 = advs_next [OF n le]
    note l1 = advs_le [OF a1 le]
    show "\<exists>v st'. parse_json (Suc d) str strat st = Some (v, st') \<and> advs str st st'" (is ?thesis)
    proof (cases "p_failed s1")
      case True
      with n a1 show ?thesis by (simp add: parse_json.simps Let_def)
    next
      case False
      with a1 have i1: "p_i st < p_i s1" by (simp add: advs_def)
      have num: "\<exists>v st'. parse_number str (s1\<lparr>p_i := p_i s1 - Suc 0\<rparr>) = (v, st') \<and> advs str st st'"
      proof -
        obtain v st' where p: "parse_number str (s1\<lparr>p_i := p_i s1 - Suc 0\<rparr>) = (v, st')" by fastforce
        with l1 have "advs str (s1\<lparr>p_i := p_i s1 - Suc 0\<rparr>) st'" by (auto intro: advs_number)
        moreover have "adv str st (s1\<lparr>p_i := p_i s1 - Suc 0\<rparr>)"
          using a1 i1 l1 False by (auto simp: adv_def advs_def)
        ultimately show ?thesis using p advs_trans2 by blast
      qed
      have exp: "\<exists>v st'. expect str e w s1 = (v, st') \<and> advs str st st'" if "1 < length e" for e w
      proof -
        obtain v st' where p: "expect str e w s1 = (v, st')" by fastforce
        with advs_expect [OF p _ that l1] i1 a1 show ?thesis by (auto intro: advs_trans2 advs_adv)
      qed
      have strg: "\<exists>v st'. (case parse_string str s1 of (s, st) \<Rightarrow> (JString s, st)) = (v, st') \<and> advs str st st'"
      proof -
        obtain v st' where p: "parse_string str s1 = (v, st')" by fastforce
        with advs_string [OF p l1] a1 show ?thesis by (auto intro: advs_trans2 advs_adv)
      qed
      obtain c2 s2 where n2: "get_next_token str strat s1 = (c2, s2)" by fastforce
      note a2 = advs_next [OF n2 l1]
      note l2 = advs_le [OF a2 l1]
      note b2 = advs_trans1 [OF a1 advs_adv [OF a2]]
      have ob: "\<exists>v st'. object_loop (parse_json d str strat) str strat (length str + 2) c2 [] s2 = Some (v, st') \<and> advs str st st'"
      proof (cases "c2 = CHR 0x22")
        case True
        have "0 < length str + 2" "length str - p_i s2 < length str + 2" by linarith+
        from object_loop_ok [OF Suc l2 this(1) True this(2), of strat "[]"] b2 show ?thesis
          by (blast intro: advs_trans1)
      next
        case False
        with b2 show ?thesis by (auto intro!: advs_fail advs_adv)
      qed
      have ar: "\<exists>v st'. array_loop (parse_json d str strat) str strat (length str + 2) [] s2 = Some (v, st') \<and> advs str st st'"
      proof -
        have "0 < length str + 2" "length str - p_i s2 + 1 < length str + 2" by linarith+
        from array_loop_ok [OF Suc l2 this(1) this(2), of strat "[]"] b2 show ?thesis
          by (blast intro: advs_trans1)
      qed
      show ?thesis
        using False n n2 num exp [of "''true''" "JBool True"] exp [of "''false''" "JBool False"] exp [of "''null''" JNull] strg ob ar b2 a1
        by (auto simp: parse_json.simps Let_def intro: advs_fail advs_adv simp del: object_loop.simps array_loop.simps)
    qed
  qed
qed


text \<open>\<open>Json::parse\<close> always returns, and an error text tells a failed parse.\<close>

lemma json_parse_total: "\<exists>v err'. json_parse str err strat = Some (v, err')"
proof -
  obtain v st where "parse_json (max_depth + 1) str strat (parser_start err) = Some (v, st)"
    using parse_json_ok [of str "max_depth + 1" strat] by (rule sub_okE [of _ _ "parser_start err"]) (auto simp: parser_start_def)
  then show ?thesis by (auto simp: json_parse_def Let_def)
qed

lemma json_parse_error:
  assumes "json_parse str [] strat = Some (v, err)"
  shows "err \<noteq> [] \<Longrightarrow> v = JNull"
    and "err = [] \<longleftrightarrow> (\<exists>st. parse_json (max_depth + 1) str strat (parser_start []) = Some (v, st) \<and>
       \<not> p_failed (consume_garbage str strat st) \<and> p_i (consume_garbage str strat st) = length str)"
proof -
  obtain w st where p: "parse_json (max_depth + 1) str strat (parser_start []) = Some (w, st)"
    and a: "advs str (parser_start []) st"
    using parse_json_ok [of str "max_depth + 1" strat] by (rule sub_okE [of _ _ "parser_start []"]) (auto simp: parser_start_def)
  have b: "adv str (parser_start []) (consume_garbage str strat st)"
    by (rule adv_trans [OF advs_adv [OF a] adv_garbage])
  show "err \<noteq> [] \<Longrightarrow> v = JNull" 
    using assms p b by (auto simp: json_parse_def Let_def adv_def parser_start_def split: if_splits)
  show "err = [] \<longleftrightarrow> (\<exists>st. parse_json (max_depth + 1) str strat (parser_start []) = Some (v, st) \<and>
       \<not> p_failed (consume_garbage str strat st) \<and> p_i (consume_garbage str strat st) = length str)"
    using assms p b by (auto simp: json_parse_def Let_def adv_def parser_start_def fail_def split: if_splits)
qed

lemma multi_loop_total:
  "p_i st \<le> length str \<Longrightarrow> (\<not> p_failed st \<Longrightarrow> length str - p_i st < fuel) \<Longrightarrow> 0 < fuel \<Longrightarrow> stop \<le> length str \<Longrightarrow>
   \<exists>vs j err. multi_loop str strat fuel ws stop st = Some (vs, j, err) \<and> j \<le> length str"
proof (induction fuel arbitrary: ws stop st)
  case (Suc fuel)
  show ?case
  proof (cases "p_i st \<noteq> length str \<and> \<not> p_failed st")
    case False
    with Suc.prems show ?thesis by auto
  next
    case True
    obtain v s1 where p: "parse_json (max_depth + 1) str strat st = Some (v, s1)" and a: "advs str st s1"
      using parse_json_ok [of str "max_depth + 1" strat] Suc.prems(1) by (rule sub_okE)
    let ?s2 = "consume_garbage str strat s1"
    have b: "advs str st ?s2" by (rule advs_trans1 [OF a adv_garbage])
    show ?thesis
    proof (cases "p_failed s1 \<or> p_failed ?s2")
      case True
      with Suc.prems p show ?thesis by (auto simp: Let_def)
    next
      case False
      with b True Suc.prems have "p_i ?s2 \<le> length str" "length str - p_i ?s2 < fuel" "0 < fuel"
        by (auto simp: advs_def adv_def)
      from Suc.IH [of ?s2 "p_i ?s2" "ws @ [v]"] this False p True show ?thesis by (simp add: Let_def)
    qed
  qed
qed simp

lemma parse_multi_total: "\<exists>vs j err'. parse_multi str err strat = Some (vs, j, err') \<and> j \<le> length str"
  unfolding parse_multi_def by (rule multi_loop_total) (auto simp: parser_start_def)

section \<open>Properties\<close>

text \<open>
  C38. \<open>Json::parse\<close> returns for every input: the fuel of the loops never runs out.
\<close>

theorem json_parse_returns: "\<exists>v err'. json_parse str err strat = Some (v, err')"
  by (rule json_parse_total)

text \<open>
  A parse that leaves an error text yields the null value, so the borders and requests
  read from a malformed text are empty.
\<close>

theorem json_parse_error_is_null:
  assumes "json_parse str [] strat = Some (v, err)" "err \<noteq> []"
  shows "v = JNull"
  by (rule json_parse_error(1) [OF assms])

theorem json_parse_error_is_null_witness:
  "fst (the (json_parse ''[1,'' [] STANDARD)) = JNull"
proof -
  have "json_parse ''[1,'' [] STANDARD = Some (JNull, ''unexpected end of input'')" by code_simp
  with json_parse_error_is_null [OF this] show ?thesis by simp
qed

end
