(* ===== verification/JsonRoundTrip.thy ===== *)
theory JsonRoundTrip
  imports JsonParser
begin

text \<open>
  Printing and parsing of \<open>utility/json11.cpp\<close> put together: a value without doubles, with
  the keys of its objects in order as \<open>std::map\<close> keeps them and nested no deeper than the
  parser allows, is read back from its serialisation. An integer of ten or more characters
  comes back as a double of the same value.
\<close>

section \<open>What comes back\<close>

fun json_depth :: "json \<Rightarrow> nat" where
  "json_depth (JArray vs) = Suc (foldr max (map json_depth vs) 0)"
| "json_depth (JObject kvs) = Suc (foldr max (map (\<lambda>(k, v). json_depth v) kvs) 0)"
| "json_depth _ = 1"

fun json_plain :: "json \<Rightarrow> bool" where
  "json_plain (JArray vs) \<longleftrightarrow> list_all json_plain vs"
| "json_plain (JObject kvs) \<longleftrightarrow> keys_sorted kvs \<and> list_all (\<lambda>(k, v). json_plain v) kvs"
| "json_plain (JDouble _) \<longleftrightarrow> False"
| "json_plain _ \<longleftrightarrow> True"

fun read_back :: "json \<Rightarrow> json" where
  "read_back (JInt z) = (if length (dec_int z) \<le> 9 then JInt z else JDouble (of_int z))"
| "read_back (JArray vs) = JArray (map read_back vs)"
| "read_back (JObject kvs) = JObject (map (\<lambda>(k, v). (k, read_back v)) kvs)"
| "read_back v = v"

lemma foldr_max_le: "foldr max ns (0::nat) \<le> d \<longleftrightarrow> (\<forall>n \<in> set ns. n \<le> d)"
  by (induction ns) auto

section \<open>Tokens\<close>

lemma next_token:
  assumes "drop (p_i st) str = c # r" "\<not> json_space c" "\<not> p_failed st"
  shows "get_next_token str STANDARD st = (c, st\<lparr>p_i := Suc (p_i st)\<rparr>)"
  using assms by (auto simp: get_next_token_def consume_garbage_def consume_whitespace_def Let_def skip_while_stop
      dest: drop_lt)

lemma next_token_space:
  assumes "drop (p_i st) str = CHR '' '' # c # r" "\<not> json_space c" "\<not> p_failed st"
  shows "get_next_token str STANDARD st = (c, st\<lparr>p_i := Suc (Suc (p_i st))\<rparr>)"
proof -
  have d: "drop (Suc (p_i st)) str = c # r" using assms(1) by simp
  have "skip_while json_space str (p_i st) = skip_while json_space str (Suc (p_i st))"
    using assms(1) by (subst skip_while.simps) (auto simp: json_space_def dest: drop_lt)
  also have "\<dots> = Suc (p_i st)" using d assms(2) by (rule skip_while_stop)
  finally show ?thesis
    using d assms(3) drop_lt [OF d]
    by (auto simp: get_next_token_def consume_garbage_def consume_whitespace_def Let_def)
qed

section \<open>Strings\<close>

lemma hex_digits_all: "list_all (\<lambda>d. hex_char (digit_char d) \<and> hex_val (digit_char d) = int d) [0..<16]"
  by code_simp

lemma hex_digit [simp]:
  assumes "d < 16" shows "hex_char (digit_char d)" "hex_val (digit_char d) = int d"
proof -
  have "d \<in> set [0..<16]" using assms by simp
  with hex_digits_all show "hex_char (digit_char d)" "hex_val (digit_char d) = int d"
    unfolding list_all_iff by blast+
qed

lemma hex4_read:
  assumes "n < 65536"
  shows "list_all hex_char (hex4 n)" "strtol16 (hex4 n) = int n" "length (hex4 n) = 4"
proof -
  show "list_all hex_char (hex4 n)" "length (hex4 n) = 4"
    by (simp_all add: hex4_def del: digit_char.simps)
  have "strtol16 (hex4 n) = int (4096 * (n div 4096 mod 16) + 256 * (n div 256 mod 16) + 16 * (n div 16 mod 16) + n mod 16)"
    by (simp add: hex4_def strtol16_def del: digit_char.simps)
  also have "4096 * (n div 4096 mod 16) + 256 * (n div 256 mod 16) + 16 * (n div 16 mod 16) + n mod 16 = n"
  proof -
    have d: "n div 256 = n div 16 div 16" "n div 4096 = n div 16 div 16 div 16"
      by (simp_all add: div_mult2_eq [symmetric])
    have "n div 16 div 16 div 16 < 16" using assms by (simp add: div_mult2_eq [symmetric] less_mult_imp_div_less)
    then have "n div 4096 mod 16 = n div 4096" by (simp add: d)
    then show ?thesis
      using div_mult_mod_eq [of n 16] div_mult_mod_eq [of "n div 16" 16] div_mult_mod_eq [of "n div 16 div 16" 16]
      unfolding d by linarith
  qed
  finally show "strtol16 (hex4 n) = int n" .
qed

text \<open>One round of the loop, by the characters at the position.\<close>

lemma of_char_int: "(of_char c :: int) = int (of_char c)"
  by (rule of_nat_of_char [symmetric])

lemma string_plain:
  assumes "drop i str = ch # r" "ch \<noteq> CHR 0x22" "\<not> of_char ch \<le> (0x1f :: nat)" "ch \<noteq> BS"
  shows "string_loop str i out pend st = string_loop str (Suc i) (out @ encode_utf8 pend @ [ch]) (- 1) st"
proof -
  have "\<not> in_range (of_char ch) 0 0x1f"
    using assms(3) by (simp add: in_range_def of_char_int)
  with assms drop_lt [OF assms(1)] show ?thesis by (subst string_loop.simps) (simp add: Let_def)
qed

lemma string_quote:
  assumes "drop i str = CHR 0x22 # r"
  shows "string_loop str i out pend st = (out @ encode_utf8 pend, st\<lparr>p_i := Suc i\<rparr>)"
  using assms drop_lt [OF assms] by (subst string_loop.simps) (simp add: Let_def)

lemma string_escape:
  assumes d: "drop i str = BS # c # r"
    and c: "(c, e) \<in> {(CHR ''b'', CHR 0x08), (CHR ''f'', CHR 0x0C), (CHR ''n'', CHR 0x0A), (CHR ''r'', CHR 0x0D),
      (CHR ''t'', CHR 0x09), (CHR 0x22, CHR 0x22), (BS, BS)}"
  shows "string_loop str i out pend st = string_loop str (Suc (Suc i)) (out @ encode_utf8 pend @ [e]) (- 1) st"
proof -
  have d2: "drop (Suc i) str = c # r" using d by simp
  have at: "char_at str i = BS" "char_at str (Suc i) = c" using d d2 by simp_all
  have "i \<noteq> length str" "Suc i \<noteq> length str" using drop_lt [OF d] drop_lt [OF d2] by auto
  then show ?thesis
    using c at by (subst string_loop.simps) (elim insertE emptyE; simp add: Let_def BS_def in_range_def)
qed

lemma string_u:
  assumes d: "drop i str = BS # CHR ''u'' # e @ r" and e: "length e = 4" "list_all hex_char e"
    and p: "pend < 0xD800"
  shows "string_loop str i out pend st =
    string_loop str (i + 6) (out @ encode_utf8 pend) (strtol16 e) st"
proof -
  have d2: "drop (Suc i) str = CHR ''u'' # e @ r" using d by simp
  then have d3: "take 4 (drop (Suc (Suc i)) str) = e" using e by simp
  have at: "char_at str i = BS" "char_at str (Suc i) = CHR ''u''" using d d2 by simp_all
  have "i \<noteq> length str" "Suc i \<noteq> length str" using drop_lt [OF d] drop_lt [OF d2] by auto
  then show ?thesis
    using at d3 e p by (subst string_loop.simps) (simp add: Let_def BS_def in_range_def add.commute)
qed

lemma encode_ascii: "of_char ch \<le> (0x7f :: nat) \<Longrightarrow> encode_utf8 (int (of_char ch)) = [ch]"
  by (simp add: encode_utf8_def to_char_def nat_mod_as_int)

lemma encode_line_seps:
  "encode_utf8 0x2028 = [CHR 0xE2, CHR 0x80, CHR 0xA8]" "encode_utf8 0x2029 = [CHR 0xE2, CHR 0x80, CHR 0xA9]"
  by code_simp+

lemma u_literals:
  "length ''2028'' = 4" "list_all hex_char ''2028''" "strtol16 ''2028'' = 0x2028"
  "length ''2029'' = 4" "list_all hex_char ''2029''" "strtol16 ''2029'' = 0x2029"
  by code_simp+

lemma char_at_01: "char_at s 0 = a \<Longrightarrow> char_at s 1 = b \<Longrightarrow> a \<noteq> CHR 0x00 \<Longrightarrow> b \<noteq> CHR 0x00 \<Longrightarrow> s = a # b # drop 2 s"
  by (cases s; cases "tl s") (auto simp: char_at_def split: if_splits)

definition esc_pairs where "esc_pairs = {(CHR ''b'', CHR 0x08), (CHR ''f'', CHR 0x0C), (CHR ''n'', CHR 0x0A), (CHR ''r'', CHR 0x0D),
      (CHR ''t'', CHR 0x09), (CHR 0x22, CHR 0x22), (BS, BS)}"

text \<open>How the printer treats the first character of a string.\<close>

lemma dump_chars_cases:
  obtains (esc) c where "(c, ch) \<in> esc_pairs" "dump_chars (ch # s) = BS # c # dump_chars s"
  | (u) "of_char ch \<le> (0x1f :: nat)" "dump_chars (ch # s) = BS # CHR ''u'' # hex4 (of_char ch) @ dump_chars s"
  | (sep) e t where "dump_chars (ch # s) = BS # CHR ''u'' # e @ dump_chars t" "ch # s = encode_utf8 (strtol16 e) @ t"
      "length e = 4" "list_all hex_char e" "strtol16 e < 0xD800" "length t < length s"
  | (plain) "ch \<noteq> CHR 0x22" "\<not> of_char ch \<le> (0x1f :: nat)" "ch \<noteq> BS" "dump_chars (ch # s) = ch # dump_chars s"
proof -
  consider "(\<exists>c. (c, ch) \<in> esc_pairs)" | "\<not> (\<exists>c. (c, ch) \<in> esc_pairs)" "of_char ch \<le> (0x1f :: nat)"
    | "ch = CHR 0xE2 \<and> char_at s 0 = CHR 0x80 \<and> char_at s 1 = CHR 0xA8"
    | "ch = CHR 0xE2 \<and> char_at s 0 = CHR 0x80 \<and> char_at s 1 = CHR 0xA9"
    | "\<not> (\<exists>c. (c, ch) \<in> esc_pairs)" "\<not> of_char ch \<le> (0x1f :: nat)"
      "\<not> (ch = CHR 0xE2 \<and> char_at s 0 = CHR 0x80 \<and> char_at s 1 = CHR 0xA8)"
      "\<not> (ch = CHR 0xE2 \<and> char_at s 0 = CHR 0x80 \<and> char_at s 1 = CHR 0xA9)" by blast
  then show thesis
  proof cases
    case 1
    then obtain c where c: "(c, ch) \<in> esc_pairs" ..
    then have "dump_chars (ch # s) = BS # c # dump_chars s" by (auto simp: esc_pairs_def BS_def)
    with c show thesis by (rule esc)
  next
    case 2
    then have "dump_chars (ch # s) = BS # CHR ''u'' # hex4 (of_char ch) @ dump_chars s"
      by (auto simp: esc_pairs_def)
    with 2(2) show thesis by (rule u)
  next
    case 3
    then have s: "s = CHR 0x80 # CHR 0xA8 # drop 2 s" by (auto intro: char_at_01)
    have "dump_chars (ch # s) = BS # CHR ''u'' # ''2028'' @ dump_chars (drop 2 s)"
      using 3 by (simp add: BS_def)
    moreover have "ch # s = encode_utf8 (strtol16 ''2028'') @ drop 2 s"
      using 3 s by (simp add: u_literals encode_line_seps)
    moreover have "length (drop 2 s) < length s" by (subst (2) s) simp
    ultimately show thesis using u_literals by (auto intro: sep [of "''2028''" "drop 2 s"])
  next
    case 4
    then have s: "s = CHR 0x80 # CHR 0xA9 # drop 2 s" by (auto intro: char_at_01)
    have "dump_chars (ch # s) = BS # CHR ''u'' # ''2029'' @ dump_chars (drop 2 s)"
      using 4 by (simp add: BS_def)
    moreover have "ch # s = encode_utf8 (strtol16 ''2029'') @ drop 2 s"
      using 4 s by (simp add: u_literals encode_line_seps)
    moreover have "length (drop 2 s) < length s" by (subst (2) s) simp
    ultimately show thesis using u_literals by (auto intro: sep [of "''2029''" "drop 2 s"])
  next
    case 5
    then have "ch \<noteq> CHR 0x22" "ch \<noteq> BS" "dump_chars (ch # s) = ch # dump_chars s"
      by (auto simp: esc_pairs_def)
    with 5 show thesis by (intro plain)
  qed
qed

lemma string_loop_dump:
  "drop i str = dump_chars s @ CHR 0x22 # r \<Longrightarrow> pend < 0xD800 \<Longrightarrow>
   string_loop str i out pend st = (out @ encode_utf8 pend @ s, st\<lparr>p_i := Suc (i + length (dump_chars s))\<rparr>)"
proof (induction "length s" arbitrary: s i out pend rule: less_induct)
  case less
  have m1: "encode_utf8 (- 1) = []" by (simp add: encode_utf8_def)
  show ?case
  proof (cases s)
    case Nil
    with less.prems show ?thesis by (simp add: string_quote)
  next
    case (Cons ch t)
    show ?thesis
    proof (cases ch t rule: dump_chars_cases)
      case (esc c)
      let ?out = "out @ encode_utf8 pend @ [ch]"
      have d: "drop i str = BS # c # dump_chars t @ CHR 0x22 # r" using less.prems Cons esc(2) by simp
      then have "drop (Suc (Suc i)) str = dump_chars t @ CHR 0x22 # r" by simp
      with less.hyps [of t "Suc (Suc i)" "- 1" ?out] Cons
      have "string_loop str (Suc (Suc i)) ?out (- 1) st = (?out @ t, st\<lparr>p_i := Suc (Suc (Suc i) + length (dump_chars t))\<rparr>)"
        by (simp add: m1)
      with string_escape [OF d, of ch out pend st] esc Cons show ?thesis
        by (simp add: esc_pairs_def del: dump_chars.simps)
    next
      case u
      have h: "length (hex4 (of_char ch)) = 4" "list_all hex_char (hex4 (of_char ch))" "strtol16 (hex4 (of_char ch)) = int (of_char ch)"
        using hex4_read [of "of_char ch"] u by simp_all
      let ?out = "out @ encode_utf8 pend"
      have d: "drop i str = BS # CHR ''u'' # hex4 (of_char ch) @ dump_chars t @ CHR 0x22 # r" using less.prems Cons u(2) by simp
      from drop_add_of [of i str "BS # CHR ''u'' # hex4 (of_char ch)" "dump_chars t @ CHR 0x22 # r"] d h(1)
      have "drop (i + 6) str = dump_chars t @ CHR 0x22 # r" by simp
      with less.hyps [of t "i + 6" "int (of_char ch)" ?out] Cons u(1)
      have "string_loop str (i + 6) ?out (int (of_char ch)) st = (?out @ ch # t, st\<lparr>p_i := Suc (i + 6 + length (dump_chars t))\<rparr>)"
        by (simp add: encode_ascii)
      with string_u [OF d h(1,2) less.prems(2), of out st] h u Cons show ?thesis by (simp del: dump_chars.simps)
    next
      case (sep e w)
      let ?out = "out @ encode_utf8 pend"
      have d: "drop i str = BS # CHR ''u'' # e @ dump_chars w @ CHR 0x22 # r" using less.prems Cons sep(1) by simp
      from drop_add_of [of i str "BS # CHR ''u'' # e" "dump_chars w @ CHR 0x22 # r"] d sep(3)
      have "drop (i + 6) str = dump_chars w @ CHR 0x22 # r" by simp
      moreover have "length w < length s" using Cons sep(6) by simp
      moreover have "?out @ encode_utf8 (strtol16 e) @ w = ?out @ ch # t" using sep(2) by simp
      ultimately
      have "string_loop str (i + 6) ?out (strtol16 e) st = (?out @ ch # t, st\<lparr>p_i := Suc (i + 6 + length (dump_chars w))\<rparr>)"
        using less.hyps [of w "i + 6" "strtol16 e" ?out] sep(5) by simp
      with string_u [OF d sep(3,4) less.prems(2), of out st] sep Cons show ?thesis by (simp del: dump_chars.simps)
    next
      case plain
      let ?out = "out @ encode_utf8 pend @ [ch]"
      have d: "drop i str = ch # dump_chars t @ CHR 0x22 # r" using less.prems Cons plain by simp
      then have "drop (Suc i) str = dump_chars t @ CHR 0x22 # r" by simp
      with less.hyps [of t "Suc i" "- 1" ?out] Cons
      have "string_loop str (Suc i) ?out (- 1) st = (?out @ t, st\<lparr>p_i := Suc (Suc i + length (dump_chars t))\<rparr>)"
        by (simp add: m1)
      with string_plain [OF d plain(1,2,3), of out pend st] plain Cons show ?thesis by (simp del: dump_chars.simps)
    qed
  qed
qed

section \<open>Numbers\<close>

text \<open>What may follow a value in the output of the printer.\<close>

definition stops :: "string \<Rightarrow> bool" where
  "stops r \<longleftrightarrow> (case r of [] \<Rightarrow> True | c # _ \<Rightarrow> c \<in> {CHR '','', CHR '']'', CHR ''}''})"

lemma stops_digit: "stops r \<Longrightarrow> (case r of [] \<Rightarrow> True | c # _ \<Rightarrow> \<not> is_digit c)"
  by (auto simp: stops_def is_digit_def split: list.splits)

lemma stops_at:
  assumes "stops r" "drop i str = r"
  shows "char_at str i \<noteq> CHR ''.''" "not_exp (char_at str i)" "\<not> is_digit (char_at str i)"
proof -
  have "char_at str i = (case r of [] \<Rightarrow> CHR 0x00 | c # _ \<Rightarrow> c)"
  proof (cases r)
    case Nil
    with assms(2) show ?thesis by (simp add: char_at_def)
  next
    case (Cons c t)
    with assms(2) have "drop i str = c # t" by simp
    with Cons show ?thesis by simp
  qed
  with assms(1) show "char_at str i \<noteq> CHR ''.''" "not_exp (char_at str i)" "\<not> is_digit (char_at str i)"
    by (auto simp: stops_def not_exp_def is_digit_def split: list.splits)
qed

lemma dec_nat_0: "dec_nat 0 = ''0''"
  by code_simp

lemma number_int_dec:
  assumes d: "drop i str = dec_nat n @ r" and r: "stops r"
  shows "number_int str i = Inr (i + length (dec_nat n))"
proof (cases "n = 0")
  case True
  with d have "char_at str i = CHR ''0''" "drop (Suc i) str = r" by (simp_all add: dec_nat_0)
  with True stops_at [OF r] show ?thesis by (simp add: number_int_def dec_nat_0)
next
  case False
  then obtain a t where a: "dec_nat n = digit_char a # t" "0 < a" "a < 10"
    using dec_nat_first [of n] by auto
  have "list_all (\<lambda>d. 0 < d \<longrightarrow> digit_char d \<noteq> CHR ''0'' \<and> char_in (digit_char d) (CHR ''1'') (CHR ''9'')) [0..<10]"
    by code_simp
  moreover have "a \<in> set [0..<10]" using a by simp
  ultimately have c: "digit_char a \<noteq> CHR ''0''" "char_in (digit_char a) (CHR ''1'') (CHR ''9'')"
    using a(2) unfolding list_all_iff by blast+
  have at: "char_at str i = digit_char a" using d a(1) by (simp del: digit_char.simps)
  have "drop (Suc i) str = t @ r" using d a(1) by (simp del: digit_char.simps)
  moreover have "list_all is_digit t" using dec_nat_digits [of n] a(1) by simp
  ultimately have "skip_while is_digit str (Suc i) = Suc i + length t"
    using stops_digit [OF r] by (rule skip_while_run)
  with at c a(1) show ?thesis by (simp add: number_int_def Let_def del: digit_char.simps)
qed

lemma stops_no_exponent: "stops r \<Longrightarrow> exponent_of r = 0 \<and> (case r of [] \<Rightarrow> False | c # _ \<Rightarrow> c = CHR ''.'') = False"
  by (cases r) (auto simp: stops_def exponent_of_def)

lemma strtod_abs_dec:
  assumes "stops r"
  shows "strtod_abs (dec_nat n @ r) = of_nat n"
proof -
  have tw: "takeWhile is_digit (dec_nat n @ r) = dec_nat n"
    using stops_digit [OF assms] by (rule takeWhile_digits_dec)
  have "takeWhile is_digit (dec_nat n @ r) @ dropWhile is_digit (dec_nat n @ r) = dec_nat n @ r"
    by (rule takeWhile_dropWhile_id)
  then have dw: "dropWhile is_digit (dec_nat n @ r) = r" unfolding tw by simp
  show ?thesis
    unfolding strtod_abs_def Let_def tw dw using stops_no_exponent [OF assms] by (simp add: scale10_def)
qed

lemma dec_nat_head: "\<exists>c t. dec_nat n = c # t \<and> is_digit c \<and> c \<noteq> CHR ''-''"
proof -
  obtain c t where "dec_nat n = c # t" by (cases "dec_nat n") auto
  with dec_nat_digits [of n] digit_not_sign show ?thesis by auto
qed

lemma parse_number_dec:
  assumes d: "drop (p_i st) str = dec_int z @ r" and r: "stops r"
  shows "parse_number str st = (read_back (JInt z), st\<lparr>p_i := p_i st + length (dec_int z)\<rparr>)"
proof -
  let ?neg = "z < 0" and ?n = "if z < 0 then nat (- z) else nat z"
  let ?i = "if char_at str (p_i st) = CHR ''-'' then p_i st + 1 else p_i st"
  let ?j = "p_i st + length (dec_int z)"
  obtain c t where ct: "dec_nat ?n = c # t" "is_digit c" "c \<noteq> CHR ''-''" using dec_nat_head by blast
  have at: "char_at str (p_i st) = CHR ''-'' \<longleftrightarrow> z < 0"
  proof (cases "z < 0")
    case True
    with d have "drop (p_i st) str = CHR ''-'' # dec_nat (nat (- z)) @ r" by (simp add: dec_int_def)
    with True show ?thesis by simp
  next
    case False
    with d ct have "drop (p_i st) str = c # t @ r" by (simp add: dec_int_def)
    with False ct show ?thesis by simp
  qed
  have di: "drop ?i str = dec_nat ?n @ r" "?i + length (dec_nat ?n) = ?j"
    using d at by (auto simp: dec_int_def)
  have "number_int str ?i = Inr ?j" using number_int_dec [OF di(1) r] di(2) by simp
  moreover have "drop ?j str = r" using drop_add_of [OF d] .
  note s = stops_at [OF r this]
  have "number_frac str ?j = Inr ?j" "number_exp str ?j = Inr ?j"
    using s by (auto simp: number_frac_def number_exp_def not_exp_def)
  moreover have "atoi (drop (p_i st) str) = z" using d atoi_dec_int [OF stops_digit [OF r]] by simp
  moreover have "strtod (drop (p_i st) str) = of_int z"
  proof (cases "z < 0")
    case True
    with d strtod_abs_dec [OF r, of "nat (- z)"] show ?thesis by (simp add: strtod_def dec_int_def)
  next
    case False
    with d ct strtod_abs_dec [OF r, of "nat z"] show ?thesis by (simp add: strtod_def dec_int_def)
  qed
  ultimately show ?thesis using s by (simp add: parse_number_def Let_def digits10_def)
qed

section \<open>Values\<close>

text \<open>The first character of a serialised value is no white space and no closing bracket.\<close>

lemma dump_head:
  assumes "json_plain v"
  shows "\<exists>c t. dump_json g v = c # t \<and> \<not> json_space c \<and> c \<noteq> CHR '']'' \<and> c \<noteq> CHR ''}''"
proof (cases v)
  case (JInt z)
  obtain c t where "dec_nat (nat \<bar>z\<bar>) = c # t" "is_digit c" using dec_nat_head by blast
  then show ?thesis using JInt
    by (auto simp: dec_int_def json_space_def is_digit_def)
qed (use assms in \<open>auto simp: dump_string_def json_space_def\<close>)

definition reads_back :: "(rat \<Rightarrow> string) \<Rightarrow> json \<Rightarrow> bool" where
  "reads_back g v \<longleftrightarrow> (\<forall>d str st r. json_depth v \<le> d \<longrightarrow> \<not> p_failed st \<longrightarrow> stops r \<longrightarrow>
     drop (p_i st) str = dump_json g v @ r \<longrightarrow>
     parse_json d str STANDARD st = Some (read_back v, st\<lparr>p_i := p_i st + length (dump_json g v)\<rparr>))"

lemma reads_backD:
  "reads_back g v \<Longrightarrow> json_depth v \<le> d \<Longrightarrow> \<not> p_failed st \<Longrightarrow> stops r \<Longrightarrow> drop (p_i st) str = dump_json g v @ r \<Longrightarrow>
   parse_json d str STANDARD st = Some (read_back v, st\<lparr>p_i := p_i st + length (dump_json g v)\<rparr>)"
  by (simp add: reads_back_def)

lemma parse_string_dump:
  assumes "drop (p_i st) str = dump_chars s @ CHR 0x22 # r"
  shows "parse_string str st = (s, st\<lparr>p_i := Suc (p_i st + length (dump_chars s))\<rparr>)"
  using string_loop_dump [OF assms, of "- 1" "[]" st] by (simp add: parse_string_def encode_utf8_def)

lemma expect_word:
  assumes "drop (p_i st - 1) str = e @ r" "0 < p_i st" "e = c # e'"
  shows "expect str e v st = (v, st\<lparr>p_i := p_i st + length e'\<rparr>)"
  using assms by (simp add: expect_def)

lemma depth_pos: "0 < json_depth v" by (cases v) auto

lemma reads_back_leaf:
  assumes "json_plain v" "\<And>vs. v \<noteq> JArray vs" "\<And>kvs. v \<noteq> JObject kvs"
  shows "reads_back g v"
  unfolding reads_back_def
proof (intro allI impI)
  fix d str and st :: parser and r
  assume dp: "json_depth v \<le> d" and nf: "\<not> p_failed st" and r: "stops r"
    and d: "drop (p_i st) str = dump_json g v @ r"
  obtain d' where [simp]: "d = Suc d'" using dp depth_pos [of v] by (cases d) auto
  obtain c t where c: "dump_json g v = c # t" "\<not> json_space c" using dump_head [OF assms(1), of g] by blast
  have n: "get_next_token str STANDARD st = (c, st\<lparr>p_i := Suc (p_i st)\<rparr>)"
    using d c nf by (intro next_token) auto
  show "parse_json d str STANDARD st = Some (read_back v, st\<lparr>p_i := p_i st + length (dump_json g v)\<rparr>)"
  proof (cases v)
    case (JInt z)
    with c have "c = CHR ''-'' \<or> is_digit c"
      using dec_nat_head [of "nat z"] by (auto simp: dec_int_def split: if_splits)
    with n nf parse_number_dec [OF _ r, of st str z] d JInt show ?thesis
      by (simp add: parse_json.simps Let_def)
  next
    case (JBool b)
    with n nf d c expect_word [of "st\<lparr>p_i := Suc (p_i st)\<rparr>" str "dump_json g v" r c t "JBool b"] show ?thesis
      by (cases b) (auto simp: parse_json.simps Let_def is_digit_def)
  next
    case JNull
    with n nf d c expect_word [of "st\<lparr>p_i := Suc (p_i st)\<rparr>" str "dump_json g v" r c t "JNull"] show ?thesis
      by (auto simp: parse_json.simps Let_def is_digit_def)
  next
    case (JString s)
    with n nf d c parse_string_dump [of "st\<lparr>p_i := Suc (p_i st)\<rparr>" str s r] show ?thesis
      by (auto simp: parse_json.simps Let_def is_digit_def dump_string_def)
  qed (use assms in auto)
qed

section \<open>Arrays and objects\<close>

lemma dump_items_True: "dump_items g True (v # vs) = dump_json g v @ dump_items g False vs"
  by simp

lemma dump_items_False: "dump_items g False (v # vs) = CHR '','' # CHR '' '' # dump_items g True (v # vs)"
  by simp

lemma stops_items: "stops (dump_items g False vs @ CHR '']'' # r)"
  by (cases vs) (simp_all add: stops_def)

lemma array_loop_dump:
  assumes "\<forall>w \<in> set (v # vs). reads_back g w \<and> json_plain w \<and> json_depth w \<le> d"
    and "\<not> p_failed st" "drop (p_i st - 1) str = dump_items g True (v # vs) @ CHR '']'' # r" "length vs < fuel"
  shows "array_loop (parse_json d str STANDARD) str STANDARD fuel data st =
    Some (JArray (data @ map read_back (v # vs)), st\<lparr>p_i := p_i st - 1 + length (dump_items g True (v # vs)) + 1\<rparr>)"
  using assms
proof (induction vs arbitrary: v fuel data st)
  case Nil
  obtain f where fuel: "fuel = Suc f" using Nil.prems(4) by (cases fuel) auto
  let ?s0 = "st\<lparr>p_i := p_i st - 1\<rparr>"
  let ?s1 = "st\<lparr>p_i := p_i st - 1 + length (dump_json g v)\<rparr>"
  have d0: "drop (p_i ?s0) str = dump_json g v @ CHR '']'' # r" using Nil.prems(3) by simp
  have p: "parse_json d str STANDARD ?s0 = Some (read_back v, ?s1)"
    using reads_backD [of g v d ?s0 "CHR '']'' # r" str] d0 Nil.prems stops_items [of g "[]"] by simp
  have "drop (p_i ?s1) str = CHR '']'' # r" using drop_add_of [OF d0] by simp
  from next_token [OF this] Nil.prems(2) have n: "get_next_token str STANDARD ?s1 = (CHR '']'', st\<lparr>p_i := Suc (p_i ?s1)\<rparr>)"
    by (simp add: json_space_def)
  show ?case unfolding fuel using p n Nil.prems(2) by (simp add: Let_def)
next
  case (Cons w ws)
  obtain f where fuel: "fuel = Suc f" using Cons.prems(4) by (cases fuel) auto
  let ?rest = "dump_items g True (w # ws) @ CHR '']'' # r"
  let ?s0 = "st\<lparr>p_i := p_i st - 1\<rparr>"
  let ?s1 = "st\<lparr>p_i := p_i st - 1 + length (dump_json g v)\<rparr>"
  let ?s2 = "st\<lparr>p_i := Suc (p_i ?s1)\<rparr>"
  let ?s3 = "st\<lparr>p_i := Suc (Suc (Suc (p_i ?s1)))\<rparr>"
  have d0: "drop (p_i ?s0) str = dump_json g v @ CHR '','' # CHR '' '' # ?rest"
    using Cons.prems(3) by (simp only: dump_items_True dump_items_False append_assoc append_Cons) simp
  have p: "parse_json d str STANDARD ?s0 = Some (read_back v, ?s1)"
    using reads_backD [of g v d ?s0 "CHR '','' # CHR '' '' # ?rest" str] d0 Cons.prems stops_items [of g "w # ws" r]
    by (simp only: dump_items_False append_Cons) simp
  have d1: "drop (p_i ?s1) str = CHR '','' # CHR '' '' # ?rest" using drop_add_of [OF d0] by simp
  from next_token [OF d1] Cons.prems(2) have n1: "get_next_token str STANDARD ?s1 = (CHR '','', ?s2)"
    by (simp add: json_space_def)
  have "json_plain w" using Cons.prems(1) by simp
  from dump_head [OF this, of g] obtain c t where c: "dump_json g w = c # t" "\<not> json_space c" by blast
  have d2: "drop (p_i ?s2) str = CHR '' '' # ?rest" using d1 by simp
  have n2: "get_next_token str STANDARD ?s2 = (c, ?s3)"
    using next_token_space [of ?s2 str c "t @ dump_items g False ws @ CHR '']'' # r"] d2 c Cons.prems(2) by simp
  have d3: "drop (p_i ?s3 - 1) str = ?rest" using d2 by simp
  have "array_loop (parse_json d str STANDARD) str STANDARD fuel data st =
    array_loop (parse_json d str STANDARD) str STANDARD f (data @ [read_back v]) ?s3"
    unfolding fuel using p n1 n2 Cons.prems(2) by (simp add: Let_def)
  also have "\<dots> = Some (JArray ((data @ [read_back v]) @ map read_back (w # ws)),
      ?s3\<lparr>p_i := p_i ?s3 - 1 + length (dump_items g True (w # ws)) + 1\<rparr>)"
    using Cons.prems d3 fuel by (intro Cons.IH) auto
  finally show ?case by (simp add: add.assoc)
qed

text \<open>Members of an object: the loop starts with the quote of the key already read.\<close>

lemma dump_members_True: "dump_members g True ((k, v) # kvs) =
    CHR 0x22 # dump_chars k @ CHR 0x22 # CHR '':'' # CHR '' '' # dump_json g v @ dump_members g False kvs"
  by (simp add: dump_string_def)

lemma dump_members_False: "dump_members g False (kv # kvs) = CHR '','' # CHR '' '' # dump_members g True (kv # kvs)"
  by (cases kv) simp

lemma stops_members: "stops (dump_members g False kvs @ CHR ''}'' # r)"
  by (cases kvs) (auto simp: stops_def)

lemma skip_space:
  assumes "drop (p_i st) str = CHR '' '' # r" "0 < d"
  shows "parse_json d str STANDARD st = parse_json d str STANDARD (st\<lparr>p_i := Suc (p_i st)\<rparr>)"
proof -
  have "skip_while json_space str (p_i st) = skip_while json_space str (Suc (p_i st))"
    using assms(1) by (subst skip_while.simps) (auto simp: json_space_def dest: drop_lt)
  then have "get_next_token str STANDARD st = get_next_token str STANDARD (st\<lparr>p_i := Suc (p_i st)\<rparr>)"
    by (simp add: get_next_token_def consume_garbage_def consume_whitespace_def)
  moreover obtain d' where "d = Suc d'" using assms(2) by (cases d) auto
  ultimately show ?thesis by (simp add: parse_json.simps)
qed

text \<open>One member, up to the end of its value.\<close>

lemma object_member:
  assumes rb: "reads_back g v" "json_depth v \<le> d" and nf: "\<not> p_failed st" and pos: "0 < p_i st" and R: "stops R"
    and d: "drop (p_i st - 1) str = CHR 0x22 # dump_chars k @ CHR 0x22 # CHR '':'' # CHR '' '' # dump_json g v @ R"
    and e: "e = Suc (Suc (Suc (p_i st + length (dump_chars k)))) + length (dump_json g v)"
  obtains s1 s2 where "parse_string str st = (k, s1)" "\<not> p_failed s1"
    "get_next_token str STANDARD s1 = (CHR '':'', s2)"
    "parse_json d str STANDARD s2 = Some (read_back v, st\<lparr>p_i := e\<rparr>)" "drop e str = R"
proof -
  let ?i1 = "Suc (p_i st + length (dump_chars k))"
  let ?s1 = "st\<lparr>p_i := ?i1\<rparr>" and ?s2 = "st\<lparr>p_i := Suc ?i1\<rparr>" and ?s3 = "st\<lparr>p_i := Suc (Suc ?i1)\<rparr>"
  have d0: "drop (p_i st) str = dump_chars k @ CHR 0x22 # CHR '':'' # CHR '' '' # dump_json g v @ R"
    using drop_Suc_of [OF d] pos by simp
  have p1: "parse_string str st = (k, ?s1)" by (rule parse_string_dump [OF d0])
  have d1: "drop (p_i ?s1) str = CHR '':'' # CHR '' '' # dump_json g v @ R"
    using drop_add_of [OF d0] by (auto dest: drop_Suc_of)
  have p2: "get_next_token str STANDARD ?s1 = (CHR '':'', ?s2)"
    using next_token [OF d1] nf by (simp add: json_space_def)
  have d2: "drop (p_i ?s2) str = CHR '' '' # dump_json g v @ R" using d1 by simp
  have d3: "drop (p_i ?s3) str = dump_json g v @ R" using d2 by simp
  have "parse_json d str STANDARD ?s2 = parse_json d str STANDARD ?s3"
    using skip_space [OF d2, of d] rb(2) depth_pos [of v] by simp
  also have "\<dots> = Some (read_back v, st\<lparr>p_i := e\<rparr>)"
    using reads_backD [OF rb, of ?s3 R str] nf R d3 e by simp
  finally have p3: "parse_json d str STANDARD ?s2 = Some (read_back v, st\<lparr>p_i := e\<rparr>)" .
  have "drop e str = R" using drop_add_of [OF d3] e by simp
  with p1 p2 p3 nf show thesis by (intro that) auto
qed

lemma keys_sorted_put_next:
  assumes "keys_sorted (data @ (k, v) # kvs)"
  shows "map_put k w data = data @ [(k, w)]" "keys_sorted ((data @ [(k, w)]) @ kvs)"
proof -
  show "map_put k w data = data @ [(k, w)]"
    using assms by (intro map_put_last) (auto simp: keys_sorted_def sorted_wrt_append)
  show "keys_sorted ((data @ [(k, w)]) @ kvs)" using assms by (simp add: keys_sorted_def)
qed

lemma object_loop_dump:
  assumes "\<forall>(k, w) \<in> set (kv # kvs). reads_back g w \<and> json_plain w \<and> json_depth w \<le> d"
    and "\<not> p_failed st" "0 < p_i st" "drop (p_i st - 1) str = dump_members g True (kv # kvs) @ CHR ''}'' # r"
    and "length kvs < fuel" "keys_sorted (data @ kv # kvs)"
  shows "object_loop (parse_json d str STANDARD) str STANDARD fuel (CHR 0x22) data st =
    Some (JObject (data @ map (\<lambda>(k, v). (k, read_back v)) (kv # kvs)),
      st\<lparr>p_i := p_i st - 1 + length (dump_members g True (kv # kvs)) + 1\<rparr>)"
  using assms
proof (induction kvs arbitrary: kv fuel data st)
  case Nil
  obtain f where fuel: "fuel = Suc f" using Nil.prems(5) by (cases fuel) auto
  obtain k v where kv: "kv = (k, v)" by fastforce
  let ?e = "Suc (Suc (Suc (p_i st + length (dump_chars k)))) + length (dump_json g v)"
  have "drop (p_i st - 1) str = CHR 0x22 # dump_chars k @ CHR 0x22 # CHR '':'' # CHR '' '' # dump_json g v @ CHR ''}'' # r"
    using Nil.prems(4) by (simp add: kv dump_string_def)
  with Nil.prems kv stops_members [of g "[]"]
  obtain s1 s2 where p1: "parse_string str st = (k, s1)" "\<not> p_failed s1" "get_next_token str STANDARD s1 = (CHR '':'', s2)"
    "parse_json d str STANDARD s2 = Some (read_back v, st\<lparr>p_i := ?e\<rparr>)" and de: "drop ?e str = CHR ''}'' # r"
    by (elim object_member [of g v d st "CHR ''}'' # r" str k ?e, rotated -1]) auto
  have n: "get_next_token str STANDARD (st\<lparr>p_i := ?e\<rparr>) = (CHR ''}'', st\<lparr>p_i := Suc ?e\<rparr>)"
    using next_token [of "st\<lparr>p_i := ?e\<rparr>" str "CHR ''}''" r] de Nil.prems(2) by (simp add: json_space_def)
  have len: "p_i st - 1 + length (dump_members g True [kv]) + 1 = Suc ?e"
    using Nil.prems(3) by (simp add: kv dump_string_def)
  show ?case unfolding fuel len
    using p1 n Nil.prems(2) keys_sorted_put_next [of data k v "[]"] Nil.prems(6) by (simp add: Let_def kv)
next
  case (Cons w ws)
  obtain f where fuel: "fuel = Suc f" using Cons.prems(5) by (cases fuel) auto
  obtain k v where kv: "kv = (k, v)" by fastforce
  obtain k' v' where w: "w = (k', v')" by fastforce
  let ?rest = "dump_members g True (w # ws) @ CHR ''}'' # r"
  let ?e = "Suc (Suc (Suc (p_i st + length (dump_chars k)))) + length (dump_json g v)"
  let ?s4 = "st\<lparr>p_i := Suc ?e\<rparr>" and ?s5 = "st\<lparr>p_i := Suc (Suc (Suc ?e))\<rparr>"
  have "drop (p_i st - 1) str = CHR 0x22 # dump_chars k @ CHR 0x22 # CHR '':'' # CHR '' '' # dump_json g v @ CHR '','' # CHR '' '' # ?rest"
    using Cons.prems(4) unfolding kv dump_members_True dump_members_False by (simp only: append_assoc append_Cons)
  with Cons.prems(1,2,3) kv stops_members [of g "w # ws" r]
  obtain s1 s2 where p1: "parse_string str st = (k, s1)" "\<not> p_failed s1" "get_next_token str STANDARD s1 = (CHR '':'', s2)"
    "parse_json d str STANDARD s2 = Some (read_back v, st\<lparr>p_i := ?e\<rparr>)" and de: "drop ?e str = CHR '','' # CHR '' '' # ?rest"
    unfolding dump_members_False
    by (elim object_member [of g v d st "CHR '','' # CHR '' '' # ?rest" str k ?e, rotated -1]) (auto simp: dump_members_False)
  have n1: "get_next_token str STANDARD (st\<lparr>p_i := ?e\<rparr>) = (CHR '','', ?s4)"
    using next_token [of "st\<lparr>p_i := ?e\<rparr>" str "CHR '',''"] de Cons.prems(2) by (simp add: json_space_def)
  have d4: "drop (p_i ?s4) str = CHR '' '' # ?rest" using de by simp
  have n2: "get_next_token str STANDARD ?s4 = (CHR 0x22, ?s5)"
    using next_token_space [of ?s4 str "CHR 0x22"] d4 Cons.prems(2)
    by (simp add: json_space_def w dump_members_True del: dump_members.simps)
  have d5: "drop (p_i ?s5 - 1) str = ?rest" using d4 by simp
  note put = keys_sorted_put_next [of data k v "w # ws"]
  have len: "p_i ?s5 - 1 + length (dump_members g True (w # ws)) + 1 = p_i st - 1 + length (dump_members g True (kv # w # ws)) + 1"
    using Cons.prems(3) by (simp only: kv dump_members_True dump_members_False) simp
  have "object_loop (parse_json d str STANDARD) str STANDARD fuel (CHR 0x22) data st =
    object_loop (parse_json d str STANDARD) str STANDARD f (CHR 0x22) (data @ [(k, read_back v)]) ?s5"
    unfolding fuel using p1 n1 n2 Cons.prems(2,6) put kv by (simp add: Let_def)
  also have "\<dots> = Some (JObject ((data @ [(k, read_back v)]) @ map (\<lambda>(k, v). (k, read_back v)) (w # ws)),
      ?s5\<lparr>p_i := p_i ?s5 - 1 + length (dump_members g True (w # ws)) + 1\<rparr>)"
    using Cons.prems d5 fuel put kv by (intro Cons.IH) auto
  finally show ?case unfolding len by (simp add: kv)
qed

section \<open>The round trip\<close>

lemma dump_items_count: "list_all json_plain vs \<Longrightarrow> length vs \<le> length (dump_items g b vs)"
proof (induction vs arbitrary: b)
  case (Cons v vs)
  with dump_head [of v g] have "length vs \<le> length (dump_items g False vs)" "1 \<le> length (dump_json g v)" by (auto simp: Suc_le_eq)
  then show ?case by simp
qed simp

lemma dump_members_count: "length kvs \<le> length (dump_members g b kvs)"
proof (induction kvs arbitrary: b)
  case (Cons kv kvs)
  obtain k v where "kv = (k, v)" by fastforce
  with Cons [of False] show ?case by (simp add: dump_string_def)
qed simp

lemma array_token:
  assumes "drop (p_i st) str = CHR ''['' # r" "\<not> p_failed st" "d = Suc d'"
  shows "parse_json d str STANDARD st =
    (let (ch, st) = get_next_token str STANDARD (st\<lparr>p_i := Suc (p_i st)\<rparr>)
     in if ch = CHR '']'' then Some (JArray [], st)
        else array_loop (parse_json d' str STANDARD) str STANDARD (length str + 2) [] st)"
  using next_token [OF assms(1)] assms(2,3)
  by (simp add: parse_json.simps json_space_def is_digit_def)

lemma object_token:
  assumes "drop (p_i st) str = CHR ''{'' # r" "\<not> p_failed st" "d = Suc d'"
  shows "parse_json d str STANDARD st =
    (let (ch, st) = get_next_token str STANDARD (st\<lparr>p_i := Suc (p_i st)\<rparr>)
     in if ch = CHR ''}'' then Some (JObject [], st)
        else object_loop (parse_json d' str STANDARD) str STANDARD (length str + 2) ch [] st)"
  using next_token [OF assms(1)] assms(2,3)
  by (simp add: parse_json.simps json_space_def is_digit_def)

lemma reads_back_array:
  assumes vs: "\<forall>v \<in> set vs. json_plain v \<and> reads_back g v"
  shows "reads_back g (JArray vs)"
  unfolding reads_back_def
proof (intro allI impI)
  fix d str and st :: parser and r
  assume dp: "json_depth (JArray vs) \<le> d" and nf: "\<not> p_failed st" and r: "stops r"
    and d: "drop (p_i st) str = dump_json g (JArray vs) @ r"
  then obtain d' where d': "d = Suc d'" "\<forall>v \<in> set vs. json_depth v \<le> d'" by (cases d) (auto simp: foldr_max_le)
  have d0: "drop (p_i st) str = CHR ''['' # dump_items g True vs @ CHR '']'' # r" using d by simp
  let ?s1 = "st\<lparr>p_i := Suc (p_i st)\<rparr>"
  have d1: "drop (p_i ?s1) str = dump_items g True vs @ CHR '']'' # r" using d0 by simp
  note tok = array_token [OF d0 nf d'(1)]
  show "parse_json d str STANDARD st = Some (read_back (JArray vs), st\<lparr>p_i := p_i st + length (dump_json g (JArray vs))\<rparr>)"
  proof (cases vs)
    case Nil
    with d1 have "get_next_token str STANDARD ?s1 = (CHR '']'', st\<lparr>p_i := Suc (Suc (p_i st))\<rparr>)"
      using next_token [of ?s1 str "CHR '']''" r] nf by (simp add: json_space_def)
    with tok Nil show ?thesis by simp
  next
    case (Cons w ws)
    with vs obtain c t where c: "dump_json g w = c # t" "\<not> json_space c" "c \<noteq> CHR '']''"
      using dump_head [of w g] by auto
    let ?s2 = "st\<lparr>p_i := Suc (Suc (p_i st))\<rparr>"
    have n: "get_next_token str STANDARD ?s1 = (c, ?s2)"
      using next_token [of ?s1 str c "t @ dump_items g False ws @ CHR '']'' # r"] d1 c nf Cons by simp
    have d2: "drop (p_i ?s2 - 1) str = dump_items g True (w # ws) @ CHR '']'' # r" using d1 Cons by simp
    have "length (dump_items g True vs) \<le> length str"
      using arg_cong [OF d1, of length] by simp
    moreover have "length vs \<le> length (dump_items g True vs)" using vs by (intro dump_items_count) (simp add: list_all_iff)
    ultimately have f: "length ws < length str + 2" using Cons by simp
    have "array_loop (parse_json d' str STANDARD) str STANDARD (length str + 2) [] ?s2 =
      Some (JArray ([] @ map read_back (w # ws)), ?s2\<lparr>p_i := p_i ?s2 - 1 + length (dump_items g True (w # ws)) + 1\<rparr>)"
      using vs d'(2) Cons nf d2 f by (intro array_loop_dump) auto
    with tok n c(3) Cons show ?thesis by (simp add: Let_def del: array_loop.simps)
  qed
qed

lemma reads_back_object:
  assumes kvs: "\<forall>(k, v) \<in> set kvs. json_plain v \<and> reads_back g v" and srt: "keys_sorted kvs"
  shows "reads_back g (JObject kvs)"
  unfolding reads_back_def
proof (intro allI impI)
  fix d str and st :: parser and r
  assume dp: "json_depth (JObject kvs) \<le> d" and nf: "\<not> p_failed st" and r: "stops r"
    and d: "drop (p_i st) str = dump_json g (JObject kvs) @ r"
  then obtain d' where d': "d = Suc d'" "\<forall>(k, v) \<in> set kvs. json_depth v \<le> d'" by (cases d) (auto simp: foldr_max_le case_prod_unfold)
  have d0: "drop (p_i st) str = CHR ''{'' # dump_members g True kvs @ CHR ''}'' # r" using d by simp
  let ?s1 = "st\<lparr>p_i := Suc (p_i st)\<rparr>"
  have d1: "drop (p_i ?s1) str = dump_members g True kvs @ CHR ''}'' # r" using d0 by simp
  note tok = object_token [OF d0 nf d'(1)]
  show "parse_json d str STANDARD st = Some (read_back (JObject kvs), st\<lparr>p_i := p_i st + length (dump_json g (JObject kvs))\<rparr>)"
  proof (cases kvs)
    case Nil
    with d1 have "get_next_token str STANDARD ?s1 = (CHR ''}'', st\<lparr>p_i := Suc (Suc (p_i st))\<rparr>)"
      using next_token [of ?s1 str "CHR ''}''" r] nf by (simp add: json_space_def)
    with tok Nil show ?thesis by simp
  next
    case (Cons w ws)
    obtain k v where w: "w = (k, v)" by fastforce
    let ?s2 = "st\<lparr>p_i := Suc (Suc (p_i st))\<rparr>"
    have n: "get_next_token str STANDARD ?s1 = (CHR 0x22, ?s2)"
      using next_token [of ?s1 str "CHR 0x22"] d1 nf Cons
      by (simp add: json_space_def w dump_members_True del: dump_members.simps)
    have d2: "drop (p_i ?s2 - 1) str = dump_members g True (w # ws) @ CHR ''}'' # r" using d1 Cons by simp
    have "length (dump_members g True kvs) \<le> length str"
      using arg_cong [OF d1, of length] by simp
    then have f: "length ws < length str + 2" using Cons dump_members_count [of kvs g True] by simp
    have "object_loop (parse_json d' str STANDARD) str STANDARD (length str + 2) (CHR 0x22) [] ?s2 =
      Some (JObject ([] @ map (\<lambda>(k, v). (k, read_back v)) (w # ws)), ?s2\<lparr>p_i := p_i ?s2 - 1 + length (dump_members g True (w # ws)) + 1\<rparr>)"
      using kvs d'(2) Cons nf d2 f srt by (intro object_loop_dump) auto
    with tok n Cons show ?thesis by (simp add: Let_def del: object_loop.simps dump_members.simps)
  qed
qed

lemma reads_back_plain: "json_plain v \<Longrightarrow> reads_back g v"
proof (induction v)
  case (JArray vs)
  then show ?case by (intro reads_back_array) (auto simp: list_all_iff)
next
  case (JObject kvs)
  show ?case
  proof (rule reads_back_object)
    show "\<forall>(k, v) \<in> set kvs. json_plain v \<and> reads_back g v"
    proof (clarify, intro conjI)
      fix k v assume "(k, v) \<in> set kvs"
      with JObject.prems have "json_plain v" by (auto simp: list_all_iff)
      moreover have "v \<in> Basic_BNFs.snds (k, v)" by (simp add: snds.simps)
      ultimately show "json_plain v" "reads_back g v" using JObject.IH \<open>(k, v) \<in> set kvs\<close> by blast+
    qed
    show "keys_sorted kvs" using JObject.prems by simp
  qed
qed (auto intro: reads_back_leaf)

lemma json_parse_dump:
  assumes "json_plain v" "json_depth v \<le> max_depth + 1"
  shows "json_parse (dump_json g v) [] STANDARD = Some (read_back v, [])"
proof -
  have "parse_json (max_depth + 1) (dump_json g v) STANDARD (parser_start []) =
    Some (read_back v, (parser_start [])\<lparr>p_i := p_i (parser_start []) + length (dump_json g v)\<rparr>)"
    using reads_back_plain [OF assms(1)] assms(2) by (rule reads_backD) (simp_all add: parser_start_def stops_def)
  then show ?thesis
    by (simp add: json_parse_def parser_start_def consume_garbage_def consume_whitespace_def skip_while_end)
qed

lemma read_back_eq: "json_plain v \<Longrightarrow> json_eq v (read_back v)"
proof (induction v)
  case (JArray vs)
  then have "items_eq vs (map read_back vs)" by (induction vs) auto
  then show ?case by simp
next
  case (JObject kvs)
  have "members_eq kvs (map (\<lambda>(k, v). (k, read_back v)) kvs)"
    if "\<And>k v. (k, v) \<in> set kvs \<Longrightarrow> json_eq v (read_back v)" for kvs
    using that
  proof (induction kvs)
    case (Cons kv kvs)
    obtain k v where kv: "kv = (k, v)" by fastforce
    have "json_eq v (read_back v)" using Cons.prems [of k v] kv by simp
    moreover have "members_eq kvs (map (\<lambda>(k, v). (k, read_back v)) kvs)" using Cons.IH Cons.prems by auto
    ultimately show ?case using kv by simp
  qed simp
  moreover have "json_eq v (read_back v)" if "(k, v) \<in> set kvs" for k v
    using JObject.IH [OF that, of v] JObject.prems that by (auto simp: list_all_iff snds.simps)
  ultimately show ?case by simp
qed auto

section \<open>Properties\<close>

text \<open>
  The reader the callers of \<open>Json::parse\<close> use: an empty error text is success. The values
  that come back unchanged have integers of at most nine characters.
\<close>

definition json_read :: "string \<Rightarrow> json outcome" where
  "json_read str =
     (case json_parse str [] STANDARD of
        None \<Rightarrow> Inl Out_Of_Range
      | Some (v, err) \<Rightarrow> if err = [] then Inr v else Inl (Thrown err))"

definition json_exact :: "json \<Rightarrow> bool" where
  "json_exact v \<longleftrightarrow> json_plain v \<and> json_depth v \<le> max_depth + 1 \<and> read_back v = v"

interpretation json_text: codec "dump_json g17" json_read json_exact
  by unfold_locales (simp add: json_read_def json_exact_def json_parse_dump)

text \<open>
  C10. Parsing the serialisation of a value without doubles, nested at most 201 deep, gives
  a value equal to it under the code's own comparison, and no error text.
\<close>

theorem json_roundtrip:
  assumes "json_plain v" "json_depth v \<le> max_depth + 1"
  shows "\<exists>w. json_parse (dump_json g17 v) [] STANDARD = Some (w, []) \<and> json_eq v w"
  using json_parse_dump [OF assms] read_back_eq [OF assms(1)] by blast

definition sample_border :: json where
  "sample_border = JArray [JObject [(''points'', JArray [JArray [JInt 10, JInt (- 3)]]), (''type'', JInt 4)]]"

theorem json_roundtrip_witness:
  "\<exists>w. json_parse ''[{\"points\": [[10, -3]], \"type\": 4}]'' [] STANDARD = Some (w, []) \<and> json_eq sample_border w"
proof -
  have "json_plain sample_border" "json_depth sample_border \<le> max_depth + 1" by code_simp+
  from json_roundtrip [OF this, of "\<lambda>_. []"]
  have "\<exists>w. json_parse (dump_json (\<lambda>_. []) sample_border) [] STANDARD = Some (w, []) \<and> json_eq sample_border w" .
  moreover have "dump_json (\<lambda>_. []) sample_border = ''[{\"points\": [[10, -3]], \"type\": 4}]''" by code_simp
  ultimately show ?thesis by simp
qed

text \<open>
  Distinct values that come back unchanged have distinct serialisations.
\<close>

theorem json_dump_injective:
  assumes "json_exact v" "json_exact w" "dump_json g17 v = dump_json g17 w"
  shows "v = w"
  using json_text.enc_inject [OF assms(1,2)] assms(3) by blast

theorem json_dump_injective_witness:
  "dump_json (\<lambda>_. []) (JInt 1) \<noteq> dump_json (\<lambda>_. []) (JString ''1'')"
proof
  assume "dump_json (\<lambda>_. []) (JInt 1) = dump_json (\<lambda>_. []) (JString ''1'')"
  moreover have "json_exact (JInt 1)" "json_exact (JString ''1'')" by code_simp+
  ultimately have "JInt 1 = JString ''1''" by (intro json_dump_injective [of _ _ "\<lambda>_. []"])
  then show False by simp
qed

end
