(* ===== verification/Borders.thy ===== *)
theory Borders
  imports JsonRoundTrip Geometry
begin

text \<open>
  \<open>utility/border.h\<close> and \<open>utility/bordersloader.cpp\<close>: the borders an operator draws, how
  they are saved as JSON text and how they are loaded again. The file system is a map from
  names to texts; whether a file can be opened for writing is an argument.
\<close>

record border =
  b_graph :: int
  b_points :: "point list"

type_synonym files = "string \<Rightarrow> string option"

text \<open>The singleton keeps the value last saved or loaded.\<close>

record loader =
  bl_borders :: json

section \<open>Saving\<close>

definition save_borders :: "(rat \<Rightarrow> string) \<Rightarrow> json \<Rightarrow> string \<Rightarrow> bool \<Rightarrow> files \<Rightarrow> loader \<Rightarrow> files \<times> loader" where
  "save_borders g17 borders filename opens fs bl =
     ((if opens then fs(filename \<mapsto> dump_json g17 borders) else fs), bl\<lparr>bl_borders := borders\<rparr>)"

section \<open>Loading\<close>

definition file_text :: "string \<Rightarrow> files \<Rightarrow> string" where
  "file_text filename fs = (case fs filename of None \<Rightarrow> [] | Some text \<Rightarrow> text)"

text \<open>A text that does not parse counts as an empty array.\<close>

definition parse_borders :: "string \<Rightarrow> json" where
  "parse_borders text = (case json_read text of Inr v \<Rightarrow> v | Inl _ \<Rightarrow> JArray [])"

definition point_of_json :: "json \<Rightarrow> point" where
  "point_of_json v = \<lparr>pt_x = int_value (json_index v 0), pt_y = int_value (json_index v 1)\<rparr>"

definition border_of_json :: "json \<Rightarrow> border" where
  "border_of_json v =
     \<lparr>b_graph = int_value (json_member v ''type''),
      b_points = map point_of_json (array_items (json_member v ''points''))\<rparr>"

definition load_borders :: "string \<Rightarrow> files \<Rightarrow> loader \<Rightarrow> border list \<times> loader" where
  "load_borders filename fs bl =
     (let v = parse_borders (file_text filename fs)
      in (map border_of_json (array_items v), bl\<lparr>bl_borders := v\<rparr>))"

text \<open>
  The variant without a file name reads \<open>border.json\<close>, a list of named stacks; a name that
  occurs again starts its stack afresh.
\<close>

definition push_stack :: "json \<Rightarrow> (string \<times> border list) list \<Rightarrow> (string \<times> border list) list" where
  "push_stack v stacks =
     map_put (string_value (json_member v ''name''))
       (map border_of_json (array_items (json_member v ''value''))) stacks"

definition load_stacks :: "files \<Rightarrow> loader \<Rightarrow> (string \<times> border list) list \<times> loader" where
  "load_stacks fs bl =
     (let v = parse_borders (file_text ''border.json'' fs)
      in (fold push_stack (array_items v) [], bl\<lparr>bl_borders := v\<rparr>))"

section \<open>Facts\<close>

text \<open>The JSON value a client sends for a border.\<close>

definition json_of_point :: "point \<Rightarrow> json" where
  "json_of_point p = JArray [JInt (pt_x p), JInt (pt_y p)]"

definition json_of_border :: "border \<Rightarrow> json" where
  "json_of_border b = JObject [(''points'', JArray (map json_of_point (b_points b))), (''type'', JInt (b_graph b))]"

lemma int_value_read_back [simp]: "int_value (read_back (JInt z)) = z"
  by (simp add: cut_rat_def)

lemma point_of_json_read_back: "point_of_json (read_back (json_of_point p)) = p"
  unfolding point_of_json_def json_of_point_def by (simp del: read_back.simps(1) add: read_back.simps(2))

lemma border_of_json_read_back: "border_of_json (read_back (json_of_border b)) = b"
proof -
  have "read_back (json_of_border b) =
    JObject [(''points'', JArray (map (\<lambda>p. read_back (json_of_point p)) (b_points b))), (''type'', read_back (JInt (b_graph b)))]"
    by (simp add: json_of_border_def comp_def del: read_back.simps(1))
  then show ?thesis
    by (simp add: border_of_json_def map_find_def comp_def point_of_json_read_back del: read_back.simps(1))
qed

lemma json_of_border_plain: "json_plain (JArray (map json_of_border bs))"
  by (auto simp: list_all_iff json_of_border_def json_of_point_def keys_sorted_def)

lemma json_of_border_depth: "json_depth (JArray (map json_of_border bs)) \<le> max_depth + 1"
proof -
  have p: "json_depth (json_of_point p) = 2" for p by (simp add: json_of_point_def)
  have b: "json_depth (json_of_border b) \<le> 4" for b
    using p by (auto simp: json_of_border_def foldr_max_le)
  have "json_depth (json_of_border b) \<le> 200" for b by (rule order_trans [OF b]) simp
  then show ?thesis by (simp add: foldr_max_le max_depth_def)
qed

lemma stacks_sorted: "keys_sorted stacks \<Longrightarrow> keys_sorted (fold push_stack vs stacks)"
  by (induction vs arbitrary: stacks) (simp_all add: push_stack_def keys_sorted_put)

section \<open>Properties\<close>

text \<open>
  C20. The borders saved to a file are the borders loaded from it, whatever their kinds,
  points and coordinates.
\<close>

theorem saved_borders_are_loaded:
  assumes "save_borders g17 (JArray (map json_of_border bs)) filename True fs bl = (fs', bl')"
  shows "fst (load_borders filename fs' bl') = bs"
proof -
  have "json_parse (dump_json g17 (JArray (map json_of_border bs))) [] STANDARD =
    Some (read_back (JArray (map json_of_border bs)), [])"
    by (rule json_parse_dump [OF json_of_border_plain json_of_border_depth])
  moreover have "file_text filename fs' = dump_json g17 (JArray (map json_of_border bs))"
    using assms by (auto simp: save_borders_def file_text_def)
  ultimately have "parse_borders (file_text filename fs') = JArray (map (\<lambda>b. read_back (json_of_border b)) bs)"
    by (simp add: parse_borders_def json_read_def comp_def)
  then show ?thesis by (simp add: load_borders_def Let_def comp_def border_of_json_read_back)
qed

definition sample_borders :: "border list" where
  "sample_borders = [\<lparr>b_graph = 4, b_points = [\<lparr>pt_x = 10, pt_y = - 3\<rparr>, \<lparr>pt_x = 1234567890, pt_y = 0\<rparr>]\<rparr>]"

theorem saved_borders_are_loaded_witness:
  "fst (load_borders ''b.json''
      [''b.json'' \<mapsto> dump_json (\<lambda>_. []) (JArray (map json_of_border sample_borders))] \<lparr>bl_borders = JNull\<rparr>) = sample_borders"
proof -
  let ?v = "JArray (map json_of_border sample_borders)"
  have s: "save_borders (\<lambda>_. []) ?v ''b.json'' True (\<lambda>_. None) \<lparr>bl_borders = JNull\<rparr> =
    ([''b.json'' \<mapsto> dump_json (\<lambda>_. []) ?v], \<lparr>bl_borders = ?v\<rparr>)"
    by (simp add: save_borders_def)
  show ?thesis using saved_borders_are_loaded [OF s] by (simp add: load_borders_def Let_def)
qed

text \<open>
  A missing file, and a text that does not parse, give no border at all, so no alarm
  line or region is in force.
\<close>

theorem unreadable_borders_are_empty:
  assumes "fs filename = None \<or> (\<exists>text v err. fs filename = Some text \<and> json_parse text [] STANDARD = Some (v, err) \<and> err \<noteq> [])"
  shows "load_borders filename fs bl = ([], bl\<lparr>bl_borders := JArray []\<rparr>)"
proof -
  have empty: "json_parse [] [] STANDARD = Some (JNull, ''unexpected end of input'')" by code_simp
  from assms show ?thesis
    by (auto simp: load_borders_def file_text_def parse_borders_def json_read_def empty)
qed

theorem unreadable_borders_are_empty_witness:
  "load_borders ''a'' [''a'' \<mapsto> ''[{]''] \<lparr>bl_borders = JNull\<rparr> = ([], \<lparr>bl_borders = JArray []\<rparr>)"
proof -
  let ?r = "the (json_parse ''[{]'' [] STANDARD)"
  have "snd ?r \<noteq> []" by code_simp
  moreover have "json_parse ''[{]'' [] STANDARD = Some (fst ?r, snd ?r)"
    using json_parse_total [of "''[{]''" "[]" STANDARD] by auto
  ultimately have "\<exists>v err. json_parse ''[{]'' [] STANDARD = Some (v, err) \<and> err \<noteq> []" by blast
  then show ?thesis by (subst unreadable_borders_are_empty) auto
qed

end
