(* ===== verification/CommonData.thy ===== *)
theory CommonData
  imports CText Geometry
begin

text \<open>
  The data that flows between the engines of the graph (\<open>Common/stream_data.h\<close>,
  \<open>Common/RawDataBufferHigh.h\<close>, \<open>Common/common_data_type.h\<close>) and the small helpers of
  \<open>Common/utils_common.h\<close>, \<open>Common/AppCommon.h\<close>, \<open>Common/engine_tools.h\<close>,
  \<open>Common/CommandParser.h\<close> and \<open>Common/FileManager\<close>. A shared buffer is the list of its
  bytes; a float is a real number.
\<close>

section \<open>Stream data\<close>

text \<open>\<open>RawDataBufferHigh\<close>: \<open>None\<close> is a null data pointer.\<close>

record raw_buffer =
  rb_data :: "u8 list option"
  rb_len_of_byte :: u32

record stream_info =
  si_frameId :: u64
  si_mode :: u32
  si_format :: u32
  si_channelId :: u32
  si_isEOS :: u32
  si_table :: "(string \<times> ((int \<times> int) \<times> int \<times> int)) list"

record stream_raw_data =
  sr_info :: stream_info
  sr_buf :: raw_buffer

record image_info =
  im_format :: u32
  im_width :: u32
  im_height :: u32
  im_widthAligned :: u32
  im_heightAligned :: u32
  im_buf :: raw_buffer

record detect_info =
  di_classId :: int
  di_confidence :: real
  di_lt :: point
  di_rb :: point

datatype action = doAll | doDetection | doLandmark | doNothing

record device_stream_data =
  sd_info :: stream_info
  sd_action :: action
  sd_detectResult :: "detect_info list"
  sd_imgOrigin :: image_info

text \<open>The bytes \<open>fwrite\<close> takes from a buffer; it must hold at least \<open>len_of_byte\<close> bytes.\<close>

definition buffer_bytes :: "raw_buffer \<Rightarrow> u8 list outcome" where
  "buffer_bytes b =
     (case rb_data b of
        None \<Rightarrow> if rb_len_of_byte b = 0 then Inr [] else Inl Null_Deref
      | Some bs \<Rightarrow> if unat (rb_len_of_byte b) \<le> length bs then Inr (take (unat (rb_len_of_byte b)) bs)
                   else Inl Out_Of_Range)"

text \<open>
  The transport keeps the structure as control data and sends the bytes beside it; the
  receiver attaches the bytes it got, if the control data announces any.
\<close>

definition stream_raw_serialize :: "stream_raw_data \<Rightarrow> stream_raw_data \<times> u8 list option \<times> u32" where
  "stream_raw_serialize d = (d, rb_data (sr_buf d), rb_len_of_byte (sr_buf d))"

definition stream_raw_deserialize :: "stream_raw_data \<Rightarrow> u8 list option \<Rightarrow> u32 \<Rightarrow> stream_raw_data" where
  "stream_raw_deserialize control data data_length =
     (let len = rb_len_of_byte (sr_buf control)
      in \<lparr>sr_info = sr_info control,
          sr_buf = \<lparr>rb_data = (if len \<noteq> 0 then data else None), rb_len_of_byte = len\<rparr>\<rparr>)"

definition GetTransSearPtr :: "raw_buffer \<Rightarrow> raw_buffer \<times> u8 list option \<times> u32" where
  "GetTransSearPtr b = (b, rb_data b, rb_len_of_byte b)"

definition GetTransDearPtr :: "raw_buffer \<Rightarrow> u8 list option \<Rightarrow> raw_buffer" where
  "GetTransDearPtr ctrl data = \<lparr>rb_data = data, rb_len_of_byte = rb_len_of_byte ctrl\<rparr>"

section \<open>Boxes (\<open>common_data_type.h\<close>)\<close>

text \<open>\<open>xmin + (w - maxSide) * 0.5\<close> is a double, cut to \<open>int32_t\<close>.\<close>

definition bboxToSquare :: "point \<Rightarrow> point \<Rightarrow> point \<times> point" where
  "bboxToSquare lt rb =
     (let w = pt_x rb - pt_x lt;
          h = pt_y rb - pt_y lt;
          maxSide = max w h;
          xmin = cpp_div (2 * pt_x lt + (w - maxSide)) 2;
          ymin = cpp_div (2 * pt_y lt + (h - maxSide)) 2
      in (\<lparr>pt_x = xmin, pt_y = ymin\<rparr>, \<lparr>pt_x = xmin + maxSide, pt_y = ymin + maxSide\<rparr>))"

definition checkBound :: "int \<Rightarrow> int \<Rightarrow> int \<Rightarrow> int \<Rightarrow> point \<times> point \<Rightarrow> point \<times> point" where
  "checkBound upBoundW upBoundH lowBoundW lowBoundH r =
     (case r of (lt, rb) \<Rightarrow>
        (\<lparr>pt_x = max (pt_x lt) lowBoundW, pt_y = max (pt_y lt) lowBoundH\<rparr>,
         \<lparr>pt_x = min (pt_x rb) upBoundW, pt_y = min (pt_y rb) upBoundH\<rparr>))"

section \<open>Configuration and paths\<close>

text \<open>The items of an engine's configuration; \<open>insert\<close> keeps the first value of a name.\<close>

fun kvmap :: "(string \<times> string) list \<Rightarrow> (string \<times> string) list \<Rightarrow> (string \<times> string) list" where
  "kvmap [] kv = kv"
| "kvmap ((name, v) # items) kv =
     kvmap items (if map_of kv name = None then kv @ [(name, v)] else kv)"

text \<open>\<open>operator[]\<close> yields an empty string for a missing name.\<close>

definition kv_get :: "(string \<times> string) list \<Rightarrow> string \<Rightarrow> string" where
  "kv_get kv name = (case map_of kv name of None \<Rightarrow> [] | Some v \<Rightarrow> v)"

text \<open>The loop of \<open>splitpath\<close>: \<open>cur\<close> is the piece since \<open>start\<close>; it ends at a NUL.\<close>

fun split_loop :: "char list \<Rightarrow> string \<Rightarrow> string \<Rightarrow> string list \<Rightarrow> string list" where
  "split_loop delims cur [] result = result @ [cur]"
| "split_loop delims cur (c # s) result =
     (if c = CHR 0x00 then result @ [cur]
      else if c \<in> set delims then split_loop delims [] s (result @ [cur])
      else split_loop delims (cur @ [c]) s result)"

definition splitpath :: "string \<Rightarrow> char list \<Rightarrow> string list" where
  "splitpath str delims = split_loop delims [] str []"

record model_description =
  md_path :: string
  md_name :: string
  md_key :: string

text \<open>\<open>None\<close> is \<open>HIAI_ERROR\<close>.\<close>

definition loadModelDescription :: "(string \<times> string) list \<Rightarrow> model_description option" where
  "loadModelDescription config =
     (let kvcfg = kvmap config []
      in if map_of kvcfg ''model'' = None then None
         else let modelPath = kv_get kvcfg ''model''
          in Some \<lparr>md_path = modelPath,
                   md_name = last (splitpath modelPath [CHR 0x5C, CHR ''/'']),
                   md_key = kv_get kvcfg ''passcode''\<rparr>)"

definition checkEmpty :: "string \<Rightarrow> bool" where
  "checkEmpty v \<longleftrightarrow> v \<noteq> []"

text \<open>\<open>to_string(val, n_zeros, pchar)\<close>; the length is subtracted from \<open>n_zeros\<close> as unsigned.\<close>

definition pad_string :: "int \<Rightarrow> u32 \<Rightarrow> char \<Rightarrow> string" where
  "pad_string v n_zeros pchar =
     (let valstr = dec_int v; n_pads = int (unat n_zeros) - int (length valstr)
      in if 0 < n_pads then replicate (nat n_pads) pchar @ valstr else valstr)"

section \<open>Files (\<open>utils_common.h\<close>, \<open>FileManager\<close>)\<close>

text \<open>Regular files by name; directories are a separate set of names.\<close>

type_synonym bin_files = "string \<Rightarrow> u8 list option"

text \<open>A failed \<open>fopen\<close> is followed by \<open>fclose\<close> of the null pointer.\<close>

definition saveFileBin :: "u8 list \<Rightarrow> string \<Rightarrow> bool \<Rightarrow> bin_files \<Rightarrow> (bool \<times> bin_files) outcome" where
  "saveFileBin data filename opens fs =
     (if \<not> opens then Inl Null_Deref else Inr (True, fs(filename \<mapsto> data)))"

text \<open>With the directory already there, control reaches the end without a return value.\<close>

definition mkdir_p :: "string \<Rightarrow> bool \<Rightarrow> (string \<Rightarrow> int) \<Rightarrow> int outcome" where
  "mkdir_p dirname exists run =
     (if \<not> exists then Inr (run (''mkdir -p '' @ dirname)) else Inl Indeterminate)"

definition ExistFile :: "bin_files \<Rightarrow> string \<Rightarrow> bool" where
  "ExistFile fs path \<longleftrightarrow> fs path \<noteq> None"

definition CreateFile :: "bin_files \<Rightarrow> string \<Rightarrow> bool \<Rightarrow> bool \<times> bin_files" where
  "CreateFile fs path opens =
     (if \<not> ExistFile fs path \<and> opens then (True, fs(path \<mapsto> [])) else (False, fs))"

record file_info =
  fi_size :: u32
  fi_data :: "u8 list"

text \<open>
  Reading a whole file; the second component tells whether the stream was closed. The size
  is cut to 32 bits, and so is what is read.
\<close>

definition ReadFile :: "bin_files \<Rightarrow> string \<Rightarrow> file_info option \<times> bool" where
  "ReadFile fs path =
     (case fs path of
        None \<Rightarrow> (None, True)
      | Some bs \<Rightarrow>
          let fileSize = of_nat (length bs) :: u32
          in if fileSize = 0 then (None, False)
             else (Some \<lparr>fi_size = fileSize, fi_data = take (unat fileSize) bs\<rparr>, True))"

definition ReadFileWithDmalloc :: "bin_files \<Rightarrow> string \<Rightarrow> bool \<Rightarrow> file_info option \<times> bool" where
  "ReadFileWithDmalloc fs path dmalloc_ok =
     (case fs path of
        None \<Rightarrow> (None, True)
      | Some bs \<Rightarrow>
          let fileSize = of_nat (length bs) :: u32
          in if fileSize \<le> 0 then (None, False)
             else if \<not> dmalloc_ok then (None, False)
             else (Some \<lparr>fi_size = fileSize, fi_data = take (unat fileSize) bs\<rparr>, True))"

definition SplitPath :: "string \<Rightarrow> char list \<Rightarrow> string list" where
  "SplitPath str delims = split_loop delims [] str []"

definition GetExtension :: "string \<Rightarrow> string" where
  "GetExtension filePath =
     (let path = SplitPath filePath [CHR ''.''] in path ! (length path - 1))"

definition GetName :: "string \<Rightarrow> string" where
  "GetName filePath =
     (let path = SplitPath filePath [CHR ''/'']
      in if length path < 1 then [] else path ! (length path - 1))"

definition GetParent :: "string \<Rightarrow> string" where
  "GetParent filePath =
     (let path = SplitPath filePath [CHR ''/'']
      in if length path < 2 then [] else path ! (length path - 2))"

text \<open>\<open>ReadByExtension\<close>, over the entries \<open>readdir\<close> gives; \<open>None\<close> is an unreadable directory.\<close>

fun ext_loop :: "string \<Rightarrow> string list \<Rightarrow> string list \<Rightarrow> string list \<Rightarrow> string list" where
  "ext_loop dirPath format [] fileToRead = fileToRead"
| "ext_loop dirPath format (fileName # entries) fileToRead =
     ext_loop dirPath format entries
       (if fileName \<noteq> [] \<and> GetExtension fileName \<in> set format
        then fileToRead @ [dirPath @ ''/'' @ fileName] else fileToRead)"

definition ReadByExtension :: "string list option \<Rightarrow> string \<Rightarrow> string list \<Rightarrow> string list" where
  "ReadByExtension entries dirPath format =
     (case entries of None \<Rightarrow> [] | Some es \<Rightarrow> ext_loop dirPath format es [])"

section \<open>Command line (\<open>CommandParser.h\<close>)\<close>

record command_parser =
  cp_tokens :: "string list"
  cp_opmap :: "(string \<times> string) list"

text \<open>\<open>emplace\<close> keeps an option that is already there.\<close>

definition addOption :: "string \<Rightarrow> string \<Rightarrow> command_parser \<Rightarrow> command_parser" where
  "addOption option defaults cp =
     (if map_of (cp_opmap cp) option = None then cp\<lparr>cp_opmap := cp_opmap cp @ [(option, defaults)]\<rparr> else cp)"

definition parseArgs :: "string list \<Rightarrow> command_parser \<Rightarrow> command_parser" where
  "parseArgs argv cp = cp\<lparr>cp_tokens := cp_tokens cp @ tl argv\<rparr>"

definition cmdOptionExists :: "string \<Rightarrow> command_parser \<Rightarrow> bool" where
  "cmdOptionExists option cp \<longleftrightarrow> option \<in> set (cp_tokens cp)"

text \<open>The token after the first occurrence of the option, else its default, else empty.\<close>

definition cmdGetOption :: "string \<Rightarrow> command_parser \<Rightarrow> string" where
  "cmdGetOption option cp =
     (case dropWhile (\<lambda>t. t \<noteq> option) (cp_tokens cp) of
        _ # v # _ \<Rightarrow> v
      | _ \<Rightarrow> (case map_of (cp_opmap cp) option of Some d \<Rightarrow> d | None \<Rightarrow> []))"

text \<open>\<open>std::stoi\<close> throws without a digit or out of the range of \<open>int\<close>; both give 0.\<close>

definition parseStrToInt :: "string \<Rightarrow> int" where
  "parseStrToInt str =
     (let s = dropWhile c_space str;
          digits = (case s of c # t \<Rightarrow> if c = CHR ''-'' \<or> c = CHR ''+'' then t else s | [] \<Rightarrow> []);
          v = atoi str
      in if takeWhile is_digit digits = [] then 0 else if int32_range v then v else 0)"

section \<open>Facts\<close>

lemma split_loop_nonempty: "split_loop delims cur s result \<noteq> []"
  by (induction delims cur s result rule: split_loop.induct) auto

lemma split_loop_result: "split_loop delims cur s result = result @ split_loop delims cur s []"
proof (induction s arbitrary: cur result)
  case (Cons c s)
  show ?case
  proof (cases "c \<noteq> CHR 0x00 \<and> c \<in> set delims")
    case True
    then have "split_loop delims cur (c # s) result = split_loop delims [] s (result @ [cur])" by simp
    also have "\<dots> = result @ [cur] @ split_loop delims [] s []" by (simp add: Cons [of "[]" "result @ [cur]"])
    also have "[cur] @ split_loop delims [] s [] = split_loop delims cur (c # s) []"
      using True by (simp add: Cons [of "[]" "[cur]"])
    finally show ?thesis .
  next
    case False
    then show ?thesis by (auto intro: Cons)
  qed
qed simp

text \<open>Joining the pieces with the delimiter gives the text back.\<close>

fun join_with :: "char \<Rightarrow> string list \<Rightarrow> string" where
  "join_with d [] = []"
| "join_with d [p] = p"
| "join_with d (p # q # ps) = p @ d # join_with d (q # ps)"

lemma join_Cons: "ps \<noteq> [] \<Longrightarrow> join_with d (p # ps) = p @ d # join_with d ps"
  by (cases ps) auto

lemma split_loop_join: "CHR 0x00 \<notin> set s \<Longrightarrow> join_with d (split_loop [d] cur s []) = cur @ s"
proof (induction s arbitrary: cur)
  case (Cons c s)
  show ?case
  proof (cases "c = d")
    case True
    with Cons have "split_loop [d] cur (c # s) [] = cur # split_loop [d] [] s []"
      by (subst split_loop.simps) (auto simp: split_loop_result [of _ _ _ "[cur]"])
    with Cons True show ?thesis by (simp add: join_Cons split_loop_nonempty)
  next
    case False
    with Cons show ?thesis by auto
  qed
qed simp

lemma split_loop_delims:
  "d \<notin> set cur \<Longrightarrow> d \<in> set delims \<Longrightarrow> p \<in> set (split_loop delims cur s []) \<Longrightarrow> d \<notin> set p"
proof (induction s arbitrary: cur)
  case (Cons c s)
  show ?case
  proof (cases "c \<noteq> CHR 0x00 \<and> c \<in> set delims")
    case True
    with Cons.prems have "p = cur \<or> p \<in> set (split_loop delims [] s [])"
      by (auto simp: split_loop_result [of _ _ _ "[cur]"])
    with Cons.IH [of "[]"] Cons.prems(1,2) show ?thesis by auto
  next
    case False
    with Cons.IH [of "cur @ [c]"] Cons.prems show ?thesis by (auto split: if_splits)
  qed
qed simp

lemma kvmap_first: "map_of (kvmap items kv) name = (case map_of kv name of Some v \<Rightarrow> Some v | None \<Rightarrow> map_of items name)"
  by (induction items kv rule: kvmap.induct) (auto simp: map_add_def split: option.splits if_splits)

section \<open>Properties\<close>

text \<open>
  Splitting a path at the slash loses nothing: the pieces contain no slash and joined
  by slashes they are the path again.
\<close>

theorem split_path_join:
  assumes "CHR 0x00 \<notin> set str"
  shows "join_with (CHR ''/'') (SplitPath str [CHR ''/'']) = str \<and>
    (\<forall>p \<in> set (SplitPath str [CHR ''/'']). CHR ''/'' \<notin> set p)"
  using split_loop_join [OF assms, of "CHR ''/''" "[]"] split_loop_delims [of "CHR ''/''" "[]" "[CHR ''/'']"]
  by (auto simp: SplitPath_def)

theorem split_path_join_witness:
  "join_with (CHR ''/'') (SplitPath ''/home/a.jpg'' [CHR ''/'']) = ''/home/a.jpg''"
  by (rule split_path_join [THEN conjunct1]) simp

text \<open>
  A received stream frame equals the one sent, provided its buffer is absent exactly
  when its announced length is 0.
\<close>

theorem stream_frame_transport:
  assumes "rb_data (sr_buf d) = None \<longleftrightarrow> rb_len_of_byte (sr_buf d) = 0"
  shows "(case stream_raw_serialize d of (c, bytes, n) \<Rightarrow> stream_raw_deserialize c bytes n) = d"
  using assms by (cases d) (auto simp: stream_raw_serialize_def stream_raw_deserialize_def Let_def)

definition sample_raw :: stream_raw_data where
  "sample_raw = \<lparr>sr_info = \<lparr>si_frameId = 7, si_mode = 0, si_format = 0, si_channelId = 1, si_isEOS = 0, si_table = []\<rparr>,
     sr_buf = \<lparr>rb_data = Some [1, 2], rb_len_of_byte = 2\<rparr>\<rparr>"

theorem stream_frame_transport_witness:
  "stream_raw_deserialize sample_raw (Some [1, 2]) 2 = sample_raw"
proof -
  have "rb_data (sr_buf sample_raw) = None \<longleftrightarrow> rb_len_of_byte (sr_buf sample_raw) = 0"
    by (simp add: sample_raw_def)
  from stream_frame_transport [OF this] show ?thesis
    by (simp add: stream_raw_serialize_def) (simp add: sample_raw_def)
qed

end
