(* ===== verification/DstEngine.thy ===== *)
theory DstEngine
  imports Trails Base64 Borders CommonData "HOL-Library.Multiset"
begin

text \<open>
  \<open>DstEngine/DstEngine.cpp\<close>: the engine at the end of the graph. For every frame it keeps
  the window of frames around a possible alarm, ages the trails, tests the detected persons
  against the region borders, assigns the detections to trails, tests the trails against
  the line borders, queues alarms and has the clip of an alarm saved.

  What a frame changes outside the engine (files, directories, shell commands, the thread
  that saves a picture, the end message) is a list of effects. The clock, the files on
  disk, which files can be written and the indeterminate doubles of \<open>cross_line\<close> are the
  environment. \<open>SaveVideoToJpg\<close> prints the picture number into an array one byte too short
  and queues an element through a reference to the one just removed; the model has what the
  code means there.
\<close>

section \<open>State\<close>

definition PERSON_LABEL :: int where "PERSON_LABEL = 1"
definition SAMPLE_P :: u32 where "SAMPLE_P = 6"
definition FRAME_RATE :: nat where "FRAME_RATE = 2"
definition SAMPLE_N :: u32 where "SAMPLE_N = 1"
definition SAVE_TIME :: nat where "SAVE_TIME = 5"

definition RESULT_FOLDER :: string where "RESULT_FOLDER = ''result_files/''"
definition FILE_PRE_FIX :: string where "FILE_PRE_FIX = ''result_''"
definition RESULT_VIDEO :: string where "RESULT_VIDEO = ''result_videos/''"
definition RESULT_VIDEO_1 :: string where "RESULT_VIDEO_1 = ''result_videos_ruqin/''"
definition RESULT_VIDEO_2 :: string where "RESULT_VIDEO_2 = ''result_videos_yuejie/''"

record alarm =
  al_req_id :: int
  al_method :: string
  al_ipc_ip :: string
  al_img :: string
  al_time :: string
  al_type :: string

datatype effect =
    Ensure_Dir string
  | Write_File string "u8 list"
  | Run_Shell string
  | Spawn_SaveJpg device_stream_data string
  | Send_End

record env =
  ev_opens :: "string \<Rightarrow> bool"
  ev_files :: files
  ev_ms :: "nat \<Rightarrow> int"
  ev_str :: "nat \<Rightarrow> string"
  ev_z :: "nat \<Rightarrow> nat \<Rightarrow> nat \<Rightarrow> real"

text \<open>
  The members of the class, the two file-level names of the clips, the borders loader, and
  two fields of the model: the effects so far and how often the clock was read.
\<close>

record dst_engine =
  de_video_id :: int
  de_frame_id :: u32
  de_trails :: "trail list"
  de_result_condition :: "int list"
  de_result_videos :: "device_stream_data list"
  de_result_videos_1 :: "device_stream_data list"
  de_result_videos_2 :: "device_stream_data list"
  de_cover_path :: string
  de_alarm_flag :: u32
  de_alarms :: "alarm list"
  de_event :: bool
  de_stop :: bool
  de_ip :: string
  de_client_ip :: string
  de_border_filename :: string
  de_videoname_1 :: string
  de_videoname_2 :: string
  de_loader :: loader
  de_effects :: "effect list"
  de_clock :: nat

definition emit :: "effect \<Rightarrow> dst_engine \<Rightarrow> dst_engine" where
  "emit e s = s\<lparr>de_effects := de_effects s @ [e]\<rparr>"

section \<open>Initialisation\<close>

definition dst_init :: "(string \<times> string) list \<Rightarrow> dst_engine \<Rightarrow> dst_engine" where
  "dst_init config s =
     (let s = s\<lparr>de_stop := False, de_frame_id := 0, de_cover_path := ''/home/cover.jpg''\<rparr>;
          aimap = kvmap config [];
          s = (if map_of aimap ''camera_ip'' \<noteq> None then
                 let ip = kv_get aimap ''camera_ip''
                 in s\<lparr>de_ip := ip, de_cover_path := ''/home/'' @ ip @ ''.jpg'', de_border_filename := ip @ ''.json''\<rparr>
               else s)
      in if map_of aimap ''client_ip'' \<noteq> None
         then s\<lparr>de_client_ip := kv_get aimap ''client_ip''\<rparr> else s)"

section \<open>Alarms\<close>

definition is_person :: "detect_info \<Rightarrow> bool" where
  "is_person det \<longleftrightarrow> di_classId det = PERSON_LABEL"

definition frame_bytes :: "device_stream_data \<Rightarrow> u8 list outcome" where
  "frame_bytes frame = buffer_bytes (im_buf (sd_imgOrigin frame))"

text \<open>\<open>SaveJpg\<close>, run by the thread of an alarm: what it writes and its status.\<close>

definition SaveJpg :: "env \<Rightarrow> device_stream_data \<Rightarrow> string \<Rightarrow> (bool \<times> effect list) outcome" where
  "SaveJpg ev frame path =
     (let filename = RESULT_FOLDER @ FILE_PRE_FIX @ path @ ''.jpg''
      in if list_ex is_person (sd_detectResult frame) then
           if \<not> ev_opens ev filename then Inr (False, [Ensure_Dir RESULT_FOLDER])
           else bindR (frame_bytes frame) (\<lambda>bs. Inr (True, [Ensure_Dir RESULT_FOLDER, Write_File filename bs]))
         else Inr (False, [Ensure_Dir RESULT_FOLDER]))"

definition GetJpg :: "device_stream_data \<Rightarrow> string outcome" where
  "GetJpg frame =
     (if list_ex is_person (sd_detectResult frame)
      then bindR (frame_bytes frame) (\<lambda>bs. Inr (base64_encode bs)) else Inr [])"

definition report_alarm :: "alarm \<Rightarrow> dst_engine \<Rightarrow> dst_engine" where
  "report_alarm al s = s\<lparr>de_alarms := de_alarms s @ [al], de_event := True\<rparr>"

definition make_and_report_alarm ::
    "env \<Rightarrow> device_stream_data \<Rightarrow> string \<Rightarrow> string \<Rightarrow> dst_engine \<Rightarrow> dst_engine outcome" where
  "make_and_report_alarm ev frame ipc_ip alarm_type s =
     (let c = de_clock s;
          s = emit (Spawn_SaveJpg frame (dec_int (ev_ms ev c))) (s\<lparr>de_clock := c + 1\<rparr>)
      in bindR (GetJpg frame) (\<lambda>jpg.
           if jpg = [] then Inr s
           else let al = \<lparr>al_req_id = ev_ms ev (c + 1), al_method = ''report_alarm'', al_ipc_ip = ipc_ip,
                          al_img = jpg, al_time = ev_str ev (c + 2), al_type = alarm_type\<rparr>
                in Inr (report_alarm al (s\<lparr>de_clock := c + 3\<rparr>))))"

section \<open>Clips\<close>

text \<open>
  The loop of \<open>SaveVideoToJpg\<close> over the picture number \<open>i\<close>: the queue is rotated, so it
  comes back in its order after a full round. The status, the effects and the queue.
\<close>

fun video_loop :: "env \<Rightarrow> string \<Rightarrow> nat list \<Rightarrow> effect list \<Rightarrow> device_stream_data list \<Rightarrow>
    (bool \<times> effect list \<times> device_stream_data list) outcome" where
  "video_loop ev folder [] effs q = Inr (True, effs, q)"
| "video_loop ev folder (i # is) effs q =
     (case q of
        [] \<Rightarrow> Inl Out_Of_Range
      | video # rest \<Rightarrow>
          let filename = folder @ dec_pad 3 (i + 1) @ ''.jpg''
          in if \<not> ev_opens ev filename then Inr (False, effs, q)
             else bindR (frame_bytes video) (\<lambda>bs.
               video_loop ev folder is (effs @ [Write_File filename bs]) (rest @ [video])))"

definition SaveVideoToJpg :: "env \<Rightarrow> device_stream_data list \<Rightarrow> string \<Rightarrow> string \<Rightarrow>
    (bool \<times> effect list \<times> device_stream_data list) outcome" where
  "SaveVideoToJpg ev result_videos folder videoname =
     bindR (video_loop ev folder [0..<FRAME_RATE * SAVE_TIME * 2] [Ensure_Dir folder] result_videos)
       (\<lambda>(ok, effs, q).
          Inr (ok, (if ok then effs @ [Run_Shell (''./saveVideo.sh '' @ videoname @ ''&'')] else effs), q))"

section \<open>Region borders\<close>

text \<open>\<open>result_condition.pop_back(); result_condition.push_back(v)\<close>\<close>

definition mark_frame :: "int \<Rightarrow> dst_engine \<Rightarrow> dst_engine" where
  "mark_frame v s = s\<lparr>de_result_condition := butlast (de_result_condition s) @ [v]\<rparr>"

text \<open>A foot point inside a region: of six such hits in a row only the first is reported.\<close>

definition region_alarm :: "env \<Rightarrow> device_stream_data \<Rightarrow> dst_engine \<Rightarrow> dst_engine outcome" where
  "region_alarm ev frame s =
     (let s = s\<lparr>de_alarm_flag := de_alarm_flag s + 1\<rparr>
      in if de_alarm_flag s mod SAMPLE_P \<noteq> 1 then Inr s
         else let s = s\<lparr>de_videoname_1 := dec_int (de_video_id s), de_video_id := de_video_id s + 1\<rparr>
          in make_and_report_alarm ev frame (de_ip s) ''region'' (mark_frame 1 s))"

definition check_region :: "env \<Rightarrow> device_stream_data \<Rightarrow> point \<Rightarrow> border \<Rightarrow> dst_engine \<Rightarrow> dst_engine outcome" where
  "check_region ev frame foot b s =
     (if b_graph b = graph_value RECTANGLE then
        bindR (judge_out_rectangle foot (b_points b)) (\<lambda>hit. if hit then region_alarm ev frame s else Inr s)
      else if b_graph b = graph_value POLYGON then
        if judge_out_polygon foot (b_points b) then region_alarm ev frame s else Inr s
      else Inr s)"

section \<open>Assigning detections to trails\<close>

text \<open>The search for the open trail with the greatest weight: its weight and its index.\<close>

fun best_trail :: "trail list \<Rightarrow> nat \<Rightarrow> point \<Rightarrow> point \<Rightarrow> real \<Rightarrow> nat option \<Rightarrow> real \<times> nat option" where
  "best_trail [] k a b res_max target = (res_max, target)"
| "best_trail (t # ts) k a b res_max target =
     (if tr_insertable t then
        let res = cal_dis t a b
        in if res > res_max then best_trail ts (Suc k) a b res (Some k)
           else best_trail ts (Suc k) a b res_max target
      else best_trail ts (Suc k) a b res_max target)"

definition near_edge :: "point \<Rightarrow> bool" where
  "near_edge foot \<longleftrightarrow>
     min (min (1920 - pt_x foot) (pt_x foot)) (min (1080 - pt_y foot) (pt_y foot)) < 100"

definition assign_detection :: "point \<Rightarrow> point \<Rightarrow> point \<Rightarrow> trail list \<Rightarrow> trail list" where
  "assign_detection foot a b trails =
     (if trails = [] then [new_trail a b]
      else case best_trail trails 0 a b (THETA - 1) None of
          (res_max, None) \<Rightarrow> trails @ [new_trail a b]
        | (res_max, Some k) \<Rightarrow>
            if res_max > THRESOD then trails[k := trail_insert a b (trails ! k)]
            else if near_edge foot then trails @ [new_trail a b]
            else trails[k := trail_insert a b (trails ! k)])"

definition step_detection :: "env \<Rightarrow> device_stream_data \<Rightarrow> border list \<Rightarrow> detect_info \<Rightarrow> dst_engine \<Rightarrow> dst_engine outcome" where
  "step_detection ev frame borders det s =
     (if \<not> is_person det then Inr s
      else let foot = foot_of (di_lt det) (di_rb det)
       in bindR (foldR (check_region ev frame foot) borders s) (\<lambda>s.
            Inr (s\<lparr>de_trails := assign_detection foot (di_lt det) (di_rb det) (de_trails s)\<rparr>)))"

section \<open>Line borders\<close>

definition border_alarm :: "env \<Rightarrow> device_stream_data \<Rightarrow> nat \<Rightarrow> dst_engine \<Rightarrow> dst_engine outcome" where
  "border_alarm ev frame k s =
     (let s = s\<lparr>de_videoname_2 := dec_int (de_video_id s), de_video_id := de_video_id s + 1\<rparr>
      in bindR (make_and_report_alarm ev frame (de_ip s) ''border'' (mark_frame 2 s)) (\<lambda>s.
           Inr (s\<lparr>de_trails := (de_trails s)[k := clear_trail (de_trails s ! k)]\<rparr>)))"

text \<open>The \<open>k\<close>-th trail against the \<open>m\<close>-th of \<open>n\<close> borders.\<close>

definition check_line :: "env \<Rightarrow> device_stream_data \<Rightarrow> nat \<Rightarrow> nat \<Rightarrow> nat \<times> border \<Rightarrow> dst_engine \<Rightarrow> dst_engine outcome" where
  "check_line ev frame n k mb s =
     (let (m, b) = mb; pts = tr_points (de_trails s ! k); z = ev_z ev (k * n + m)
      in if b_graph b = graph_value LINE then
           bindR (judge_out_line (z 0) pts (b_points b)) (\<lambda>hit. if hit then border_alarm ev frame k s else Inr s)
         else if b_graph b = graph_value BROKEN_LINE then
           bindR (judge_out_broken_line z pts (b_points b)) (\<lambda>hit. if hit then border_alarm ev frame k s else Inr s)
         else Inr s)"

definition check_trail :: "env \<Rightarrow> device_stream_data \<Rightarrow> border list \<Rightarrow> nat \<Rightarrow> dst_engine \<Rightarrow> dst_engine outcome" where
  "check_trail ev frame borders k s =
     foldR (check_line ev frame (length borders) k) (zip [0..<length borders] borders) s"

definition check_lines :: "env \<Rightarrow> device_stream_data \<Rightarrow> border list \<Rightarrow> dst_engine \<Rightarrow> dst_engine outcome" where
  "check_lines ev frame borders s =
     (if de_trails s \<noteq> [] \<and> de_frame_id s mod SAMPLE_N = 0
      then foldR (check_trail ev frame borders) [0..<length (de_trails s)] s else Inr s)"

section \<open>One frame\<close>

definition save_cover :: "env \<Rightarrow> device_stream_data \<Rightarrow> dst_engine \<Rightarrow> (bool \<times> dst_engine) outcome" where
  "save_cover ev frame s =
     (if de_frame_id s = 0 then
        if \<not> ev_opens ev (de_cover_path s) then Inr (False, s)
        else bindR (frame_bytes frame) (\<lambda>bs. Inr (True, emit (Write_File (de_cover_path s) bs) s))
      else Inr (True, s))"

definition push_frame :: "device_stream_data \<Rightarrow> dst_engine \<Rightarrow> dst_engine" where
  "push_frame frame s =
     (let s = s\<lparr>de_result_videos := de_result_videos s @ [frame],
                de_result_condition := de_result_condition s @ [0]\<rparr>
      in if length (de_result_videos s) > FRAME_RATE * SAVE_TIME * 2
         then s\<lparr>de_result_videos := tl (de_result_videos s), de_result_condition := tl (de_result_condition s)\<rparr>
         else s)"

definition age_trails :: "dst_engine \<Rightarrow> dst_engine" where
  "age_trails s = s\<lparr>de_trails := map update_states_common (filter check_states (de_trails s))\<rparr>"

definition centre_mark :: "dst_engine \<Rightarrow> int \<Rightarrow> int" where
  "centre_mark s result_center =
     (if length (de_result_condition s) = FRAME_RATE * SAVE_TIME * 2
      then de_result_condition s ! (FRAME_RATE * SAVE_TIME) else result_center)"

text \<open>The two clip sections: \<open>(ok, s)\<close>, where a failure keeps the rotated copy.\<close>

definition save_region_clip :: "env \<Rightarrow> int \<Rightarrow> dst_engine \<Rightarrow> (bool \<times> dst_engine) outcome" where
  "save_region_clip ev result_center s =
     (if result_center = 1 then
        bindR (SaveVideoToJpg ev (de_result_videos s) RESULT_VIDEO_1 (de_videoname_1 s)) (\<lambda>(ok, effs, q).
          let s = s\<lparr>de_effects := de_effects s @ effs, de_result_videos_1 := q\<rparr>
          in if \<not> ok then Inr (False, s) else Inr (True, s\<lparr>de_result_videos_1 := []\<rparr>))
      else Inr (True, s\<lparr>de_result_videos_1 := []\<rparr>))"

definition save_border_clip :: "env \<Rightarrow> int \<Rightarrow> dst_engine \<Rightarrow> (bool \<times> dst_engine) outcome" where
  "save_border_clip ev result_center s =
     (if result_center = 2 then
        bindR (SaveVideoToJpg ev (de_result_videos s) RESULT_VIDEO_2 (de_videoname_2 s)) (\<lambda>(ok, effs, q).
          let s = s\<lparr>de_effects := de_effects s @ effs, de_result_videos_2 := q\<rparr>
          in if \<not> ok then Inr (False, s) else Inr (True, s\<lparr>de_result_videos_2 := []\<rparr>))
      else Inr (True, s\<lparr>de_result_videos_2 := []\<rparr>))"

definition begin_frame :: "env \<Rightarrow> device_stream_data \<Rightarrow> dst_engine \<Rightarrow> border list \<times> dst_engine" where
  "begin_frame ev frame s =
     (let s = push_frame frame s;
          (borders, bl) = load_borders (de_border_filename s) (ev_files ev) (de_loader s)
      in (borders, age_trails (emit (Ensure_Dir RESULT_VIDEO) (s\<lparr>de_loader := bl\<rparr>))))"

definition ProcessResult :: "env \<Rightarrow> device_stream_data \<Rightarrow> dst_engine \<Rightarrow> (bool \<times> dst_engine) outcome" where
  "ProcessResult ev frame s =
     bindR (save_cover ev frame s) (\<lambda>(ok, s).
     if \<not> ok then Inr (False, s)
     else let (borders, s) = begin_frame ev frame s
      in bindR (foldR (step_detection ev frame borders) (sd_detectResult frame) s) (\<lambda>s.
         let result_center = centre_mark s 0
         in bindR (save_region_clip ev result_center s) (\<lambda>(ok, s).
            if \<not> ok then Inr (False, s)
            else bindR (check_lines ev frame borders s) (\<lambda>s.
              bindR (save_border_clip ev (centre_mark s result_center) s) (\<lambda>(ok, s).
                if \<not> ok then Inr (False, s)
                else Inr (True, s\<lparr>de_frame_id := de_frame_id s + 1\<rparr>))))))"

text \<open>The entry point of the engine: \<open>None\<close> is a null argument; the status and the new state.\<close>

definition dst_process :: "env \<Rightarrow> device_stream_data option \<Rightarrow> dst_engine \<Rightarrow> (bool \<times> dst_engine) outcome" where
  "dst_process ev arg0 s =
     (case arg0 of
        None \<Rightarrow> Inr (False, s)
      | Some frame \<Rightarrow>
          if si_isEOS (sd_info frame) \<noteq> 0 then Inr (True, emit Send_End s)
          else ProcessResult ev frame s)"

section \<open>What the alarms leave alone\<close>

text \<open>
  Two states agree on the window (but for the mark of the newest frame) and have the same
  number of trails.
\<close>

definition same_window :: "dst_engine \<Rightarrow> dst_engine \<Rightarrow> bool" where
  "same_window s s' \<longleftrightarrow>
     de_result_videos s' = de_result_videos s \<and>
     (de_result_condition s \<noteq> [] \<longrightarrow>
        de_result_condition s' \<noteq> [] \<and> butlast (de_result_condition s') = butlast (de_result_condition s)) \<and>
     de_frame_id s' = de_frame_id s"

lemma same_window_refl [simp]: "same_window s s"
  by (simp add: same_window_def)

lemma same_window_trans: "same_window s t \<Longrightarrow> same_window t u \<Longrightarrow> same_window s u"
  by (auto simp: same_window_def)

lemma make_and_report_alarm_result:
  assumes "make_and_report_alarm ev frame ip ty s = Inr s'"
  obtains als effs c e where "s' = s\<lparr>de_alarms := de_alarms s @ als, de_effects := de_effects s @ effs, de_clock := c, de_event := e\<rparr>"
    "length als \<le> 1" "\<forall>al \<in> set als. al_type al = ty \<and> al_ipc_ip al = ip"
    "\<And>jpg. GetJpg frame = Inr jpg \<Longrightarrow> length als = (if jpg = [] then 0 else 1)"
proof -
  obtain jpg where j: "GetJpg frame = Inr jpg"
    using assms by (cases "GetJpg frame") (auto simp: make_and_report_alarm_def Let_def)
  show thesis
  proof (cases "jpg = []")
    case True
    with assms j show thesis
      by (intro that [where als = "[]" and effs = "[Spawn_SaveJpg frame (dec_int (ev_ms ev (de_clock s)))]" and c = "de_clock s + 1" and e = "de_event s"])
         (auto simp: make_and_report_alarm_def Let_def emit_def)
  next
    case False
    let ?c = "de_clock s"
    let ?al = "\<lparr>al_req_id = ev_ms ev (?c + 1), al_method = ''report_alarm'', al_ipc_ip = ip,
       al_img = jpg, al_time = ev_str ev (?c + 2), al_type = ty\<rparr>"
    from False assms j show thesis
      by (intro that [where als = "[?al]" and effs = "[Spawn_SaveJpg frame (dec_int (ev_ms ev ?c))]" and c = "?c + 3" and e = True])
         (auto simp: make_and_report_alarm_def Let_def emit_def report_alarm_def)
  qed
qed

lemma region_alarm_keeps:
  assumes "region_alarm ev frame s = Inr s'"
  shows "same_window s s' \<and> de_trails s' = de_trails s"
proof (cases "(de_alarm_flag s + 1) mod SAMPLE_P \<noteq> 1")
  case True
  with assms show ?thesis by (auto simp: region_alarm_def Let_def same_window_def)
next
  case False
  with assms obtain t where "make_and_report_alarm ev frame (de_ip s) ''region'' (mark_frame 1 t) = Inr s'"
    "same_window s t" "de_trails t = de_trails s"
    by (auto simp: region_alarm_def Let_def same_window_def)
  then show ?thesis by (elim make_and_report_alarm_result) (auto simp: mark_frame_def same_window_def)
qed

lemma check_region_keeps:
  assumes "check_region ev frame foot b s = Inr s'"
  shows "same_window s s' \<and> de_trails s' = de_trails s"
  using assms region_alarm_keeps
  by (auto simp: check_region_def bindR_eq_Inr split: if_splits)

lemma check_regions_keep:
  assumes "foldR (check_region ev frame foot) borders s = Inr s'"
  shows "same_window s s' \<and> de_trails s' = de_trails s"
  using assms
proof (rule foldR_invariant [where P = "\<lambda>t. same_window s t \<and> de_trails t = de_trails s"])
  fix b t t' assume "same_window s t \<and> de_trails t = de_trails s" "check_region ev frame foot b t = Inr t'"
  with check_region_keeps show "same_window s t' \<and> de_trails t' = de_trails s"
    by (metis same_window_trans)
qed simp

lemma step_detection_keeps:
  assumes "step_detection ev frame borders det s = Inr s'"
  shows "same_window s s'"
    and "de_trails s' = (if is_person det then assign_detection (foot_of (di_lt det) (di_rb det)) (di_lt det) (di_rb det) (de_trails s)
      else de_trails s)"
proof -
  have "same_window s s' \<and> de_trails s' = (if is_person det then assign_detection (foot_of (di_lt det) (di_rb det)) (di_lt det) (di_rb det) (de_trails s)
      else de_trails s)"
  proof (cases "is_person det")
    case True
    with assms obtain t where t: "foldR (check_region ev frame (foot_of (di_lt det) (di_rb det))) borders s = Inr t"
      "s' = t\<lparr>de_trails := assign_detection (foot_of (di_lt det) (di_rb det)) (di_lt det) (di_rb det) (de_trails t)\<rparr>"
      by (auto simp: step_detection_def Let_def bindR_eq_Inr)
    with check_regions_keep [OF t(1)] True show ?thesis by (auto simp: same_window_def)
  qed (use assms in \<open>auto simp: step_detection_def\<close>)
  then show "same_window s s'"
    "de_trails s' = (if is_person det then assign_detection (foot_of (di_lt det) (di_rb det)) (di_lt det) (di_rb det) (de_trails s)
      else de_trails s)" by auto
qed

definition assign_det :: "detect_info \<Rightarrow> trail list \<Rightarrow> trail list" where
  "assign_det det = assign_detection (foot_of (di_lt det) (di_rb det)) (di_lt det) (di_rb det)"

lemma step_detections_keep:
  assumes "foldR (step_detection ev frame borders) dets s = Inr s'"
  shows "same_window s s' \<and> de_trails s' = fold assign_det (filter is_person dets) (de_trails s)"
  using assms
proof (induction dets arbitrary: s)
  case (Cons det dets)
  then obtain t where t: "step_detection ev frame borders det s = Inr t" "foldR (step_detection ev frame borders) dets t = Inr s'"
    by (auto simp: bindR_eq_Inr)
  from Cons.IH [OF t(2)] step_detection_keeps [OF t(1)] show ?case
    by (auto simp: assign_det_def intro: same_window_trans)
qed simp

lemma border_alarm_keeps:
  assumes "border_alarm ev frame k s = Inr s'"
  shows "same_window s s'" "de_trails s' = (de_trails s)[k := clear_trail (de_trails s ! k)]"
    "\<exists>als. de_alarms s' = de_alarms s @ als \<and> length als \<le> 1"
proof -
  obtain t where t: "make_and_report_alarm ev frame (de_ip s) ''border''
      (mark_frame 2 (s\<lparr>de_videoname_2 := dec_int (de_video_id s), de_video_id := de_video_id s + 1\<rparr>)) = Inr t"
    "s' = t\<lparr>de_trails := (de_trails t)[k := clear_trail (de_trails t ! k)]\<rparr>"
    using assms by (auto simp: border_alarm_def Let_def bindR_eq_Inr)
  from t(1) have "same_window s t \<and> de_trails t = de_trails s \<and> (\<exists>als. de_alarms t = de_alarms s @ als \<and> length als \<le> 1)"
    by (elim make_and_report_alarm_result) (auto simp: mark_frame_def same_window_def)
  with t(2) show "same_window s s'" "de_trails s' = (de_trails s)[k := clear_trail (de_trails s ! k)]"
    "\<exists>als. de_alarms s' = de_alarms s @ als \<and> length als \<le> 1"
    by (auto simp: same_window_def)
qed

lemma check_line_cases:
  assumes "check_line ev frame n k mb s = Inr s'"
  shows "s' = s \<or> (border_alarm ev frame k s = Inr s' \<and> 2 \<le> length (tr_points (de_trails s ! k)))"
  using assms
  by (auto simp: check_line_def Let_def bindR_eq_Inr judge_out_line_def judge_out_broken_line_def
      split: if_splits prod.splits)

text \<open>Clearing trails keeps boxes and flags.\<close>

definition same_boxes :: "trail list \<Rightarrow> trail list \<Rightarrow> bool" where
  "same_boxes ts ts' \<longleftrightarrow> list_all2 (\<lambda>t t'. t' = t \<or> t' = clear_trail t) ts ts'"

lemma clear_trail_clear [simp]: "clear_trail (clear_trail t) = clear_trail t"
  by (simp add: clear_trail_def)

lemma same_boxes_refl [simp]: "same_boxes ts ts"
  by (simp add: same_boxes_def list_all2_refl)

lemma same_boxes_trans: "same_boxes a b \<Longrightarrow> same_boxes b c \<Longrightarrow> same_boxes a c"
  by (fastforce simp: same_boxes_def list_all2_conv_all_nth)

lemma same_boxes_clear: "same_boxes ts (ts[k := clear_trail (ts ! k)])"
  by (cases "k < length ts") (auto simp: same_boxes_def list_all2_conv_all_nth nth_list_update)

lemma check_trail_keeps:
  assumes "check_trail ev frame borders k s = Inr s'"
  shows "same_window s s' \<and> same_boxes (de_trails s) (de_trails s')"
  using assms unfolding check_trail_def
proof (rule foldR_invariant [where P = "\<lambda>t. same_window s t \<and> same_boxes (de_trails s) (de_trails t)"])
  fix mb t t' assume IH: "same_window s t \<and> same_boxes (de_trails s) (de_trails t)"
    and step: "check_line ev frame (length borders) k mb t = Inr t'"
  from check_line_cases [OF step] show "same_window s t' \<and> same_boxes (de_trails s) (de_trails t')"
    using IH border_alarm_keeps(1,2) [of ev frame k t t'] same_boxes_clear [of "de_trails t" k]
    by (auto intro: same_window_trans same_boxes_trans)
qed simp

lemma check_lines_keep:
  assumes "check_lines ev frame borders s = Inr s'"
  shows "same_window s s' \<and> same_boxes (de_trails s) (de_trails s')"
proof (cases "de_trails s \<noteq> [] \<and> de_frame_id s mod SAMPLE_N = 0")
  case True
  with assms have "foldR (check_trail ev frame borders) [0..<length (de_trails s)] s = Inr s'"
    by (simp add: check_lines_def)
  then show ?thesis
    by (rule foldR_invariant [where P = "\<lambda>t. same_window s t \<and> same_boxes (de_trails s) (de_trails t)"])
       (auto dest: check_trail_keeps intro: same_window_trans same_boxes_trans)
next
  case False
  with assms show ?thesis by (auto simp: check_lines_def)
qed


section \<open>Trails\<close>

text \<open>The boxes the trails took in the current frame.\<close>

definition taken :: "trail list \<Rightarrow> (point \<times> point) multiset" where
  "taken ts = mset (map (\<lambda>t. (tr_lt t, tr_rb t)) (filter (\<lambda>t. \<not> tr_insertable t) ts))"

lemma taken_Nil [simp]: "taken [] = {#}"
  by (simp add: taken_def)

lemma taken_Cons: "taken (t # ts) = (if tr_insertable t then taken ts else add_mset (tr_lt t, tr_rb t) (taken ts))"
  by (simp add: taken_def)

lemma taken_snoc: "taken (ts @ [new_trail a b]) = add_mset (a, b) (taken ts)"
  by (simp add: taken_def)

lemma taken_insert:
  "k < length ts \<Longrightarrow> tr_insertable (ts ! k) \<Longrightarrow> taken (ts[k := trail_insert a b (ts ! k)]) = add_mset (a, b) (taken ts)"
proof (induction ts arbitrary: k)
  case (Cons t ts)
  then show ?case by (cases k) (auto simp: taken_Cons)
qed simp

lemma taken_same_boxes: "same_boxes ts ts' \<Longrightarrow> taken ts' = taken ts"
  unfolding same_boxes_def
  by (induction ts ts' rule: list_all2_induct) (auto simp: taken_Cons)

lemma taken_aged: "taken (map update_states_common ts) = {#}"
  by (induction ts) (auto simp: taken_Cons update_states_common_def)

text \<open>The search finds an open trail of greatest weight above the start value, if any.\<close>

lemma best_trail_spec:
  assumes "best_trail ts k a b r tgt = (r', tgt')"
  shows "r \<le> r' \<and> (\<forall>t \<in> set ts. tr_insertable t \<longrightarrow> cal_dis t a b \<le> r') \<and>
    (tgt' = tgt \<and> r' = r \<or>
     (\<exists>i < length ts. tgt' = Some (k + i) \<and> tr_insertable (ts ! i) \<and> cal_dis (ts ! i) a b = r' \<and> r < r'))"
  using assms
proof (induction ts arbitrary: k r tgt)
  case (Cons t ts)
  let ?up = "tr_insertable t \<and> cal_dis t a b > r"
  let ?r = "if ?up then cal_dis t a b else r" and ?tgt = "if ?up then Some k else tgt"
  have "best_trail ts (Suc k) a b ?r ?tgt = (r', tgt')" using Cons.prems by (auto simp: Let_def split: if_splits)
  note IH = Cons.IH [OF this]
  have le: "r \<le> ?r" "tr_insertable t \<longrightarrow> cal_dis t a b \<le> ?r" by auto
  from IH consider (keep) "tgt' = ?tgt" "r' = ?r"
    | (later) i where "i < length ts" "tgt' = Some (Suc k + i)" "tr_insertable (ts ! i)" "cal_dis (ts ! i) a b = r'" "?r < r'"
    by auto
  then show ?case
  proof cases
    case keep
    with IH le show ?thesis by (auto intro: exI [of _ 0])
  next
    case later
    with IH le show ?thesis by (auto intro!: exI [of _ "Suc i"])
  qed
qed simp

lemma assign_detection_cases:
  obtains (new) "assign_detection foot a b ts = ts @ [new_trail a b]"
  | (insert) k where "k < length ts" "tr_insertable (ts ! k)" "assign_detection foot a b ts = ts[k := trail_insert a b (ts ! k)]"
proof -
  obtain r tgt where bt: "best_trail ts 0 a b (THETA - 1) None = (r, tgt)" by fastforce
  show thesis
  proof (cases tgt)
    case None
    with bt new show thesis by (auto simp: assign_detection_def)
  next
    case (Some k)
    with best_trail_spec [OF bt] have "k < length ts" "tr_insertable (ts ! k)" by auto
    moreover from this have "ts \<noteq> []" by auto
    then have "assign_detection foot a b ts = (if THRESOD < r \<or> \<not> near_edge foot then ts[k := trail_insert a b (ts ! k)] else ts @ [new_trail a b])"
      using bt Some by (simp add: assign_detection_def)
    ultimately show thesis using new insert by (cases "THRESOD < r \<or> \<not> near_edge foot") auto
  qed
qed

lemma taken_assign: "taken (assign_detection foot a b ts) = add_mset (a, b) (taken ts)"
  by (cases rule: assign_detection_cases [of foot a b ts]) (auto simp: taken_snoc taken_insert)

lemma taken_assigns:
  "taken (fold assign_det dets ts) = mset (map (\<lambda>d. (di_lt d, di_rb d)) dets) + taken ts"
  by (induction dets arbitrary: ts) (simp_all add: assign_det_def taken_assign)

lemma trails_ok_assign: "\<forall>t \<in> set ts. trail_ok t \<Longrightarrow> \<forall>t \<in> set (assign_detection foot a b ts). trail_ok t"
  by (cases rule: assign_detection_cases [of foot a b ts]) (auto dest!: set_update_subset_insert [THEN subsetD])

lemma trails_ok_assigns: "\<forall>t \<in> set ts. trail_ok t \<Longrightarrow> \<forall>t \<in> set (fold assign_det dets ts). trail_ok t"
proof (induction dets arbitrary: ts)
  case (Cons d dets)
  from Cons.IH [OF trails_ok_assign [OF Cons.prems]] show ?case by (simp add: assign_det_def)
qed simp

lemma trails_ok_same_boxes: "same_boxes ts ts' \<Longrightarrow> \<forall>t \<in> set ts. trail_ok t \<Longrightarrow> \<forall>t \<in> set ts'. trail_ok t"
  unfolding same_boxes_def by (induction ts ts' rule: list_all2_induct) auto

lemma trails_ok_aged: "\<forall>t \<in> set ts. trail_ok t \<Longrightarrow> \<forall>t \<in> set (map update_states_common (filter check_states ts)). trail_ok t"
  by auto

section \<open>One frame as a whole\<close>

definition window_push :: "'a list \<Rightarrow> 'a \<Rightarrow> 'a list" where
  "window_push xs x = (if length xs < 20 then xs @ [x] else tl xs @ [x])"

lemma same_windowD:
  assumes "same_window s s'" "de_result_condition s \<noteq> []"
  shows "de_result_videos s' = de_result_videos s \<and> (\<exists>c. de_result_condition s' = butlast (de_result_condition s) @ [c]) \<and> de_frame_id s' = de_frame_id s"
proof -
  from assms have c: "de_result_condition s' \<noteq> []" "butlast (de_result_condition s') = butlast (de_result_condition s)"
    by (simp_all add: same_window_def)
  have "de_result_condition s' = butlast (de_result_condition s) @ [last (de_result_condition s')]"
    using append_butlast_last_id [OF c(1)] c(2) by simp
  with assms(1) show ?thesis by (auto simp: same_window_def)
qed

definition dst_inv :: "dst_engine \<Rightarrow> bool" where
  "dst_inv s \<longleftrightarrow> length (de_result_condition s) = length (de_result_videos s) \<and> length (de_result_videos s) \<le> 20 \<and>
     (\<forall>t \<in> set (de_trails s). trail_ok t)"

lemma begin_frame_result:
  assumes "begin_frame ev frame s = (borders, t)" "length (de_result_condition s) = length (de_result_videos s)"
    "length (de_result_videos s) \<le> 20"
  shows "de_result_videos t = window_push (de_result_videos s) frame \<and>
    de_result_condition t = window_push (de_result_condition s) 0 \<and>
    de_trails t = map update_states_common (filter check_states (de_trails s)) \<and> de_frame_id t = de_frame_id s \<and>
    de_alarm_flag t = de_alarm_flag s \<and> de_alarms t = de_alarms s"
  using assms
  by (cases "length (de_result_videos s) = 20")
     (auto simp: begin_frame_def Let_def push_frame_def window_push_def age_trails_def emit_def FRAME_RATE_def SAVE_TIME_def tl_append
      split: prod.splits list.splits)

lemma save_region_clip_keeps:
  assumes "save_region_clip ev c s = Inr (ok, s')"
  shows "same_window s s' \<and> de_result_condition s' = de_result_condition s \<and> de_trails s' = de_trails s"
proof (cases "c = 1")
  case True
  obtain v where v: "SaveVideoToJpg ev (de_result_videos s) RESULT_VIDEO_1 (de_videoname_1 s) = Inr v"
    using assms True by (cases "SaveVideoToJpg ev (de_result_videos s) RESULT_VIDEO_1 (de_videoname_1 s)") (auto simp: save_region_clip_def)
  obtain ok' effs q where "v = (ok', effs, q)" by (cases v)
  with assms True v show ?thesis by (cases ok') (auto simp: save_region_clip_def Let_def same_window_def)
next
  case False
  with assms show ?thesis by (auto simp: save_region_clip_def same_window_def)
qed

lemma save_border_clip_keeps:
  assumes "save_border_clip ev c s = Inr (ok, s')"
  shows "same_window s s' \<and> de_result_condition s' = de_result_condition s \<and> de_trails s' = de_trails s"
proof (cases "c = 2")
  case True
  obtain v where v: "SaveVideoToJpg ev (de_result_videos s) RESULT_VIDEO_2 (de_videoname_2 s) = Inr v"
    using assms True by (cases "SaveVideoToJpg ev (de_result_videos s) RESULT_VIDEO_2 (de_videoname_2 s)") (auto simp: save_border_clip_def)
  obtain ok' effs q where "v = (ok', effs, q)" by (cases v)
  with assms True v show ?thesis by (cases ok') (auto simp: save_border_clip_def Let_def same_window_def)
next
  case False
  with assms show ?thesis by (auto simp: save_border_clip_def same_window_def)
qed

text \<open>The stages a frame goes through.\<close>

lemma ProcessResult_stages:
  assumes "ProcessResult ev frame s = Inr (ok, s')"
  obtains (cover) "save_cover ev frame s = Inr (False, s')" "\<not> ok"
  | (region) s1 borders s2 s3 where "save_cover ev frame s = Inr (True, s1)" "begin_frame ev frame s1 = (borders, s2)"
      "foldR (step_detection ev frame borders) (sd_detectResult frame) s2 = Inr s3"
      "save_region_clip ev (centre_mark s3 0) s3 = Inr (False, s')" "\<not> ok"
  | (border) s1 borders s2 s3 s4 s5 s6 where "save_cover ev frame s = Inr (True, s1)" "begin_frame ev frame s1 = (borders, s2)"
      "foldR (step_detection ev frame borders) (sd_detectResult frame) s2 = Inr s3"
      "save_region_clip ev (centre_mark s3 0) s3 = Inr (True, s4)" "check_lines ev frame borders s4 = Inr s5"
      "save_border_clip ev (centre_mark s5 (centre_mark s3 0)) s5 = Inr (ok, s6)"
      "s' = (if ok then s6\<lparr>de_frame_id := de_frame_id s6 + 1\<rparr> else s6)"
proof -
  note def = assms [unfolded ProcessResult_def]
  obtain ok1 s1 where 1: "save_cover ev frame s = Inr (ok1, s1)" using def by (cases "save_cover ev frame s") auto
  obtain borders s2 where 2: "begin_frame ev frame s1 = (borders, s2)" by fastforce
  show thesis
  proof (cases ok1)
    case False
    with def 1 cover show thesis by simp
  next
    case True
    note def = def [unfolded 1 bindR_simps prod.case True [THEN eqTrueI] not_True_eq_False if_False 2 Let_def]
    obtain s3 where 3: "foldR (step_detection ev frame borders) (sd_detectResult frame) s2 = Inr s3"
      using def by (cases "foldR (step_detection ev frame borders) (sd_detectResult frame) s2") auto
    note def = def [unfolded 3 bindR_simps]
    obtain ok4 s4 where 4: "save_region_clip ev (centre_mark s3 0) s3 = Inr (ok4, s4)"
      using def by (cases "save_region_clip ev (centre_mark s3 0) s3") auto
    note def = def [unfolded 4 bindR_simps prod.case]
    show thesis
    proof (cases ok4)
      case False
      with def 4 1 2 3 True region show thesis by auto
    next
      case ok4: True
      note def = def [unfolded ok4 [THEN eqTrueI] not_True_eq_False if_False]
      obtain s5 where 5: "check_lines ev frame borders s4 = Inr s5" using def by (cases "check_lines ev frame borders s4") auto
      note def = def [unfolded 5 bindR_simps]
      obtain ok6 s6 where 6: "save_border_clip ev (centre_mark s5 (centre_mark s3 0)) s5 = Inr (ok6, s6)"
        using def by (cases "save_border_clip ev (centre_mark s5 (centre_mark s3 0)) s5") auto
      note def = def [unfolded 6 bindR_simps prod.case]
      show thesis
        by (rule border [of s1 borders s2 s3 s4 s5 s6]) (use def 1 2 3 4 5 6 True ok4 in \<open>auto split: if_splits\<close>)
    qed
  qed
qed

text \<open>Everything a processed frame does to the window and the trails.\<close>

lemma save_cover_keeps:
  assumes "save_cover ev frame s = Inr (ok, s1)"
  shows "de_result_videos s1 = de_result_videos s \<and> de_result_condition s1 = de_result_condition s \<and> de_trails s1 = de_trails s \<and> (ok \<or> s1 = s)"
proof (cases "de_frame_id s = 0 \<and> ev_opens ev (de_cover_path s)")
  case True
  with assms show ?thesis by (cases "frame_bytes frame") (auto simp: save_cover_def emit_def)
next
  case False
  with assms show ?thesis by (auto simp: save_cover_def split: if_splits)
qed

lemma ProcessResult_cases:
  assumes pr: "ProcessResult ev frame s = Inr (ok, s')" and len: "length (de_result_condition s) = length (de_result_videos s)"
    "length (de_result_videos s) \<le> 20"
  obtains (cover) "\<not> ok" "s' = s"
  | (frame) ts c where "ts = fold assign_det (filter is_person (sd_detectResult frame))
        (map update_states_common (filter check_states (de_trails s)))"
      "same_boxes ts (de_trails s')" "de_result_videos s' = window_push (de_result_videos s) frame"
      "de_result_condition s' = window_push (de_result_condition s) c"
proof -
  let ?ts = "fold assign_det (filter is_person (sd_detectResult frame)) (map update_states_common (filter check_states (de_trails s)))"
  have push: "butlast (window_push xs x) @ [c] = window_push xs c" "window_push xs x \<noteq> []" for xs :: "int list" and x c
    by (simp_all add: window_push_def)
  have beg: "same_window s2 s3 \<and> de_trails s3 = ?ts \<and> de_result_videos s2 = window_push (de_result_videos s) frame \<and>
      de_result_condition s2 = window_push (de_result_condition s) 0"
    if "save_cover ev frame s = Inr (True, s1)" "begin_frame ev frame s1 = (borders, s2)"
      "foldR (step_detection ev frame borders) (sd_detectResult frame) s2 = Inr s3" for s1 borders s2 s3
    using save_cover_keeps [OF that(1)] begin_frame_result [OF that(2)] step_detections_keep [OF that(3)] len by auto
  have fin: thesis if "same_window s2 t" "same_boxes ?ts (de_trails t)" "de_result_videos s2 = window_push (de_result_videos s) frame"
      "de_result_condition s2 = window_push (de_result_condition s) 0"
      "de_result_videos s' = de_result_videos t" "de_result_condition s' = de_result_condition t" "de_trails s' = de_trails t" for s2 t
  proof -
    from same_windowD [OF that(1)] that(4) push obtain c where "de_result_condition t = window_push (de_result_condition s) c"
      "de_result_videos t = de_result_videos s2" by metis
    with that show thesis by (intro frame [of ?ts c]) auto
  qed
  from pr show thesis
  proof (cases rule: ProcessResult_stages)
    case cover
    with save_cover_keeps [OF cover(1)] that(1) show thesis by auto
  next
    case (region s1 borders s2 s3)
    with beg [OF region(1,2,3)] save_region_clip_keeps [OF region(4)] show thesis
      by (intro fin [of s2 s']) (auto intro: same_window_trans)
  next
    case (border s1 borders s2 s3 s4 s5 s6)
    with beg [OF border(1,2,3)] save_region_clip_keeps [OF border(4)] check_lines_keep [OF border(5)] save_border_clip_keeps [OF border(6)]
    show thesis by (intro fin [of s2 s6]) (auto intro: same_window_trans)
  qed
qed


lemma dst_inv_ProcessResult:
  assumes "ProcessResult ev frame s = Inr (ok, s')" "dst_inv s"
  shows "dst_inv s'"
proof -
  from assms(2) have len: "length (de_result_condition s) = length (de_result_videos s)" "length (de_result_videos s) \<le> 20"
    and oks: "\<forall>t \<in> set (de_trails s). trail_ok t" by (simp_all add: dst_inv_def)
  from assms(1) len show ?thesis
  proof (cases rule: ProcessResult_cases)
    case cover
    with assms(2) show ?thesis by simp
  next
    case (frame ts c)
    have "\<forall>t \<in> set ts. trail_ok t" unfolding frame(1) by (intro trails_ok_assigns trails_ok_aged oks)
    with frame trails_ok_same_boxes len show ?thesis by (auto simp: dst_inv_def window_push_def)
  qed
qed

text \<open>The engine as a machine over its inputs; a fault leaves the state.\<close>

definition dst_step :: "env \<times> device_stream_data option \<Rightarrow> dst_engine \<Rightarrow> dst_engine" where
  "dst_step i s = (case dst_process (fst i) (snd i) s of Inl _ \<Rightarrow> s | Inr (ok, s') \<Rightarrow> s')"

lemma dst_inv_step: "dst_inv s \<Longrightarrow> dst_inv (dst_step i s)"
proof -
  assume inv: "dst_inv s"
  show ?thesis
  proof (cases "dst_process (fst i) (snd i) s")
    case (Inl e)
    with inv show ?thesis by (simp add: dst_step_def)
  next
    case (Inr r)
    obtain ok s' where r: "r = (ok, s')" by fastforce
    have "dst_inv s'"
    proof (cases "snd i")
      case None
      with Inr r inv show ?thesis by (simp add: dst_process_def)
    next
      case (Some frame)
      with Inr r inv show ?thesis
        by (auto simp: dst_process_def emit_def dst_inv_def split: if_splits dest: dst_inv_ProcessResult [unfolded dst_inv_def])
    qed
    with Inr r show ?thesis by (simp add: dst_step_def)
  qed
qed

interpretation dst: invariant_step dst_step dst_inv
  by unfold_locales (rule dst_inv_step)

section \<open>Sampling of region alarms\<close>

lemma unat_small: "n < 2 ^ 32 \<Longrightarrow> unat (of_nat n :: u32) = n"
  by (simp add: unat_of_nat)

lemma flag_mod:
  assumes "Suc k < 2 ^ 32"
  shows "((of_nat k :: u32) + 1) mod SAMPLE_P = 1 \<longleftrightarrow> Suc k mod 6 = 1"
proof -
  have u: "(of_nat k :: u32) + 1 = of_nat (Suc k)" by simp
  have "unat ((of_nat (Suc k) :: u32) mod 6) = Suc k mod 6"
    using unat_small [OF assms] by (simp only: unat_mod) simp
  moreover have "((of_nat (Suc k) :: u32) mod 6 = 1) \<longleftrightarrow> unat ((of_nat (Suc k) :: u32) mod 6) = 1"
    by (simp add: word_unat_eq_iff)
  ultimately show ?thesis unfolding u SAMPLE_P_def by simp
qed

definition region_hits :: "env \<Rightarrow> device_stream_data \<Rightarrow> nat \<Rightarrow> dst_engine \<Rightarrow> dst_engine outcome" where
  "region_hits ev frame k s = foldR (\<lambda>_. region_alarm ev frame) (replicate k ()) s"

lemma make_and_report_alarm_ok:
  assumes "GetJpg frame = Inr jpg" "jpg \<noteq> []"
  shows "\<exists>s'. make_and_report_alarm ev frame ip ty s = Inr s' \<and> length (de_alarms s') = Suc (length (de_alarms s)) \<and>
    de_alarm_flag s' = de_alarm_flag s"
  using assms by (simp add: make_and_report_alarm_def Let_def report_alarm_def emit_def)

lemma region_alarm_counts:
  assumes "GetJpg frame = Inr jpg" "jpg \<noteq> []" "de_alarm_flag s = of_nat k" "Suc k < 2 ^ 32"
  shows "\<exists>s'. region_alarm ev frame s = Inr s' \<and> de_alarm_flag s' = of_nat (Suc k) \<and>
    length (de_alarms s') = length (de_alarms s) + (if Suc k mod 6 = 1 then 1 else 0)"
proof -
  have flag: "de_alarm_flag s + 1 = of_nat (Suc k)" using assms(3) by simp
  show ?thesis
  proof (cases "Suc k mod 6 = 1")
    case False
    with flag_mod [OF assms(4)] assms(3) have "(de_alarm_flag s + 1) mod SAMPLE_P \<noteq> 1" by simp
    with False flag show ?thesis by (simp add: region_alarm_def Let_def)
  next
    case True
    with flag_mod [OF assms(4)] assms(3) have "(de_alarm_flag s + 1) mod SAMPLE_P = 1" by simp
    then have "region_alarm ev frame s = make_and_report_alarm ev frame (de_ip s) ''region''
        (mark_frame 1 (s\<lparr>de_alarm_flag := de_alarm_flag s + 1, de_videoname_1 := dec_int (de_video_id s), de_video_id := de_video_id s + 1\<rparr>))"
      by (simp add: region_alarm_def Let_def)
    with make_and_report_alarm_ok [OF assms(1,2), of ev "de_ip s" "''region''"
        "mark_frame 1 (s\<lparr>de_alarm_flag := de_alarm_flag s + 1, de_videoname_1 := dec_int (de_video_id s), de_video_id := de_video_id s + 1\<rparr>)"]
      True flag show ?thesis by (auto simp: mark_frame_def add.commute)
  qed
qed

lemma region_hits_count:
  assumes "GetJpg frame = Inr jpg" "jpg \<noteq> []" "de_alarm_flag s = 0" "k < 2 ^ 32"
  shows "\<exists>s'. region_hits ev frame k s = Inr s' \<and> de_alarm_flag s' = of_nat k \<and>
    length (de_alarms s') = length (de_alarms s) + (k + 5) div 6"
  using assms(4)
proof (induction k)
  case 0
  with assms(3) show ?case by (simp add: region_hits_def)
next
  case (Suc k)
  then obtain t where t: "region_hits ev frame k s = Inr t" "de_alarm_flag t = of_nat k"
    "length (de_alarms t) = length (de_alarms s) + (k + 5) div 6" by auto
  from region_alarm_counts [OF assms(1,2) t(2) Suc.prems] obtain s' where s': "region_alarm ev frame t = Inr s'"
    "de_alarm_flag s' = of_nat (Suc k)" "length (de_alarms s') = length (de_alarms t) + (if Suc k mod 6 = 1 then 1 else 0)" by blast
  have "replicate (Suc k) () = replicate k () @ [()]" by (simp add: replicate_append_same)
  then have "region_hits ev frame (Suc k) s = Inr s'"
    using t(1) s'(1) by (simp only: region_hits_def foldR_append bindR_simps foldR.simps)
  moreover have "(Suc k + 5) div 6 = (k + 5) div 6 + (if Suc k mod 6 = 1 then 1 else 0)" by presburger
  ultimately show ?case using s' t by auto
qed

section \<open>Clips\<close>

lemma video_loop_ok:
  assumes "\<And>i. i \<in> set is \<Longrightarrow> ev_opens ev (folder @ dec_pad 3 (i + 1) @ ''.jpg'')"
    and "\<And>v. v \<in> set q \<Longrightarrow> frame_bytes v = Inr (bytes v)" "length is \<le> length q"
  shows "video_loop ev folder is effs q =
    Inr (True, effs @ map2 (\<lambda>i v. Write_File (folder @ dec_pad 3 (i + 1) @ ''.jpg'') (bytes v)) is (take (length is) q),
      drop (length is) q @ take (length is) q)"
  using assms
proof (induction "is" arbitrary: effs q)
  case (Cons i "is")
  then obtain v r where q: "q = v # r" by (cases q) auto
  have "video_loop ev folder is (effs @ [Write_File (folder @ dec_pad 3 (i + 1) @ ''.jpg'') (bytes v)]) (r @ [v]) =
    Inr (True, (effs @ [Write_File (folder @ dec_pad 3 (i + 1) @ ''.jpg'') (bytes v)]) @
        map2 (\<lambda>i v. Write_File (folder @ dec_pad 3 (i + 1) @ ''.jpg'') (bytes v)) is (take (length is) (r @ [v])),
      drop (length is) (r @ [v]) @ take (length is) (r @ [v]))"
    using Cons.prems q by (intro Cons.IH) auto
  moreover have "length is \<le> length r" using Cons.prems(3) q by simp
  ultimately show ?case using Cons.prems q by simp
qed simp

lemma SaveVideoToJpg_ok:
  assumes "\<And>i. i < 20 \<Longrightarrow> ev_opens ev (folder @ dec_pad 3 (i + 1) @ ''.jpg'')"
    and "\<And>v. v \<in> set q \<Longrightarrow> frame_bytes v = Inr (bytes v)" "length q = 20"
  shows "SaveVideoToJpg ev q folder name =
    Inr (True, [Ensure_Dir folder] @ map2 (\<lambda>i v. Write_File (folder @ dec_pad 3 (i + 1) @ ''.jpg'') (bytes v)) [0..<20] q @
      [Run_Shell (''./saveVideo.sh '' @ name @ ''&'')], q)"
  using video_loop_ok [of "[0..<20]" ev folder q bytes "[Ensure_Dir folder]"] assms
  by (simp add: SaveVideoToJpg_def FRAME_RATE_def SAVE_TIME_def del: upt_conv_Cons upt_rec_numeral)

text \<open>A run of frames that are all processed without an error.\<close>

fun run_frames :: "(env \<times> device_stream_data) list \<Rightarrow> dst_engine \<Rightarrow> dst_engine option" where
  "run_frames [] s = Some s"
| "run_frames ((ev, frame) # fs) s =
     (case ProcessResult ev frame s of
        Inl _ \<Rightarrow> None
      | Inr (ok, t) \<Rightarrow> if ok then run_frames fs t else None)"

lemma run_frames_window:
  assumes "dst_inv s" "length (de_result_videos s) = 20" "run_frames fs s = Some s'" "length fs \<le> 20"
  shows "de_result_videos s' = drop (length fs) (de_result_videos s) @ map snd fs \<and>
    length (de_result_condition s') = 20 \<and>
    take (20 - length fs) (de_result_condition s') = drop (length fs) (de_result_condition s)"
  using assms
proof (induction fs arbitrary: s)
  case Nil
  then show ?case by (auto simp: dst_inv_def)
next
  case (Cons f fs)
  obtain ev frame where f: "f = (ev, frame)" by fastforce
  with Cons.prems(3) obtain t where t: "ProcessResult ev frame s = Inr (True, t)" "run_frames fs t = Some s'"
    by (auto split: sum.splits prod.splits if_splits)
  have len: "length (de_result_condition s) = length (de_result_videos s)" "length (de_result_videos s) \<le> 20"
    using Cons.prems(1) by (simp_all add: dst_inv_def)
  from t(1) len obtain c where w: "de_result_videos t = tl (de_result_videos s) @ [frame]"
    "de_result_condition t = tl (de_result_condition s) @ [c]"
    using Cons.prems(2) len by (elim ProcessResult_cases) (auto simp: window_push_def)
  have "dst_inv t" using t(1) Cons.prems(1) by (rule dst_inv_ProcessResult)
  moreover have "length (de_result_videos t) = 20" using w Cons.prems(2) by simp
  ultimately have IH: "de_result_videos s' = drop (length fs) (de_result_videos t) @ map snd fs"
    "length (de_result_condition s') = 20" "take (20 - length fs) (de_result_condition s') = drop (length fs) (de_result_condition t)"
    using Cons.IH [of t] t(2) Cons.prems(4) by auto
  have "length (tl (de_result_videos s)) = 19" "length (tl (de_result_condition s)) = 19" "length fs \<le> 19"
    using Cons.prems len by auto
  moreover have "take (20 - length (f # fs)) (de_result_condition s') = take (19 - length fs) (take (20 - length fs) (de_result_condition s'))"
    by (simp add: min_def)
  ultimately show ?case using IH w f by (simp add: drop_Suc)
qed


section \<open>Trails against lines\<close>

lemma check_trail_alarms:
  assumes "check_trail ev frame borders k s = Inr s'" "k < length (de_trails s)"
  shows "length (de_alarms s') \<le> Suc (length (de_alarms s))"
proof -
  let ?P = "\<lambda>t. length (de_trails t) = length (de_trails s) \<and>
    (de_alarms t = de_alarms s \<or> length (de_alarms t) \<le> Suc (length (de_alarms s)) \<and> length (tr_points (de_trails t ! k)) = 1)"
  have "?P s'"
    using assms(1) unfolding check_trail_def
  proof (rule foldR_invariant [where P = ?P])
    fix mb t t' assume P: "?P t" and step: "check_line ev frame (length borders) k mb t = Inr t'"
    from check_line_cases [OF step] show "?P t'"
    proof
      assume "border_alarm ev frame k t = Inr t' \<and> 2 \<le> length (tr_points (de_trails t ! k))"
      with P assms(2) border_alarm_keeps [of ev frame k t t'] show ?thesis by auto
    qed (use P in simp)
  qed simp
  then show ?thesis by auto
qed

lemma same_boxes_length: "same_boxes ts ts' \<Longrightarrow> length ts' = length ts"
  by (simp add: same_boxes_def list_all2_lengthD)

lemma check_trails_alarms:
  assumes "foldR (check_trail ev frame borders) ks s = Inr s'" "\<forall>k \<in> set ks. k < length (de_trails s)"
  shows "length (de_alarms s') \<le> length (de_alarms s) + length ks"
  using assms
proof (induction ks arbitrary: s)
  case (Cons k ks)
  then obtain t where t: "check_trail ev frame borders k s = Inr t" "foldR (check_trail ev frame borders) ks t = Inr s'"
    by (auto simp: bindR_eq_Inr)
  have "length (de_trails t) = length (de_trails s)" using check_trail_keeps [OF t(1)] same_boxes_length by blast
  with Cons t(2) have "length (de_alarms s') \<le> length (de_alarms t) + length ks" by simp
  with check_trail_alarms [OF t(1)] Cons.prems(2) show ?case by simp
qed simp

section \<open>Sample data\<close>

definition sample_frame :: device_stream_data where
  "sample_frame =
     \<lparr>sd_info = \<lparr>si_frameId = 1, si_mode = 0, si_format = 0, si_channelId = 0, si_isEOS = 0, si_table = []\<rparr>,
      sd_action = doAll,
      sd_detectResult = [\<lparr>di_classId = 1, di_confidence = 1, di_lt = \<lparr>pt_x = 600, pt_y = 400\<rparr>, di_rb = \<lparr>pt_x = 700, pt_y = 600\<rparr>\<rparr>],
      sd_imgOrigin = \<lparr>im_format = 0, im_width = 1920, im_height = 1080, im_widthAligned = 1920, im_heightAligned = 1080,
        im_buf = \<lparr>rb_data = Some [1, 2, 3], rb_len_of_byte = 3\<rparr>\<rparr>\<rparr>"

definition sample_env :: env where
  "sample_env = \<lparr>ev_opens = (\<lambda>_. True), ev_files = (\<lambda>_. None), ev_ms = int, ev_str = dec_nat, ev_z = (\<lambda>_ _ _. 0)\<rparr>"

definition engine_with :: "trail list \<Rightarrow> device_stream_data list \<Rightarrow> int list \<Rightarrow> dst_engine" where
  "engine_with ts vs cs =
     \<lparr>de_video_id = 1, de_frame_id = 1, de_trails = ts, de_result_condition = cs, de_result_videos = vs,
      de_result_videos_1 = [], de_result_videos_2 = [], de_cover_path = ''/home/cover.jpg'', de_alarm_flag = 0,
      de_alarms = [], de_event = False, de_stop = False, de_ip = ''192.168.1.65'', de_client_ip = [],
      de_border_filename = [], de_videoname_1 = [], de_videoname_2 = [], de_loader = \<lparr>bl_borders = JNull\<rparr>,
      de_effects = [], de_clock = 0\<rparr>"

lemma sample_GetJpg: "GetJpg sample_frame = Inr ''AQID''"
proof -
  have "base64_encode [1, 2, 3] = ''AQID''" by code_simp
  then show ?thesis
    by (simp add: GetJpg_def sample_frame_def is_person_def PERSON_LABEL_def frame_bytes_def buffer_bytes_def)
qed

text \<open>A frame whose borders file is missing: the detections are only assigned to trails.\<close>

lemma no_borders: "load_borders name (\<lambda>_. None) bl = ([], bl\<lparr>bl_borders := JArray []\<rparr>)"
proof -
  have "json_parse [] [] STANDARD = Some (JNull, ''unexpected end of input'')" by code_simp
  then show ?thesis by (simp add: load_borders_def file_text_def parse_borders_def json_read_def)
qed

lemma set_tl_in: "c \<in> set (tl xs) \<Longrightarrow> c \<in> set xs"
  by (cases xs) auto

text \<open>In a window without marks, an unmarked frame is processed without a fault.\<close>

lemma sample_ProcessResult:
  assumes "de_frame_id s \<noteq> 0" "\<forall>c \<in> set (de_result_condition s). c = 0" "length (de_result_condition s) = length (de_result_videos s)"
    "length (de_result_videos s) \<le> 20"
  shows "\<exists>s'. ProcessResult sample_env sample_frame s = Inr (True, s') \<and> de_frame_id s' = de_frame_id s + 1 \<and>
    (\<forall>c \<in> set (de_result_condition s'). c = 0)"
proof -
  obtain s2 where b: "begin_frame sample_env sample_frame s = ([], s2)"
    by (auto simp: begin_frame_def Let_def no_borders sample_env_def)
  note r = begin_frame_result [OF b assms(3,4)]
  let ?d = "\<lparr>di_classId = 1, di_confidence = 1, di_lt = \<lparr>pt_x = 600, pt_y = 400\<rparr>, di_rb = \<lparr>pt_x = 700, pt_y = 600\<rparr>\<rparr> :: detect_info"
  have d: "sd_detectResult sample_frame = [?d]" by (simp add: sample_frame_def)
  let ?s3 = "s2\<lparr>de_trails := assign_det ?d (de_trails s2)\<rparr>"
  have s3: "foldR (step_detection sample_env sample_frame []) (sd_detectResult sample_frame) s2 = Inr ?s3"
    unfolding d by (simp add: step_detection_def assign_det_def is_person_def PERSON_LABEL_def Let_def)
  have zero: "\<forall>c \<in> set (de_result_condition ?s3). c = 0"
    using r assms(2) by (auto simp: window_push_def dest: set_tl_in split: if_splits)
  then have c: "centre_mark ?s3 0 = 0" by (simp add: centre_mark_def FRAME_RATE_def SAVE_TIME_def)
  then have s4: "save_region_clip sample_env (centre_mark ?s3 0) ?s3 = Inr (True, ?s3\<lparr>de_result_videos_1 := []\<rparr>)"
    by (simp add: save_region_clip_def)
  have "foldR (check_trail sample_env sample_frame []) ks t = Inr t" for ks t
    by (induction ks arbitrary: t) (simp_all add: check_trail_def)
  then have s5: "check_lines sample_env sample_frame [] t = Inr t" for t by (simp add: check_lines_def)
  have c': "centre_mark (?s3\<lparr>de_result_videos_1 := []\<rparr>) (centre_mark ?s3 0) = 0"
    using zero unfolding c by (simp add: centre_mark_def FRAME_RATE_def SAVE_TIME_def)
  have "ProcessResult sample_env sample_frame s =
    Inr (True, ?s3\<lparr>de_result_videos_1 := [], de_result_videos_2 := [], de_frame_id := de_frame_id s2 + 1\<rparr>)"
    unfolding ProcessResult_def using assms(1) b s3 s4 s5 c'
    by (simp add: save_cover_def Let_def save_border_clip_def)
  with r zero show ?thesis by simp
qed


section \<open>Properties\<close>

text \<open>
  C1. After a processed frame the boxes of the persons detected in it are exactly the boxes
  of the trails extended or started in it: every detection is in one trail, no trail
  takes two, whatever the borders, alarms and weights.
\<close>

theorem detections_conserved:
  assumes "dst_inv s" "ProcessResult ev frame s = Inr (True, s')"
  shows "mset (map (\<lambda>t. (tr_lt t, tr_rb t)) (filter (\<lambda>t. \<not> tr_insertable t) (de_trails s'))) =
    mset (map (\<lambda>d. (di_lt d, di_rb d)) (filter is_person (sd_detectResult frame)))"
proof -
  from assms have "length (de_result_condition s) = length (de_result_videos s)" "length (de_result_videos s) \<le> 20"
    by (simp_all add: dst_inv_def)
  with assms(2) have "taken (de_trails s') = mset (map (\<lambda>d. (di_lt d, di_rb d)) (filter is_person (sd_detectResult frame)))"
    by (elim ProcessResult_cases) (auto simp: taken_same_boxes taken_assigns taken_aged)
  then show ?thesis by (simp add: taken_def)
qed

theorem detections_conserved_witness:
  "\<exists>s'. ProcessResult sample_env sample_frame (engine_with [] [] []) = Inr (True, s') \<and>
     size (mset (map (\<lambda>t. (tr_lt t, tr_rb t)) (filter (\<lambda>t. \<not> tr_insertable t) (de_trails s')))) = 1"
proof -
  have inv: "dst_inv (engine_with [] [] [])" by (simp add: dst_inv_def engine_with_def)
  obtain s' where p: "ProcessResult sample_env sample_frame (engine_with [] [] []) = Inr (True, s')"
    using sample_ProcessResult [of "engine_with [] [] []"] by (auto simp: engine_with_def)
  have "filter is_person (sd_detectResult sample_frame) = sd_detectResult sample_frame"
    by (simp add: sample_frame_def is_person_def PERSON_LABEL_def)
  then have "size (mset (map (\<lambda>d. (di_lt d, di_rb d)) (filter is_person (sd_detectResult sample_frame)))) = 1"
    by (simp add: sample_frame_def)
  then have "size (mset (map (\<lambda>t. (tr_lt t, tr_rb t)) (filter (\<lambda>t. \<not> tr_insertable t) (de_trails s')))) = 1"
    unfolding detections_conserved [OF inv p] .
  with p show ?thesis by blast
qed

text \<open>
  C4. Whatever frames, end-of-stream marks and null arguments the engine is given, and
  whatever the environment does, the window keeps one mark per frame and at most twenty
  frames, and every trail keeps an age of at most 120 frames and 1 to 60 points.
\<close>

theorem engine_invariant:
  assumes "dst_inv s"
  shows "dst_inv (fold dst_step inputs s)"
  using assms by (rule dst.inv_fold)

theorem engine_invariant_witness:
  "dst_inv (fold dst_step [(sample_env, Some sample_frame), (sample_env, None)] (engine_with [] [] []))"
  by (rule engine_invariant) (simp add: dst_inv_def engine_with_def)

text \<open>
  C9. With a full window, nine frames processed after a frame put that frame at the centre
  of the window with its mark: the clip saved for an alarm shows the ten frames before it
  and the nine after it.
\<close>

theorem clip_is_centred:
  assumes "dst_inv s" "length (de_result_videos s) = 20" "length fs = 9" "run_frames fs s = Some s'"
  shows "centre_mark s' 0 = last (de_result_condition s) \<and> de_result_videos s' ! 10 = last (de_result_videos s) \<and>
    take 11 (de_result_videos s') = drop 9 (de_result_videos s) \<and> drop 11 (de_result_videos s') = map snd fs"
proof -
  have w: "de_result_videos s' = drop 9 (de_result_videos s) @ map snd fs" "length (de_result_condition s') = 20"
    "take 11 (de_result_condition s') = drop 9 (de_result_condition s)"
    using run_frames_window [OF assms(1,2,4)] assms(3) by auto
  have len: "length (de_result_condition s) = 20" using assms(1,2) by (simp add: dst_inv_def)
  have "de_result_condition s' ! 10 = take 11 (de_result_condition s') ! 10" by simp
  also have "\<dots> = last (de_result_condition s)"
    unfolding w(3) using len by (subst last_conv_nth) auto
  finally have "de_result_condition s' ! 10 = last (de_result_condition s)" .
  moreover have "de_result_videos s' ! 10 = last (de_result_videos s)"
    using assms(2) w(1) by (subst last_conv_nth) (auto simp: nth_append)
  ultimately show ?thesis using w assms(2) by (simp add: centre_mark_def FRAME_RATE_def SAVE_TIME_def)
qed

lemma sample_run_frames:
  assumes "de_frame_id s \<noteq> 0" "unat (de_frame_id s) + n < 2 ^ 32" "\<forall>c \<in> set (de_result_condition s). c = 0" "dst_inv s"
  shows "\<exists>s'. run_frames (replicate n (sample_env, sample_frame)) s = Some s'"
  using assms
proof (induction n arbitrary: s)
  case (Suc n)
  have len: "length (de_result_condition s) = length (de_result_videos s)" "length (de_result_videos s) \<le> 20"
    using Suc.prems(4) by (simp_all add: dst_inv_def)
  obtain t where t: "ProcessResult sample_env sample_frame s = Inr (True, t)" "de_frame_id t = de_frame_id s + 1"
    "\<forall>c \<in> set (de_result_condition t). c = 0"
    using sample_ProcessResult [OF Suc.prems(1,3) len] by auto
  have "unat (de_frame_id s + 1) = Suc (unat (de_frame_id s))"
    using Suc.prems(2) by (simp add: unat_word_ariths)
  then have "de_frame_id t \<noteq> 0" "unat (de_frame_id t) + n < 2 ^ 32" using t(2) Suc.prems(2) by auto
  with Suc.IH [of t] t Suc.prems(4) dst_inv_ProcessResult [OF t(1)] show ?case by simp
qed simp

theorem clip_is_centred_witness:
  "\<exists>s'. run_frames (replicate 9 (sample_env, sample_frame))
      (engine_with [] (replicate 19 (sample_frame\<lparr>sd_action := doNothing\<rparr>) @ [sample_frame]) (replicate 20 0)) = Some s' \<and>
    de_result_videos s' ! 10 = sample_frame"
proof -
  let ?s = "engine_with [] (replicate 19 (sample_frame\<lparr>sd_action := doNothing\<rparr>) @ [sample_frame]) (replicate 20 0)"
  have inv: "dst_inv ?s" "length (de_result_videos ?s) = 20" by (simp_all add: dst_inv_def engine_with_def)
  have "\<exists>s'. run_frames (replicate 9 (sample_env, sample_frame)) ?s = Some s'"
    using inv by (intro sample_run_frames) (auto simp: engine_with_def)
  then obtain s' where r: "run_frames (replicate 9 (sample_env, sample_frame)) ?s = Some s'" ..
  from clip_is_centred [OF inv _ r] have "de_result_videos s' ! 10 = last (de_result_videos ?s)" by simp
  with r show ?thesis by (auto simp: engine_with_def)
qed

text \<open>
  Of \<open>k\<close> region hits counted from a reset counter, the first and then every sixth one
  is reported, \<open>(k + 5) div 6\<close> alarms in all, as long as the counter does not wrap.
\<close>

theorem region_alarm_sampling:
  assumes "GetJpg frame = Inr jpg" "jpg \<noteq> []" "de_alarm_flag s = 0" "k < 2 ^ 32"
  shows "\<exists>s'. region_hits ev frame k s = Inr s' \<and> length (de_alarms s') = length (de_alarms s) + (k + 5) div 6"
  using region_hits_count [OF assms] by blast

theorem region_alarm_sampling_witness:
  "\<exists>s'. region_hits sample_env sample_frame 13 (engine_with [] [] []) = Inr s' \<and> length (de_alarms s') = 3"
  using region_alarm_sampling [OF sample_GetJpg, of "engine_with [] [] []" 13 sample_env]
  by (simp add: engine_with_def)

text \<open>
  One frame raises at most one border alarm per trail: an alarm cuts the trail to one
  point, and a trail of one point crosses no line.
\<close>

theorem border_alarms_bounded:
  assumes "check_lines ev frame borders s = Inr s'"
  shows "length (de_alarms s') \<le> length (de_alarms s) + length (de_trails s)"
proof (cases "de_trails s \<noteq> [] \<and> de_frame_id s mod SAMPLE_N = 0")
  case True
  with assms have "foldR (check_trail ev frame borders) [0..<length (de_trails s)] s = Inr s'" by (simp add: check_lines_def)
  from check_trails_alarms [OF this] show ?thesis by simp
next
  case False
  with assms show ?thesis by (auto simp: check_lines_def)
qed

theorem border_alarms_bounded_witness:
  "\<exists>s'. check_lines sample_env sample_frame [] (engine_with [new_trail \<lparr>pt_x = 0, pt_y = 0\<rparr> \<lparr>pt_x = 9, pt_y = 9\<rparr>] [] []) = Inr s' \<and>
    length (de_alarms s') \<le> 1"
proof -
  let ?s = "engine_with [new_trail \<lparr>pt_x = 0, pt_y = 0\<rparr> \<lparr>pt_x = 9, pt_y = 9\<rparr>] [] []"
  have r: "check_lines sample_env sample_frame [] ?s = Inr ?s"
    by (simp add: check_lines_def check_trail_def engine_with_def SAMPLE_N_def)
  from border_alarms_bounded [OF this] r show ?thesis by (simp add: engine_with_def)
qed

text \<open>
  C35. In a 1920 by 1080 frame, a person away from the edges never starts a trail while some
  trail is open: the detection extends an open trail of greatest weight.
\<close>

theorem inner_person_extends_best_trail:
  assumes "box_in 1920 1080 a b" "\<forall>t \<in> set ts. box_in 1920 1080 (tr_lt t) (tr_rb t)" "\<exists>t \<in> set ts. tr_insertable t"
    and "\<not> near_edge foot"
  shows "\<exists>k < length ts. tr_insertable (ts ! k) \<and> assign_detection foot a b ts = ts[k := trail_insert a b (ts ! k)] \<and>
    (\<forall>t \<in> set ts. tr_insertable t \<longrightarrow> cal_dis t a b \<le> cal_dis (ts ! k) a b)"
proof -
  obtain r tgt where bt: "best_trail ts 0 a b (THETA - 1) None = (r, tgt)" by fastforce
  note spec = best_trail_spec [OF bt]
  from assms(3) obtain t where t: "t \<in> set ts" "tr_insertable t" by blast
  with assms(1,2) have "THETA - 1 < cal_dis t a b" by (intro cal_dis_frame) auto
  moreover have "cal_dis t a b \<le> r" using spec t by blast
  ultimately obtain k where k: "tgt = Some k" "k < length ts" "tr_insertable (ts ! k)" "cal_dis (ts ! k) a b = r"
    using spec by auto
  have "ts \<noteq> []" using t by auto
  then have "assign_detection foot a b ts = ts[k := trail_insert a b (ts ! k)]"
    using bt k assms(4) by (simp add: assign_detection_def)
  with k spec show ?thesis by blast
qed

theorem inner_person_extends_best_trail_witness:
  "let t = open_insertable (new_trail \<lparr>pt_x = 0, pt_y = 0\<rparr> \<lparr>pt_x = 9, pt_y = 9\<rparr>); a = \<lparr>pt_x = 900, pt_y = 400\<rparr>; b = \<lparr>pt_x = 1000, pt_y = 600\<rparr>
   in assign_detection (foot_of a b) a b [t] = [trail_insert a b t]"
proof -
  let ?t = "open_insertable (new_trail \<lparr>pt_x = 0, pt_y = 0\<rparr> \<lparr>pt_x = 9, pt_y = 9\<rparr>)"
  let ?a = "\<lparr>pt_x = 900, pt_y = 400\<rparr>" and ?b = "\<lparr>pt_x = 1000, pt_y = 600\<rparr>"
  have h: "box_in 1920 1080 ?a ?b" "\<forall>t \<in> set [?t]. box_in 1920 1080 (tr_lt t) (tr_rb t)" "\<exists>t \<in> set [?t]. tr_insertable t"
    "\<not> near_edge (foot_of ?a ?b)"
    by (simp_all add: box_in_def open_insertable_def near_edge_def foot_of_def cpp_div_def)
  from inner_person_extends_best_trail [OF h] show ?thesis by (simp add: Let_def)
qed

text \<open>
  The clip of a full window is the pictures 001 to 020 in the order of the window,
  followed by the call of the script; the queue comes back unchanged.
\<close>

theorem clip_pictures:
  assumes "\<forall>i < 20. ev_opens ev (folder @ dec_pad 3 (i + 1) @ ''.jpg'')"
    and "\<forall>v \<in> set q. frame_bytes v = Inr (bytes v)" "length q = 20"
  shows "SaveVideoToJpg ev q folder name =
    Inr (True, Ensure_Dir folder # map2 (\<lambda>i v. Write_File (folder @ dec_pad 3 (i + 1) @ ''.jpg'') (bytes v)) [0..<20] q @
      [Run_Shell (''./saveVideo.sh '' @ name @ ''&'')], q)"
  using SaveVideoToJpg_ok [of ev folder q bytes name] assms by (simp del: upt_conv_Cons upt_rec_numeral)

theorem clip_pictures_witness:
  "\<exists>effs. SaveVideoToJpg sample_env (replicate 20 sample_frame) RESULT_VIDEO_1 ''7'' = Inr (True, effs, replicate 20 sample_frame)"
proof -
  have h: "\<forall>i < 20. ev_opens sample_env (RESULT_VIDEO_1 @ dec_pad 3 (i + 1) @ ''.jpg'')" "length (replicate 20 sample_frame) = 20"
    "\<forall>v \<in> set (replicate 20 sample_frame). frame_bytes v = Inr [1, 2, 3]"
    by (simp_all add: sample_env_def sample_frame_def frame_bytes_def buffer_bytes_def)
  from clip_pictures [OF h(1,3,2), of "''7''"] show ?thesis by blast
qed

end
