(* ===== verification/AlarmQueue.thy ===== *)
theory AlarmQueue
  imports DstEngine
begin

text \<open>
  The reporting coroutine of \<open>DstEngine/DstEngine.cpp\<close> (\<open>report_alarm\<close>,
  \<open>report_alarm_fun\<close> and the destructor) beside the engine that queues alarms. The mutex
  makes appending an alarm and swapping the vector single steps; the wait returns on the
  event or after 256 milliseconds, so it may return at any time. An alarm counts as sent when
  it has been handed to the client's \<open>call\<close>: the code looks neither at the reply nor at a
  failure of the connection and does not try again, so what is handed over is not always
  what arrives.
\<close>

datatype pc = Waiting | Swapping | Sending | Finished

text \<open>
  The shared members, the local vector of the coroutine, the calls made, and as a ghost
  the alarms ever handed to \<open>report_alarm\<close>.
\<close>

record reporter =
  rp_alarms :: "alarm list"
  rp_event :: bool
  rp_stop :: bool
  rp_pc :: pc
  rp_local :: "alarm list"
  rp_sent :: "alarm list"
  rp_reported :: "alarm list"

datatype label = Report alarm | Wake | Swap | Send | Loop | Stop

inductive rp_step :: "reporter \<Rightarrow> label \<Rightarrow> reporter \<Rightarrow> bool" where
  report: "rp_step s (Report al)
     (s\<lparr>rp_alarms := rp_alarms s @ [al], rp_event := True, rp_reported := rp_reported s @ [al]\<rparr>)"
| stop: "rp_step s Stop (s\<lparr>rp_stop := True, rp_event := True\<rparr>)"
| wake: "rp_pc s = Waiting \<Longrightarrow>
     rp_step s Wake (s\<lparr>rp_event := False, rp_pc := (if rp_stop s then Finished else Swapping)\<rparr>)"
| swap: "rp_pc s = Swapping \<Longrightarrow>
     rp_step s Swap (s\<lparr>rp_local := rp_alarms s, rp_alarms := [], rp_pc := Sending\<rparr>)"
| send: "rp_pc s = Sending \<Longrightarrow> rp_local s = al # als \<Longrightarrow>
     rp_step s Send (s\<lparr>rp_sent := rp_sent s @ [al], rp_local := als\<rparr>)"
| loop: "rp_pc s = Sending \<Longrightarrow> rp_local s = [] \<Longrightarrow>
     rp_step s Loop (s\<lparr>rp_pc := (if rp_stop s then Finished else Waiting)\<rparr>)"

inductive_cases rp_stepE: "rp_step s l s'"
inductive_simps rp_step_simps: "rp_step s Wake s'" "rp_step s Swap s'" "rp_step s Send s'" "rp_step s Loop s'"

inductive rp_run :: "reporter \<Rightarrow> label list \<Rightarrow> reporter \<Rightarrow> bool" where
  rp_nil: "rp_run s [] s"
| rp_cons: "rp_step s l t \<Longrightarrow> rp_run t ls u \<Longrightarrow> rp_run s (l # ls) u"

inductive_cases rp_run_consE: "rp_run s (l # ls) u"

definition rp_start :: reporter where
  "rp_start = \<lparr>rp_alarms = [], rp_event = False, rp_stop = False, rp_pc = Waiting, rp_local = [], rp_sent = [], rp_reported = []\<rparr>"

text \<open>The engine's \<open>report_alarm\<close> is the step \<open>Report\<close> on the shared members.\<close>

lemma report_alarm_step:
  assumes "rp_alarms s = de_alarms d" "rp_event s = de_event d" "rp_step s (Report al) s'"
  shows "rp_alarms s' = de_alarms (report_alarm al d) \<and> rp_event s' = de_event (report_alarm al d)"
  using assms(3) by (rule rp_stepE) (use assms(1,2) in \<open>auto simp: report_alarm_def\<close>)

section \<open>Facts\<close>

definition rp_inv :: "reporter \<Rightarrow> bool" where
  "rp_inv s \<longleftrightarrow> rp_reported s = rp_sent s @ rp_local s @ rp_alarms s \<and> (rp_pc s \<noteq> Sending \<longrightarrow> rp_local s = []) \<and>
     (rp_pc s = Finished \<longrightarrow> rp_stop s)"

lemma rp_inv_start: "rp_inv rp_start"
  by (simp add: rp_inv_def rp_start_def)

lemma rp_inv_step: "rp_step s l s' \<Longrightarrow> rp_inv s \<Longrightarrow> rp_inv s'"
  by (induction rule: rp_step.induct) (auto simp: rp_inv_def)

lemma rp_inv_run: "rp_run s ls s' \<Longrightarrow> rp_inv s \<Longrightarrow> rp_inv s'"
  by (induction rule: rp_run.induct) (auto intro: rp_inv_step)

lemma rp_run_append: "rp_run s ls t \<Longrightarrow> rp_run t ms u \<Longrightarrow> rp_run s (ls @ ms) u"
  by (induction rule: rp_run.induct) (auto intro: rp_cons)

lemma rp_reported_run: "rp_run s ls s' \<Longrightarrow> rp_reported s' = rp_reported s @ [al. Report al \<leftarrow> ls]"
proof (induction rule: rp_run.induct)
  case (rp_cons s l t ls u)
  from rp_cons.hyps(1) rp_cons.IH show ?case by (cases rule: rp_step.cases) auto
qed simp

lemma send_all:
  "rp_pc s = Sending \<Longrightarrow>
   \<exists>s'. rp_run s (replicate (length (rp_local s)) Send) s' \<and> rp_pc s' = Sending \<and> rp_local s' = [] \<and>
     rp_alarms s' = rp_alarms s \<and> rp_stop s' = rp_stop s \<and> rp_sent s' = rp_sent s @ rp_local s"
proof (induction "rp_local s" arbitrary: s)
  case Nil
  then show ?case by (auto intro: rp_nil)
next
  case (Cons al als)
  let ?t = "s\<lparr>rp_sent := rp_sent s @ [al], rp_local := als\<rparr>"
  have step: "rp_step s Send ?t" using Cons by (intro rp_step.send) auto
  have "als = rp_local ?t" "rp_pc ?t = Sending" using Cons by simp_all
  from Cons.hyps(1) [OF this] obtain s' where s': "rp_run ?t (replicate (length als) Send) s'" "rp_pc s' = Sending" "rp_local s' = []"
    "rp_alarms s' = rp_alarms ?t" "rp_stop s' = rp_stop ?t" "rp_sent s' = rp_sent ?t @ als" by auto
  from rp_cons [OF step s'(1)] s' Cons.hyps(2) [symmetric] show ?case by auto
qed

text \<open>From the waiting state the coroutine empties the queue by its own steps.\<close>

lemma flush_waiting:
  assumes "rp_pc s = Waiting" "\<not> rp_stop s" "rp_local s = []"
  shows "\<exists>ls s'. rp_run s ls s' \<and> set ls \<subseteq> {Wake, Swap, Send, Loop} \<and> rp_alarms s' = [] \<and> rp_local s' = [] \<and> rp_sent s' = rp_sent s @ rp_alarms s"
proof -
  let ?t = "s\<lparr>rp_event := False, rp_pc := Swapping\<rparr>"
  let ?u = "?t\<lparr>rp_local := rp_alarms s, rp_alarms := [], rp_pc := Sending\<rparr>"
  have 1: "rp_step s Wake ?t" using rp_step.wake [of s] assms by simp
  have 2: "rp_step ?t Swap ?u" using rp_step.swap [of ?t] by simp
  obtain s' where s': "rp_run ?u (replicate (length (rp_alarms s)) Send) s'" "rp_local s' = []" "rp_alarms s' = []" "rp_sent s' = rp_sent s @ rp_alarms s"
    using send_all [of ?u] by auto
  have "rp_run s (Wake # Swap # replicate (length (rp_alarms s)) Send) s'"
    using rp_cons [OF 1 rp_cons [OF 2 s'(1)]] .
  with s' show ?thesis by (intro exI [of _ "Wake # Swap # replicate (length (rp_alarms s)) Send"] exI [of _ s']) auto
qed

lemma flush:
  assumes "rp_inv s" "\<not> rp_stop s"
  shows "\<exists>ls s'. rp_run s ls s' \<and> set ls \<subseteq> {Wake, Swap, Send, Loop} \<and> rp_sent s' = rp_reported s"
proof (cases "rp_pc s")
  case Waiting
  with assms obtain ls s' where "rp_run s ls s'" "set ls \<subseteq> {Wake, Swap, Send, Loop}" "rp_sent s' = rp_sent s @ rp_alarms s"
    using flush_waiting [of s] by (auto simp: rp_inv_def)
  with assms Waiting show ?thesis by (intro exI [of _ ls] exI [of _ s']) (auto simp: rp_inv_def)
next
  case Swapping
  let ?u = "s\<lparr>rp_local := rp_alarms s, rp_alarms := [], rp_pc := Sending\<rparr>"
  have 2: "rp_step s Swap ?u" using rp_step.swap [of s] Swapping by simp
  obtain s' where s': "rp_run ?u (replicate (length (rp_alarms s)) Send) s'" "rp_sent s' = rp_sent s @ rp_alarms s"
    using send_all [of ?u] by auto
  from rp_cons [OF 2 s'(1)] s'(2) assms Swapping show ?thesis
    by (intro exI [of _ "Swap # replicate (length (rp_alarms s)) Send"] exI [of _ s']) (auto simp: rp_inv_def)
next
  case Sending
  then obtain t where t: "rp_run s (replicate (length (rp_local s)) Send) t" "rp_pc t = Sending" "rp_local t = []"
    "rp_alarms t = rp_alarms s" "rp_stop t = rp_stop s" "rp_sent t = rp_sent s @ rp_local s"
    using send_all [of s] by blast
  let ?v = "t\<lparr>rp_pc := Waiting\<rparr>"
  have 3: "rp_step t Loop ?v" using rp_step.loop [of t] t assms by simp
  obtain ls s' where ls: "rp_run ?v ls s'" "set ls \<subseteq> {Wake, Swap, Send, Loop}" "rp_sent s' = rp_sent t @ rp_alarms t"
    using flush_waiting [of ?v] t assms by auto
  from rp_run_append [OF t(1) rp_cons [OF 3 ls(1)]] ls t assms show ?thesis
    by (intro exI [of _ "replicate (length (rp_local s)) Send @ Loop # ls"] exI [of _ s']) (auto simp: rp_inv_def)
next
  case Finished
  with assms show ?thesis by (simp add: rp_inv_def)
qed

section \<open>Properties\<close>

text \<open>
  C33. Under every interleaving of the engine, the coroutine and the destructor, the alarms
  sent (handed to the client) are a prefix of the alarms reported, in their order and without
  repetition or gap.
\<close>

theorem alarms_sent_in_order:
  assumes "rp_run rp_start ls s"
  shows "\<exists>pending. [al. Report al \<leftarrow> ls] = rp_sent s @ pending"
proof -
  have "rp_inv s" using assms rp_inv_start by (rule rp_inv_run)
  moreover have "rp_reported s = [al. Report al \<leftarrow> ls]" using rp_reported_run [OF assms] by (simp add: rp_start_def)
  ultimately show ?thesis by (auto simp: rp_inv_def)
qed

definition sample_alarm :: alarm where
  "sample_alarm = \<lparr>al_req_id = 1, al_method = ''report_alarm'', al_ipc_ip = ''10.0.0.1'', al_img = ''AQID'', al_time = ''t'', al_type = ''region''\<rparr>"

lemma sample_run:
  "rp_run rp_start [Report sample_alarm, Wake, Swap, Send]
     (rp_start\<lparr>rp_event := False, rp_pc := Sending, rp_sent := [sample_alarm], rp_reported := [sample_alarm]\<rparr>)"
proof -
  let ?a = "rp_start\<lparr>rp_alarms := [sample_alarm], rp_event := True, rp_reported := [sample_alarm]\<rparr>"
  let ?b = "?a\<lparr>rp_event := False, rp_pc := Swapping\<rparr>"
  let ?c = "?b\<lparr>rp_local := [sample_alarm], rp_alarms := [], rp_pc := Sending\<rparr>"
  have "rp_step rp_start (Report sample_alarm) ?a" using rp_step.report [of rp_start sample_alarm] by (simp add: rp_start_def)
  moreover have "rp_step ?a Wake ?b" using rp_step.wake [of ?a] by (simp add: rp_start_def)
  moreover have "rp_step ?b Swap ?c" using rp_step.swap [of ?b] by simp
  moreover have "rp_step ?c Send (rp_start\<lparr>rp_event := False, rp_pc := Sending, rp_sent := [sample_alarm], rp_reported := [sample_alarm]\<rparr>)"
    using rp_step.send [of ?c sample_alarm "[]"] by (simp add: rp_start_def)
  ultimately show ?thesis by (blast intro: rp_nil rp_cons)
qed

theorem alarms_sent_in_order_witness:
  "\<exists>pending. [sample_alarm] = [sample_alarm] @ pending \<and> pending = []"
  using alarms_sent_in_order [OF sample_run] by simp

text \<open>
  C34. No alarm is stuck: as long as the engine is not being destroyed, from every reachable
  state the coroutine alone can go on to a state in which every alarm reported so far has
  been sent.
\<close>

theorem alarms_can_be_flushed:
  assumes "rp_run rp_start ls s" "\<not> rp_stop s"
  shows "\<exists>ms s'. rp_run s ms s' \<and> set ms \<subseteq> {Wake, Swap, Send, Loop} \<and> rp_sent s' = [al. Report al \<leftarrow> ls]"
proof -
  have "rp_inv s" using assms(1) rp_inv_start by (rule rp_inv_run)
  from flush [OF this assms(2)] show ?thesis using rp_reported_run [OF assms(1)] by (simp add: rp_start_def)
qed

theorem alarms_can_be_flushed_witness:
  "\<exists>ms s'. rp_run (rp_start\<lparr>rp_alarms := [sample_alarm], rp_event := True, rp_reported := [sample_alarm]\<rparr>) ms s' \<and> rp_sent s' = [sample_alarm]"
proof -
  have "rp_step rp_start (Report sample_alarm) (rp_start\<lparr>rp_alarms := [sample_alarm], rp_event := True, rp_reported := [sample_alarm]\<rparr>)"
    using rp_step.report [of rp_start sample_alarm] by (simp add: rp_start_def)
  from alarms_can_be_flushed [OF rp_cons [OF this rp_nil]] show ?thesis by (auto simp: rp_start_def)
qed

end
