(* ===== verification/Dvpp.thy ===== *)
theory Dvpp
  imports CommonData
begin

text \<open>
  \<open>Common/dvpp_utils.h\<close>: the requests the program makes to the picture hardware. The device
  API and the alignment macro are not part of the repository and are parameters: what the
  API answers may depend on all calls made so far, and \<open>aligns\<close> states what the macro is
  documented to return. The calls made are the log.
\<close>

section \<open>The device interface\<close>

record crop_rect =
  cr_left :: u32
  cr_right :: u32
  cr_up :: u32
  cr_down :: u32

record roi =
  ro_crop :: crop_rect
  ro_addr :: u64
  ro_bufferSize :: u32
  ro_widthStride :: u32
  ro_heightStride :: u32
  ro_output :: crop_rect

datatype out_format = OUTPUT_YUV420SP_UV | Other_Output int

text \<open>The areas linked from \<open>roiConfigure\<close> are a list.\<close>

record vpc_image =
  vi_addr :: u64
  vi_bufferSize :: u32
  vi_isCompressData :: bool
  vi_widthStride :: u32
  vi_heightStride :: u32
  vi_inputFormat :: int
  vi_outputFormat :: out_format
  vi_yuvSumEnable :: bool
  vi_cmdListAddr :: u64
  vi_cmdListSize :: u32
  vi_rois :: "roi list"

record jpege_in =
  je_width :: u32
  je_height :: u32
  je_heightAligned :: u32
  je_format :: int
  je_level :: u32
  je_stride :: u32
  je_bufSize :: u32
  je_buf :: u64

datatype request =
    Vpc_Proc vpc_image
  | Jpege_Proc jpege_in
  | Jpegd_Proc u32
  | Pngd_Proc u32

datatype dvpp_event =
    Api_Create bool
  | Api_Ctl request
  | Api_Destroy

type_synonym dvpp_log = "dvpp_event list"

record dvpp_api =
  da_create :: "dvpp_log \<Rightarrow> int"
  da_ctl :: "dvpp_log \<Rightarrow> request \<Rightarrow> int"
  da_destroy :: "dvpp_log \<Rightarrow> int"

definition CreateDvppApi :: "dvpp_api \<Rightarrow> dvpp_log \<Rightarrow> int \<times> dvpp_log" where
  "CreateDvppApi api lg = (let r = da_create api lg in (r, lg @ [Api_Create (r = 0)]))"

definition DvppCtl :: "dvpp_api \<Rightarrow> request \<Rightarrow> dvpp_log \<Rightarrow> int \<times> dvpp_log" where
  "DvppCtl api req lg = (da_ctl api lg req, lg @ [Api_Ctl req])"

definition DestroyDvppApi :: "dvpp_api \<Rightarrow> dvpp_log \<Rightarrow> int \<times> dvpp_log" where
  "DestroyDvppApi api lg = (da_destroy api lg, lg @ [Api_Destroy])"

text \<open>The documented result of \<open>ALIGN_UP(n, a)\<close>: the least multiple of \<open>a\<close> from \<open>n\<close> on.\<close>

definition aligns :: "(u32 \<Rightarrow> u32 \<Rightarrow> u32) \<Rightarrow> bool" where
  "aligns al \<longleftrightarrow> (\<forall>n a. 0 < unat a \<and> unat n + unat a \<le> 2 ^ 32 \<longrightarrow>
     unat (al n a) = (unat n + unat a - 1) div unat a * unat a)"

section \<open>Macros\<close>

definition CHECK_ODD :: "'a::ring_parity \<Rightarrow> 'a" where
  "CHECK_ODD n = (if odd n then n else n - 1)"

definition CHECK_EVEN :: "'a::ring_parity \<Rightarrow> 'a" where
  "CHECK_EVEN n = (if even n then n else n - 1)"

definition DVPP_STRIDE_WIDTH :: u32 where "DVPP_STRIDE_WIDTH = 128"
definition DVPP_STRIDE_HEIGHT :: u32 where "DVPP_STRIDE_HEIGHT = 16"

text \<open>A size times \<open>YUV_BYTES\<close> is a double, converted back to 32 bits.\<close>

definition yuv_bytes :: "u32 \<Rightarrow> u32 outcome" where
  "yuv_bytes n = (let v = unat n * 3 div 2 in if v < 2 ^ 32 then Inr (of_nat v) else Inl Indeterminate)"

section \<open>Requests\<close>

definition yuv_image :: "u64 \<Rightarrow> u32 \<Rightarrow> u32 \<Rightarrow> u32 \<Rightarrow> int \<Rightarrow> out_format \<Rightarrow> roi list \<Rightarrow> vpc_image" where
  "yuv_image inBuffer inBufferSize inWidthStride inHeightStride inputFormat outputFormat rois =
     \<lparr>vi_addr = inBuffer, vi_bufferSize = inBufferSize, vi_isCompressData = False,
      vi_widthStride = inWidthStride, vi_heightStride = inHeightStride,
      vi_inputFormat = inputFormat, vi_outputFormat = outputFormat, vi_yuvSumEnable = False,
      vi_cmdListAddr = 0, vi_cmdListSize = 0, vi_rois = rois\<rparr>"

text \<open>The call sequence of both functions; \<open>checked\<close> tells whether the result of the last destroy counts.\<close>

definition run_vpc :: "dvpp_api \<Rightarrow> bool \<Rightarrow> vpc_image \<Rightarrow> dvpp_log \<Rightarrow> bool \<times> dvpp_log" where
  "run_vpc api checked img lg =
     (case CreateDvppApi api lg of (ret, lg) \<Rightarrow>
      if ret \<noteq> 0 then (False, lg)
      else (case DvppCtl api (Vpc_Proc img) lg of (ret, lg) \<Rightarrow>
        if ret \<noteq> 0 then (case DestroyDvppApi api lg of (ret, lg) \<Rightarrow> (False, lg))
        else (case DestroyDvppApi api lg of (ret, lg) \<Rightarrow>
          if checked \<and> ret \<noteq> 0 then (False, lg) else (True, lg))))"

definition vpcResize ::
  "(u32 \<Rightarrow> u32 \<Rightarrow> u32) \<Rightarrow> dvpp_api \<Rightarrow> u64 \<Rightarrow> u32 \<Rightarrow> u32 \<Rightarrow> u64 \<Rightarrow> u32 \<Rightarrow> u32 \<Rightarrow> int \<Rightarrow> dvpp_log \<Rightarrow> (bool \<times> dvpp_log) outcome" where
  "vpcResize al api inBuffer inWidth inHeight outBuffer outWidth outHeight inputFormat lg =
     (let inWidthStride = al inWidth DVPP_STRIDE_WIDTH;
          inHeightStride = al inHeight DVPP_STRIDE_HEIGHT;
          outWidthStride = al outWidth DVPP_STRIDE_WIDTH;
          outHeightStride = al outHeight DVPP_STRIDE_HEIGHT
      in bindR (yuv_bytes (inWidthStride * inHeightStride)) (\<lambda>inBufferSize.
         bindR (yuv_bytes (outWidthStride * outHeightStride)) (\<lambda>outBufferSize.
           let r = \<lparr>ro_crop = \<lparr>cr_left = 0, cr_right = CHECK_ODD (inWidth - 1), cr_up = 0, cr_down = CHECK_ODD (inHeight - 1)\<rparr>,
                    ro_addr = outBuffer, ro_bufferSize = outBufferSize,
                    ro_widthStride = outWidthStride, ro_heightStride = outHeightStride,
                    ro_output = \<lparr>cr_left = 0, cr_right = CHECK_ODD (outWidth - 1), cr_up = 0, cr_down = CHECK_ODD (outHeight - 1)\<rparr>\<rparr>
           in Inr (run_vpc api True
                (yuv_image inBuffer inBufferSize inWidthStride inHeightStride inputFormat OUTPUT_YUV420SP_UV [r]) lg))))"

text \<open>The body of the loop over the boxes: the area of a box, its picture at \<open>dataPtr\<close>.\<close>

definition crop_roi :: "u32 \<Rightarrow> u32 \<Rightarrow> u32 \<Rightarrow> u32 \<Rightarrow> u32 \<Rightarrow> detect_info \<Rightarrow> u64 \<Rightarrow> roi" where
  "crop_roi outWidth outHeight outPatchSize outWidthStride outHeightStride d dataPtr =
     \<lparr>ro_crop = \<lparr>cr_left = word_of_int (CHECK_EVEN (pt_x (di_lt d))), cr_right = word_of_int (CHECK_ODD (pt_x (di_rb d))),
                 cr_up = word_of_int (CHECK_EVEN (pt_y (di_lt d))), cr_down = word_of_int (CHECK_ODD (pt_y (di_rb d)))\<rparr>,
      ro_addr = dataPtr, ro_bufferSize = outPatchSize,
      ro_widthStride = outWidthStride, ro_heightStride = outHeightStride,
      ro_output = \<lparr>cr_left = 0, cr_right = CHECK_ODD (outWidth - 1), cr_up = 0, cr_down = CHECK_ODD (outHeight - 1)\<rparr>\<rparr>"

fun crop_rois :: "u32 \<Rightarrow> u32 \<Rightarrow> u32 \<Rightarrow> u32 \<Rightarrow> u32 \<Rightarrow> detect_info list \<Rightarrow> u64 \<Rightarrow> roi list" where
  "crop_rois w h p ws hs [] dataPtr = []"
| "crop_rois w h p ws hs (d # ds) dataPtr = crop_roi w h p ws hs d dataPtr # crop_rois w h p ws hs ds (dataPtr + ucast p)"

definition vpcCropResize ::
  "(u32 \<Rightarrow> u32 \<Rightarrow> u32) \<Rightarrow> dvpp_api \<Rightarrow> u64 \<Rightarrow> u32 \<Rightarrow> u32 \<Rightarrow> u64 \<Rightarrow> u32 \<Rightarrow> u32 \<Rightarrow> detect_info list \<Rightarrow> int \<Rightarrow> dvpp_log \<Rightarrow>
   (bool \<times> dvpp_log) outcome" where
  "vpcCropResize al api inBuffer inWidth inHeight outBuffer outWidth outHeight rects inputFormat lg =
     (let inWidthStride = al inWidth DVPP_STRIDE_WIDTH;
          inHeightStride = al inHeight DVPP_STRIDE_HEIGHT;
          outWidthStride = al outWidth DVPP_STRIDE_WIDTH;
          outHeightStride = al outHeight DVPP_STRIDE_HEIGHT
      in bindR (yuv_bytes (inWidthStride * inHeightStride)) (\<lambda>inBufferSize.
         bindR (yuv_bytes (outWidthStride * outHeightStride)) (\<lambda>outPatchSize.
           Inr (run_vpc api False
             (yuv_image inBuffer inBufferSize inWidthStride inHeightStride inputFormat OUTPUT_YUV420SP_UV
                (crop_rois outWidth outHeight outPatchSize outWidthStride outHeightStride rects outBuffer)) lg))))"

section \<open>Facts\<close>

text \<open>How many handles are open after the calls of a log.\<close>

fun open_handles :: "dvpp_log \<Rightarrow> int" where
  "open_handles [] = 0"
| "open_handles (e # lg) = (case e of Api_Create ok \<Rightarrow> if ok then 1 else 0 | Api_Ctl req \<Rightarrow> 0 | Api_Destroy \<Rightarrow> - 1) + open_handles lg"

lemma open_handles_append [simp]: "open_handles (xs @ ys) = open_handles xs + open_handles ys"
  by (induction xs) simp_all

lemmas api_defs = CreateDvppApi_def DvppCtl_def DestroyDvppApi_def

lemma run_vpc_balanced: "open_handles (snd (run_vpc api c img lg)) = open_handles lg"
  by (simp add: run_vpc_def api_defs Let_def)

lemma run_vpc_log:
  "\<exists>tl. snd (run_vpc api c img lg) = lg @ tl \<and> (fst (run_vpc api c img lg) \<longrightarrow> tl = [Api_Create True, Api_Ctl (Vpc_Proc img), Api_Destroy])"
  by (simp add: run_vpc_def api_defs Let_def)

lemma word_odd_pred: "even n \<Longrightarrow> odd (n - 1 :: 'a::ring_parity)"
  by simp

lemma odd_CHECK_ODD: "odd (CHECK_ODD n)"
  by (simp add: CHECK_ODD_def)

lemma even_CHECK_EVEN: "even (CHECK_EVEN n)"
  by (simp add: CHECK_EVEN_def)

lemma even_word_of_int [simp]: "even (word_of_int k :: 'a::len word) \<longleftrightarrow> even k"
  by transfer (simp add: even_take_bit_eq)

lemma length_crop_rois [simp]: "length (crop_rois w h p ws hs ds ptr) = length ds"
  by (induction ds arbitrary: ptr) simp_all

lemma nth_crop_rois:
  "i < length ds \<Longrightarrow> crop_rois w h p ws hs ds ptr ! i = crop_roi w h p ws hs (ds ! i) (ptr + of_nat i * ucast p)"
proof (induction ds arbitrary: ptr i)
  case (Cons d ds)
  then show ?case by (cases i) (simp_all add: algebra_simps)
qed simp

lemma aligns_mult:
  assumes "aligns al" "0 < unat a" "unat n + unat a \<le> 2 ^ 32"
  shows "unat n \<le> unat (al n a) \<and> unat a dvd unat (al n a) \<and> unat (al n a) < unat n + unat a"
proof -
  let ?n = "unat n" and ?a = "unat a"
  have e: "unat (al n a) = (?n + ?a - 1) div ?a * ?a" using assms by (auto simp: aligns_def)
  have "(?n + ?a - 1) div ?a * ?a \<le> ?n + ?a - 1" by simp
  moreover have "?n + ?a - 1 < (?n + ?a - 1) div ?a * ?a + ?a"
    using assms(2) by (metis add.commute dividend_less_div_times)
  ultimately have "?n \<le> unat (al n a) \<and> unat (al n a) < ?n + ?a" using assms(2) unfolding e by linarith
  moreover have "?a dvd unat (al n a)" unfolding e by simp
  ultimately show ?thesis by simp
qed

text \<open>An executable macro that satisfies the documentation.\<close>

definition align_up :: "u32 \<Rightarrow> u32 \<Rightarrow> u32" where
  "align_up n a = of_nat ((unat n + unat a - 1) div unat a * unat a)"

lemma align_up_aligns: "aligns align_up"
  unfolding aligns_def
proof (intro allI impI)
  fix n a :: u32
  assume h: "0 < unat a \<and> unat n + unat a \<le> 2 ^ 32"
  have "(unat n + unat a - 1) div unat a * unat a \<le> unat n + unat a - 1" by simp
  also have "\<dots> < 2 ^ 32" using h by linarith
  finally have "(unat n + unat a - 1) div unat a * unat a < 2 ^ LENGTH(32)" by simp
  then show "unat (align_up n a) = (unat n + unat a - 1) div unat a * unat a"
    unfolding align_up_def unat_of_nat by (rule mod_less)
qed

section \<open>Properties\<close>

text \<open>
  Every path through the two functions, whatever the device answers to each call,
  closes exactly the handles it opened.
\<close>

theorem resize_handles_balanced:
  assumes "vpcResize al api a w h b ow oh fmt lg = Inr (ok, lg') \<or> vpcCropResize al api a w h b ow oh rects fmt lg = Inr (ok, lg')"
  shows "open_handles lg' = open_handles lg"
  using assms run_vpc_balanced
  by (auto simp: vpcResize_def vpcCropResize_def Let_def bindR_eq_Inr) (metis snd_conv)+

definition idle_api :: dvpp_api where
  "idle_api = \<lparr>da_create = \<lambda>_. 0, da_ctl = \<lambda>_ _. 0, da_destroy = \<lambda>_. 0\<rparr>"

theorem resize_handles_balanced_witness:
  "\<exists>lg'. vpcResize align_up (idle_api\<lparr>da_ctl := \<lambda>_ _. -1\<rparr>) 0 1920 1080 0 300 300 0 [] = Inr (False, lg') \<and> lg' \<noteq> [] \<and> open_handles lg' = open_handles []"
proof -
  have "\<exists>lg'. vpcResize align_up (idle_api\<lparr>da_ctl := \<lambda>_ _. -1\<rparr>) 0 1920 1080 0 300 300 0 [] = Inr (False, lg') \<and> lg' \<noteq> []"
    by (simp add: vpcResize_def Let_def yuv_bytes_def align_up_def DVPP_STRIDE_WIDTH_def DVPP_STRIDE_HEIGHT_def run_vpc_def api_defs idle_api_def)
  with resize_handles_balanced show ?thesis by blast
qed

text \<open>
  A successful crop makes one request with one area per box, in the order of the boxes;
  the pictures lie one after the other from the output buffer on, and each area starts at
  even and ends at odd coordinates.
\<close>

theorem crop_request_layout:
  assumes "vpcCropResize al api a w h b ow oh rects fmt lg = Inr (True, lg')"
  shows "\<exists>img p. lg' = lg @ [Api_Create True, Api_Ctl (Vpc_Proc img), Api_Destroy] \<and>
    yuv_bytes (al ow DVPP_STRIDE_WIDTH * al oh DVPP_STRIDE_HEIGHT) = Inr p \<and> length (vi_rois img) = length rects \<and>
    (\<forall>i < length rects. let r = vi_rois img ! i in
       ro_addr r = b + of_nat i * ucast p \<and> ro_bufferSize r = p \<and>
       even (cr_left (ro_crop r)) \<and> odd (cr_right (ro_crop r)) \<and> even (cr_up (ro_crop r)) \<and> odd (cr_down (ro_crop r)))"
proof -
  obtain sz p where sp: "yuv_bytes (al ow DVPP_STRIDE_WIDTH * al oh DVPP_STRIDE_HEIGHT) = Inr p"
    "run_vpc api False (yuv_image a sz (al w DVPP_STRIDE_WIDTH) (al h DVPP_STRIDE_HEIGHT) fmt OUTPUT_YUV420SP_UV
       (crop_rois ow oh p (al ow DVPP_STRIDE_WIDTH) (al oh DVPP_STRIDE_HEIGHT) rects b)) lg = (True, lg')"
    using assms by (auto simp: vpcCropResize_def Let_def bindR_eq_Inr)
  let ?img = "yuv_image a sz (al w DVPP_STRIDE_WIDTH) (al h DVPP_STRIDE_HEIGHT) fmt OUTPUT_YUV420SP_UV
       (crop_rois ow oh p (al ow DVPP_STRIDE_WIDTH) (al oh DVPP_STRIDE_HEIGHT) rects b)"
  have "lg' = lg @ [Api_Create True, Api_Ctl (Vpc_Proc ?img), Api_Destroy]"
    using run_vpc_log [of api False ?img lg] sp(2) by auto
  with sp(1) show ?thesis
    by (intro exI [of _ ?img] exI [of _ p])
      (simp add: yuv_image_def nth_crop_rois crop_roi_def Let_def even_CHECK_EVEN odd_CHECK_ODD)
qed

definition sample_detection :: detect_info where
  "sample_detection = \<lparr>di_classId = 1, di_confidence = 1, di_lt = \<lparr>pt_x = 11, pt_y = 20\<rparr>, di_rb = \<lparr>pt_x = 80, pt_y = 99\<rparr>\<rparr>"

theorem crop_request_layout_witness:
  "\<exists>img p. vpcCropResize align_up idle_api 0 1920 1080 4096 112 112 [sample_detection, sample_detection] 0 [] =
       Inr (True, [Api_Create True, Api_Ctl (Vpc_Proc img), Api_Destroy]) \<and>
     length (vi_rois img) = 2 \<and> ro_addr (vi_rois img ! 1) = 4096 + ucast (p :: u32) \<and> even (cr_left (ro_crop (vi_rois img ! 1)))"
proof -
  have "\<exists>lg'. vpcCropResize align_up idle_api 0 1920 1080 4096 112 112 [sample_detection, sample_detection] 0 [] = Inr (True, lg')"
    by (simp add: vpcCropResize_def Let_def yuv_bytes_def align_up_def DVPP_STRIDE_WIDTH_def DVPP_STRIDE_HEIGHT_def run_vpc_def api_defs idle_api_def)
  then obtain lg' where l: "vpcCropResize align_up idle_api 0 1920 1080 4096 112 112 [sample_detection, sample_detection] 0 [] = Inr (True, lg')" ..
  from crop_request_layout [OF l] l show ?thesis by (force simp: Let_def)
qed

end
