(* ===== verification/CropResize.thy ===== *)
theory CropResize
  imports Dvpp "HOL-Library.Log_Nat"
begin

text \<open>
  \<open>Common/CropResize\<close>: decoding, cropping and resizing of pictures by the device. A float
  is the rational number it stands for; converting an integer to one and multiplying two
  rounds to the nearest number of single precision, ties to even. Converting one back to
  \<open>uint32_t\<close> cuts the fraction and has no value outside the range. A crop area is a
  rectangle of the input and one of the output.
\<close>

section \<open>Data\<close>

definition WIDTH_ALIGNED :: u32 where "WIDTH_ALIGNED = 16"
definition HEIGHT_ALIGNED :: u32 where "HEIGHT_ALIGNED = 2"
definition CROP_BLOCK_FACTOR :: rat where "CROP_BLOCK_FACTOR = 1"
definition GAP_FACTOR :: rat where "GAP_FACTOR = 1 / 2"
definition YUV_FACTOR :: u32 where "YUV_FACTOR = 3"
definition YUV_DIVISOR :: u32 where "YUV_DIVISOR = 2"

record crop_area =
  ca_crop :: crop_rect
  ca_output :: crop_rect

record decode_output =
  do_imgWidth :: u32
  do_imgHeight :: u32
  do_imgWidthAligned :: u32
  do_imgHeightAligned :: u32
  do_inBuffer :: u64
  do_inBufferSize :: u32

record crop_para =
  cp_areas :: "crop_area list"
  cp_factorW :: rat
  cp_factorH :: rat
  cp_inputFormat :: int
  cp_outputFormat :: out_format

text \<open>A status is one of the two constants, or what a call of the device returned.\<close>

datatype crop_status = Status_OK | Status_Error | Status_Ret int

text \<open>
  The numbers of single precision are multiples of \<open>2^-149\<close> with at most 24 significant
  binary digits. \<open>to_float\<close> gives the one nearest to a rational number, ties to an even last
  digit (a value beyond the largest float, which no conversion below accepts, is kept).
\<close>

definition round_even :: "rat \<Rightarrow> int" where
  "round_even x =
     (let k = \<lfloor>x\<rfloor>; d = x - of_int k in if d < 1 / 2 \<or> (d = 1 / 2 \<and> even k) then k else k + 1)"

definition least_exponent :: nat where "least_exponent = 149"

definition to_float :: "rat \<Rightarrow> rat" where
  "to_float x =
     (let y = \<bar>x\<bar> * 2 ^ least_exponent; u = floorlog 2 (nat \<lfloor>y\<rfloor>) - 24;
          m = of_int (round_even (y / 2 ^ u)) * 2 ^ u / 2 ^ least_exponent
      in if x < 0 then - m else m)"

text \<open>\<open>(uint32_t)n * factor\<close>, assigned to a \<open>uint32_t\<close>.\<close>

definition times_factor :: "u32 \<Rightarrow> rat \<Rightarrow> u32 outcome" where
  "times_factor n f =
     (let v = to_float (to_float (of_nat (unat n)) * f); k = (if v < 0 then - \<lfloor>- v\<rfloor> else \<lfloor>v\<rfloor>)
      in if 0 \<le> k \<and> k < 2 ^ 32 then Inr (word_of_int k) else Inl Indeterminate)"

section \<open>Decoding\<close>

text \<open>\<open>out\<close> is what the device wrote to its output structure.\<close>

definition DecodeJpeg :: "dvpp_api \<Rightarrow> u32 \<Rightarrow> decode_output \<Rightarrow> decode_output \<Rightarrow> dvpp_log \<Rightarrow> crop_status \<times> decode_output \<times> dvpp_log" where
  "DecodeJpeg api fileSize out decodeOutputImage lg =
     (case CreateDvppApi api lg of (ret, lg) \<Rightarrow>
      if ret \<noteq> 0 then (Status_Ret ret, decodeOutputImage, lg)
      else (case DvppCtl api (Jpegd_Proc fileSize) lg of (ret, lg) \<Rightarrow>
        if ret \<noteq> 0 then (case DestroyDvppApi api lg of (_, lg) \<Rightarrow> (Status_Ret ret, decodeOutputImage, lg))
        else (case DestroyDvppApi api lg of (_, lg) \<Rightarrow> (Status_OK, out, lg))))"

definition DecodePng :: "dvpp_api \<Rightarrow> u32 \<Rightarrow> decode_output \<Rightarrow> decode_output \<Rightarrow> dvpp_log \<Rightarrow> crop_status \<times> decode_output \<times> dvpp_log" where
  "DecodePng api fileSize out decodeOutputImage lg =
     (case CreateDvppApi api lg of (ret, lg) \<Rightarrow>
      if ret \<noteq> 0 then (Status_Error, decodeOutputImage, lg)
      else (case DvppCtl api (Pngd_Proc fileSize) lg of (ret, lg) \<Rightarrow>
        if ret \<noteq> 0 then (case DestroyDvppApi api lg of (_, lg) \<Rightarrow> (Status_Error, decodeOutputImage, lg))
        else (case DestroyDvppApi api lg of (_, lg) \<Rightarrow> (Status_OK, out, lg))))"

section \<open>Cropping and resizing\<close>

definition ConstructImageConfigure :: "decode_output \<Rightarrow> int \<Rightarrow> out_format \<Rightarrow> vpc_image \<Rightarrow> vpc_image" where
  "ConstructImageConfigure d inputFormat outputFormat img =
     img\<lparr>vi_addr := do_inBuffer d, vi_bufferSize := do_inBufferSize d, vi_isCompressData := False,
         vi_widthStride := do_imgWidthAligned d, vi_heightStride := do_imgHeightAligned d,
         vi_inputFormat := inputFormat, vi_outputFormat := outputFormat, vi_yuvSumEnable := False,
         vi_cmdListAddr := 0, vi_cmdListSize := 0\<rparr>"

definition ConstructRoiInputConfigure :: "crop_area \<Rightarrow> roi \<Rightarrow> roi" where
  "ConstructRoiInputConfigure area r = r\<lparr>ro_crop := ca_crop area\<rparr>"

definition ConstructRoiOutputConfigure ::
  "(u32 \<Rightarrow> u32 \<Rightarrow> u32) \<Rightarrow> decode_output \<Rightarrow> crop_para \<Rightarrow> u64 \<Rightarrow> u32 \<Rightarrow> roi \<Rightarrow> roi outcome" where
  "ConstructRoiOutputConfigure al d para outBuffer outBufferSize r =
     bindR (times_factor (do_imgWidth d) (cp_factorW para)) (\<lambda>outWidth.
     bindR (times_factor (do_imgHeight d) (cp_factorH para)) (\<lambda>outHeight.
     bindR (read_at (cp_areas para) 0) (\<lambda>area.
       Inr (r\<lparr>ro_widthStride := al outWidth WIDTH_ALIGNED, ro_heightStride := al outHeight HEIGHT_ALIGNED,
              ro_addr := outBuffer, ro_bufferSize := outBufferSize, ro_output := ca_output area\<rparr>))))"

definition fresh_roi :: roi where
  "fresh_roi = \<lparr>ro_crop = \<lparr>cr_left = 0, cr_right = 0, cr_up = 0, cr_down = 0\<rparr>, ro_addr = 0, ro_bufferSize = 0,
     ro_widthStride = 0, ro_heightStride = 0, ro_output = \<lparr>cr_left = 0, cr_right = 0, cr_up = 0, cr_down = 0\<rparr>\<rparr>"

definition area_roi :: "(u32 \<Rightarrow> u32 \<Rightarrow> u32) \<Rightarrow> decode_output \<Rightarrow> crop_para \<Rightarrow> u64 \<Rightarrow> u32 \<Rightarrow> crop_area \<Rightarrow> roi outcome" where
  "area_roi al d para outBuffer outBufferSize area =
     ConstructRoiOutputConfigure al d (para\<lparr>cp_areas := [area]\<rparr>) outBuffer outBufferSize
       (ConstructRoiInputConfigure area fresh_roi)"

text \<open>
  The loop over the areas: every round links its own configuration to the image (the
  previous one gets a \<open>next\<close> nothing reaches any more), opens a handle and makes a request.
\<close>

fun crop_loop ::
  "(crop_area \<Rightarrow> roi outcome) \<Rightarrow> dvpp_api \<Rightarrow> crop_area list \<Rightarrow> vpc_image \<Rightarrow> dvpp_log \<Rightarrow> (crop_status \<times> vpc_image \<times> dvpp_log) outcome" where
  "crop_loop mk api [] img lg = Inr (Status_OK, img, lg)"
| "crop_loop mk api (area # areas) img lg =
     bindR (mk area) (\<lambda>r.
       let img = img\<lparr>vi_rois := [r]\<rparr>
       in case CreateDvppApi api lg of (ret, lg) \<Rightarrow>
          if ret \<noteq> 0 then Inr (Status_Ret ret, img\<lparr>vi_rois := []\<rparr>, lg)
          else (case DvppCtl api (Vpc_Proc img) lg of (ret, lg) \<Rightarrow>
            if ret \<noteq> 0 then (case DestroyDvppApi api lg of (ret, lg) \<Rightarrow> Inr (Status_Ret ret, img, lg))
            else crop_loop mk api areas img lg))"

definition CropResizeImage ::
  "(u32 \<Rightarrow> u32 \<Rightarrow> u32) \<Rightarrow> dvpp_api \<Rightarrow> decode_output \<Rightarrow> crop_para \<Rightarrow> u64 \<Rightarrow> u32 \<Rightarrow> vpc_image \<Rightarrow> dvpp_log \<Rightarrow>
   (crop_status \<times> vpc_image \<times> dvpp_log) outcome" where
  "CropResizeImage al api d para outBuffer outBufferSize imageConfigure lg =
     crop_loop (area_roi al d para outBuffer outBufferSize) api (cp_areas para)
       (ConstructImageConfigure d (cp_inputFormat para) (cp_outputFormat para) imageConfigure) lg"

section \<open>Areas and sizes\<close>

definition crop_block :: "(u32 \<Rightarrow> u32 \<Rightarrow> u32) \<Rightarrow> u32 \<Rightarrow> u32 \<Rightarrow> u32 \<Rightarrow> u32 \<Rightarrow> u32 \<Rightarrow> u32 \<Rightarrow> nat \<Rightarrow> nat \<Rightarrow> crop_rect" where
  "crop_block al widthStart heigthStart blockWidth blockHeigth cropWidth cropHeigth i j =
     (let left = al (widthStart + of_nat i * blockWidth) HEIGHT_ALIGNED;
          up = CHECK_EVEN (heigthStart + of_nat j * blockHeigth)
      in \<lparr>cr_left = left, cr_right = CHECK_ODD (left + cropWidth - 1),
          cr_up = up, cr_down = CHECK_ODD (up + cropHeigth - 1)\<rparr>)"

definition getMulCropArea :: "(u32 \<Rightarrow> u32 \<Rightarrow> u32) \<Rightarrow> u32 \<Rightarrow> u32 \<Rightarrow> u32 \<Rightarrow> u32 \<Rightarrow> crop_area list outcome" where
  "getMulCropArea al outWidth outHeight rolNum colNum =
     (let outWidthAligned = al outWidth WIDTH_ALIGNED;
          outHeightAligned = al outHeight HEIGHT_ALIGNED
      in if rolNum \<le> 0 \<or> colNum \<le> 0 then Inr []
         else let blockWidth = outWidthAligned div rolNum; blockHeigth = outHeightAligned div colNum
         in bindR (times_factor blockWidth CROP_BLOCK_FACTOR) (\<lambda>cropWidth.
            bindR (times_factor blockHeigth CROP_BLOCK_FACTOR) (\<lambda>cropHeigth.
            bindR (times_factor (blockWidth - cropWidth) GAP_FACTOR) (\<lambda>widthStart.
            bindR (times_factor (blockHeigth - cropHeigth) GAP_FACTOR) (\<lambda>heigthStart.
              Inr [(let b = crop_block al widthStart heigthStart blockWidth blockHeigth cropWidth cropHeigth i j
                    in \<lparr>ca_crop = b, ca_output = b\<rparr>). i \<leftarrow> [0..<unat rolNum], j \<leftarrow> [0..<unat colNum]])))))"

definition getSingleArea :: "(u32 \<Rightarrow> u32 \<Rightarrow> u32) \<Rightarrow> u32 \<Rightarrow> u32 \<Rightarrow> crop_area list outcome" where
  "getSingleArea al outWidth outHeight = getMulCropArea al outWidth outHeight 1 1"

definition getResizeArea :: "(u32 \<Rightarrow> u32 \<Rightarrow> u32) \<Rightarrow> u32 \<Rightarrow> u32 \<Rightarrow> crop_area list outcome" where
  "getResizeArea al outWidth outHeight = getSingleArea al outWidth outHeight"

definition getCropArea :: "(u32 \<Rightarrow> u32 \<Rightarrow> u32) \<Rightarrow> u32 \<Rightarrow> u32 \<Rightarrow> crop_area list outcome" where
  "getCropArea al outWidth outHeight = getSingleArea al outWidth outHeight"

definition getYuvOutputBufferSize :: "(u32 \<Rightarrow> u32 \<Rightarrow> u32) \<Rightarrow> decode_output \<Rightarrow> rat \<Rightarrow> rat \<Rightarrow> u32 outcome" where
  "getYuvOutputBufferSize al d resizeFactorW resizeFactorH =
     bindR (times_factor (do_imgWidth d) resizeFactorW) (\<lambda>outWidth.
     bindR (times_factor (do_imgHeight d) resizeFactorH) (\<lambda>outHeight.
       Inr (al outWidth WIDTH_ALIGNED * al outHeight HEIGHT_ALIGNED * YUV_FACTOR div YUV_DIVISOR)))"

section \<open>Facts\<close>

lemma unat_u32_less: "unat (n :: u32) < 2 ^ 32"
  using unsigned_less [of n] by simp

text \<open>Integers below \<open>2^24\<close> are floats, so a factor of 1 keeps them; beyond, it may not.\<close>

lemma round_even_int [simp]: "round_even (of_int k) = k"
  by (simp add: round_even_def)

lemma to_float_0 [simp]: "to_float 0 = 0"
  by (simp add: to_float_def round_even_def)

lemma to_float_of_nat:
  assumes "0 < n"
  shows "to_float (of_nat n) =
    (let y = of_nat (n * 2 ^ least_exponent); u = floorlog 2 n + least_exponent - 24
     in of_int (round_even (y / 2 ^ u)) * 2 ^ u / 2 ^ least_exponent)"
proof -
  have y: "\<bar>of_nat n\<bar> * 2 ^ least_exponent = (of_nat (n * 2 ^ least_exponent) :: rat)" by simp
  have f: "nat \<lfloor>of_nat (n * 2 ^ least_exponent) :: rat\<rfloor> = n * 2 ^ least_exponent" by (simp only: floor_of_nat nat_int)
  show ?thesis
    unfolding to_float_def Let_def y f using floorlog_power [of n 2 least_exponent] assms by simp
qed

lemma to_float_nat:
  assumes "n < 2 ^ 24"
  shows "to_float (of_nat n) = of_nat n"
proof (cases "n = 0")
  case False
  define u where "u = floorlog 2 n + least_exponent - 24"
  define w where "w = least_exponent - u"
  have "floorlog 2 n \<le> 24" using assms by (intro floorlog_leI) simp_all
  then have "least_exponent = w + u" by (simp add: u_def w_def least_exponent_def)
  then have "(2 :: rat) ^ least_exponent = 2 ^ w * 2 ^ u" using power_add [of "2 :: rat" w u] by argo
  moreover from this have "(of_nat (n * 2 ^ least_exponent) :: rat) / 2 ^ u = of_int (int (n * 2 ^ w))" by simp
  ultimately show ?thesis
    using False by (simp only: to_float_of_nat Let_def neq0_conv u_def [symmetric] round_even_int) simp
qed simp

lemma to_float_big:
  assumes "0 < n" "floorlog 2 n = 24 + v"
  shows "to_float (of_nat n) = of_int (round_even (of_nat n / 2 ^ v)) * 2 ^ v"
proof -
  have "floorlog 2 n + least_exponent - 24 = v + least_exponent" using assms(2) by simp
  moreover have "(of_nat (n * 2 ^ least_exponent) :: rat) / 2 ^ (v + least_exponent) = of_nat n / 2 ^ v"
    by (simp add: power_add)
  ultimately show ?thesis
    using assms(1) by (simp only: to_float_of_nat Let_def power_add) simp
qed

lemma times_factor_one [simp]:
  assumes "unat n < 2 ^ 24"
  shows "times_factor n 1 = Inr n"
proof -
  have n: "to_float (to_float (of_nat (unat n)) * 1) = of_nat (unat n)"
    using to_float_nat [OF assms] by (simp only: mult_1_right)
  have "int (unat n) < int (2 ^ 32)" using unat_u32_less [of n] by (simp only: of_nat_less_iff)
  then have "int (unat n) < 4294967296" by simp
  moreover have "\<lfloor>of_nat (unat n) :: rat\<rfloor> = int (unat n)" by (simp only: floor_of_nat)
  moreover have "\<not> (of_nat (unat n) :: rat) < 0" by (simp only: not_less of_nat_0_le_iff)
  moreover have "(word_of_int (int (unat n)) :: u32) = n" by simp
  moreover have "0 \<le> int (unat n)" by (simp only: of_nat_0_le_iff)
  ultimately show ?thesis unfolding times_factor_def Let_def n by (simp only: if_False if_True) simp
qed

lemma times_factor_0 [simp]: "times_factor 0 f = Inr 0"
  by (simp add: times_factor_def)

lemma area_roi_crop: "area_roi al d para b sz area = Inr r \<Longrightarrow> ro_crop r = ca_crop area \<and> ro_output r = ca_output area \<and> ro_addr r = b"
  by (auto simp: area_roi_def ConstructRoiOutputConfigure_def ConstructRoiInputConfigure_def bindR_eq_Inr)

text \<open>With a device that answers 0, the loop makes one request per area and closes nothing.\<close>

lemma crop_loop_ok:
  assumes "\<And>lg. da_create api lg = 0" "\<And>lg req. da_ctl api lg req = 0"
    "list_all2 (\<lambda>a r. mk a = Inr r) areas rs"
  shows "\<exists>img'. crop_loop mk api areas img lg =
     Inr (Status_OK, img', lg @ concat [[Api_Create True, Api_Ctl (Vpc_Proc (img\<lparr>vi_rois := [r]\<rparr>))]. r \<leftarrow> rs])"
  using assms(3)
proof (induction areas rs arbitrary: img lg rule: list_all2_induct)
  case (Cons a as r rs)
  from Cons.IH [of "img\<lparr>vi_rois := [r]\<rparr>" "lg @ [Api_Create True, Api_Ctl (Vpc_Proc (img\<lparr>vi_rois := [r]\<rparr>))]"]
  show ?case using Cons.hyps assms(1,2) by (auto simp: api_defs Let_def)
qed simp

lemma open_handles_requests:
  "open_handles (concat [[Api_Create True, Api_Ctl (f r)]. r \<leftarrow> rs]) = int (length rs)"
  by (induction rs) simp_all



section \<open>Offsets as natural numbers\<close>
















section \<open>Properties\<close>



text \<open>
  From \<open>2^24\<close> on the width of a block is rounded when the factor is applied. For a picture of
  117440592 by 16 in seven columns the crop width is one more than that of a block, the gap
  between blocks wraps around, and the areas lie far outside the picture.
\<close>

lemma floorlog_2_eq: "2 ^ k \<le> n \<Longrightarrow> n < 2 ^ Suc k \<Longrightarrow> floorlog 2 n = Suc k"
  by (intro antisym floorlog_leI floorlog_ge_SucI) simp_all

lemma crop_width_rounds_up: "times_factor 16777227 1 = Inr 16777228"
proof -
  have "\<lfloor>16777227 / 2 :: rat\<rfloor> = 8388613" using floor_divide_of_int_eq [of 16777227 2, where 'a = rat] by simp
  then have "to_float 16777227 = 16777228"
    using to_float_big [of 16777227 1] floorlog_2_eq [of 24 16777227] by (simp add: round_even_def Let_def)
  moreover have "to_float 16777228 = 16777228"
    using to_float_big [of 16777228 1] floorlog_2_eq [of 24 16777228] by (simp add: round_even_def Let_def)
  ultimately show ?thesis by (simp add: times_factor_def)
qed

lemma crop_areas_leave_picture:
  "\<exists>as. getMulCropArea align_up 117440592 16 7 1 = Inr as \<and> cr_left (ca_crop (as ! 0)) = 2147483648"
proof -
  have "\<lfloor>4294967295 / 256 :: rat\<rfloor> = 16777215" using floor_divide_of_int_eq [of 4294967295 256, where 'a = rat] by simp
  then have "to_float 4294967295 = 4294967296"
    using to_float_big [of 4294967295 8] floorlog_2_eq [of 31 4294967295] by (simp add: round_even_def Let_def)
  moreover have "to_float 2147483648 = 2147483648"
    using to_float_big [of 2147483648 8] floorlog_2_eq [of 31 2147483648] by (simp add: round_even_def Let_def)
  moreover have "unat (- 1 :: u32) = 4294967295" by (simp add: unsigned_minus_1_eq_mask mask_eq_exp_minus_1)
  then have "rat_of_nat (unat (- 1 :: u32)) = 4294967295" by simp
  ultimately have g: "times_factor (- 1) GAP_FACTOR = Inr 2147483648"
    unfolding times_factor_def GAP_FACTOR_def by (simp only: Let_def) simp
  show ?thesis
    using g crop_width_rounds_up times_factor_one [of 16]
    by (simp add: getMulCropArea_def Let_def CROP_BLOCK_FACTOR_def align_up_def WIDTH_ALIGNED_def HEIGHT_ALIGNED_def crop_block_def)
qed

text \<open>
  With a device that accepts everything, cropping makes one request per area, in order,
  each with that area alone and writing to the given buffer. None of the handles is closed:
  a call leaves one open per area.
\<close>

theorem crop_requests_in_order:
  assumes "\<And>lg. da_create api lg = 0" "\<And>lg req. da_ctl api lg req = 0"
    "times_factor (do_imgWidth d) (cp_factorW para) = Inr ow" "times_factor (do_imgHeight d) (cp_factorH para) = Inr oh"
  shows "\<exists>img' rs base. CropResizeImage al api d para b sz img lg =
      Inr (Status_OK, img', lg @ concat [[Api_Create True, Api_Ctl (Vpc_Proc (base\<lparr>vi_rois := [r]\<rparr>))]. r \<leftarrow> rs]) \<and>
    map ro_crop rs = map ca_crop (cp_areas para) \<and> map ro_output rs = map ca_output (cp_areas para) \<and>
    list_all (\<lambda>r. ro_addr r = b \<and> ro_bufferSize r = sz) rs \<and> vi_addr base = do_inBuffer d \<and>
    open_handles (concat [[Api_Create True, Api_Ctl (Vpc_Proc (base\<lparr>vi_rois := [r]\<rparr>))]. r \<leftarrow> rs]) = int (length (cp_areas para))"
proof -
  let ?mk = "area_roi al d para b sz"
  let ?base = "ConstructImageConfigure d (cp_inputFormat para) (cp_outputFormat para) img"
  let ?r = "\<lambda>a. fresh_roi\<lparr>ro_crop := ca_crop a, ro_widthStride := al ow WIDTH_ALIGNED, ro_heightStride := al oh HEIGHT_ALIGNED,
     ro_addr := b, ro_bufferSize := sz, ro_output := ca_output a\<rparr>"
  have mk: "?mk a = Inr (?r a)" for a
    using assms(3,4) by (simp add: area_roi_def ConstructRoiOutputConfigure_def ConstructRoiInputConfigure_def)
  have "list_all2 (\<lambda>a r. ?mk a = Inr r) (cp_areas para) (map ?r (cp_areas para))"
    by (simp add: list_all2_conv_all_nth mk)
  from crop_loop_ok [OF assms(1,2) this] obtain img' where
    "CropResizeImage al api d para b sz img lg = Inr (Status_OK, img',
       lg @ concat [[Api_Create True, Api_Ctl (Vpc_Proc (?base\<lparr>vi_rois := [r]\<rparr>))]. r \<leftarrow> map ?r (cp_areas para)])"
    unfolding CropResizeImage_def by blast
  then show ?thesis using open_handles_requests [of "\<lambda>r. Vpc_Proc (?base\<lparr>vi_rois := [r]\<rparr>)" "map ?r (cp_areas para)"]
    by (intro exI [of _ img'] exI [of _ "map ?r (cp_areas para)"] exI [of _ ?base])
      (simp add: list_all_iff ConstructImageConfigure_def o_def)
qed

definition sample_rect :: crop_rect where
  "sample_rect = \<lparr>cr_left = 0, cr_right = 99, cr_up = 0, cr_down = 99\<rparr>"

definition sample_para :: crop_para where
  "sample_para = \<lparr>cp_areas = [\<lparr>ca_crop = sample_rect, ca_output = sample_rect\<rparr>, \<lparr>ca_crop = sample_rect, ca_output = sample_rect\<rparr>],
     cp_factorW = 1, cp_factorH = 1, cp_inputFormat = 0, cp_outputFormat = OUTPUT_YUV420SP_UV\<rparr>"

definition sample_picture :: decode_output where
  "sample_picture = \<lparr>do_imgWidth = 640, do_imgHeight = 480, do_imgWidthAligned = 640, do_imgHeightAligned = 480, do_inBuffer = 4096, do_inBufferSize = 460800\<rparr>"

definition empty_image :: vpc_image where
  "empty_image = yuv_image 0 0 0 0 0 OUTPUT_YUV420SP_UV []"

theorem crop_requests_in_order_witness:
  "\<exists>img' lg. CropResizeImage align_up idle_api sample_picture sample_para 8192 460800 empty_image [] = Inr (Status_OK, img', lg) \<and>
     open_handles lg = 2"
proof -
  have "times_factor (do_imgWidth sample_picture) (cp_factorW sample_para) = Inr 640"
    "times_factor (do_imgHeight sample_picture) (cp_factorH sample_para) = Inr 480"
    by (simp_all add: sample_picture_def sample_para_def)
  from crop_requests_in_order [OF _ _ this, of idle_api align_up 8192 460800 empty_image "[]"]
  show ?thesis by (fastforce simp: idle_api_def sample_para_def)
qed

text \<open>
  When the device refuses the first request, the status of the whole call is what
  closing the handle returned: if that works, the failure is reported as 0.
\<close>

theorem refused_crop_status:
  assumes "cp_areas para = a # as" "area_roi al d para b sz a = Inr r"
    "da_create api lg = 0" "\<And>req. da_ctl api (lg @ [Api_Create True]) req \<noteq> 0" "\<And>lg. da_destroy api lg = 0"
  shows "\<exists>img' lg'. CropResizeImage al api d para b sz img lg = Inr (Status_Ret 0, img', lg') \<and> open_handles lg' = open_handles lg"
  using assms by (simp add: CropResizeImage_def api_defs Let_def)

theorem refused_crop_status_witness:
  "\<exists>img' lg'. CropResizeImage align_up (idle_api\<lparr>da_ctl := \<lambda>_ _. -1\<rparr>) sample_picture sample_para 0 0 empty_image [] = Inr (Status_Ret 0, img', lg')
     \<and> open_handles lg' = open_handles []"
  by (rule refused_crop_status)
    (auto simp: sample_para_def sample_picture_def idle_api_def area_roi_def ConstructRoiOutputConfigure_def ConstructRoiInputConfigure_def)

end
