(* ===== verification/StreamPuller.thy ===== *)
theory StreamPuller
  imports CommonData
begin

text \<open>
  \<open>StreamPuller/StreamPuller.cpp\<close>: the engine at the start of the graph. The stream library
  is a parameter: what opening a name yields, and for every round of the pulling loop what
  the read returned, whether memory could be had, whether the next engine took the data and
  whether the stop flag had been set. The members are a record; two fields of the model
  collect the messages sent and count the packets read and never given back
  (\<open>av_packet_unref\<close>).
\<close>

definition H264 :: u32 where "H264 = 0"
definition H265 :: u32 where "H265 = 1"

datatype codec_id = AV_CODEC_ID_H264 | AV_CODEC_ID_H265 | Other_Codec int

record av_stream =
  as_is_video :: bool
  as_height :: u32
  as_width :: u32
  as_codec :: codec_id

record puller =
  sp_format_ctx :: "av_stream list option"
  sp_blockId :: u64
  sp_mWidth :: u32
  sp_mHeight :: u32
  sp_channelId :: u32
  sp_format :: u32
  sp_videoIndex :: int
  sp_stop :: bool
  sp_running :: bool
  sp_dataBuffer :: raw_buffer
  sp_streamName :: string
  sp_frameIndex :: int
  sp_sent :: "stream_raw_data list"
  sp_held :: nat

section \<open>Opening a stream\<close>

text \<open>
  The results of opening and of reading the stream information; anything but 0 is a
  failure. The streams are those of the opened context.
\<close>

record av_open =
  ao_open :: int
  ao_find :: int
  ao_streams :: "av_stream list"

definition createFormatContext :: "(string \<Rightarrow> av_open) \<Rightarrow> string \<Rightarrow> av_stream list option" where
  "createFormatContext av streamName =
     (let r = av streamName
      in if ao_open r \<noteq> 0 then None
         else if ao_find r \<noteq> 0 then None
         else Some (ao_streams r))"

text \<open>The loop has one round: only the first stream is looked at.\<close>

definition getStreamInfo :: "puller \<Rightarrow> puller outcome" where
  "getStreamInfo s =
     (case sp_format_ctx s of
        None \<Rightarrow> Inr s
      | Some streams \<Rightarrow>
          let s = s\<lparr>sp_videoIndex := - 1\<rparr>
          in case streams of
               [] \<Rightarrow> Inl Out_Of_Range
             | inStream # _ \<Rightarrow>
                 if as_is_video inStream then
                   let s = s\<lparr>sp_videoIndex := 0, sp_mHeight := as_height inStream, sp_mWidth := as_width inStream\<rparr>
                   in (case as_codec inStream of
                         AV_CODEC_ID_H264 \<Rightarrow> Inr (s\<lparr>sp_format := H264\<rparr>)
                       | AV_CODEC_ID_H265 \<Rightarrow> Inr (s\<lparr>sp_format := H265\<rparr>)
                       | Other_Codec c \<Rightarrow> Inr s)
                 else Inr s)"

section \<open>Pulling\<close>

datatype read_result = Read_Failed | Packet int int "u8 list"

record pull_round =
  pr_stop :: bool
  pr_read :: read_result
  pr_dmalloc :: bool
  pr_send :: bool

definition raw_info :: "puller \<Rightarrow> u32 \<Rightarrow> stream_info" where
  "raw_info s eos = \<lparr>si_frameId = 0, si_mode = 0, si_format = sp_format s, si_channelId = sp_channelId s, si_isEOS = eos, si_table = []\<rparr>"

text \<open>One round of the loop: the new state and whether the loop was left.\<close>

definition pull_step :: "puller \<Rightarrow> pull_round \<Rightarrow> puller \<times> bool" where
  "pull_step s r =
     (if sp_stop s \<or> pr_stop r \<or> sp_format_ctx s = None then (s, True)
      else case pr_read r of
        Read_Failed \<Rightarrow> (s, False)
      | Packet stream_index pkt_size data \<Rightarrow>
          if stream_index = sp_videoIndex s then
            if pkt_size \<le> 0 then (s\<lparr>sp_held := sp_held s + 1\<rparr>, False)
            else if \<not> pr_dmalloc r then (s, True)
            else
              let s = s\<lparr>sp_dataBuffer := \<lparr>rb_data = Some (take (nat pkt_size) data), rb_len_of_byte = word_of_int pkt_size\<rparr>,
                        sp_blockId := sp_blockId s + 1\<rparr>;
                  output = \<lparr>sr_info = raw_info s 0, sr_buf = sp_dataBuffer s\<rparr>
              in if \<not> pr_send r then (s\<lparr>sp_held := sp_held s + 1\<rparr>, False)
                 else (s\<lparr>sp_sent := sp_sent s @ [output]\<rparr>, False)
          else (s\<lparr>sp_held := sp_held s + 1\<rparr>, False))"

text \<open>
  What follows the loop: the end of the stream is announced whatever ended it. The answer of
  \<open>SendData\<close> to this message is stored and never looked at, unlike that for a packet: the
  message counts as sent once it has been handed over, taken by the next engine or not.
\<close>

definition pull_finish :: "puller \<Rightarrow> puller" where
  "pull_finish s =
     s\<lparr>sp_sent := sp_sent s @ [\<lparr>sr_info = raw_info s 1, sr_buf = \<lparr>rb_data = None, rb_len_of_byte = 0\<rparr>\<rparr>], sp_stop := True\<rparr>"

text \<open>\<open>pullStreamDataLoop\<close> over the rounds so far; the second component: it has returned.\<close>

fun pullStreamDataLoop :: "puller \<Rightarrow> pull_round list \<Rightarrow> puller \<times> bool" where
  "pullStreamDataLoop s [] = (s, False)"
| "pullStreamDataLoop s (r # rs) =
     (case pull_step s r of
        (s', True) \<Rightarrow> (pull_finish s', True)
      | (s', False) \<Rightarrow> pullStreamDataLoop s' rs)"

section \<open>The engine\<close>

definition stopStream :: "puller \<Rightarrow> puller" where
  "stopStream s = s\<lparr>sp_stop := True, sp_running := False\<rparr>"

definition startStream :: "(string \<Rightarrow> av_open) \<Rightarrow> string \<Rightarrow> puller \<Rightarrow> (bool \<times> puller) outcome" where
  "startStream av streamName s =
     (let s = (stopStream s)\<lparr>sp_stop := False, sp_format_ctx := createFormatContext av streamName\<rparr>
      in if sp_format_ctx s = None then Inr (False, s)
         else bindR (getStreamInfo s) (\<lambda>s. Inr (True, s\<lparr>sp_running := True\<rparr>)))"

text \<open>\<open>std::stoi\<close>: no digits, or a value that does not fit, raise an exception.\<close>

definition stoi :: "string \<Rightarrow> int outcome" where
  "stoi s =
     (let t = dropWhile c_space s;
          d = (case t of c # u \<Rightarrow> if c = CHR ''-'' \<or> c = CHR ''+'' then u else t | [] \<Rightarrow> [])
      in if takeWhile is_digit d = [] then Inl (Thrown ''invalid_argument'')
         else if int32_range (atoi s) then Inr (atoi s) else Inl (Thrown ''out_of_range''))"

definition puller_init :: "(string \<times> string) list \<Rightarrow> puller \<Rightarrow> (bool \<times> puller) outcome" where
  "puller_init config s =
     (let aimap = kvmap config [];
          s = (if map_of aimap ''format'' \<noteq> None
               then s\<lparr>sp_format := (if kv_get aimap ''format'' = ''h264'' then H264 else H265)\<rparr> else s)
      in if map_of aimap ''channel_id'' = None then Inr (False, s)
         else bindR (stoi (kv_get aimap ''channel_id'')) (\<lambda>c.
           let s = s\<lparr>sp_channelId := word_of_int c\<rparr>
           in Inr (True, if map_of aimap ''stream_name'' \<noteq> None then s\<lparr>sp_streamName := kv_get aimap ''stream_name''\<rparr> else s)))"

text \<open>Only every twelfth message starts the stream; the counter starts at 0 and only grows.\<close>

definition puller_process :: "(string \<Rightarrow> av_open) \<Rightarrow> string option \<Rightarrow> puller \<Rightarrow> puller outcome" where
  "puller_process av arg0 s =
     (let skip = sp_frameIndex s mod 12 \<noteq> 0; s = s\<lparr>sp_frameIndex := sp_frameIndex s + 1\<rparr>
      in if skip then Inr s
         else case arg0 of
           None \<Rightarrow> Inr s
         | Some inputArg \<Rightarrow>
             let s = (if inputArg \<noteq> [] then s\<lparr>sp_streamName := inputArg\<rparr> else s)
             in bindR (startStream av (sp_streamName s) s) (\<lambda>(_, s). Inr s))"

section \<open>What the loop amounts to\<close>

text \<open>The rounds that leave the loop, those whose packet is passed on, and those whose packet is kept.\<close>

definition ends :: "puller \<Rightarrow> pull_round \<Rightarrow> bool" where
  "ends s r \<longleftrightarrow> sp_stop s \<or> pr_stop r \<or> sp_format_ctx s = None \<or>
     (case pr_read r of Packet i n _ \<Rightarrow> i = sp_videoIndex s \<and> 0 < n \<and> \<not> pr_dmalloc r | _ \<Rightarrow> False)"

definition passes :: "puller \<Rightarrow> pull_round \<Rightarrow> bool" where
  "passes s r \<longleftrightarrow> (case pr_read r of Packet i n _ \<Rightarrow> i = sp_videoIndex s \<and> 0 < n \<and> pr_send r | _ \<Rightarrow> False)"

definition keeps :: "puller \<Rightarrow> pull_round \<Rightarrow> bool" where
  "keeps s r \<longleftrightarrow> (case pr_read r of Packet i n _ \<Rightarrow> \<not> passes s r | _ \<Rightarrow> False)"

definition payload :: "puller \<Rightarrow> pull_round \<Rightarrow> stream_raw_data" where
  "payload s r =
     (case pr_read r of
        Packet i n data \<Rightarrow> \<lparr>sr_info = raw_info s 0, sr_buf = \<lparr>rb_data = Some (take (nat n) data), rb_len_of_byte = word_of_int n\<rparr>\<rparr>
      | Read_Failed \<Rightarrow> \<lparr>sr_info = raw_info s 0, sr_buf = \<lparr>rb_data = None, rb_len_of_byte = 0\<rparr>\<rparr>)"

definition same_stream :: "puller \<Rightarrow> puller \<Rightarrow> bool" where
  "same_stream s t \<longleftrightarrow> sp_format_ctx t = sp_format_ctx s \<and> sp_videoIndex t = sp_videoIndex s \<and> sp_stop t = sp_stop s \<and>
     sp_format t = sp_format s \<and> sp_channelId t = sp_channelId s"

lemma pull_step_ends: "snd (pull_step s r) = ends s r"
  by (auto simp: pull_step_def ends_def Let_def split: read_result.splits)

lemma pull_step_ended: "ends s r \<Longrightarrow> fst (pull_step s r) = s"
  by (auto simp: pull_step_def ends_def Let_def split: read_result.splits)

lemma pull_step_goes_on:
  assumes "\<not> ends s r"
  shows "same_stream s (fst (pull_step s r)) \<and>
    sp_sent (fst (pull_step s r)) = sp_sent s @ (if passes s r then [payload s r] else []) \<and>
    sp_held (fst (pull_step s r)) = sp_held s + (if keeps s r then 1 else 0)"
  using assms
  by (auto simp: pull_step_def ends_def passes_def keeps_def payload_def same_stream_def raw_info_def Let_def split: read_result.splits)

lemma same_stream_cong:
  assumes "same_stream s t"
  shows "ends t = ends s \<and> passes t = passes s \<and> keeps t = keeps s \<and> payload t = payload s \<and> raw_info t = raw_info s"
proof -
  have p: "passes t = passes s" "raw_info t = raw_info s"
    using assms by (auto simp: same_stream_def passes_def raw_info_def fun_eq_iff split: read_result.splits)
  then have "payload t = payload s" "keeps t = keeps s"
    by (auto simp: payload_def keeps_def fun_eq_iff split: read_result.splits)
  moreover have "ends t = ends s" using assms by (auto simp: same_stream_def ends_def fun_eq_iff split: read_result.splits)
  ultimately show ?thesis using p by simp
qed

lemma same_stream_trans: "same_stream a b \<Longrightarrow> same_stream b c \<Longrightarrow> same_stream a c"
  by (simp add: same_stream_def)

lemma pull_loop_spec:
  "case pullStreamDataLoop s rs of (t, returned) \<Rightarrow>
     let before = takeWhile (\<lambda>r. \<not> ends s r) rs
     in (returned \<longleftrightarrow> before \<noteq> rs) \<and>
        sp_sent t = sp_sent s @ map (payload s) (filter (passes s) before) @
          (if returned then [\<lparr>sr_info = raw_info s 1, sr_buf = \<lparr>rb_data = None, rb_len_of_byte = 0\<rparr>\<rparr>] else []) \<and>
        sp_held t = sp_held s + length (filter (keeps s) before) \<and> (returned \<longrightarrow> sp_stop t)"
proof (induction rs arbitrary: s)
  case (Cons r rs)
  show ?case
  proof (cases "ends s r")
    case True
    then have "pull_step s r = (s, True)" using pull_step_ends [of s r] pull_step_ended [of s r] by (metis prod.collapse)
    with True show ?thesis by (simp add: pull_finish_def)
  next
    case False
    then obtain t where t: "pull_step s r = (t, False)" using pull_step_ends [of s r] by (metis prod.collapse)
    with pull_step_goes_on [OF False] have
      1: "same_stream s t" "sp_sent t = sp_sent s @ (if passes s r then [payload s r] else [])" "sp_held t = sp_held s + (if keeps s r then 1 else 0)"
      by simp_all
    from same_stream_cong [OF 1(1)] have c: "ends t = ends s" "passes t = passes s" "keeps t = keeps s" "payload t = payload s" "raw_info t = raw_info s"
      by simp_all
    show ?thesis using Cons [of t] False unfolding c 1(2,3) by (simp add: t Let_def split: prod.splits)
  qed
qed simp

section \<open>Properties\<close>

text \<open>
  C25. The pulling loop passes on, in order and once each, exactly the packets of the video
  stream that have data and that the next engine accepts, up to the first round that ends
  it; it then announces the end of the stream once, whether the next engine takes that message
  or not, and raises the stop flag. Every packet
  it read and did not pass on is never given back to the library.
\<close>

theorem pulling_filters_packets:
  "case pullStreamDataLoop s rs of (t, returned) \<Rightarrow>
     let before = takeWhile (\<lambda>r. \<not> ends s r) rs
     in (returned \<longleftrightarrow> before \<noteq> rs) \<and>
        sp_sent t = sp_sent s @ map (payload s) (filter (passes s) before) @
          (if returned then [\<lparr>sr_info = raw_info s 1, sr_buf = \<lparr>rb_data = None, rb_len_of_byte = 0\<rparr>\<rparr>] else []) \<and>
        sp_held t = sp_held s + length (filter (keeps s) before) \<and> (returned \<longrightarrow> sp_stop t)"
  by (rule pull_loop_spec)

definition sample_puller :: puller where
  "sample_puller =
     \<lparr>sp_format_ctx = None, sp_blockId = 0, sp_mWidth = 0, sp_mHeight = 0, sp_channelId = 3, sp_format = H264,
      sp_videoIndex = 0, sp_stop = False, sp_running = False, sp_dataBuffer = \<lparr>rb_data = None, rb_len_of_byte = 0\<rparr>,
      sp_streamName = [], sp_frameIndex = 0, sp_sent = [], sp_held = 0\<rparr>"

definition video_stream :: av_stream where
  "video_stream = \<lparr>as_is_video = True, as_height = 1080, as_width = 1920, as_codec = AV_CODEC_ID_H264\<rparr>"

definition audio_stream :: av_stream where
  "audio_stream = \<lparr>as_is_video = False, as_height = 0, as_width = 0, as_codec = Other_Codec 7\<rparr>"

definition packet_round :: "int \<Rightarrow> u8 list \<Rightarrow> pull_round" where
  "packet_round i data = \<lparr>pr_stop = False, pr_read = Packet i (int (length data)) data, pr_dmalloc = True, pr_send = True\<rparr>"

theorem pulling_filters_packets_witness:
  "sp_held (fst (pullStreamDataLoop (sample_puller\<lparr>sp_format_ctx := Some [video_stream]\<rparr>) [packet_round 1 [9], packet_round 0 [1, 2]])) = 1"
  using pulling_filters_packets [of "sample_puller\<lparr>sp_format_ctx := Some [video_stream]\<rparr>" "[packet_round 1 [9], packet_round 0 [1, 2]]"]
  by (simp add: sample_puller_def packet_round_def ends_def passes_def keeps_def split: prod.splits)

text \<open>
  When the first stream of a source is not a video stream, the engine starts but passes
  on no packet whatever, even if a later stream is one.
\<close>

theorem later_video_is_ignored:
  assumes "createFormatContext av streamName = Some (a # streams)" "\<not> as_is_video a"
    "startStream av streamName s = Inr (ok, s')" "\<forall>r \<in> set rs. \<forall>i n d. pr_read r = Packet i n d \<longrightarrow> 0 \<le> i"
  shows "ok \<and> (\<exists>eos. sp_sent (fst (pullStreamDataLoop s' rs)) = sp_sent s @ eos \<and> length eos \<le> 1 \<and> list_all (\<lambda>m. si_isEOS (sr_info m) = 1) eos)"
proof -
  have s': "ok" "sp_videoIndex s' = - 1" "sp_sent s' = sp_sent s"
    using assms(1-3) by (auto simp: startStream_def getStreamInfo_def stopStream_def Let_def)
  have "filter (passes s') (takeWhile (\<lambda>r. \<not> ends s' r) rs) = []"
  proof -
    have "\<not> passes s' r" if "r \<in> set rs" for r
    proof (cases "pr_read r")
      case (Packet i n d)
      with assms(4) that have "0 \<le> i" by blast
      with Packet s'(2) show ?thesis by (simp add: passes_def)
    qed (simp add: passes_def)
    then show ?thesis by (auto simp: filter_empty_conv dest: set_takeWhileD)
  qed
  with pull_loop_spec [of s' rs] s' show ?thesis
    by (cases "pullStreamDataLoop s' rs") (auto simp: Let_def raw_info_def)
qed

theorem later_video_is_ignored_witness:
  "\<exists>s'. startStream (\<lambda>_. \<lparr>ao_open = 0, ao_find = 0, ao_streams = [audio_stream, video_stream]\<rparr>) ''cam'' sample_puller = Inr (True, s') \<and>
     length (sp_sent (fst (pullStreamDataLoop s' [packet_round 1 [7]]))) \<le> 1"
proof -
  let ?av = "\<lambda>_ :: string. \<lparr>ao_open = 0, ao_find = 0, ao_streams = [audio_stream, video_stream]\<rparr>"
  have c: "createFormatContext ?av ''cam'' = Some (audio_stream # [video_stream])" by (simp add: createFormatContext_def Let_def)
  obtain ok s' where s': "startStream ?av ''cam'' sample_puller = Inr (ok, s')"
    by (simp add: startStream_def getStreamInfo_def createFormatContext_def audio_stream_def Let_def)
  have "\<not> as_is_video audio_stream" "\<forall>r \<in> set [packet_round 1 [7]]. \<forall>i n d. pr_read r = Packet i n d \<longrightarrow> 0 \<le> i"
    by (simp_all add: audio_stream_def packet_round_def)
  from later_video_is_ignored [OF c this(1) s' this(2)] s' show ?thesis by (auto simp: sample_puller_def)
qed

end
