(* ===== verification/VDecEngine.thy ===== *)
theory VDecEngine
  imports Dvpp
begin

text \<open>
  \<open>VDecEngine/VDecEngine.cpp\<close>: the engine that hands the packets to the decoder, converts
  every decoded frame and sends it on. The decoder calls back for the frames it decodes:
  the frames of a call and its result are parameters, as are the memory, the converter,
  the clock and what an uninitialised request holds.
\<close>

section \<open>Data\<close>

record frame =
  fr_bitdepth :: int
  fr_width :: u32
  fr_height :: u32
  fr_realWidth :: u32
  fr_realHeight :: u32
  fr_buffer :: u64
  fr_buffer_size :: u32
  fr_offset_head_y :: u32
  fr_offset_head_c :: u32
  fr_offset_payload_y :: u32
  fr_offset_payload_c :: u32
  fr_stride_head :: u32
  fr_stride_payload :: u32

text \<open>The request to the old interface of the converter; \<open>None\<close> is a pointer never set.\<close>

record vpc_in_msg =
  vm_format :: int
  vm_rank :: int
  vm_bitwidth :: int
  vm_width :: u32
  vm_high :: u32
  vm_in_buffer :: u64
  vm_in_buffer_size :: u32
  vm_luma_head_addr :: u64
  vm_chroma_head_addr :: u64
  vm_luma_payload_addr :: u64
  vm_chroma_payload_addr :: u64
  vm_luma_head_stride :: u32
  vm_chroma_head_stride :: u32
  vm_luma_payload_stride :: u32
  vm_chroma_payload_stride :: u32
  vm_cvdr_or_rdma :: int
  vm_hmax :: u32
  vm_hmin :: u32
  vm_vmax :: u32
  vm_vmin :: u32
  vm_vinc :: int
  vm_hinc :: int
  vm_out_buffer_1_size :: u32
  vm_out_buffer :: "u8 list option"

record vdec_in_msg =
  vi_channelId :: u32
  vi_isEOS :: u32
  vi_video_format :: string
  vi_in_buffer :: "u8 list option"
  vi_in_buffer_size :: u32

record vdec_env =
  ve_al :: "u32 \<Rightarrow> u32 \<Rightarrow> u32"
  ve_create_vdec :: bool
  ve_create_dvpp :: bool
  ve_dmalloc :: "nat \<Rightarrow> u32 \<Rightarrow> u8 list option"
  ve_convert :: "nat \<Rightarrow> vpc_in_msg \<Rightarrow> u8 list option"
  ve_fresh_request :: vpc_in_msg
  ve_time :: "nat \<Rightarrow> int \<times> int"
  ve_send :: "nat \<Rightarrow> bool"
  ve_decode :: "vdec_in_msg \<Rightarrow> frame list \<times> int"

text \<open>The members and, for the model, the messages sent and the number of conversions.\<close>

record vdec =
  vd_vdec_handle :: bool
  vd_dvpp_handle :: bool
  vd_in :: vdec_in_msg
  vd_inputInfo :: stream_info
  vd_frameId :: u64
  vd_stamps :: "(int \<times> int) \<times> int \<times> int"
  vd_sent :: "device_stream_data list"
  vd_count :: nat

section \<open>Operations\<close>

definition vdec_init :: "vdec_env \<Rightarrow> vdec \<Rightarrow> bool \<times> vdec" where
  "vdec_init ev s =
     (if \<not> vd_vdec_handle s \<and> \<not> ve_create_vdec ev then (False, s)
      else (True, s\<lparr>vd_vdec_handle := True, vd_dvpp_handle := vd_dvpp_handle s \<or> ve_create_dvpp ev\<rparr>))"

definition vdec_destruct :: "vdec \<Rightarrow> vdec" where
  "vdec_destruct s = s\<lparr>vd_vdec_handle := False, vd_dvpp_handle := False\<rparr>"

definition convert_request :: "frame \<Rightarrow> vpc_in_msg \<Rightarrow> vpc_in_msg" where
  "convert_request f m =
     m\<lparr>vm_format := 0, vm_rank := 1, vm_bitwidth := fr_bitdepth f, vm_width := fr_width f, vm_high := fr_height f,
       vm_in_buffer := fr_buffer f, vm_in_buffer_size := fr_buffer_size f,
       vm_luma_head_addr := fr_buffer f + ucast (fr_offset_head_y f),
       vm_chroma_head_addr := fr_buffer f + ucast (fr_offset_head_c f),
       vm_luma_payload_addr := fr_buffer f + ucast (fr_offset_payload_y f),
       vm_chroma_payload_addr := fr_buffer f + ucast (fr_offset_payload_c f),
       vm_luma_head_stride := fr_stride_head f, vm_chroma_head_stride := fr_stride_head f,
       vm_luma_payload_stride := fr_stride_payload f, vm_chroma_payload_stride := fr_stride_payload f,
       vm_cvdr_or_rdma := 0, vm_hmax := fr_realWidth f - 1, vm_hmin := 0, vm_vmax := fr_realHeight f - 1, vm_vmin := 0,
       vm_vinc := 1, vm_hinc := 1\<rparr>"

text \<open>
  \<open>Hfbc2YuvOld\<close>: the status and the request as it is left. The converter writes the
  buffer of the request; when it fails the buffer stays as it was allocated.
\<close>

definition Hfbc2YuvOld :: "vdec_env \<Rightarrow> nat \<Rightarrow> bool \<Rightarrow> frame \<Rightarrow> vpc_in_msg \<Rightarrow> (bool \<times> vpc_in_msg) outcome" where
  "Hfbc2YuvOld ev n dvpp_handle f m =
     (if \<not> dvpp_handle then Inr (False, m)
      else
        let m = convert_request f m
        in bindR (yuv_bytes (ve_al ev (fr_realWidth f) DVPP_STRIDE_WIDTH * ve_al ev (fr_realHeight f) DVPP_STRIDE_HEIGHT)) (\<lambda>outBufferSize.
           case ve_dmalloc ev n outBufferSize of
             None \<Rightarrow> Inr (False, m)
           | Some outBuffer \<Rightarrow>
               let m = m\<lparr>vm_out_buffer_1_size := outBufferSize, vm_out_buffer := Some outBuffer\<rparr>
               in (case ve_convert ev n m of
                     None \<Rightarrow> Inr (False, m)
                   | Some yuv \<Rightarrow> Inr (True, m\<lparr>vm_out_buffer := Some yuv\<rparr>))))"

text \<open>
  The callback ignores the status of the conversion; sending on a buffer that was never
  set reads an indeterminate pointer.
\<close>

definition frame_message :: "frame \<Rightarrow> vpc_in_msg \<Rightarrow> u8 list \<Rightarrow> (int \<times> int) \<times> int \<times> int \<Rightarrow> vdec \<Rightarrow> device_stream_data" where
  "frame_message f m yuv stamps s =
     \<lparr>sd_info = (vd_inputInfo s)\<lparr>si_frameId := vd_frameId s, si_isEOS := 0,
        si_table := map_put ''VDecEngine'' stamps (si_table (vd_inputInfo s))\<rparr>,
      sd_action = doAll, sd_detectResult = [],
      sd_imgOrigin = \<lparr>im_format = 0, im_width = fr_realWidth f, im_height = fr_realHeight f,
        im_widthAligned = fr_width f, im_heightAligned = fr_height f,
        im_buf = \<lparr>rb_data = Some yuv, rb_len_of_byte = vm_out_buffer_1_size m\<rparr>\<rparr>\<rparr>"

definition frameCallback :: "vdec_env \<Rightarrow> frame \<Rightarrow> vdec \<Rightarrow> vdec outcome" where
  "frameCallback ev f s =
     bindR (Hfbc2YuvOld ev (vd_count s) (vd_dvpp_handle s) f (ve_fresh_request ev)) (\<lambda>(_, m).
       case vm_out_buffer m of
         None \<Rightarrow> Inl Indeterminate
       | Some yuv \<Rightarrow>
           let n = vd_count s; stamps = (fst (vd_stamps s), ve_time ev (2 * n))
           in Inr (s\<lparr>vd_frameId := vd_frameId s + 1, vd_stamps := (ve_time ev (2 * n + 1), snd stamps),
                     vd_sent := vd_sent s @ (if ve_send ev n then [frame_message f m yuv stamps s] else []),
                     vd_count := Suc n\<rparr>))"

definition vdec_request :: "stream_raw_data \<Rightarrow> vdec_in_msg \<Rightarrow> vdec_in_msg" where
  "vdec_request d m =
     (let m = m\<lparr>vi_channelId := si_channelId (sr_info d)\<rparr>
      in if si_isEOS (sr_info d) = 1 then m\<lparr>vi_isEOS := 1\<rparr>
         else m\<lparr>vi_video_format := (if si_format (sr_info d) = 0 then ''h264'' else ''h265'') @ drop 4 (vi_video_format m),
                vi_in_buffer_size := rb_len_of_byte (sr_buf d), vi_in_buffer := rb_data (sr_buf d), vi_isEOS := 0\<rparr>)"

definition vdec_process :: "vdec_env \<Rightarrow> stream_raw_data option \<Rightarrow> vdec \<Rightarrow> (bool \<times> vdec) outcome" where
  "vdec_process ev arg0 s =
     (case arg0 of
        None \<Rightarrow> Inr (True, s)
      | Some d \<Rightarrow>
          let s = s\<lparr>vd_inputInfo := sr_info d, vd_in := vdec_request d (vd_in s)\<rparr>
          in case ve_decode ev (vd_in s) of (frames, ret) \<Rightarrow>
             bindR (foldR (frameCallback ev) frames s) (\<lambda>s. Inr (ret = 0, s)))"

section \<open>Facts\<close>

lemma frameCallback_spec:
  assumes "frameCallback ev f s = Inr s'"
  shows "vd_inputInfo s' = vd_inputInfo s \<and> vd_frameId s' = vd_frameId s + 1 \<and> vd_count s' = Suc (vd_count s) \<and>
    vd_dvpp_handle s' = vd_dvpp_handle s \<and>
    (\<exists>out. vd_sent s' = vd_sent s @ (if ve_send ev (vd_count s) then [out] else []) \<and>
       si_frameId (sd_info out) = vd_frameId s \<and> si_isEOS (sd_info out) = 0 \<and> si_channelId (sd_info out) = si_channelId (vd_inputInfo s) \<and>
       im_width (sd_imgOrigin out) = fr_realWidth f \<and> im_height (sd_imgOrigin out) = fr_realHeight f \<and> sd_detectResult out = [])"
proof -
  from assms obtain m yuv where s': "s' = s\<lparr>vd_frameId := vd_frameId s + 1, vd_stamps := (ve_time ev (2 * vd_count s + 1), ve_time ev (2 * vd_count s)),
        vd_sent := vd_sent s @ (if ve_send ev (vd_count s) then [frame_message f m yuv (fst (vd_stamps s), ve_time ev (2 * vd_count s)) s] else []), vd_count := Suc (vd_count s)\<rparr>"
    by (auto simp: frameCallback_def bindR_eq_Inr Let_def split: option.splits)
  show ?thesis unfolding s' by (intro conjI exI [of _ "frame_message f m yuv (fst (vd_stamps s), ve_time ev (2 * vd_count s)) s"]) (simp_all add: frame_message_def)
qed

text \<open>With every message accepted, the frames of a call leave with consecutive numbers.\<close>

lemma frames_spec:
  assumes "foldR (frameCallback ev) frames s = Inr s'" "\<And>n. ve_send ev n"
  shows "\<exists>outs. vd_sent s' = vd_sent s @ outs \<and> length outs = length frames \<and> vd_frameId s' = vd_frameId s + of_nat (length frames) \<and>
    (\<forall>i < length frames. si_frameId (sd_info (outs ! i)) = vd_frameId s + of_nat i \<and> si_isEOS (sd_info (outs ! i)) = 0 \<and>
       si_channelId (sd_info (outs ! i)) = si_channelId (vd_inputInfo s) \<and> sd_detectResult (outs ! i) = [] \<and>
       im_width (sd_imgOrigin (outs ! i)) = fr_realWidth (frames ! i) \<and> im_height (sd_imgOrigin (outs ! i)) = fr_realHeight (frames ! i))"
  using assms(1)
proof (induction frames arbitrary: s)
  case (Cons f fs)
  then obtain t where t: "frameCallback ev f s = Inr t" "foldR (frameCallback ev) fs t = Inr s'" by (auto simp: bindR_eq_Inr)
  from frameCallback_spec [OF t(1)] assms(2) obtain out where out:
    "vd_inputInfo t = vd_inputInfo s" "vd_frameId t = vd_frameId s + 1" "vd_sent t = vd_sent s @ [out]"
    "si_frameId (sd_info out) = vd_frameId s" "si_isEOS (sd_info out) = 0" "si_channelId (sd_info out) = si_channelId (vd_inputInfo s)"
    "im_width (sd_imgOrigin out) = fr_realWidth f" "im_height (sd_imgOrigin out) = fr_realHeight f" "sd_detectResult out = []" by auto
  from Cons.IH [OF t(2)] obtain outs where outs: "vd_sent s' = vd_sent t @ outs" "length outs = length fs"
    "vd_frameId s' = vd_frameId t + of_nat (length fs)"
    "\<forall>i < length fs. si_frameId (sd_info (outs ! i)) = vd_frameId t + of_nat i \<and> si_isEOS (sd_info (outs ! i)) = 0 \<and>
       si_channelId (sd_info (outs ! i)) = si_channelId (vd_inputInfo t) \<and> sd_detectResult (outs ! i) = [] \<and>
       im_width (sd_imgOrigin (outs ! i)) = fr_realWidth (fs ! i) \<and> im_height (sd_imgOrigin (outs ! i)) = fr_realHeight (fs ! i)" by blast
  show ?case
  proof (intro exI [of _ "out # outs"] conjI allI impI)
    fix i assume "i < length (f # fs)"
    then show "si_frameId (sd_info ((out # outs) ! i)) = vd_frameId s + of_nat i" "si_isEOS (sd_info ((out # outs) ! i)) = 0"
      "si_channelId (sd_info ((out # outs) ! i)) = si_channelId (vd_inputInfo s)" "sd_detectResult ((out # outs) ! i) = []"
      "im_width (sd_imgOrigin ((out # outs) ! i)) = fr_realWidth ((f # fs) ! i)"
      "im_height (sd_imgOrigin ((out # outs) ! i)) = fr_realHeight ((f # fs) ! i)"
      using out outs(4) by (cases i; simp)+
  qed (use out outs in simp_all)
qed simp

lemma callbacks_no_eos:
  assumes "foldR (frameCallback ev) frames s = Inr s'" "list_all (\<lambda>d. si_isEOS (sd_info d) = 0) (vd_sent s)"
  shows "list_all (\<lambda>d. si_isEOS (sd_info d) = 0) (vd_sent s')"
  using assms by (rule foldR_invariant) (auto dest!: frameCallback_spec)

lemma vdec_process_no_eos:
  assumes "vdec_process ev arg0 s = Inr (ok, s')" "list_all (\<lambda>d. si_isEOS (sd_info d) = 0) (vd_sent s)"
  shows "list_all (\<lambda>d. si_isEOS (sd_info d) = 0) (vd_sent s')"
  using assms by (auto simp: vdec_process_def Let_def bindR_eq_Inr split: option.splits prod.splits dest: callbacks_no_eos)

section \<open>Properties\<close>

text \<open>
  With every message accepted, a packet yields one message per frame the decoder calls
  back for, in that order, numbered on from the member \<open>frameId\<close>, with the channel of the
  packet and the real size of the frame.
\<close>

theorem decoded_frames_are_numbered:
  assumes "vdec_process ev (Some d) s = Inr (ok, s')" "ve_decode ev (vdec_request d (vd_in s)) = (frames, ret)" "\<And>n. ve_send ev n"
  shows "ok = (ret = 0) \<and> (\<exists>outs. vd_sent s' = vd_sent s @ outs \<and> length outs = length frames \<and>
    (\<forall>i < length frames. si_frameId (sd_info (outs ! i)) = vd_frameId s + of_nat i \<and> si_channelId (sd_info (outs ! i)) = si_channelId (sr_info d) \<and>
       im_width (sd_imgOrigin (outs ! i)) = fr_realWidth (frames ! i) \<and> im_height (sd_imgOrigin (outs ! i)) = fr_realHeight (frames ! i)))"
proof -
  from assms(1,2) have "foldR (frameCallback ev) frames (s\<lparr>vd_inputInfo := sr_info d, vd_in := vdec_request d (vd_in s)\<rparr>) = Inr s'" "ok = (ret = 0)"
    by (auto simp: vdec_process_def Let_def bindR_eq_Inr)
  with frames_spec [OF this(1) assms(3)] show ?thesis by auto
qed

definition sample_frame_1 :: frame where
  "sample_frame_1 = \<lparr>fr_bitdepth = 8, fr_width = 64, fr_height = 64, fr_realWidth = 60, fr_realHeight = 50, fr_buffer = 0, fr_buffer_size = 0,
     fr_offset_head_y = 0, fr_offset_head_c = 0, fr_offset_payload_y = 0, fr_offset_payload_c = 0, fr_stride_head = 0, fr_stride_payload = 0\<rparr>"

definition blank_request :: vpc_in_msg where
  "blank_request = \<lparr>vm_format = 0, vm_rank = 0, vm_bitwidth = 0, vm_width = 0, vm_high = 0, vm_in_buffer = 0, vm_in_buffer_size = 0,
     vm_luma_head_addr = 0, vm_chroma_head_addr = 0, vm_luma_payload_addr = 0, vm_chroma_payload_addr = 0, vm_luma_head_stride = 0,
     vm_chroma_head_stride = 0, vm_luma_payload_stride = 0, vm_chroma_payload_stride = 0, vm_cvdr_or_rdma = 0, vm_hmax = 0, vm_hmin = 0,
     vm_vmax = 0, vm_vmin = 0, vm_vinc = 0, vm_hinc = 0, vm_out_buffer_1_size = 0, vm_out_buffer = None\<rparr>"

definition sample_vdec_env :: vdec_env where
  "sample_vdec_env = \<lparr>ve_al = align_up, ve_create_vdec = True, ve_create_dvpp = True, ve_dmalloc = \<lambda>_ _. Some [0], ve_convert = \<lambda>_ _. Some [1],
     ve_fresh_request = blank_request, ve_time = \<lambda>n. (int n, 0), ve_send = \<lambda>_. True,
     ve_decode = \<lambda>m. (if vi_isEOS m = 1 then [sample_frame_1, sample_frame_1] else [sample_frame_1], 0)\<rparr>"

definition sample_vdec :: vdec where
  "sample_vdec = \<lparr>vd_vdec_handle = True, vd_dvpp_handle = True,
     vd_in = \<lparr>vi_channelId = 0, vi_isEOS = 0, vi_video_format = replicate 10 (CHR 0x00), vi_in_buffer = None, vi_in_buffer_size = 0\<rparr>,
     vd_inputInfo = \<lparr>si_frameId = 0, si_mode = 0, si_format = 0, si_channelId = 0, si_isEOS = 0, si_table = []\<rparr>,
     vd_frameId = 7, vd_stamps = ((0, 0), (0, 0)), vd_sent = [], vd_count = 0\<rparr>"

definition sample_packet :: "u32 \<Rightarrow> stream_raw_data" where
  "sample_packet eos = \<lparr>sr_info = \<lparr>si_frameId = 0, si_mode = 0, si_format = 0, si_channelId = 3, si_isEOS = eos, si_table = []\<rparr>,
     sr_buf = \<lparr>rb_data = Some [1, 2], rb_len_of_byte = 2\<rparr>\<rparr>"

lemma sample_vdec_runs: "\<exists>s'. vdec_process sample_vdec_env (Some (sample_packet eos)) sample_vdec = Inr (True, s')"
proof -
  have c: "\<exists>t. frameCallback sample_vdec_env sample_frame_1 s = Inr t \<and> vd_dvpp_handle t" if "vd_dvpp_handle s" for s
    using that by (simp add: frameCallback_def Hfbc2YuvOld_def sample_vdec_env_def sample_frame_1_def yuv_bytes_def align_up_def
        DVPP_STRIDE_WIDTH_def DVPP_STRIDE_HEIGHT_def Let_def)
  have f: "\<exists>t. foldR (frameCallback sample_vdec_env) fs s = Inr t" if "set fs \<subseteq> {sample_frame_1}" "vd_dvpp_handle s" for fs s
    using that
  proof (induction fs arbitrary: s)
    case (Cons a fs)
    obtain t where "frameCallback sample_vdec_env sample_frame_1 s = Inr t" "vd_dvpp_handle t" using c Cons.prems(2) by blast
    with Cons show ?case by simp
  qed simp
  let ?s = "sample_vdec\<lparr>vd_inputInfo := sr_info (sample_packet eos), vd_in := vdec_request (sample_packet eos) (vd_in sample_vdec)\<rparr>"
  have h: "vd_dvpp_handle ?s" by (simp add: sample_vdec_def)
  obtain frames where d: "ve_decode sample_vdec_env (vd_in ?s) = (frames, 0)" "set frames \<subseteq> {sample_frame_1}"
    by (simp add: sample_vdec_env_def)
  from f [OF d(2) h] obtain t where "foldR (frameCallback sample_vdec_env) frames ?s = Inr t" by blast
  with d(1) show ?thesis by (simp add: vdec_process_def Let_def)
qed

theorem decoded_frames_are_numbered_witness:
  "\<exists>s' a b. vdec_process sample_vdec_env (Some (sample_packet 1)) sample_vdec = Inr (True, s') \<and> vd_sent s' = [a, b] \<and>
     si_frameId (sd_info a) = 7 \<and> si_frameId (sd_info b) = 8"
proof -
  obtain s' where s': "vdec_process sample_vdec_env (Some (sample_packet 1)) sample_vdec = Inr (True, s')" using sample_vdec_runs by blast
  have d: "ve_decode sample_vdec_env (vdec_request (sample_packet 1) (vd_in sample_vdec)) = ([sample_frame_1, sample_frame_1], 0)"
    by (simp add: sample_vdec_env_def vdec_request_def sample_packet_def Let_def)
  have "ve_send sample_vdec_env n" for n by (simp add: sample_vdec_env_def)
  from decoded_frames_are_numbered [OF s' d this] s' show ?thesis
    by (auto simp: sample_vdec_def length_Suc_conv less_Suc_eq all_conj_distrib)
qed

text \<open>
  A frame the converter refuses is sent on all the same, with whatever its buffer held
  when it was allocated; and when no buffer could be had, the callback uses a pointer that
  was never set.
\<close>

theorem unconverted_frame_is_sent:
  assumes "vd_dvpp_handle s" "ve_convert ev (vd_count s) = (\<lambda>_. None)" "ve_send ev (vd_count s)" "vm_out_buffer (ve_fresh_request ev) = None"
    "yuv_bytes (ve_al ev (fr_realWidth f) DVPP_STRIDE_WIDTH * ve_al ev (fr_realHeight f) DVPP_STRIDE_HEIGHT) = Inr n"
  shows "case ve_dmalloc ev (vd_count s) n of
      None \<Rightarrow> frameCallback ev f s = Inl Indeterminate
    | Some garbage \<Rightarrow> \<exists>s' out. frameCallback ev f s = Inr s' \<and> vd_sent s' = vd_sent s @ [out] \<and>
        im_buf (sd_imgOrigin out) = \<lparr>rb_data = Some garbage, rb_len_of_byte = n\<rparr>"
  using assms by (auto simp: frameCallback_def Hfbc2YuvOld_def convert_request_def frame_message_def Let_def split: option.splits)

theorem unconverted_frame_is_sent_witness:
  "\<exists>s' out. frameCallback (sample_vdec_env\<lparr>ve_convert := \<lambda>_ _. None\<rparr>) sample_frame_1 sample_vdec = Inr s' \<and> vd_sent s' = [out] \<and>
     rb_data (im_buf (sd_imgOrigin out)) = Some [0]"
proof -
  let ?ev = "sample_vdec_env\<lparr>ve_convert := \<lambda>_ _. None\<rparr>"
  have y: "yuv_bytes (ve_al ?ev (fr_realWidth sample_frame_1) DVPP_STRIDE_WIDTH * ve_al ?ev (fr_realHeight sample_frame_1) DVPP_STRIDE_HEIGHT) = Inr 12288"
    by (simp add: sample_vdec_env_def sample_frame_1_def yuv_bytes_def align_up_def DVPP_STRIDE_WIDTH_def DVPP_STRIDE_HEIGHT_def)
  from unconverted_frame_is_sent [of sample_vdec ?ev sample_frame_1, OF _ _ _ _ y]
  show ?thesis by (auto simp: sample_vdec_env_def sample_vdec_def blank_request_def)
qed

end
