(* ===== verification/SSDDetection.thy ===== *)
theory SSDDetection
  imports Dvpp
begin

text \<open>
  \<open>SSDDetection/SSDDetection.cpp\<close>: the engine that resizes the pictures of a batch for the
  model, runs it, turns the rows of the result tensor into detections and draws the boxes
  of the persons into the NV12 pictures. Writes into a picture are checked against its
  buffer; a conversion of a floating point number to an integer type that cannot hold it
  has no value. A float is a real number. The device, the model and the addresses of
  buffers are parameters; the tensor helpers are those of \<open>Common/engine_tools.h\<close>.
\<close>

section \<open>Drawing\<close>

record rect =
  rc_x :: int
  rc_y :: int
  rc_w :: int
  rc_h :: int
  rc_thin :: u8
  rc_YUV :: "u8 \<times> u8 \<times> u8"

definition to_uchar :: "rat \<Rightarrow> u8 outcome" where
  "to_uchar q = (let k = (if q < 0 then - \<lfloor>- q\<rfloor> else \<lfloor>q\<rfloor>) in if 0 \<le> k \<and> k < 256 then Inr (word_of_int k) else Inl Indeterminate)"

definition RgbToYuv :: "u8 \<times> u8 \<times> u8 \<Rightarrow> (u8 \<times> u8 \<times> u8) outcome" where
  "RgbToYuv rgb =
     (case rgb of (r, g, b) \<Rightarrow>
        let R = of_int (uint r); G = of_int (uint g); B = of_int (uint b)
        in bindR (to_uchar (299 / 1000 * R + 587 / 1000 * G + 114 / 1000 * B)) (\<lambda>y.
           bindR (to_uchar (- (1687 / 10000) * R + 3313 / 10000 * G + 1 / 2 * B + 128)) (\<lambda>u.
           bindR (to_uchar (1 / 2 * R - 4187 / 10000 * G - 813 / 10000 * B + 128)) (\<lambda>v.
             Inr (y, u, v)))))"

definition thin :: "rect \<Rightarrow> int" where
  "thin r = uint (rc_thin r)"

definition FindAxis :: "rect \<Rightarrow> int list" where
  "FindAxis r =
     [rc_x r, rc_y r,
      rc_x r, rc_y r + rc_h r - thin r,
      rc_x r, rc_y r + thin r,
      rc_x r + rc_w r - thin r, rc_y r + thin r]"

text \<open>A write through the picture pointer.\<close>

definition write_at :: "'a list \<Rightarrow> int \<Rightarrow> 'a \<Rightarrow> 'a list outcome" where
  "write_at xs i v = (if 0 \<le> i \<and> i < int (length xs) then Inr (xs[nat i := v]) else Inl Out_Of_Range)"

text \<open>The body of both loops: \<open>j\<close> is the row and \<open>k\<close> the column.\<close>

definition put_pixel :: "int \<Rightarrow> int \<Rightarrow> u8 \<times> u8 \<times> u8 \<Rightarrow> int \<times> int \<Rightarrow> u8 list \<Rightarrow> u8 list outcome" where
  "put_pixel pic_w pic_h yuv jk pic =
     (case (yuv, jk) of ((y, u, v), (j, k)) \<Rightarrow>
        let y_index = j * pic_w + k;
            u_index = (j div 2 + pic_h) * pic_w + k - k mod 2;
            v_index = u_index + 1
        in bindR (write_at pic y_index y) (\<lambda>pic.
           bindR (write_at pic u_index u) (\<lambda>pic.
             write_at pic v_index v)))"

definition DrawWidthLine :: "u8 list \<Rightarrow> int \<Rightarrow> int \<Rightarrow> rect \<Rightarrow> int list \<Rightarrow> u8 list outcome" where
  "DrawWidthLine pic pic_w pic_h r axis =
     foldR (put_pixel pic_w pic_h (rc_YUV r))
       [(j, k). i \<leftarrow> [0, 2],
                j \<leftarrow> rev [axis ! (i + 1) .. axis ! (i + 1) + thin r - 1],
                k \<leftarrow> rev [axis ! i .. axis ! i + rc_w r - 1]] pic"

definition DrawHeightLine :: "u8 list \<Rightarrow> int \<Rightarrow> int \<Rightarrow> rect \<Rightarrow> int list \<Rightarrow> u8 list outcome" where
  "DrawHeightLine pic pic_w pic_h r axis =
     foldR (put_pixel pic_w pic_h (rc_YUV r))
       [(j, k). i \<leftarrow> [4, 6],
                k \<leftarrow> rev [axis ! i .. axis ! i + thin r - 1],
                j \<leftarrow> rev [axis ! (i + 1) .. axis ! (i + 1) + rc_h r - 2 * thin r - 1]] pic"

definition NV12MarkRect :: "u8 list \<Rightarrow> int \<Rightarrow> int \<Rightarrow> rect \<Rightarrow> u8 list outcome" where
  "NV12MarkRect pic pic_w pic_h r =
     (let axis = FindAxis r
      in bindR (DrawWidthLine pic pic_w pic_h r axis) (\<lambda>pic. DrawHeightLine pic pic_w pic_h r axis))"

section \<open>Initialisation\<close>

record tensor_dim =
  td_name :: string
  td_n :: u32
  td_c :: u32
  td_h :: u32
  td_w :: u32
  td_size :: u32

text \<open>A tensor over a buffer of its size; \<open>None\<close> when the memory cannot be had.\<close>

definition createTensors :: "bool \<Rightarrow> tensor_dim \<Rightarrow> u32 list \<Rightarrow> tensor_dim option \<times> u32 list" where
  "createTensors dmalloc_ok d bufferVec =
     (if \<not> dmalloc_ok then (None, bufferVec) else (Some d, bufferVec @ [td_size d]))"

fun creatIOTensors :: "(nat \<Rightarrow> bool) \<Rightarrow> tensor_dim list \<Rightarrow> tensor_dim list \<Rightarrow> u32 list \<Rightarrow> bool \<times> tensor_dim list \<times> u32 list" where
  "creatIOTensors dmalloc [] tensorVec bufferVec = (True, tensorVec, bufferVec)"
| "creatIOTensors dmalloc (d # ds) tensorVec bufferVec =
     (case createTensors (dmalloc (length bufferVec)) d bufferVec of
        (None, bufferVec) \<Rightarrow> (False, tensorVec, bufferVec)
      | (Some t, bufferVec) \<Rightarrow> creatIOTensors dmalloc ds (tensorVec @ [t]) bufferVec)"

record ssd_env =
  se_al :: "u32 \<Rightarrow> u32 \<Rightarrow> u32"
  se_api :: dvpp_api
  se_address :: "u8 list option \<Rightarrow> u64"
  se_input_base :: u64
  se_model_init :: "model_description option \<Rightarrow> bool"
  se_model_dims :: "(tensor_dim list \<times> tensor_dim list) option"
  se_dmalloc :: "nat \<Rightarrow> bool"
  se_infer :: "dvpp_log \<Rightarrow> bool"
  se_results :: "dvpp_log \<Rightarrow> real list"
  se_objNum :: "dvpp_log \<Rightarrow> real list"
  se_input_format :: int

text \<open>The members; of a tensor buffer the size.\<close>

record ssd =
  ss_kBatchSize :: u32
  ss_kChannel :: u32
  ss_kWidth :: u32
  ss_kHeight :: u32
  ss_kAlignedWidth :: u32
  ss_kAlignedHeight :: u32
  ss_kInputSize :: u32
  ss_queue :: "device_stream_data list"
  ss_inputDataBuffer :: "u32 list"
  ss_outputDataBuffer :: "u32 list"
  ss_inputTensors :: "tensor_dim list"
  ss_outputTensors :: "tensor_dim list"

definition ssd_init :: "ssd_env \<Rightarrow> (string \<times> string) list \<Rightarrow> ssd \<Rightarrow> bool \<times> ssd" where
  "ssd_init ev config s =
     (if \<not> se_model_init ev (loadModelDescription config) then (False, s)
      else (case se_model_dims ev of
          None \<Rightarrow> (False, s)
        | Some (inDims, outDims) \<Rightarrow>
            (case inDims of
               [d] \<Rightarrow>
                 let s = s\<lparr>ss_kBatchSize := td_n d, ss_kChannel := td_c d, ss_kHeight := td_h d, ss_kWidth := td_w d,
                           ss_kInputSize := td_size d,
                           ss_kAlignedWidth := se_al ev (td_w d) DVPP_STRIDE_WIDTH,
                           ss_kAlignedHeight := se_al ev (td_h d) DVPP_STRIDE_HEIGHT\<rparr>
                 in (case creatIOTensors (se_dmalloc ev) inDims (ss_inputTensors s) (ss_inputDataBuffer s) of
                      (ok, ts, bs) \<Rightarrow>
                        let s = s\<lparr>ss_inputTensors := ts, ss_inputDataBuffer := bs\<rparr>
                        in if \<not> ok then (False, s)
                           else (case creatIOTensors (se_dmalloc ev) outDims (ss_outputTensors s) (ss_outputDataBuffer s) of
                             (ok, ts, bs) \<Rightarrow> (ok, s\<lparr>ss_outputTensors := ts, ss_outputDataBuffer := bs\<rparr>)))
             | _ \<Rightarrow> (False, s))))"

section \<open>Detections\<close>

definition to_int :: "real \<Rightarrow> int outcome" where
  "to_int x = (let k = (if x < 0 then - \<lfloor>- x\<rfloor> else \<lfloor>x\<rfloor>) in if int32_range k then Inr k else Inl Indeterminate)"

definition detect_box :: "u32 \<Rightarrow> u32 \<Rightarrow> real \<Rightarrow> real \<Rightarrow> real \<Rightarrow> real \<Rightarrow> (point \<times> point) outcome" where
  "detect_box img_width img_height xmin ymin xmax ymax =
     bindR (to_int (max xmin 0 * of_nat (unat img_width))) (\<lambda>x0.
     bindR (to_int (max ymin 0 * of_nat (unat img_height))) (\<lambda>y0.
     bindR (to_int (min xmax 1 * of_nat (unat img_width))) (\<lambda>x1.
     bindR (to_int (min ymax 1 * of_nat (unat img_height))) (\<lambda>y1.
       Inr (\<lparr>pt_x = x0, pt_y = y0\<rparr>, \<lparr>pt_x = x1, pt_y = y1\<rparr>)))))"

definition box_rect :: "u8 \<times> u8 \<times> u8 \<Rightarrow> point \<Rightarrow> point \<Rightarrow> rect" where
  "box_rect yuv lt rb = \<lparr>rc_x = pt_x lt, rc_y = pt_y lt, rc_w = pt_x rb - pt_x lt, rc_h = pt_y rb - pt_y lt, rc_thin = 3, rc_YUV = yuv\<rparr>"

definition draw_box :: "point \<Rightarrow> point \<Rightarrow> device_stream_data \<Rightarrow> device_stream_data outcome" where
  "draw_box lt rb d =
     (let im = sd_imgOrigin d
      in bindR (RgbToYuv (255, 0, 0)) (\<lambda>yuv.
         case rb_data (im_buf im) of
           None \<Rightarrow> Inl Null_Deref
         | Some bs \<Rightarrow>
             bindR (NV12MarkRect bs (sint (im_width im)) (sint (im_height im)) (box_rect yuv lt rb)) (\<lambda>bs'.
               Inr (d\<lparr>sd_imgOrigin := im\<lparr>im_buf := (im_buf im)\<lparr>rb_data := Some bs'\<rparr>\<rparr>\<rparr>))))"

text \<open>One row of the result: batch, label, score, xmin, ymin, xmax, ymax.\<close>

definition add_detection :: "real list \<Rightarrow> device_stream_data \<Rightarrow> device_stream_data outcome" where
  "add_detection row d =
     bindR (to_int (row ! 1)) (\<lambda>label.
     bindR (detect_box (im_width (sd_imgOrigin d)) (im_height (sd_imgOrigin d)) (row ! 3) (row ! 4) (row ! 5) (row ! 6)) (\<lambda>(lt, rb).
       let d = d\<lparr>sd_detectResult := sd_detectResult d @
                 [\<lparr>di_classId = label, di_confidence = row ! 2, di_lt = lt, di_rb = rb\<rparr>]\<rparr>
       in if label = 1 then draw_box lt rb d else Inr d))"

definition process_row :: "real list \<Rightarrow> nat \<Rightarrow> device_stream_data list \<Rightarrow> device_stream_data list outcome" where
  "process_row res i q =
     bindR (read_at res (7 * i + 2)) (\<lambda>score.
       if 1 / 2 < score then
         if length res < 7 * i + 7 then Inl Out_Of_Range
         else let row = take 7 (drop (7 * i) res)
           in bindR (to_int (row ! 0)) (\<lambda>batch.
              if 0 \<le> batch \<and> batch < int (length q)
              then bindR (add_detection row (q ! nat batch)) (\<lambda>d. Inr (q[nat batch := d]))
              else Inl Out_Of_Range)
       else Inr q)"

text \<open>All pictures of the queue are sent on, with or without detections.\<close>

definition postProcessDetection :: "real list \<Rightarrow> real list \<Rightarrow> device_stream_data list \<Rightarrow> device_stream_data list outcome" where
  "postProcessDetection objNum res q =
     bindR (read_at objNum 0) (\<lambda>n.
     bindR (to_int n) (\<lambda>k. foldR (process_row res) [0..<nat k] q))"

text \<open>The pictures of the queue are resized one after the other; the status is ignored.\<close>

fun resize_queue :: "ssd_env \<Rightarrow> ssd \<Rightarrow> device_stream_data list \<Rightarrow> u64 \<Rightarrow> dvpp_log \<Rightarrow> dvpp_log outcome" where
  "resize_queue ev s [] dataBufferPtr lg = Inr lg"
| "resize_queue ev s (d # ds) dataBufferPtr lg =
     (let im = sd_imgOrigin d
      in bindR (vpcResize (se_al ev) (se_api ev) (se_address ev (rb_data (im_buf im))) (im_width im) (im_height im)
           dataBufferPtr (ss_kWidth s) (ss_kHeight s) (se_input_format ev) lg) (\<lambda>(_, lg).
         resize_queue ev s ds (dataBufferPtr + ucast (ss_kInputSize s)) lg))"

text \<open>
  \<open>Process\<close>: the status, the members, the messages handed to \<open>SendData\<close> and the calls of the
  device. A message the next engine refuses is logged and lost; neither the status nor a member
  depends on the answer, so it is not an argument.
\<close>

definition ssd_process ::
  "ssd_env \<Rightarrow> device_stream_data option \<Rightarrow> ssd \<Rightarrow> dvpp_log \<Rightarrow> (bool \<times> ssd \<times> device_stream_data list \<times> dvpp_log) outcome" where
  "ssd_process ev arg0 s lg =
     (case arg0 of
        None \<Rightarrow> Inr (True, s, [], lg)
      | Some d \<Rightarrow>
          let s = s\<lparr>ss_queue := ss_queue s @ [d]\<rparr>
          in if length (ss_queue s) < unat (ss_kBatchSize s) then Inr (True, s, [], lg)
             else if ss_inputDataBuffer s = [] then Inl Out_Of_Range
             else bindR (resize_queue ev s (ss_queue s) (se_input_base ev) lg) (\<lambda>lg.
               if \<not> se_infer ev lg then Inr (False, s, [], lg)
               else bindR (postProcessDetection (se_objNum ev lg) (se_results ev lg) (ss_queue s)) (\<lambda>q.
                 Inr (True, s\<lparr>ss_queue := []\<rparr>, q, lg))))"

section \<open>Facts\<close>

text \<open>Planes of an NV12 picture: brightness per pixel, the two colours per block of four.\<close>

definition luma :: "int \<Rightarrow> u8 list \<Rightarrow> int \<Rightarrow> int \<Rightarrow> u8" where
  "luma W pic j k = pic ! nat (j * W + k)"

definition chroma :: "int \<Rightarrow> int \<Rightarrow> u8 list \<Rightarrow> int \<Rightarrow> int \<Rightarrow> u8 \<times> u8" where
  "chroma W H pic p q = (pic ! nat ((p + H) * W + 2 * q), pic ! nat ((p + H) * W + 2 * q + 1))"

definition in_picture :: "int \<Rightarrow> int \<Rightarrow> int \<times> int \<Rightarrow> bool" where
  "in_picture W H jk \<longleftrightarrow> 0 \<le> fst jk \<and> fst jk < H \<and> 0 \<le> snd jk \<and> snd jk < W"

definition picture_ok :: "int \<Rightarrow> int \<Rightarrow> u8 list \<Rightarrow> bool" where
  "picture_ok W H pic \<longleftrightarrow> even W \<and> even H \<and> 3 * (W * H) \<le> 2 * int (length pic)"

lemma write_at_in: "0 \<le> i \<Longrightarrow> i < int (length xs) \<Longrightarrow> write_at xs i v = Inr (xs[nat i := v])"
  by (simp add: write_at_def)

lemma write_at_length: "write_at xs i v = Inr ys \<Longrightarrow> length ys = length xs"
  by (auto simp: write_at_def split: if_splits)

lemma cell_less: "0 \<le> k \<Longrightarrow> k < W \<Longrightarrow> j < H \<Longrightarrow> j * W + k < H * (W::int)"
proof -
  assume "0 \<le> k" "k < W" "j < H"
  then have "(j + 1) * W \<le> H * W" by (intro mult_right_mono) auto
  with \<open>k < W\<close> show ?thesis by (simp add: algebra_simps)
qed

lemma cell_eq:
  assumes "0 \<le> k" "k < (W::int)" "0 \<le> k'" "k' < W"
  shows "j * W + k = j' * W + k' \<longleftrightarrow> j = j' \<and> k = k'"
proof
  assume e: "j * W + k = j' * W + k'"
  have "(j * W + k) div W = j" "(j' * W + k') div W = j'" using assms by simp_all
  with e show "j = j' \<and> k = k'" by simp
qed simp

lemma col_even:
  assumes "even W" "0 \<le> k" "k < (W::int)"
  shows "k - k mod 2 = 2 * (k div 2) \<and> 0 \<le> 2 * (k div 2) \<and> 2 * (k div 2) + 1 < W"
proof -
  have "k - k mod 2 = 2 * (k div 2)" by (simp add: minus_mod_eq_mult_div)
  moreover have "2 * (k div 2) + 1 < W" using assms by presburger
  ultimately show ?thesis using assms by simp
qed

text \<open>One pixel inside the picture.\<close>

lemma put_pixel_in:
  assumes "in_picture W H (j, k)" "picture_ok W H pic"
  defines "c \<equiv> (j div 2 + H) * W + 2 * (k div 2)"
  shows "put_pixel W H (y, u, v) (j, k) pic = Inr (pic[nat (j * W + k) := y, nat c := u, nat (c + 1) := v]) \<and>
    0 \<le> j * W + k \<and> j * W + k < H * W \<and> H * W \<le> c \<and> c + 1 < int (length pic)"
proof -
  from assms(1) have i: "0 \<le> j" "j < H" "0 \<le> k" "k < W" by (auto simp: in_picture_def)
  from assms(2) have e: "even W" "even H" and len: "3 * (W * H) \<le> 2 * int (length pic)" by (auto simp: picture_ok_def)
  have k: "k - k mod 2 = 2 * (k div 2)" "0 \<le> 2 * (k div 2)" "2 * (k div 2) + 1 < W" using col_even [OF e(1) i(3,4)] by auto
  have y: "0 \<le> j * W + k" "j * W + k < H * W" using i cell_less [of k W j H] by auto
  have "j div 2 < H div 2" using i e(2) by (auto elim!: evenE)
  then have "j div 2 + H < H div 2 + H" by simp
  from cell_less [OF _ k(3) this] k(2) have "c + 1 < (H div 2 + H) * W" by (simp add: c_def algebra_simps)
  moreover have "2 * ((H div 2 + H) * W) = 3 * (W * H)" using e(2) by (auto elim!: evenE simp: algebra_simps)
  ultimately have c1: "c + 1 < int (length pic)" using len by linarith
  have "0 \<le> j div 2 * W" using i by simp
  then have c2: "H * W \<le> c" using k(2) by (simp add: c_def algebra_simps)
  have "(j div 2 + H) * W + k - k mod 2 = c" using k(1) by (simp add: c_def)
  then show ?thesis using y c1 c2 by (simp add: put_pixel_def Let_def write_at_in)
qed

lemma put_pixel_planes:
  assumes "in_picture W H (j, k)" "picture_ok W H pic"
  shows "\<exists>pic'. put_pixel W H (y, u, v) (j, k) pic = Inr pic' \<and> length pic' = length pic \<and>
    (\<forall>j' k'. in_picture W H (j', k') \<longrightarrow> luma W pic' j' k' = (if (j', k') = (j, k) then y else luma W pic j' k')) \<and>
    (\<forall>p q. 0 \<le> p \<and> p < H div 2 \<and> 0 \<le> q \<and> q < W div 2 \<longrightarrow>
       chroma W H pic' p q = (if (p, q) = (j div 2, k div 2) then (u, v) else chroma W H pic p q))"
proof -
  define c where "c = (j div 2 + H) * W + 2 * (k div 2)"
  let ?pic' = "pic[nat (j * W + k) := y, nat c := u, nat (c + 1) := v]"
  note P = put_pixel_in [OF assms, folded c_def]
  from assms have i: "0 \<le> j" "j < H" "0 \<le> k" "k < W" and e: "even W" "even H" by (auto simp: in_picture_def picture_ok_def)
  have L: "luma W ?pic' j' k' = (if (j', k') = (j, k) then y else luma W pic j' k')" if "in_picture W H (j', k')" for j' k'
  proof -
    from that have i': "0 \<le> j'" "j' < H" "0 \<le> k'" "k' < W" by (auto simp: in_picture_def)
    have "0 \<le> j' * W + k'" "j' * W + k' < H * W" using i' cell_less [of k' W j' H] by auto
    moreover have "j' * W + k' = j * W + k \<longleftrightarrow> (j', k') = (j, k)" using cell_eq [OF i'(3,4) i(3,4)] by simp
    moreover have "j' * W + k' \<noteq> c" "j' * W + k' \<noteq> c + 1" using calculation P [of y u v] by auto
    ultimately have n: "nat c \<noteq> nat (j' * W + k')" "nat (c + 1) \<noteq> nat (j' * W + k')"
      "nat (j * W + k) = nat (j' * W + k') \<longleftrightarrow> (j', k') = (j, k)" "nat (j * W + k) < length pic" "nat c < length pic" "nat (c + 1) < length pic"
      using P [of y u v] by (auto simp: eq_nat_nat_iff nat_less_iff)
    show ?thesis unfolding luma_def by (simp only: nth_list_update length_list_update n) (simp add: n)
  qed
  have C: "chroma W H ?pic' p q = (if (p, q) = (j div 2, k div 2) then (u, v) else chroma W H pic p q)"
    if "0 \<le> p" "p < H div 2" "0 \<le> q" "q < W div 2" for p q
  proof -
    have q: "0 \<le> 2 * q" "2 * q < W" "2 * q + 1 < W" "0 \<le> 2 * q + 1" using that e(1) by (auto elim!: evenE)
    have k: "0 \<le> 2 * (k div 2)" "2 * (k div 2) < W" using col_even [OF e(1) i(3,4)] by auto
    define d where "d = (p + H) * W + 2 * q"
    have e1: "d = c \<longleftrightarrow> (p, q) = (j div 2, k div 2)" unfolding c_def d_def using cell_eq [OF q(1,2) k] by auto
    have "even c" "even d" unfolding c_def d_def using e(1) by simp_all
    then have e3: "d \<noteq> c + 1" "d + 1 \<noteq> c" by auto
    have "0 \<le> p * W" using that i by simp
    then have 1: "H * W \<le> d" using q(1) by (simp add: d_def algebra_simps)
    have "p + H < H div 2 + H" using that by simp
    from cell_less [OF q(4,3) this] have "d + 1 < (H div 2 + H) * W" by (simp add: d_def)
    moreover have "2 * ((H div 2 + H) * W) = 3 * (W * H)" using e(2) by (auto elim!: evenE simp: algebra_simps)
    ultimately have 2: "d + 1 < int (length pic)" using assms(2) by (auto simp: picture_ok_def)
    have 0: "0 \<le> H * W" using i by simp
    have n: "nat (j * W + k) \<noteq> nat d" "nat (j * W + k) \<noteq> nat (d + 1)" "nat (c + 1) \<noteq> nat d" "nat c \<noteq> nat (d + 1)"
      "nat c = nat d \<longleftrightarrow> (p, q) = (j div 2, k div 2)" "nat (c + 1) = nat (d + 1) \<longleftrightarrow> (p, q) = (j div 2, k div 2)"
      "nat (j * W + k) < length pic" "nat c < length pic" "nat (c + 1) < length pic"
      using P [of y u v] 0 1 2 e1 e3 by (auto simp: eq_nat_nat_iff nat_less_iff)
    show ?thesis unfolding chroma_def d_def [symmetric] by (simp only: nth_list_update length_list_update n) (simp add: n)
  qed
  have "put_pixel W H (y, u, v) (j, k) pic = Inr ?pic'" using P by blast
  moreover have "length ?pic' = length pic" by simp
  ultimately show ?thesis using L C by blast
qed

lemma picture_ok_length: "picture_ok W H pic \<Longrightarrow> length pic' = length pic \<Longrightarrow> picture_ok W H pic'"
  by (simp add: picture_ok_def)

text \<open>Pixels inside the picture, drawn one after the other.\<close>

lemma put_pixels_planes:
  assumes "list_all (in_picture W H) ps" "picture_ok W H pic"
  shows "\<exists>pic'. foldR (put_pixel W H (y, u, v)) ps pic = Inr pic' \<and> length pic' = length pic \<and>
    (\<forall>j k. in_picture W H (j, k) \<longrightarrow> luma W pic' j k = (if (j, k) \<in> set ps then y else luma W pic j k)) \<and>
    (\<forall>p q. 0 \<le> p \<and> p < H div 2 \<and> 0 \<le> q \<and> q < W div 2 \<longrightarrow>
       chroma W H pic' p q = (if \<exists>(j, k) \<in> set ps. (p, q) = (j div 2, k div 2) then (u, v) else chroma W H pic p q))"
  using assms
proof (induction ps arbitrary: pic)
  case (Cons jk ps)
  obtain j k where jk: "jk = (j, k)" by (cases jk)
  from Cons.prems jk put_pixel_planes [of W H j k pic y u v] obtain pic1 where
    1: "put_pixel W H (y, u, v) jk pic = Inr pic1" "length pic1 = length pic"
      "\<And>j' k'. in_picture W H (j', k') \<Longrightarrow> luma W pic1 j' k' = (if (j', k') = jk then y else luma W pic j' k')"
      "\<And>p q. 0 \<le> p \<Longrightarrow> p < H div 2 \<Longrightarrow> 0 \<le> q \<Longrightarrow> q < W div 2 \<Longrightarrow>
         chroma W H pic1 p q = (if (p, q) = (j div 2, k div 2) then (u, v) else chroma W H pic p q)"
    by auto
  have "list_all (in_picture W H) ps" "picture_ok W H pic1" using Cons.prems 1(2) picture_ok_length by auto
  from Cons.IH [OF this] obtain pic2 where
    2: "foldR (put_pixel W H (y, u, v)) ps pic1 = Inr pic2" "length pic2 = length pic1"
      "\<forall>j k. in_picture W H (j, k) \<longrightarrow> luma W pic2 j k = (if (j, k) \<in> set ps then y else luma W pic1 j k)"
      "\<forall>p q. 0 \<le> p \<and> p < H div 2 \<and> 0 \<le> q \<and> q < W div 2 \<longrightarrow>
         chroma W H pic2 p q = (if \<exists>(j, k) \<in> set ps. (p, q) = (j div 2, k div 2) then (u, v) else chroma W H pic1 p q)"
    by blast
  show ?case
  proof (intro exI [of _ pic2] conjI allI impI)
    show "foldR (put_pixel W H (y, u, v)) (jk # ps) pic = Inr pic2" using 1(1) 2(1) by simp
    show "length pic2 = length pic" using 1(2) 2(2) by simp
    show "luma W pic2 a b = (if (a, b) \<in> set (jk # ps) then y else luma W pic a b)" if "in_picture W H (a, b)" for a b
      using 1(3) [OF that] 2(3) that by simp
    show "chroma W H pic2 p q = (if \<exists>(j, k) \<in> set (jk # ps). (p, q) = (j div 2, k div 2) then (u, v) else chroma W H pic p q)"
      if "0 \<le> p \<and> p < H div 2 \<and> 0 \<le> q \<and> q < W div 2" for p q
      using that 1(4) [of p q] 2(4) jk by auto
  qed
qed simp

text \<open>The frame of a box: the pixels of the box closer than \<open>thin\<close> to one of its sides.\<close>

definition on_frame :: "rect \<Rightarrow> int \<Rightarrow> int \<Rightarrow> bool" where
  "on_frame r j k \<longleftrightarrow> rc_y r \<le> j \<and> j < rc_y r + rc_h r \<and> rc_x r \<le> k \<and> k < rc_x r + rc_w r \<and>
     (j < rc_y r + thin r \<or> rc_y r + rc_h r - thin r \<le> j \<or> k < rc_x r + thin r \<or> rc_x r + rc_w r - thin r \<le> k)"

definition frame_pixels :: "rect \<Rightarrow> (int \<times> int) list" where
  "frame_pixels r =
     [(j, k). i \<leftarrow> [0, 2], j \<leftarrow> rev [FindAxis r ! (i + 1) .. FindAxis r ! (i + 1) + thin r - 1],
                k \<leftarrow> rev [FindAxis r ! i .. FindAxis r ! i + rc_w r - 1]] @
     [(j, k). i \<leftarrow> [4, 6], k \<leftarrow> rev [FindAxis r ! i .. FindAxis r ! i + thin r - 1],
                j \<leftarrow> rev [FindAxis r ! (i + 1) .. FindAxis r ! (i + 1) + rc_h r - 2 * thin r - 1]]"

lemma NV12MarkRect_pixels: "NV12MarkRect pic W H r = foldR (put_pixel W H (rc_YUV r)) (frame_pixels r) pic"
  by (simp only: NV12MarkRect_def Let_def DrawWidthLine_def DrawHeightLine_def frame_pixels_def foldR_append)

lemma FindAxis_nth [simp]:
  "FindAxis r ! 0 = rc_x r" "FindAxis r ! Suc 0 = rc_y r" "FindAxis r ! 2 = rc_x r" "FindAxis r ! 3 = rc_y r + rc_h r - thin r"
  "FindAxis r ! 4 = rc_x r" "FindAxis r ! 5 = rc_y r + thin r" "FindAxis r ! 6 = rc_x r + rc_w r - thin r" "FindAxis r ! 7 = rc_y r + thin r"
  by (simp_all add: FindAxis_def)

lemma thin_nonneg [simp]: "0 \<le> thin r"
  by (simp add: thin_def)

lemma frame_pixels_mem:
  "(j, k) \<in> set (frame_pixels r) \<longleftrightarrow>
     (rc_y r \<le> j \<and> j < rc_y r + thin r \<or> rc_y r + rc_h r - thin r \<le> j \<and> j < rc_y r + rc_h r) \<and> rc_x r \<le> k \<and> k < rc_x r + rc_w r \<or>
     (rc_x r \<le> k \<and> k < rc_x r + thin r \<or> rc_x r + rc_w r - thin r \<le> k \<and> k < rc_x r + rc_w r) \<and>
        rc_y r + thin r \<le> j \<and> j < rc_y r + rc_h r - thin r"
  by (auto simp: frame_pixels_def image_iff Bex_def)

lemma frame_pixels_frame:
  assumes "thin r \<le> rc_w r" "thin r \<le> rc_h r"
  shows "(j, k) \<in> set (frame_pixels r) \<longleftrightarrow> on_frame r j k"
  using assms thin_nonneg [of r] unfolding frame_pixels_mem on_frame_def by linarith

lemma sint_u32: "unat (w :: u32) < 2 ^ 31 \<Longrightarrow> sint w = int (unat w)"
proof -
  assume "unat w < 2 ^ 31"
  then have "int (unat w) < int (2 ^ 31)" by (simp only: of_nat_less_iff)
  then have "uint w < 2 ^ 31" by simp
  moreover have "- (2 ^ 31) \<le> uint w" by (rule order_trans [of _ 0]) simp_all
  ultimately have "signed_take_bit 31 (uint w) = uint w" by (intro signed_take_bit_int_eq_self)
  then show ?thesis by (simp add: sint_uint)
qed

lemma frame_in_picture:
  assumes "thin r \<le> rc_w r" "thin r \<le> rc_h r" "0 \<le> rc_x r" "0 \<le> rc_y r" "rc_x r + rc_w r \<le> W" "rc_y r + rc_h r \<le> H"
  shows "list_all (in_picture W H) (frame_pixels r)"
proof -
  have "in_picture W H (j, k)" if "(j, k) \<in> set (frame_pixels r)" for j k
    using that assms unfolding frame_pixels_frame [OF assms(1,2)] by (auto simp: on_frame_def in_picture_def)
  then show ?thesis by (auto simp: list_all_iff)
qed

lemma mark_rect_planes:
  assumes "thin r \<le> rc_w r" "thin r \<le> rc_h r" "0 \<le> rc_x r" "0 \<le> rc_y r" "rc_x r + rc_w r \<le> W" "rc_y r + rc_h r \<le> H"
    "picture_ok W H pic" "rc_YUV r = (y, u, v)"
  shows "\<exists>pic'. NV12MarkRect pic W H r = Inr pic' \<and> length pic' = length pic \<and>
    (\<forall>j k. in_picture W H (j, k) \<longrightarrow> luma W pic' j k = (if on_frame r j k then y else luma W pic j k)) \<and>
    (\<forall>p q. 0 \<le> p \<and> p < H div 2 \<and> 0 \<le> q \<and> q < W div 2 \<longrightarrow>
       chroma W H pic' p q = (if \<exists>j k. on_frame r j k \<and> p = j div 2 \<and> q = k div 2 then (u, v) else chroma W H pic p q))"
proof -
  have "(\<exists>(j, k) \<in> set (frame_pixels r). (p, q) = (j div 2, k div 2)) \<longleftrightarrow> (\<exists>j k. on_frame r j k \<and> p = j div 2 \<and> q = k div 2)" for p q
    using frame_pixels_frame [OF assms(1,2)] by auto
  with put_pixels_planes [OF frame_in_picture [OF assms(1-6)] assms(7), of y u v] show ?thesis
    by (simp only: NV12MarkRect_pixels assms(8) frame_pixels_frame [OF assms(1,2)])
qed

text \<open>A loop of writes succeeds only if every one of them is inside the buffer.\<close>

lemma put_pixel_length: "put_pixel W H yuv jk pic = Inr pic' \<Longrightarrow> length pic' = length pic"
  by (auto simp: put_pixel_def Let_def bindR_eq_Inr dest!: write_at_length split: prod.splits)

lemma put_pixels_inside:
  assumes "foldR (put_pixel W H yuv) ps pic = Inr pic'" "(j, k) \<in> set ps"
  shows "0 \<le> j * W + k \<and> j * W + k < int (length pic)"
  using assms
proof (induction ps arbitrary: pic)
  case (Cons a ps)
  then obtain t where t: "put_pixel W H yuv a pic = Inr t" "foldR (put_pixel W H yuv) ps t = Inr pic'" by (auto simp: bindR_eq_Inr)
  show ?case
  proof (cases "(j, k) = a")
    case True
    with t(1) show ?thesis by (auto simp: put_pixel_def Let_def bindR_eq_Inr write_at_def split: prod.splits if_splits)
  next
    case False
    with Cons.prems(2) Cons.IH [OF t(2)] put_pixel_length [OF t(1)] show ?thesis by simp
  qed
qed simp

lemma put_pixels_fault: "foldR (put_pixel W H yuv) ps pic = Inl e \<Longrightarrow> e = Out_Of_Range"
proof (induction ps arbitrary: pic)
  case (Cons a ps)
  show ?case
  proof (cases "put_pixel W H yuv a pic")
    case (Inl x)
    with Cons.prems show ?thesis
      by (auto simp: put_pixel_def Let_def write_at_def split: prod.splits if_splits)
  next
    case (Inr t)
    with Cons show ?thesis by auto
  qed
qed simp

lemma to_int_nonneg: "to_int x = Inr k \<Longrightarrow> 0 \<le> x \<Longrightarrow> 0 \<le> k"
  by (auto simp: to_int_def Let_def split: if_splits)

lemma to_int_le:
  assumes "to_int x = Inr k" "x \<le> of_nat n"
  shows "k \<le> int n"
proof (cases "x < 0")
  case True
  with assms(1) have "k \<le> 0" by (auto simp: to_int_def Let_def split: if_splits)
  then show ?thesis by simp
next
  case False
  with assms(1) have "k = \<lfloor>x\<rfloor>" by (auto simp: to_int_def Let_def split: if_splits)
  with assms(2) show ?thesis by (simp add: floor_le_iff)
qed

lemma to_int_scaled_le: "to_int (min a 1 * of_nat n) = Inr k \<Longrightarrow> k \<le> int n"
  using mult_right_mono [of "min a 1" 1 "of_nat n"] by (intro to_int_le) auto

lemma to_int_scaled_nonneg: "to_int (max a 0 * of_nat n) = Inr k \<Longrightarrow> 0 \<le> k"
  by (erule to_int_nonneg) simp

lemma detect_box_bounds:
  assumes "detect_box w h xmin ymin xmax ymax = Inr (lt, rb)"
  shows "0 \<le> pt_x lt \<and> 0 \<le> pt_y lt \<and> pt_x rb \<le> int (unat w) \<and> pt_y rb \<le> int (unat h)"
  using assms by (auto simp: detect_box_def bindR_eq_Inr intro: to_int_scaled_nonneg dest: to_int_scaled_le simp del: of_nat_unat)

text \<open>What one row and the whole result may change of a picture.\<close>

definition detection_ok :: "device_stream_data \<Rightarrow> detect_info \<Rightarrow> bool" where
  "detection_ok d i \<longleftrightarrow> 1 / 2 < di_confidence i \<and> 0 \<le> pt_x (di_lt i) \<and> 0 \<le> pt_y (di_lt i) \<and>
     pt_x (di_rb i) \<le> int (unat (im_width (sd_imgOrigin d))) \<and> pt_y (di_rb i) \<le> int (unat (im_height (sd_imgOrigin d)))"

definition extends_frame :: "device_stream_data \<Rightarrow> device_stream_data \<Rightarrow> bool" where
  "extends_frame d d' \<longleftrightarrow> sd_info d' = sd_info d \<and> im_width (sd_imgOrigin d') = im_width (sd_imgOrigin d) \<and>
     im_height (sd_imgOrigin d') = im_height (sd_imgOrigin d) \<and>
     (\<exists>new. sd_detectResult d' = sd_detectResult d @ new \<and> list_all (detection_ok d) new)"

lemma extends_frame_refl: "extends_frame d d"
  by (simp add: extends_frame_def)

lemma extends_frame_trans:
  assumes "extends_frame a b" "extends_frame b c"
  shows "extends_frame a c"
proof -
  have "detection_ok b = detection_ok a" using assms(1) by (auto simp: extends_frame_def detection_ok_def fun_eq_iff)
  with assms show ?thesis by (auto simp: extends_frame_def)
qed

lemma draw_box_keeps:
  assumes "draw_box lt rb d = Inr d'"
  shows "sd_info d' = sd_info d \<and> im_width (sd_imgOrigin d') = im_width (sd_imgOrigin d) \<and>
    im_height (sd_imgOrigin d') = im_height (sd_imgOrigin d) \<and> sd_detectResult d' = sd_detectResult d"
  using assms by (auto simp: draw_box_def Let_def bindR_eq_Inr split: option.splits)

lemma add_detection_extends:
  assumes "add_detection row d = Inr d'" "1 / 2 < row ! 2"
  shows "extends_frame d d'"
proof -
  from assms(1) obtain label lt rb where b: "detect_box (im_width (sd_imgOrigin d)) (im_height (sd_imgOrigin d)) (row ! 3) (row ! 4) (row ! 5) (row ! 6) = Inr (lt, rb)"
    and d': "(let e = d\<lparr>sd_detectResult := sd_detectResult d @ [\<lparr>di_classId = label, di_confidence = row ! 2, di_lt = lt, di_rb = rb\<rparr>]\<rparr>
       in if label = 1 then draw_box lt rb e else Inr e) = Inr d'"
    by (auto simp: add_detection_def bindR_eq_Inr)
  have "sd_info d' = sd_info d \<and> im_width (sd_imgOrigin d') = im_width (sd_imgOrigin d) \<and> im_height (sd_imgOrigin d') = im_height (sd_imgOrigin d) \<and>
    sd_detectResult d' = sd_detectResult d @ [\<lparr>di_classId = label, di_confidence = row ! 2, di_lt = lt, di_rb = rb\<rparr>]"
    using d' by (auto simp: Let_def split: if_splits dest!: draw_box_keeps)
  with detect_box_bounds [OF b] assms(2) show ?thesis by (simp add: extends_frame_def detection_ok_def)
qed

lemma process_row_extends:
  assumes "process_row res i q = Inr q'"
  shows "list_all2 extends_frame q q'"
proof (cases "1 / 2 < res ! (7 * i + 2) \<and> 7 * i + 2 < length res")
  case False
  with assms have "q' = q" by (cases "7 * i + 2 < length res") (auto simp: process_row_def)
  then show ?thesis by (simp add: list_all2_conv_all_nth extends_frame_refl)
next
  case True
  let ?row = "take 7 (drop (7 * i) res)"
  from assms True obtain batch d where "7 * i + 7 \<le> length res" "0 \<le> batch" "batch < int (length q)"
    "add_detection ?row (q ! nat batch) = Inr d" "q' = q[nat batch := d]"
    by (auto simp: process_row_def Let_def bindR_eq_Inr not_less split: if_splits)
  moreover from this True have "1 / 2 < ?row ! 2" by (simp add: add.commute)
  ultimately show ?thesis using add_detection_extends
    by (auto simp: list_all2_conv_all_nth nth_list_update extends_frame_refl)
qed

lemma extends_frames_trans: "list_all2 extends_frame a b \<Longrightarrow> list_all2 extends_frame b c \<Longrightarrow> list_all2 extends_frame a c"
  by (rule list_all2_trans [OF extends_frame_trans])

text \<open>Where the requests of a log write.\<close>

fun output_addrs :: "dvpp_log \<Rightarrow> u64 list" where
  "output_addrs [] = []"
| "output_addrs (Api_Ctl (Vpc_Proc img) # lg) = map ro_addr (vi_rois img) @ output_addrs lg"
| "output_addrs (e # lg) = output_addrs lg"

lemma output_addrs_append [simp]: "output_addrs (xs @ ys) = output_addrs xs @ output_addrs ys"
  by (induction xs rule: output_addrs.induct) simp_all

lemma vpcResize_addrs:
  assumes "vpcResize al api a w h b ow oh fmt lg = Inr (ok, lg')" "\<And>lg. da_create api lg = 0"
  shows "output_addrs lg' = output_addrs lg @ [b]"
  using assms(1) by (auto simp: vpcResize_def Let_def bindR_eq_Inr run_vpc_def api_defs yuv_image_def assms(2) split: if_splits)

lemma resize_queue_addrs:
  assumes "resize_queue ev s q base lg = Inr lg'" "\<And>lg. da_create (se_api ev) lg = 0"
  shows "output_addrs lg' = output_addrs lg @ map (\<lambda>i. base + of_nat i * ucast (ss_kInputSize s)) [0..<length q]"
  using assms(1)
proof (induction q arbitrary: base lg)
  case (Cons d ds)
  then obtain ok lg1 where 1: "vpcResize (se_al ev) (se_api ev) (se_address ev (rb_data (im_buf (sd_imgOrigin d)))) (im_width (sd_imgOrigin d)) (im_height (sd_imgOrigin d))
      base (ss_kWidth s) (ss_kHeight s) (se_input_format ev) lg = Inr (ok, lg1)"
    "resize_queue ev s ds (base + ucast (ss_kInputSize s)) lg1 = Inr lg'"
    by (auto simp: Let_def bindR_eq_Inr)
  have "map (\<lambda>i. base + of_nat i * ucast (ss_kInputSize s)) [0..<length (d # ds)] =
    base # map (\<lambda>i. (base + ucast (ss_kInputSize s)) + of_nat i * ucast (ss_kInputSize s)) [0..<length ds]"
    by (simp only: length_Cons upt_conv_Cons map_Suc_upt [symmetric] zero_less_Suc) (simp add: algebra_simps)
  with Cons.IH [OF 1(2)] vpcResize_addrs [OF 1(1) assms(2)] show ?case by simp
qed simp

section \<open>Properties\<close>

text \<open>
  C8. A box inside the picture and at least as large as the line is drawn without leaving
  the buffer, and exactly its frame changes: the brightness of the pixels of the frame and
  the colour of the blocks of four that the frame touches.
\<close>

theorem mark_draws_frame:
  assumes "thin r \<le> rc_w r" "thin r \<le> rc_h r" "0 \<le> rc_x r" "0 \<le> rc_y r" "rc_x r + rc_w r \<le> W" "rc_y r + rc_h r \<le> H"
    "picture_ok W H pic" "rc_YUV r = (y, u, v)"
  shows "\<exists>pic'. NV12MarkRect pic W H r = Inr pic' \<and> length pic' = length pic \<and>
    (\<forall>j k. in_picture W H (j, k) \<longrightarrow> luma W pic' j k = (if on_frame r j k then y else luma W pic j k)) \<and>
    (\<forall>p q. 0 \<le> p \<and> p < H div 2 \<and> 0 \<le> q \<and> q < W div 2 \<longrightarrow>
       chroma W H pic' p q = (if \<exists>j k. on_frame r j k \<and> p = j div 2 \<and> q = k div 2 then (u, v) else chroma W H pic p q))"
  using assms by (rule mark_rect_planes)

definition sample_box :: rect where
  "sample_box = \<lparr>rc_x = 1, rc_y = 1, rc_w = 2, rc_h = 3, rc_thin = 1, rc_YUV = (76, 84, 255)\<rparr>"

theorem mark_draws_frame_witness:
  "\<exists>pic'. NV12MarkRect (replicate 24 0) 4 4 sample_box = Inr pic' \<and> luma 4 pic' 1 1 = 76 \<and> luma 4 pic' 0 0 = 0"
proof -
  have t: "thin sample_box = 1" by (simp add: thin_def sample_box_def)
  have "\<exists>pic'. NV12MarkRect (replicate 24 0) 4 4 sample_box = Inr pic' \<and>
    (\<forall>j k. in_picture 4 4 (j, k) \<longrightarrow> luma 4 pic' j k = (if on_frame sample_box j k then 76 else luma 4 (replicate 24 0) j k))"
    using mark_draws_frame [of sample_box 4 4 "replicate 24 0" 76 84 255] t
    by (fastforce simp: sample_box_def picture_ok_def)
  then obtain pic' where 1: "NV12MarkRect (replicate 24 0) 4 4 sample_box = Inr pic'"
    and 2: "\<And>j k. in_picture 4 4 (j, k) \<Longrightarrow> luma 4 pic' j k = (if on_frame sample_box j k then 76 else luma 4 (replicate 24 0) j k)"
    by blast
  from 2 [of 1 1] 2 [of 0 0] have "luma 4 pic' 1 1 = 76" "luma 4 pic' 0 0 = 0"
    by (simp_all add: in_picture_def on_frame_def t) (simp_all add: sample_box_def luma_def)
  with 1 show ?thesis by blast
qed

text \<open>
  A box lower than the line is thick, at the upper edge, makes the drawing write in
  front of the picture.
\<close>

theorem low_box_leaves_buffer:
  assumes "0 \<le> rc_x r" "rc_x r < W" "1 \<le> rc_w r" "1 \<le> thin r" "rc_y r + rc_h r < thin r"
  shows "NV12MarkRect pic W H r = Inl Out_Of_Range"
proof (cases "NV12MarkRect pic W H r")
  case (Inl e)
  then show ?thesis using put_pixels_fault by (auto simp: NV12MarkRect_pixels)
next
  case (Inr pic')
  let ?j = "rc_y r + rc_h r - thin r"
  have "(?j, rc_x r) \<in> set (frame_pixels r)" using assms by (simp add: frame_pixels_mem)
  with put_pixels_inside [OF Inr [unfolded NV12MarkRect_pixels]] have "0 \<le> ?j * W + rc_x r" by blast
  moreover have "?j * W \<le> - 1 * W" using assms by (intro mult_right_mono) auto
  ultimately show ?thesis using assms(2) by simp
qed

theorem low_box_leaves_buffer_witness:
  "NV12MarkRect (replicate 24 0) 4 4 (sample_box\<lparr>rc_y := 0, rc_h := 1, rc_thin := 3\<rparr>) = Inl Out_Of_Range"
  by (rule low_box_leaves_buffer) (simp_all add: sample_box_def thin_def)

text \<open>
  Whatever the tensors hold, each picture keeps its information, size and earlier
  detections, and every detection added to it scores above one half and has its upper left
  corner not before the origin and its lower right corner not beyond the size.
\<close>

theorem detections_clamped:
  assumes "postProcessDetection objNum res q = Inr q'"
  shows "list_all2 extends_frame q q'"
proof -
  from assms obtain k where "foldR (process_row res) [0..<nat k] q = Inr q'"
    by (auto simp: postProcessDetection_def bindR_eq_Inr)
  moreover have "list_all2 extends_frame q q" by (simp add: list_all2_conv_all_nth extends_frame_refl)
  ultimately show ?thesis
    by (rule foldR_invariant) (auto dest: process_row_extends intro: extends_frames_trans)
qed

definition sample_frame_data :: device_stream_data where
  "sample_frame_data =
     \<lparr>sd_info = \<lparr>si_frameId = 1, si_mode = 0, si_format = 0, si_channelId = 0, si_isEOS = 0, si_table = []\<rparr>,
      sd_action = doAll, sd_detectResult = [],
      sd_imgOrigin = \<lparr>im_format = 0, im_width = 8, im_height = 8, im_widthAligned = 128, im_heightAligned = 16,
        im_buf = \<lparr>rb_data = Some (replicate 96 0), rb_len_of_byte = 96\<rparr>\<rparr>\<rparr>"

theorem detections_clamped_witness:
  "\<exists>q'. postProcessDetection [1] [0, 2, 3 / 4, - 1, 1 / 4, 2, 1] [sample_frame_data] = Inr q' \<and> list_all2 extends_frame [sample_frame_data] q'"
proof -
  have d: "detect_box 8 8 (- 1) (1 / 4) 2 1 = Inr (\<lparr>pt_x = 0, pt_y = 2\<rparr>, \<lparr>pt_x = 8, pt_y = 8\<rparr>)"
    by (simp add: detect_box_def to_int_def int32_range_def)
  have i: "to_int 2 = Inr 2" "to_int 0 = Inr 0" "to_int 1 = Inr 1" by (simp_all add: to_int_def int32_range_def)
  have "\<exists>q'. process_row [0, 2, 3 / 4, - 1, 1 / 4, 2, 1] 0 [sample_frame_data] = Inr q'"
    by (simp add: process_row_def add_detection_def i d sample_frame_data_def Let_def)
  then have "\<exists>q'. postProcessDetection [1] [0, 2, 3 / 4, - 1, 1 / 4, 2, 1] [sample_frame_data] = Inr q'"
    by (auto simp: postProcessDetection_def i)
  with detections_clamped show ?thesis by blast
qed

text \<open>
  The person of a row with a box of at least three pixels each way is recorded and its
  frame is drawn in the brightness 76, without a fault, in a picture with an even size and
  a full NV12 buffer.
\<close>

theorem person_is_drawn:
  assumes "to_int (row ! 1) = Inr 1"
    "detect_box (im_width (sd_imgOrigin d)) (im_height (sd_imgOrigin d)) (row ! 3) (row ! 4) (row ! 5) (row ! 6) = Inr (lt, rb)"
    "pt_x lt + 3 \<le> pt_x rb" "pt_y lt + 3 \<le> pt_y rb"
    "unat (im_width (sd_imgOrigin d)) < 2 ^ 31" "unat (im_height (sd_imgOrigin d)) < 2 ^ 31"
    "rb_data (im_buf (sd_imgOrigin d)) = Some bs"
    "picture_ok (int (unat (im_width (sd_imgOrigin d)))) (int (unat (im_height (sd_imgOrigin d)))) bs"
  shows "\<exists>d' bs'. add_detection row d = Inr d' \<and> rb_data (im_buf (sd_imgOrigin d')) = Some bs' \<and>
    sd_detectResult d' = sd_detectResult d @ [\<lparr>di_classId = 1, di_confidence = row ! 2, di_lt = lt, di_rb = rb\<rparr>] \<and>
    (\<forall>j k. in_picture (int (unat (im_width (sd_imgOrigin d)))) (int (unat (im_height (sd_imgOrigin d)))) (j, k) \<longrightarrow>
       luma (int (unat (im_width (sd_imgOrigin d)))) bs' j k =
         (if on_frame (box_rect (76, 84, 255) lt rb) j k then 76 else luma (int (unat (im_width (sd_imgOrigin d)))) bs j k))"
proof -
  let ?W = "int (unat (im_width (sd_imgOrigin d)))" and ?H = "int (unat (im_height (sd_imgOrigin d)))"
  let ?r = "box_rect (76, 84, 255) lt rb"
  have s: "sint (im_width (sd_imgOrigin d)) = ?W" "sint (im_height (sd_imgOrigin d)) = ?H"
    using assms(5,6) by (simp_all only: sint_u32)
  have yuv: "RgbToYuv (255, 0, 0) = Inr (76, 84, 255)"
  proof -
    have "\<lfloor>15249 / 200 :: rat\<rfloor> = 76" "\<lfloor>169963 / 2000 :: rat\<rfloor> = 84" "\<lfloor>511 / 2 :: rat\<rfloor> = 255"
      by (simp_all add: floor_eq_iff)
    then show ?thesis by (simp add: RgbToYuv_def to_uchar_def Let_def)
  qed
  have "\<exists>pic'. NV12MarkRect bs ?W ?H ?r = Inr pic' \<and> length pic' = length bs \<and>
    (\<forall>j k. in_picture ?W ?H (j, k) \<longrightarrow> luma ?W pic' j k = (if on_frame ?r j k then 76 else luma ?W bs j k)) \<and>
    (\<forall>p q. 0 \<le> p \<and> p < ?H div 2 \<and> 0 \<le> q \<and> q < ?W div 2 \<longrightarrow>
       chroma ?W ?H pic' p q = (if \<exists>j k. on_frame ?r j k \<and> p = j div 2 \<and> q = k div 2 then (84, 255) else chroma ?W ?H bs p q))"
    using detect_box_bounds [OF assms(2)] assms(3,4,8)
    by (intro mark_rect_planes) (simp_all add: box_rect_def thin_def)
  then obtain bs' where "NV12MarkRect bs ?W ?H ?r = Inr bs'"
    "\<forall>j k. in_picture ?W ?H (j, k) \<longrightarrow> luma ?W bs' j k = (if on_frame ?r j k then 76 else luma ?W bs j k)" by blast
  then show ?thesis using assms(1,2,7) by (simp add: add_detection_def draw_box_def Let_def yuv s)
qed

theorem person_is_drawn_witness:
  "\<exists>d'. add_detection [0, 1, 3 / 4, 0, 0, 1, 1] sample_frame_data = Inr d' \<and>
     sd_detectResult d' = [\<lparr>di_classId = 1, di_confidence = 3 / 4, di_lt = \<lparr>pt_x = 0, pt_y = 0\<rparr>, di_rb = \<lparr>pt_x = 8, pt_y = 8\<rparr>\<rparr>]"
proof -
  let ?row = "[0, 1, 3 / 4, 0, 0, 1, 1] :: real list"
  have d: "detect_box (im_width (sd_imgOrigin sample_frame_data)) (im_height (sd_imgOrigin sample_frame_data))
      (?row ! 3) (?row ! 4) (?row ! 5) (?row ! 6) = Inr (\<lparr>pt_x = 0, pt_y = 0\<rparr>, \<lparr>pt_x = 8, pt_y = 8\<rparr>)"
    by (simp add: detect_box_def to_int_def int32_range_def sample_frame_data_def)
  have l: "to_int (?row ! 1) = Inr 1" by (simp add: to_int_def int32_range_def)
  have b: "rb_data (im_buf (sd_imgOrigin sample_frame_data)) = Some (replicate 96 0)" by (simp add: sample_frame_data_def)
  have w: "unat (im_width (sd_imgOrigin sample_frame_data)) = 8" "unat (im_height (sd_imgOrigin sample_frame_data)) = 8"
    by (simp_all add: sample_frame_data_def)
  have s: "sd_detectResult sample_frame_data = []" by (simp add: sample_frame_data_def)
  from person_is_drawn [OF l d _ _ _ _ b] show ?thesis unfolding w s by (auto simp: picture_ok_def)
qed

text \<open>
  With a model for single pictures and a device that opens, a step writes one resized
  picture per queued picture, the \<open>i\<close>-th one \<open>i\<close> tensor sizes behind the start of the
  input buffer, which is one tensor size long. The queue is empty after a step that
  succeeds and keeps every picture after a failed inference, so the step after a failure
  writes behind the buffer.
\<close>

theorem batch_addresses:
  assumes "ssd_process ev (Some d) s lg = Inr (ok, s', out, lg')" "ss_kBatchSize s = 1" "\<And>lg. da_create (se_api ev) lg = 0"
  shows "output_addrs lg' = output_addrs lg @
      map (\<lambda>i. se_input_base ev + of_nat i * ucast (ss_kInputSize s)) [0..<Suc (length (ss_queue s))] \<and>
    ss_queue s' = (if ok then [] else ss_queue s @ [d]) \<and> length out = (if ok then Suc (length (ss_queue s)) else 0)"
proof -
  let ?s = "s\<lparr>ss_queue := ss_queue s @ [d]\<rparr>"
  from assms(1,2) obtain lg1 where 1: "resize_queue ev ?s (ss_queue s @ [d]) (se_input_base ev) lg = Inr lg1" "lg' = lg1"
    and 2: "if \<not> se_infer ev lg1 then \<not> ok \<and> s' = ?s \<and> out = []
      else ok \<and> s' = ?s\<lparr>ss_queue := []\<rparr> \<and> postProcessDetection (se_objNum ev lg1) (se_results ev lg1) (ss_queue s @ [d]) = Inr out"
    by (auto simp: ssd_process_def Let_def bindR_eq_Inr split: if_splits)
  have "length out = Suc (length (ss_queue s))" if "se_infer ev lg1"
  proof -
    have "postProcessDetection (se_objNum ev lg1) (se_results ev lg1) (ss_queue s @ [d]) = Inr out" using 2 that by simp
    then obtain k where "foldR (process_row (se_results ev lg1)) [0..<nat k] (ss_queue s @ [d]) = Inr out"
      by (auto simp: postProcessDetection_def bindR_eq_Inr)
    then have "length out = length (ss_queue s @ [d])"
      by (rule foldR_invariant) (auto dest!: process_row_extends list_all2_lengthD)
    then show ?thesis by simp
  qed
  with 2 resize_queue_addrs [OF 1(1) assms(3)] 1(2) show ?thesis by (cases "se_infer ev lg1") simp_all
qed

definition sample_ssd_env :: ssd_env where
  "sample_ssd_env =
     \<lparr>se_al = align_up, se_api = idle_api, se_address = \<lambda>_. 0, se_input_base = 4096, se_model_init = \<lambda>_. True,
      se_model_dims = None, se_dmalloc = \<lambda>_. True, se_infer = \<lambda>lg. lg = [], se_results = \<lambda>_. [], se_objNum = \<lambda>_. [0],
      se_input_format = 0\<rparr>"

definition sample_ssd :: ssd where
  "sample_ssd =
     \<lparr>ss_kBatchSize = 1, ss_kChannel = 3, ss_kWidth = 300, ss_kHeight = 300, ss_kAlignedWidth = 384, ss_kAlignedHeight = 304,
      ss_kInputSize = 175104, ss_queue = [sample_frame_data], ss_inputDataBuffer = [175104], ss_outputDataBuffer = [],
      ss_inputTensors = [], ss_outputTensors = []\<rparr>"

theorem batch_addresses_witness:
  "\<exists>s' lg'. ssd_process sample_ssd_env (Some sample_frame_data) sample_ssd [] = Inr (False, s', [], lg') \<and>
     output_addrs lg' = [4096, 4096 + 175104] \<and> ss_queue s' = [sample_frame_data, sample_frame_data]"
proof -
  let ?s = "sample_ssd\<lparr>ss_queue := [sample_frame_data, sample_frame_data]\<rparr>"
  have f: "im_width (sd_imgOrigin sample_frame_data) = 8" "im_height (sd_imgOrigin sample_frame_data) = 8"
    by (simp_all add: sample_frame_data_def)
  have e: "se_al sample_ssd_env = align_up" "se_api sample_ssd_env = idle_api" "\<And>a. se_address sample_ssd_env a = 0"
    "se_input_format sample_ssd_env = 0" "se_input_base sample_ssd_env = 4096" "\<And>lg. se_infer sample_ssd_env lg = (lg = [])"
    by (simp_all add: sample_ssd_env_def)
  have k: "ss_kWidth sample_ssd = 300" "ss_kHeight sample_ssd = 300" "ss_kBatchSize sample_ssd = 1" "ss_kInputSize sample_ssd = 175104"
    "ss_queue sample_ssd = [sample_frame_data]" "ss_inputDataBuffer sample_ssd \<noteq> []"
    by (simp_all add: sample_ssd_def)
  have v: "\<exists>lg1. vpcResize align_up idle_api 0 8 8 a 300 300 0 lg = Inr (True, lg1) \<and> lg1 \<noteq> []" for a lg
    by (simp add: vpcResize_def Let_def yuv_bytes_def align_up_def DVPP_STRIDE_WIDTH_def DVPP_STRIDE_HEIGHT_def run_vpc_def api_defs idle_api_def)
  obtain lg1 where 1: "vpcResize align_up idle_api 0 8 8 4096 300 300 0 [] = Inr (True, lg1)" using v by blast
  obtain lg2 where 2: "vpcResize align_up idle_api 0 8 8 (4096 + ucast (175104 :: u32)) 300 300 0 lg1 = Inr (True, lg2)" "lg2 \<noteq> []" using v by blast
  have k': "ss_kWidth ?s = 300" "ss_kHeight ?s = 300" "ss_kInputSize ?s = 175104" using k by simp_all
  have "resize_queue sample_ssd_env ?s [sample_frame_data, sample_frame_data] 4096 [] = Inr lg2"
    by (simp only: resize_queue.simps Let_def e f k' 1 2 bindR_simps prod.case)
  then have p: "ssd_process sample_ssd_env (Some sample_frame_data) sample_ssd [] = Inr (False, ?s, [], lg2)"
    using 2(2) k by (simp add: ssd_process_def Let_def e)
  have "da_create (se_api sample_ssd_env) lg = 0" for lg by (simp add: e idle_api_def)
  from batch_addresses [OF p k(3) this] p show ?thesis by (simp add: k e upt_rec)
qed

text \<open>The colour conversion has no value for white: the second component exceeds a byte.\<close>

theorem white_has_no_colour: "RgbToYuv (255, 255, 255) = Inl Indeterminate"
proof -
  have "\<lfloor>2961983 / 10000 :: rat\<rfloor> = 296" by (simp add: floor_eq_iff)
  moreover have "\<lfloor>255 :: rat\<rfloor> = 255" by simp
  ultimately show ?thesis by (simp add: RgbToYuv_def to_uchar_def Let_def)
qed

end
