(* ===== verification/JpegEncode.thy ===== *)
theory JpegEncode
  imports Dvpp
begin

text \<open>
  The picture encoder: \<open>Common/DvppJpegEncode\<close> and the engine \<open>JpegEncode/JpegEncode.cpp\<close>
  around it. The device writes the picture it encoded (\<open>jv_jpg\<close>); the copy into the new
  buffer may be refused (\<open>jv_memcpy_ok\<close>); addresses of buffers, the page size and the
  alignment macro at both widths are parameters.
\<close>

record jpeg_env =
  jv_api :: dvpp_api
  jv_jpg :: "dvpp_log \<Rightarrow> u8 list"
  jv_memcpy_ok :: "u8 list \<Rightarrow> bool"
  jv_al :: "u32 \<Rightarrow> u32 \<Rightarrow> u32"
  jv_al64 :: "u64 \<Rightarrow> u64 \<Rightarrow> u64"
  jv_page_size :: u32
  jv_address :: "u8 list option \<Rightarrow> u64"

record jpeg_encode_in =
  ji_inWidth :: u32
  ji_inHeight :: u32
  ji_inBufferSize :: u32
  ji_format :: int
  ji_level :: u32
  ji_inBuffer :: "u8 list option"

record jpeg_encode_out =
  jo_outBufferSize :: u32
  jo_outBuffer :: "u8 list option"

definition JPGENC_FORMAT_YUYV :: int where "JPGENC_FORMAT_YUYV = 3"
definition JPGENC_FORMAT_NV12 :: int where "JPGENC_FORMAT_NV12 = 16"

definition encode_request :: "jpeg_env \<Rightarrow> jpeg_encode_in \<Rightarrow> jpege_in" where
  "encode_request ev i =
     (let width = CHECK_EVEN (ji_inWidth i);
          height = CHECK_EVEN (ji_inHeight i);
          heightAligned = ji_inHeight i;
          packed = ji_format i \<le> JPGENC_FORMAT_YUYV;
          stride = (if packed then jv_al ev (width * 2) 16 else jv_al ev width 16);
          bufSize = (if packed then jv_al ev (stride * heightAligned) (jv_page_size ev)
                     else jv_al ev (stride * heightAligned * 3 div 2) (jv_page_size ev))
      in \<lparr>je_width = width, je_height = height, je_heightAligned = heightAligned,
          je_format = ji_format i, je_level = ji_level i, je_stride = stride, je_bufSize = bufSize,
          je_buf = jv_al64 ev (jv_address ev (ji_inBuffer i)) 128\<rparr>)"

text \<open>The constructor and the destructor keep one handle of their own.\<close>

definition encoder_construct :: "dvpp_api \<Rightarrow> bool \<Rightarrow> dvpp_log \<Rightarrow> bool \<times> dvpp_log" where
  "encoder_construct api opened lg =
     (if opened then (True, lg) else (case CreateDvppApi api lg of (ret, lg) \<Rightarrow> (ret = 0, lg)))"

definition encoder_destruct :: "dvpp_api \<Rightarrow> bool \<Rightarrow> dvpp_log \<Rightarrow> dvpp_log" where
  "encoder_destruct api opened lg = (if opened then snd (DestroyDvppApi api lg) else lg)"

text \<open>\<open>Encode\<close>: the result and whether the device got its buffer back (\<open>cbFree\<close>).\<close>

definition Encode :: "jpeg_env \<Rightarrow> jpeg_encode_in \<Rightarrow> jpeg_encode_out \<Rightarrow> dvpp_log \<Rightarrow> (bool \<times> jpeg_encode_out \<times> bool) \<times> dvpp_log" where
  "Encode ev i encodedData lg =
     (case CreateDvppApi (jv_api ev) lg of (ret, lg) \<Rightarrow>
      if ret \<noteq> 0 then ((False, encodedData, False), lg)
      else (case DvppCtl (jv_api ev) (Jpege_Proc (encode_request ev i)) lg of (ret, lg) \<Rightarrow>
        if ret \<noteq> 0 then (case DestroyDvppApi (jv_api ev) lg of (_, lg) \<Rightarrow> ((False, encodedData, False), lg))
        else
          let jpg = jv_jpg ev lg;
              encodedData = encodedData\<lparr>jo_outBufferSize := of_nat (length jpg), jo_outBuffer := Some jpg\<rparr>
          in if \<not> jv_memcpy_ok ev jpg then ((False, encodedData, False), lg)
             else (case DestroyDvppApi (jv_api ev) lg of (_, lg) \<Rightarrow> ((True, encodedData, True), lg))))"

section \<open>The engine\<close>

text \<open>\<open>Init\<close> makes the encoder the first time; \<open>None\<close> is no encoder yet.\<close>

definition jpeg_init :: "dvpp_api \<Rightarrow> bool option \<Rightarrow> dvpp_log \<Rightarrow> bool option \<times> dvpp_log" where
  "jpeg_init api encoder lg =
     (case encoder of
        Some opened \<Rightarrow> (Some opened, lg)
      | None \<Rightarrow> (case encoder_construct api False lg of (opened, lg) \<Rightarrow> (Some opened, lg)))"

text \<open>The status, the messages sent to the next engine and the calls of the device.\<close>

definition jpeg_process :: "jpeg_env \<Rightarrow> device_stream_data option \<Rightarrow> dvpp_log \<Rightarrow> bool \<times> device_stream_data list \<times> dvpp_log" where
  "jpeg_process ev arg0 lg =
     (case arg0 of
        None \<Rightarrow> (False, [], lg)
      | Some d \<Rightarrow>
          if si_isEOS (sd_info d) \<noteq> 0 then (True, [d], lg)
          else
            let im = sd_imgOrigin d;
                inData = \<lparr>ji_inWidth = im_width im, ji_inHeight = im_height im,
                          ji_inBufferSize = rb_len_of_byte (im_buf im), ji_format = JPGENC_FORMAT_NV12,
                          ji_level = 100, ji_inBuffer = rb_data (im_buf im)\<rparr>
            in case Encode ev inData \<lparr>jo_outBufferSize = 0, jo_outBuffer = None\<rparr> lg of ((ok, outData, _), lg) \<Rightarrow>
               if \<not> ok then (False, [], lg)
               else (True, [d\<lparr>sd_imgOrigin := im\<lparr>im_buf := \<lparr>rb_data = jo_outBuffer outData, rb_len_of_byte = jo_outBufferSize outData\<rparr>\<rparr>\<rparr>], lg))"

section \<open>Properties\<close>

text \<open>
  A picture that is encoded leaves the engine once, with its information, action and
  detections as they came and a buffer whose length is the one announced; the end of the
  stream passes untouched and without a device call.
\<close>

theorem jpeg_keeps_metadata:
  assumes "jpeg_process ev (Some d) lg = (True, out, lg')"
  shows "\<exists>d'. out = [d'] \<and> sd_info d' = sd_info d \<and> sd_action d' = sd_action d \<and> sd_detectResult d' = sd_detectResult d \<and>
    im_width (sd_imgOrigin d') = im_width (sd_imgOrigin d) \<and> im_height (sd_imgOrigin d') = im_height (sd_imgOrigin d) \<and>
    (if si_isEOS (sd_info d) \<noteq> 0 then d' = d \<and> lg' = lg
     else \<exists>jpg. im_buf (sd_imgOrigin d') = \<lparr>rb_data = Some jpg, rb_len_of_byte = of_nat (length jpg)\<rparr> \<and> open_handles lg' = open_handles lg)"
  using assms by (auto simp: jpeg_process_def Encode_def api_defs Let_def split: if_splits)

definition sample_jpeg_env :: jpeg_env where
  "sample_jpeg_env = \<lparr>jv_api = idle_api, jv_jpg = \<lambda>_. [0xFF, 0xD8, 0xFF, 0xD9], jv_memcpy_ok = \<lambda>bs. bs \<noteq> [],
     jv_al = align_up, jv_al64 = \<lambda>n a. n, jv_page_size = 4096, jv_address = \<lambda>_. 65536\<rparr>"

definition sample_stream_data :: device_stream_data where
  "sample_stream_data =
     \<lparr>sd_info = \<lparr>si_frameId = 5, si_mode = 0, si_format = 0, si_channelId = 1, si_isEOS = 0, si_table = []\<rparr>,
      sd_action = doAll, sd_detectResult = [],
      sd_imgOrigin = \<lparr>im_format = 0, im_width = 4, im_height = 2, im_widthAligned = 128, im_heightAligned = 16,
        im_buf = \<lparr>rb_data = Some (replicate 12 0), rb_len_of_byte = 12\<rparr>\<rparr>\<rparr>"

theorem jpeg_keeps_metadata_witness:
  "\<exists>d' lg'. jpeg_process sample_jpeg_env (Some sample_stream_data) [] = (True, [d'], lg') \<and> sd_info d' = sd_info sample_stream_data \<and>
     open_handles lg' = 0"
proof -
  have "\<exists>out lg'. jpeg_process sample_jpeg_env (Some sample_stream_data) [] = (True, out, lg')"
    by (simp add: jpeg_process_def Encode_def sample_jpeg_env_def sample_stream_data_def idle_api_def api_defs Let_def)
  then obtain out lg' where "jpeg_process sample_jpeg_env (Some sample_stream_data) [] = (True, out, lg')" by blast
  with jpeg_keeps_metadata [OF this] show ?thesis by (auto simp: sample_stream_data_def)
qed

text \<open>
  A picture that cannot be encoded is dropped and its status is an error; the handle is
  closed unless the copy of the encoded picture is what failed, in which case it stays open.
\<close>

theorem jpeg_failure_drops_frame:
  assumes "jpeg_process ev (Some d) lg = (False, out, lg')" "da_create (jv_api ev) lg = 0"
  shows "out = [] \<and> si_isEOS (sd_info d) = 0 \<and>
    (open_handles lg' = open_handles lg \<or>
     open_handles lg' = open_handles lg + 1 \<and> (\<exists>jpg. \<not> jv_memcpy_ok ev jpg))"
  using assms by (auto simp: jpeg_process_def Encode_def api_defs Let_def split: if_splits)

theorem jpeg_failure_drops_frame_witness:
  "\<exists>lg'. jpeg_process (sample_jpeg_env\<lparr>jv_jpg := \<lambda>_. []\<rparr>) (Some sample_stream_data) [] = (False, [], lg') \<and> open_handles lg' = 1"
proof -
  have "\<exists>out lg'. jpeg_process (sample_jpeg_env\<lparr>jv_jpg := \<lambda>_. []\<rparr>) (Some sample_stream_data) [] = (False, out, lg') \<and> open_handles lg' = 1"
    by (simp add: jpeg_process_def Encode_def sample_jpeg_env_def sample_stream_data_def idle_api_def api_defs Let_def)
  then obtain out lg' where o: "jpeg_process (sample_jpeg_env\<lparr>jv_jpg := \<lambda>_. []\<rparr>) (Some sample_stream_data) [] = (False, out, lg')"
    "open_handles lg' = 1" by blast
  have "da_create (jv_api (sample_jpeg_env\<lparr>jv_jpg := \<lambda>_. []\<rparr>)) [] = 0" by (simp add: sample_jpeg_env_def idle_api_def)
  from jpeg_failure_drops_frame [OF o(1) this] o show ?thesis by blast
qed

end
