(* ===== verification/Pipeline.thy ===== *)
theory Pipeline
  imports VDecEngine SSDDetection JpegEncode DstEngine "HOL-Library.Sublist"
begin

text \<open>
  The engines of \<open>graph.config\<close> one behind the other: the decoder (102), the detection
  (103), the encoder (105) and the result engine (106). Every connection is a queue of one
  sender and one receiver and every engine has one thread, so what an engine receives is
  what its predecessor sent, in that order. Each engine keeps its own log of device calls.
\<close>

fun vdec_run :: "vdec_env \<Rightarrow> stream_raw_data list \<Rightarrow> vdec \<Rightarrow> vdec outcome" where
  "vdec_run ev [] s = Inr s"
| "vdec_run ev (d # ds) s = bindR (vdec_process ev (Some d) s) (\<lambda>(_, s). vdec_run ev ds s)"

fun ssd_run :: "ssd_env \<Rightarrow> device_stream_data list \<Rightarrow> ssd \<Rightarrow> dvpp_log \<Rightarrow> (ssd \<times> device_stream_data list \<times> dvpp_log) outcome" where
  "ssd_run ev [] s lg = Inr (s, [], lg)"
| "ssd_run ev (d # ds) s lg =
     bindR (ssd_process ev (Some d) s lg) (\<lambda>(_, s, out, lg).
     bindR (ssd_run ev ds s lg) (\<lambda>(s, outs, lg). Inr (s, out @ outs, lg)))"

fun jpeg_run :: "jpeg_env \<Rightarrow> device_stream_data list \<Rightarrow> dvpp_log \<Rightarrow> device_stream_data list \<times> dvpp_log" where
  "jpeg_run ev [] lg = ([], lg)"
| "jpeg_run ev (d # ds) lg =
     (case jpeg_process ev (Some d) lg of (_, out, lg) \<Rightarrow>
      case jpeg_run ev ds lg of (outs, lg) \<Rightarrow> (out @ outs, lg))"

text \<open>What reaches the result engine for the packets the puller sends, from idle engines on.\<close>

definition graph_run ::
  "vdec_env \<Rightarrow> ssd_env \<Rightarrow> jpeg_env \<Rightarrow> stream_raw_data list \<Rightarrow> vdec \<Rightarrow> ssd \<Rightarrow> (vdec \<times> ssd \<times> device_stream_data list) outcome" where
  "graph_run vev sev jev packets v s =
     bindR (vdec_run vev packets v) (\<lambda>v'.
     bindR (ssd_run sev (drop (length (vd_sent v)) (vd_sent v')) s []) (\<lambda>(s', detected, _).
       Inr (v', s', fst (jpeg_run jev detected []))))"

fun dst_run :: "env list \<Rightarrow> device_stream_data list \<Rightarrow> dst_engine \<Rightarrow> dst_engine outcome" where
  "dst_run (ev # evs) (d # ds) s = bindR (dst_process ev (Some d) s) (\<lambda>(_, s). dst_run evs ds s)"
| "dst_run _ _ s = Inr s"

section \<open>Facts\<close>

text \<open>The decoder only ever adds messages, none of which is the end of the stream.\<close>

definition adds_frames :: "vdec \<Rightarrow> vdec \<Rightarrow> bool" where
  "adds_frames s s' \<longleftrightarrow> (\<exists>outs. vd_sent s' = vd_sent s @ outs \<and> list_all (\<lambda>d. si_isEOS (sd_info d) = 0) outs)"

lemma adds_frames_refl: "vd_sent s' = vd_sent s \<Longrightarrow> adds_frames s s'"
  by (simp add: adds_frames_def)

lemma adds_frames_trans: "adds_frames a b \<Longrightarrow> adds_frames b c \<Longrightarrow> adds_frames a c"
  by (auto simp: adds_frames_def)

lemma callback_adds:
  assumes "frameCallback ev f s = Inr s'"
  shows "adds_frames s s'"
proof -
  from frameCallback_spec [OF assms] obtain out where
    "vd_sent s' = vd_sent s @ (if ve_send ev (vd_count s) then [out] else [])" "si_isEOS (sd_info out) = 0" by blast
  then show ?thesis unfolding adds_frames_def by (cases "ve_send ev (vd_count s)") auto
qed

lemma callbacks_add: "foldR (frameCallback ev) frames s = Inr s' \<Longrightarrow> adds_frames s s'"
  by (erule foldR_invariant) (auto intro: adds_frames_refl adds_frames_trans callback_adds)

lemma vdec_process_adds:
  assumes "vdec_process ev (Some d) s = Inr (ok, s')"
  shows "adds_frames s s'"
proof -
  let ?s = "s\<lparr>vd_inputInfo := sr_info d, vd_in := vdec_request d (vd_in s)\<rparr>"
  obtain frames ret where "ve_decode ev (vd_in ?s) = (frames, ret)" by (rule prod.exhaust)
  with assms have "foldR (frameCallback ev) frames ?s = Inr s'" by (auto simp: vdec_process_def Let_def bindR_eq_Inr)
  from callbacks_add [OF this] show ?thesis by (simp add: adds_frames_def)
qed

lemma vdec_run_adds: "vdec_run ev ds s = Inr s' \<Longrightarrow> adds_frames s s'"
proof (induction ds arbitrary: s)
  case (Cons d ds)
  then obtain ok t where "vdec_process ev (Some d) s = Inr (ok, t)" "vdec_run ev ds t = Inr s'" by (auto simp: bindR_eq_Inr)
  with Cons.IH vdec_process_adds show ?case by (blast intro: adds_frames_trans)
qed (simp add: adds_frames_refl)

text \<open>The detection loses no picture and invents none: what left it and what waits is what came.\<close>

lemma extends_infos: "list_all2 extends_frame q q' \<Longrightarrow> map sd_info q' = map sd_info q"
  by (induction rule: list_all2_induct) (auto simp: extends_frame_def)

lemma post_infos:
  assumes "postProcessDetection n r q = Inr q'"
  shows "map sd_info q' = map sd_info q"
proof -
  from assms obtain k where "foldR (process_row r) [0..<nat k] q = Inr q'" by (auto simp: postProcessDetection_def bindR_eq_Inr)
  then show ?thesis by (rule foldR_invariant) (auto dest!: process_row_extends extends_infos)
qed

lemma ssd_process_conserves:
  assumes "ssd_process ev (Some d) s lg = Inr (ok, s', out, lg')"
  shows "map sd_info out @ map sd_info (ss_queue s') = map sd_info (ss_queue s) @ [sd_info d]"
  using assms by (auto simp: ssd_process_def Let_def bindR_eq_Inr split: if_splits dest!: post_infos)

lemma ssd_run_conserves:
  assumes "ssd_run ev ds s lg = Inr (s', outs, lg')"
  shows "map sd_info outs @ map sd_info (ss_queue s') = map sd_info (ss_queue s) @ map sd_info ds"
  using assms
proof (induction ds arbitrary: s lg outs)
  case (Cons d ds)
  then obtain ok t out lg1 outs1 where t: "ssd_process ev (Some d) s lg = Inr (ok, t, out, lg1)"
    "ssd_run ev ds t lg1 = Inr (s', outs1, lg')" "outs = out @ outs1" by (auto simp: bindR_eq_Inr)
  have "map sd_info outs @ map sd_info (ss_queue s') = map sd_info out @ (map sd_info outs1 @ map sd_info (ss_queue s'))"
    using t(3) by simp
  also have "\<dots> = (map sd_info out @ map sd_info (ss_queue t)) @ map sd_info ds" by (simp only: Cons.IH [OF t(2)] append_assoc)
  also have "\<dots> = map sd_info (ss_queue s) @ map sd_info (d # ds)" by (simp only: ssd_process_conserves [OF t(1)]) simp
  finally show ?case .
qed simp

lemma jpeg_run_subseq: "subseq (map sd_info (fst (jpeg_run ev ds lg))) (map sd_info ds)"
proof (induction ds arbitrary: lg)
  case (Cons d ds)
  obtain ok out lg1 where j: "jpeg_process ev (Some d) lg = (ok, out, lg1)" by (metis prod_cases3)
  have "map sd_info out = [] \<or> map sd_info out = [sd_info d]"
    using j by (auto simp: jpeg_process_def Let_def split: if_splits prod.splits)
  with Cons [of lg1] show ?case by (auto simp: j split: prod.splits)
qed simp

lemma dst_run_no_end:
  assumes "list_all (\<lambda>d. si_isEOS (sd_info d) = 0) ds" "dst_run evs ds s = Inr s'"
  shows "dst_run evs ds s = foldR (\<lambda>(ev, d) s. bindR (ProcessResult ev d s) (\<lambda>(_, s). Inr s)) (zip evs ds) s"
  using assms
proof (induction evs ds s rule: dst_run.induct)
  case (1 ev evs d ds s)
  then obtain ok t where "ProcessResult ev d s = Inr (ok, t)" "dst_run evs ds t = Inr s'" by (auto simp: dst_process_def bindR_eq_Inr)
  with 1 show ?case by (simp add: dst_process_def)
qed auto

lemma graph_run_stages:
  assumes "graph_run vev sev jev packets v s = Inr (v', s', results)"
  obtains decoded detected :: "device_stream_data list" where "vd_sent v' = vd_sent v @ decoded" "list_all (\<lambda>d. si_isEOS (sd_info d) = 0) decoded"
    "map sd_info detected @ map sd_info (ss_queue s') = map sd_info (ss_queue s) @ map sd_info decoded"
    "subseq (map sd_info results) (map sd_info detected)"
proof -
  from assms obtain detected lg where g: "vdec_run vev packets v = Inr v'"
    "ssd_run sev (drop (length (vd_sent v)) (vd_sent v')) s [] = Inr (s', detected, lg)" "results = fst (jpeg_run jev detected [])"
    by (auto simp: graph_run_def bindR_eq_Inr)
  from vdec_run_adds [OF g(1)] obtain decoded where d: "vd_sent v' = vd_sent v @ decoded" "list_all (\<lambda>d. si_isEOS (sd_info d) = 0) decoded"
    by (auto simp: adds_frames_def)
  with ssd_run_conserves [OF g(2)] jpeg_run_subseq g(3) show ?thesis by (intro that [of decoded detected]) simp_all
qed

section \<open>A run\<close>

definition live_ssd_env :: ssd_env where
  "live_ssd_env = sample_ssd_env\<lparr>se_infer := \<lambda>_. True\<rparr>"

definition idle_ssd :: ssd where
  "idle_ssd = sample_ssd\<lparr>ss_queue := []\<rparr>"

lemma live_ssd_process:
  assumes "im_width (sd_imgOrigin d) = 60" "im_height (sd_imgOrigin d) = 50"
  shows "\<exists>lg'. ssd_process live_ssd_env (Some d) idle_ssd lg = Inr (True, idle_ssd, [d], lg')"
proof -
  have "\<exists>lg'. vpcResize align_up idle_api 0 60 50 4096 300 300 0 lg = Inr (True, lg')"
    by (simp add: vpcResize_def Let_def yuv_bytes_def align_up_def DVPP_STRIDE_WIDTH_def DVPP_STRIDE_HEIGHT_def run_vpc_def api_defs idle_api_def)
  then obtain lg' where "vpcResize align_up idle_api 0 60 50 4096 300 300 0 lg = Inr (True, lg')" by blast
  with assms show ?thesis
    by (simp add: ssd_process_def live_ssd_env_def sample_ssd_env_def idle_ssd_def sample_ssd_def Let_def postProcessDetection_def to_int_def int32_range_def)
qed

lemma live_jpeg_process:
  assumes "si_isEOS (sd_info d) = 0"
  shows "\<exists>d' lg'. jpeg_process sample_jpeg_env (Some d) lg = (True, [d'], lg') \<and> sd_info d' = sd_info d"
  using assms by (simp add: jpeg_process_def Encode_def sample_jpeg_env_def idle_api_def api_defs Let_def)

lemma live_vdec_run:
  "\<exists>v' d. vdec_run sample_vdec_env [sample_packet 0] sample_vdec = Inr v' \<and> vd_sent v' = [d] \<and> si_frameId (sd_info d) = 7 \<and>
     si_isEOS (sd_info d) = 0 \<and> im_width (sd_imgOrigin d) = 60 \<and> im_height (sd_imgOrigin d) = 50"
proof -
  obtain v' where v: "vdec_process sample_vdec_env (Some (sample_packet 0)) sample_vdec = Inr (True, v')" using sample_vdec_runs by blast
  let ?s = "sample_vdec\<lparr>vd_inputInfo := sr_info (sample_packet 0), vd_in := vdec_request (sample_packet 0) (vd_in sample_vdec)\<rparr>"
  have "ve_decode sample_vdec_env (vdec_request (sample_packet 0) (vd_in sample_vdec)) = ([sample_frame_1], 0)"
    by (simp add: sample_vdec_env_def vdec_request_def sample_packet_def Let_def)
  with v have "frameCallback sample_vdec_env sample_frame_1 ?s = Inr v'" by (simp add: vdec_process_def Let_def bindR_eq_Inr)
  from frameCallback_spec [OF this] v show ?thesis by (auto simp: sample_vdec_def sample_frame_1_def sample_vdec_env_def)
qed

lemma live_graph_run:
  "\<exists>v' s' r. graph_run sample_vdec_env live_ssd_env sample_jpeg_env [sample_packet 0] sample_vdec idle_ssd = Inr (v', s', [r]) \<and>
     si_frameId (sd_info r) = 7"
proof -
  obtain v' d where v: "vdec_run sample_vdec_env [sample_packet 0] sample_vdec = Inr v'" "vd_sent v' = [d]" "si_frameId (sd_info d) = 7"
    "si_isEOS (sd_info d) = 0" "im_width (sd_imgOrigin d) = 60" "im_height (sd_imgOrigin d) = 50"
    using live_vdec_run by blast
  obtain lg' where "ssd_process live_ssd_env (Some d) idle_ssd [] = Inr (True, idle_ssd, [d], lg')" using live_ssd_process v by blast
  moreover obtain r lg2 where "jpeg_process sample_jpeg_env (Some d) [] = (True, [r], lg2)" "sd_info r = sd_info d" using live_jpeg_process v by blast
  moreover have "vd_sent sample_vdec = []" by (simp add: sample_vdec_def)
  ultimately show ?thesis using v by (simp add: graph_run_def)
qed

section \<open>Properties\<close>

text \<open>
  C3. Through the whole graph, whatever the packets, the device, the model and the encoder
  do: the messages that reach the result engine carry, in order and without repetition, the
  information of decoded frames (and of pictures that were already waiting for a batch).
\<close>

theorem frames_stay_in_order:
  assumes "graph_run vev sev jev packets v s = Inr (v', s', results)"
  shows "\<exists>decoded. vd_sent v' = vd_sent v @ decoded \<and>
    subseq (map sd_info results @ map sd_info (ss_queue s')) (map sd_info (ss_queue s) @ map sd_info decoded)"
proof -
  obtain decoded detected :: "device_stream_data list" where "vd_sent v' = vd_sent v @ decoded"
    and q: "map sd_info detected @ map sd_info (ss_queue s') = map sd_info (ss_queue s) @ map sd_info decoded"
    and r: "subseq (map sd_info results) (map sd_info detected)"
    using graph_run_stages [OF assms] by metis
  moreover have "subseq (map sd_info results @ map sd_info (ss_queue s')) (map sd_info detected @ map sd_info (ss_queue s'))"
    by (rule list_emb_append_mono [OF r]) simp
  ultimately show ?thesis by auto
qed

theorem frames_stay_in_order_witness:
  "\<exists>v' s' r decoded. graph_run sample_vdec_env live_ssd_env sample_jpeg_env [sample_packet 0] sample_vdec idle_ssd = Inr (v', s', [r]) \<and>
     vd_sent v' = vd_sent sample_vdec @ decoded \<and>
     subseq (map sd_info [r] @ map sd_info (ss_queue s')) (map sd_info (ss_queue idle_ssd) @ map sd_info decoded)"
  using live_graph_run frames_stay_in_order by blast

text \<open>
  The end of a stream is not passed on by the decoder: whatever the puller announces,
  the result engine gets pictures only, so it never signals the end to the main program.
\<close>

theorem end_of_stream_is_lost:
  assumes "graph_run vev sev jev packets v s = Inr (v', s', results)" "list_all (\<lambda>d. si_isEOS (sd_info d) = 0) (ss_queue s)"
    "dst_run evs results e = Inr e'"
  shows "list_all (\<lambda>d. si_isEOS (sd_info d) = 0) results \<and>
    foldR (\<lambda>(ev, d) s. bindR (ProcessResult ev d s) (\<lambda>(_, s). Inr s)) (zip evs results) e = Inr e'"
proof -
  obtain decoded detected :: "device_stream_data list" where d: "list_all (\<lambda>d. si_isEOS (sd_info d) = 0) decoded"
    and q: "map sd_info detected @ map sd_info (ss_queue s') = map sd_info (ss_queue s) @ map sd_info decoded"
    and r: "subseq (map sd_info results) (map sd_info detected)"
    using graph_run_stages [OF assms(1)] by metis
  have "set (map sd_info results) \<subseteq> set (map sd_info detected)" using list_emb_set [OF r] by auto
  also have "\<dots> \<subseteq> set (map sd_info (ss_queue s) @ map sd_info decoded)" by (simp only: q [symmetric] set_append Un_upper1)
  finally have "list_all (\<lambda>d. si_isEOS (sd_info d) = 0) results" using assms(2) d by (fastforce simp: list_all_iff)
  with dst_run_no_end [OF this assms(3)] assms(3) show ?thesis by simp
qed

theorem end_of_stream_is_lost_witness:
  "\<exists>v' s' r. graph_run sample_vdec_env live_ssd_env sample_jpeg_env [sample_packet 0] sample_vdec idle_ssd = Inr (v', s', [r]) \<and>
     si_isEOS (sd_info r) = 0"
proof -
  obtain v' s' r where g: "graph_run sample_vdec_env live_ssd_env sample_jpeg_env [sample_packet 0] sample_vdec idle_ssd = Inr (v', s', [r])"
    using live_graph_run by blast
  have "list_all (\<lambda>d. si_isEOS (sd_info d) = 0) (ss_queue idle_ssd)" "dst_run [] [r] (engine_with [] [] []) = Inr (engine_with [] [] [])"
    by (simp_all add: idle_ssd_def)
  from end_of_stream_is_lost [OF g this] g show ?thesis by auto
qed

end
