(* ===== verification/CoJson.thy ===== *)
theory CoJson
  imports JsonRoundTrip
begin

text \<open>
  The JSON values of the \<open>co\<close> library (\<open>json.h\<close>, \<open>json.cc\<close>), which carry the requests and
  responses of the server. Members keep their order and may repeat. A value is immutable
  here; \<open>operator[]\<close> of a missing key, which adds the key in the code, returns the changed
  value beside the result. Printing and reading of doubles belong to the C library and are
  parameters. A parser works on the text from the current character to the end; what
  follows the end of the text is its terminating NUL.
\<close>

unbundle bit_operations_syntax

section \<open>Values\<close>

datatype cjson =
    CNull
  | CBool bool
  | CInt int
  | CDouble rat
  | CString string
  | CArray "cjson list"
  | CObject "(string \<times> cjson) list"

definition is_string :: "cjson \<Rightarrow> bool" where
  "is_string v \<longleftrightarrow> (case v of CString _ \<Rightarrow> True | _ \<Rightarrow> False)"

definition is_object :: "cjson \<Rightarrow> bool" where
  "is_object v \<longleftrightarrow> (case v of CObject _ \<Rightarrow> True | _ \<Rightarrow> False)"

definition is_array :: "cjson \<Rightarrow> bool" where
  "is_array v \<longleftrightarrow> (case v of CArray _ \<Rightarrow> True | _ \<Rightarrow> False)"

definition is_null :: "cjson \<Rightarrow> bool" where
  "is_null v \<longleftrightarrow> v = CNull"

definition is_bool :: "cjson \<Rightarrow> bool" where
  "is_bool v \<longleftrightarrow> (case v of CBool _ \<Rightarrow> True | _ \<Rightarrow> False)"

definition is_int :: "cjson \<Rightarrow> bool" where
  "is_int v \<longleftrightarrow> (case v of CInt _ \<Rightarrow> True | _ \<Rightarrow> False)"

definition is_double :: "cjson \<Rightarrow> bool" where
  "is_double v \<longleftrightarrow> (case v of CDouble _ \<Rightarrow> True | _ \<Rightarrow> False)"

definition assert_failed :: fault where
  "assert_failed = Thrown ''assertion''"

text \<open>The text of a string ends at its first NUL for the callers of \<open>get_string\<close>.\<close>

definition c_str :: "string \<Rightarrow> string" where
  "c_str s = takeWhile (\<lambda>c. c \<noteq> CHR 0x00) s"

definition get_string :: "cjson \<Rightarrow> string outcome" where
  "get_string v = (case v of CString s \<Rightarrow> Inr (c_str s) | _ \<Rightarrow> Inl assert_failed)"

definition get_int64 :: "cjson \<Rightarrow> int outcome" where
  "get_int64 v = (case v of CInt i \<Rightarrow> Inr i | _ \<Rightarrow> Inl assert_failed)"

text \<open>\<open>get_int32\<close> and \<open>get_int\<close> keep the lowest 32 bits.\<close>

definition get_int32 :: "cjson \<Rightarrow> int outcome" where
  "get_int32 v = bindR (get_int64 v) (\<lambda>i. Inr (sint (word_of_int i :: 32 word)))"

definition get_bool :: "cjson \<Rightarrow> bool outcome" where
  "get_bool v = (case v of CBool b \<Rightarrow> Inr b | _ \<Rightarrow> Inl assert_failed)"

definition get_double :: "cjson \<Rightarrow> rat outcome" where
  "get_double v = (case v of CDouble d \<Rightarrow> Inr d | _ \<Rightarrow> Inl assert_failed)"

definition set_object :: "cjson \<Rightarrow> cjson" where
  "set_object v = (if is_object v then v else CObject [])"

definition set_array :: "cjson \<Rightarrow> cjson" where
  "set_array v = (if is_array v then v else CArray [])"

definition cj_size :: "cjson \<Rightarrow> nat" where
  "cj_size v =
     (case v of CNull \<Rightarrow> 0 | CArray xs \<Rightarrow> length xs | CString s \<Rightarrow> length s | CObject ms \<Rightarrow> length ms
      | CInt _ \<Rightarrow> 8 | CBool _ \<Rightarrow> 1 | CDouble _ \<Rightarrow> 8)"

definition cj_empty :: "cjson \<Rightarrow> bool" where
  "cj_empty v \<longleftrightarrow> cj_size v = 0"

definition find_member :: "string \<Rightarrow> cjson \<Rightarrow> cjson" where
  "find_member key v =
     (case v of CObject ms \<Rightarrow> (case map_of ms key of Some x \<Rightarrow> x | None \<Rightarrow> CNull) | _ \<Rightarrow> CNull)"

definition has_member :: "string \<Rightarrow> cjson \<Rightarrow> bool" where
  "has_member key v \<longleftrightarrow> \<not> is_null (find_member key v)"

definition add_member :: "string \<Rightarrow> cjson \<Rightarrow> cjson \<Rightarrow> cjson outcome" where
  "add_member key x v =
     (case v of CNull \<Rightarrow> Inr (CObject [(key, x)]) | CObject ms \<Rightarrow> Inr (CObject (ms @ [(key, x)])) | _ \<Rightarrow> Inl assert_failed)"

definition push_back :: "cjson \<Rightarrow> cjson \<Rightarrow> cjson outcome" where
  "push_back x v =
     (case v of CNull \<Rightarrow> Inr (CArray [x]) | CArray xs \<Rightarrow> Inr (CArray (xs @ [x])) | _ \<Rightarrow> Inl assert_failed)"

definition cj_index :: "cjson \<Rightarrow> nat \<Rightarrow> cjson outcome" where
  "cj_index v i = (case v of CArray xs \<Rightarrow> read_at xs i | _ \<Rightarrow> Inl assert_failed)"

text \<open>\<open>operator[](Key)\<close>: the value of the first member of that name, added as null if there is none.\<close>

definition cj_at :: "string \<Rightarrow> cjson \<Rightarrow> (cjson \<times> cjson) outcome" where
  "cj_at key v =
     (case v of
        CNull \<Rightarrow> Inr (CNull, CObject [(key, CNull)])
      | CObject ms \<Rightarrow>
          (case map_of ms key of
             Some x \<Rightarrow> Inr (x, v)
           | None \<Rightarrow> Inr (CNull, CObject (ms @ [(key, CNull)])))
      | _ \<Rightarrow> Inl assert_failed)"

section \<open>Text of a value\<close>

definition escaped :: "char \<Rightarrow> bool" where
  "escaped c \<longleftrightarrow> c \<in> {CHR 0x0D, CHR 0x0A, CHR 0x09, CHR 0x08, CHR 0x0C, CHR 0x22, CHR 0x5C}"

definition escape_char :: "char \<Rightarrow> string" where
  "escape_char c =
     (if \<not> escaped c then [c]
      else [CHR 0x5C,
        if c = CHR 0x5C \<or> c = CHR 0x22 then c
        else if c = CHR 0x0A then CHR ''n''
        else if c = CHR 0x0D then CHR ''r''
        else if c = CHR 0x09 then CHR ''t''
        else if c = CHR 0x08 then CHR ''b''
        else CHR ''f''])"

text \<open>With a character to escape, the text is cut at the first NUL.\<close>

definition string_text :: "string \<Rightarrow> string" where
  "string_text s =
     CHR 0x22 # (if list_ex escaped (c_str s) then concat (map escape_char (c_str s)) else s) @ [CHR 0x22]"

definition bool_text :: "bool \<Rightarrow> string" where
  "bool_text b = (if b then ''true'' else ''false'')"

definition key_text :: "string \<Rightarrow> string" where
  "key_text k = CHR 0x22 # k @ [CHR 0x22, CHR '':'']"

fun json2str :: "(rat \<Rightarrow> string) \<Rightarrow> cjson \<Rightarrow> string" where
  "json2str dtoa CNull = ''null''"
| "json2str dtoa (CString s) = string_text s"
| "json2str dtoa (CObject []) = ''{}''"
| "json2str dtoa (CObject ((k, v) # ms)) =
     CHR ''{'' # key_text k @ json2str dtoa v @ concat (map (\<lambda>(k, v). CHR '','' # key_text k @ json2str dtoa v) ms) @ ''}''"
| "json2str dtoa (CArray []) = ''[]''"
| "json2str dtoa (CArray (v # vs)) =
     CHR ''['' # json2str dtoa v @ concat (map (\<lambda>v. CHR '','' # json2str dtoa v) vs) @ '']''"
| "json2str dtoa (CInt i) = dec_int i"
| "json2str dtoa (CBool b) = bool_text b"
| "json2str dtoa (CDouble d) = dtoa d"

text \<open>
  \<open>_Json2pretty\<close>: every line but the first of the container is preceded by the text that ends
  the line before it. An indent of 0 or less after the last element is not written.
\<close>

fun json2pretty :: "(rat \<Rightarrow> string) \<Rightarrow> nat \<Rightarrow> nat \<Rightarrow> cjson \<Rightarrow> string" where
  "json2pretty dtoa base cur (CObject []) = ''{}''"
| "json2pretty dtoa base cur (CObject ((k, v) # ms)) =
     [CHR ''{'', CHR 0x0A] @ replicate cur (CHR '' '') @ key_text k @ '' '' @ json2pretty dtoa base (cur + base) v @
       concat (map (\<lambda>(k, v). [CHR '','', CHR 0x0A] @ replicate cur (CHR '' '') @ key_text k @ '' '' @
         json2pretty dtoa base (cur + base) v) ms) @
       [CHR 0x0A] @ replicate (cur - base) (CHR '' '') @ ''}''"
| "json2pretty dtoa base cur (CArray []) = ''[]''"
| "json2pretty dtoa base cur (CArray (v # vs)) =
     [CHR ''['', CHR 0x0A] @ replicate cur (CHR '' '') @ json2pretty dtoa base (cur + base) v @
       concat (map (\<lambda>v. [CHR '','', CHR 0x0A] @ replicate cur (CHR '' '') @ json2pretty dtoa base (cur + base) v) vs) @
       [CHR 0x0A] @ replicate (cur - base) (CHR '' '') @ '']''"
| "json2pretty dtoa base cur v = json2str dtoa v"

section \<open>Reading\<close>

definition is_white_char :: "char \<Rightarrow> bool" where
  "is_white_char c \<longleftrightarrow> c = CHR '' '' \<or> c = CHR 0x09 \<or> c = CHR 0x0D \<or> c = CHR 0x0A"

definition skip_white :: "string \<Rightarrow> string" where
  "skip_white s = dropWhile is_white_char s"

text \<open>Four hexadecimal digits at the front, and the rest.\<close>

definition read_hex4 :: "string \<Rightarrow> (int \<times> string) option" where
  "read_hex4 s =
     (if length (take 4 s) = 4 \<and> list_all hex_char (take 4 s) then Some (strtol16 (take 4 s), drop 4 s) else None)"

text \<open>
  \<open>read_unicode\<close>: what is appended and the rest after the digits. The NUL behind the text is
  not a digit, so that the code's two length tests, one character short, change nothing.
\<close>

definition read_unicode :: "string \<Rightarrow> (string \<times> string) option" where
  "read_unicode s =
     (case read_hex4 s of
        None \<Rightarrow> None
      | Some (v, r) \<Rightarrow>
          if 0xD800 \<le> v \<and> v \<le> 0xDBFF then
            (if take 2 r \<noteq> [CHR 0x5C, CHR ''u''] then None
             else case read_hex4 (drop 2 r) of
                None \<Rightarrow> None
              | Some (u, r) \<Rightarrow>
                  if u < 0xDC00 \<or> u > 0xDFFF then None
                  else Some (encode_utf8 (0x10000 + push_bit 10 (v AND 0x3FF) + (u AND 0x3FF)), r))
          else Some (encode_utf8 v, r))"

text \<open>The character an escape stands for; \<open>u\<close> is apart.\<close>

definition unescape :: "char \<Rightarrow> char option" where
  "unescape c =
     (if c = CHR 0x22 \<or> c = CHR 0x5C \<or> c = CHR ''/'' then Some c
      else if c = CHR ''n'' then Some (CHR 0x0A)
      else if c = CHR ''r'' then Some (CHR 0x0D)
      else if c = CHR ''t'' then Some (CHR 0x09)
      else if c = CHR ''b'' then Some (CHR 0x08)
      else if c = CHR ''f'' then Some (CHR 0x0C)
      else None)"

lemma read_hex4_shorter: "read_hex4 s = Some (v, r) \<Longrightarrow> length r < length s"
  by (auto simp: read_hex4_def split: if_splits)

lemma read_unicode_shorter: "read_unicode s = Some (a, r) \<Longrightarrow> length r < length s"
proof -
  assume eq: "read_unicode s = Some (a, r)"
  then obtain v r1 where h: "read_hex4 s = Some (v, r1)" by (cases "read_hex4 s") (auto simp: read_unicode_def)
  note l1 = read_hex4_shorter [OF h]
  show ?thesis
  proof (cases "read_hex4 (drop 2 r1)")
    case None
    with eq h l1 show ?thesis by (auto simp: read_unicode_def split: if_splits)
  next
    case (Some p)
    then obtain u r2 where p: "read_hex4 (drop 2 r1) = Some (u, r2)" by (cases p) simp
    from read_hex4_shorter [OF p] eq h l1 p show ?thesis by (auto simp: read_unicode_def split: if_splits)
  qed
qed

text \<open>
  \<open>read_string\<close>, after the opening quote: the text of the string and the rest after the
  closing quote; \<open>acc\<close> is what was read so far. A NUL ends the search for a quote.
\<close>

function read_string :: "string \<Rightarrow> string \<Rightarrow> (string \<times> string) option" where
  "read_string acc [] = None"
| "read_string acc (c # s) =
     (if c = CHR 0x00 then None
      else if c = CHR 0x22 then Some (acc, s)
      else if c = CHR 0x5C then
        (case s of
           [] \<Rightarrow> None
         | d # t \<Rightarrow>
             if d = CHR ''u'' then
               (case read_unicode t of None \<Rightarrow> None | Some (a, r) \<Rightarrow> read_string (acc @ a) r)
             else (case unescape d of None \<Rightarrow> None | Some a \<Rightarrow> read_string (acc @ [a]) t))
      else read_string (acc @ [c]) s)"
  by pat_completeness auto
termination
  by (relation "measure (\<lambda>(acc, s). length s)") (auto dest: read_unicode_shorter)

text \<open>\<open>read_key\<close>, after the opening quote: the raw text up to the next quote.\<close>

definition read_key :: "string \<Rightarrow> (string \<times> string) option" where
  "read_key s =
     (case dropWhile (\<lambda>c. c \<noteq> CHR 0x22) s of [] \<Rightarrow> None | _ # r \<Rightarrow> Some (takeWhile (\<lambda>c. c \<noteq> CHR 0x22) s, r))"

text \<open>
  \<open>fastatoi\<close> throws at a character that is no digit. Its sum is an \<open>int64\<close>; where it leaves
  the range, which C++ leaves undefined, it is taken to wrap around. \<open>atoi_overflows\<close> says
  when that happens in the loop: the character is added before the \<open>'0'\<close> is subtracted.
\<close>

definition fastatoi :: "string \<Rightarrow> int option" where
  "fastatoi s =
     (let neg = (case s of c # _ \<Rightarrow> c = CHR ''-'' | [] \<Rightarrow> False);
          ds = (if neg then tl s else s);
          v = foldl (\<lambda>v c. v * 10 + of_char c - 48) (0 :: 64 word) ds
      in if list_all is_digit ds then Some (sint (if neg then - v else v)) else None)"

fun atoi_overflows :: "int \<Rightarrow> string \<Rightarrow> bool" where
  "atoi_overflows v [] \<longleftrightarrow> False"
| "atoi_overflows v (c # s) \<longleftrightarrow> v * 10 + of_char c \<ge> 2 ^ 63 \<or> atoi_overflows (v * 10 + of_char c - 48) s"

definition token_end :: "char \<Rightarrow> bool" where
  "token_end c \<longleftrightarrow> c = CHR '','' \<or> c = CHR ''}'' \<or> c = CHR '']'' \<or> is_white_char c"

text \<open>The value of a token; \<open>dots\<close> counts the dots after its first character.\<close>

definition token_value :: "(string \<Rightarrow> rat option) \<Rightarrow> string \<Rightarrow> nat \<Rightarrow> cjson option" where
  "token_value to_double tok dots =
     (if hd tok = CHR ''f'' then (if tok = ''false'' then Some (CBool False) else None)
      else if hd tok = CHR ''t'' then (if tok = ''true'' then Some (CBool True) else None)
      else if hd tok = CHR ''n'' then (if tok = ''null'' then Some CNull else None)
      else if dots = 0 then map_option CInt (fastatoi tok)
      else map_option CDouble (to_double tok))"

text \<open>\<open>read_token\<close>: the character that ends the token is the first of the rest.\<close>

fun read_token :: "(string \<Rightarrow> rat option) \<Rightarrow> string \<Rightarrow> nat \<Rightarrow> string \<Rightarrow> (cjson \<times> string) option" where
  "read_token to_double tok dots [] = None"
| "read_token to_double tok dots (c # s) =
     (if token_end c then (case token_value to_double tok dots of None \<Rightarrow> None | Some v \<Rightarrow> Some (v, c # s))
      else if c = CHR ''.'' then
        (if dots + 1 > 1 then None else read_token to_double (tok @ [c]) (dots + 1) s)
      else read_token to_double (tok @ [c]) dots s)"

text \<open>
  \<open>parse_json\<close> and \<open>parse_array\<close> with the state of the buffer of the keys: how many bytes of
  it are used, 0 before it is allocated. A result is the failure, or the value with the
  rest of the text; both with the state of the buffer. The outer option is the fuel.
\<close>

type_synonym 'a reading = "(nat \<times> ('a \<times> string) option) option"

definition keys_init :: "nat \<Rightarrow> nat \<Rightarrow> nat" where
  "keys_init keys_len used = (if keys_len > 0 \<and> used = 0 then 4 else used)"

definition add_key :: "nat \<Rightarrow> string \<Rightarrow> nat" where
  "add_key used key = used + (length key + 1)"

type_synonym value_reader = "nat \<Rightarrow> string \<Rightarrow> cjson reading"

text \<open>
  The key of a member from its opening quote, with its colon; the white space before the
  value is skipped. The buffer may have grown even if this fails.
\<close>

definition member_key :: "nat \<Rightarrow> string \<Rightarrow> nat \<times> (string \<times> string) option" where
  "member_key used s =
     (case read_key s of
        None \<Rightarrow> (used, None)
      | Some (key, t) \<Rightarrow>
          (add_key used key,
           case skip_white t of
             [] \<Rightarrow> None
           | c # t \<Rightarrow> if c \<noteq> CHR '':'' then None else Some (key, skip_white t)))"

text \<open>The loop of \<open>parse_json\<close>, and of \<open>parse_array\<close>, over a reader of values.\<close>

primrec object_members :: "nat \<Rightarrow> value_reader \<Rightarrow> (string \<times> cjson) list \<Rightarrow> value_reader" where
  "object_members 0 p ms used s = None"
| "object_members (Suc n) p ms used s =
     (case skip_white s of
        [] \<Rightarrow> Some (used, None)
      | c # t \<Rightarrow>
          if c = CHR ''}'' then Some (used, Some (CObject ms, t))
          else if c \<noteq> CHR 0x22 then Some (used, None)
          else (case member_key used t of
             (used, None) \<Rightarrow> Some (used, None)
           | (used, Some (key, t)) \<Rightarrow>
               (case p used t of
                  None \<Rightarrow> None
                | Some (used, None) \<Rightarrow> Some (used, None)
                | Some (used, Some (v, t)) \<Rightarrow>
                    (case skip_white t of
                       [] \<Rightarrow> Some (used, None)
                     | c # t \<Rightarrow>
                         if c = CHR ''}'' then Some (used, Some (CObject (ms @ [(c_str key, v)]), t))
                         else if c \<noteq> CHR '','' then Some (used, None)
                         else object_members n p (ms @ [(c_str key, v)]) used t))))"

primrec array_elements :: "nat \<Rightarrow> value_reader \<Rightarrow> cjson list \<Rightarrow> value_reader" where
  "array_elements 0 p xs used s = None"
| "array_elements (Suc n) p xs used s =
     (case skip_white s of
        [] \<Rightarrow> Some (used, None)
      | c # t \<Rightarrow>
          if c = CHR '']'' then Some (used, Some (CArray xs, t))
          else (case p used (c # t) of
             None \<Rightarrow> None
           | Some (used, None) \<Rightarrow> Some (used, None)
           | Some (used, Some (v, t)) \<Rightarrow>
               (case skip_white t of
                  [] \<Rightarrow> Some (used, None)
                | c # t \<Rightarrow>
                    if c = CHR '']'' then Some (used, Some (CArray (xs @ [v]), t))
                    else if c \<noteq> CHR '','' then Some (used, None)
                    else array_elements n p (xs @ [v]) used t)))"

text \<open>
  The choice by the first character of a value, and with it the recursion of \<open>parse_json\<close> and
  \<open>parse_array\<close>; the first argument is the depth of nesting allowed, the code has no limit.
\<close>

primrec read_value :: "nat \<Rightarrow> (string \<Rightarrow> rat option) \<Rightarrow> nat \<Rightarrow> value_reader" where
  "read_value 0 td kl used s = None"
| "read_value (Suc n) td kl used s =
     (case s of
        [] \<Rightarrow> Some (used, None)
      | c # t \<Rightarrow>
          if c = CHR 0x22 then
            Some (used, map_option (\<lambda>(x, r). (CString x, r)) (read_string [] t))
          else if c = CHR ''{'' then object_members (length t + 1) (read_value n td kl) [] (keys_init kl used) t
          else if c = CHR ''['' then array_elements (length t + 1) (read_value n td kl) [] used t
          else Some (used, read_token td [c] 0 t))"

text \<open>
  \<open>parse_from\<close> with the fuel that \<open>parse_from_total\<close> shows to be enough: the number of bytes
  the keys took and the value, if the whole text is one.
\<close>

definition parse_from :: "(string \<Rightarrow> rat option) \<Rightarrow> string \<Rightarrow> nat \<Rightarrow> (nat \<times> cjson option) option" where
  "parse_from td s keys_len =
     (let kl = (if keys_len = 0 \<and> length s > 4 then length s else keys_len)
      in case skip_white s of
           [] \<Rightarrow> Some (0, None)
         | c # t \<Rightarrow>
             if c = CHR ''{'' \<or> c = CHR ''['' then
               (case read_value (length s + 1) td kl 0 (c # t) of
                  None \<Rightarrow> None
                | Some (used, None) \<Rightarrow> Some (used, None)
                | Some (used, Some (v, r)) \<Rightarrow> Some (used, if list_all is_white_char r then Some v else None))
             else Some (0, None))"

definition cj_parse :: "(string \<Rightarrow> rat option) \<Rightarrow> string \<Rightarrow> cjson" where
  "cj_parse td s = (case parse_from td s 0 of Some (_, Some v) \<Rightarrow> v | _ \<Rightarrow> CNull)"

section \<open>The parser returns, and the buffer of the keys is large enough\<close>

lemma skip_white_length: "length (skip_white s) \<le> length s"
  by (simp add: skip_white_def length_dropWhile_le)

lemma skip_white_Cons: "skip_white s = c # t \<Longrightarrow> length t < length s"
  using skip_white_length [of s] by simp

lemma read_string_shorter: "read_string acc s = Some (x, r) \<Longrightarrow> length r < length s"
proof (induction acc s rule: read_string.induct)
  case (2 acc c s)
  show ?case
  proof (cases "c = CHR 0x5C")
    case False
    with 2 show ?thesis by (auto split: if_splits)
  next
    case True
    with 2(4) obtain d t where s: "s = d # t" by (cases s) auto
    show ?thesis
    proof (cases "d = CHR ''u''")
      case u: True
      with True s 2(4) obtain a q where a: "read_unicode t = Some (a, q)" and q: "read_string (acc @ a) q = Some (x, r)"
        by (auto split: option.splits)
      with 2(1) [of d t "(a, q)" a q] True s u read_unicode_shorter [OF a] show ?thesis by simp
    next
      case False
      with True s 2(4) obtain a where a: "unescape d = Some a" and q: "read_string (acc @ [a]) t = Some (x, r)"
        by (auto split: option.splits)
      with 2(2) [of d t a] True s False show ?thesis by simp
    qed
  qed
qed simp

lemma read_token_shorter: "read_token td tok dots s = Some (v, r) \<Longrightarrow> length r \<le> length s"
  by (induction td tok dots s rule: read_token.induct) (auto split: if_splits option.splits)

lemma read_key_length: "read_key s = Some (k, r) \<Longrightarrow> length s = length k + 1 + length r"
proof -
  assume "read_key s = Some (k, r)"
  then obtain c where "dropWhile (\<lambda>c. c \<noteq> CHR 0x22) s = c # r" "k = takeWhile (\<lambda>c. c \<noteq> CHR 0x22) s"
    by (auto simp: read_key_def split: list.splits)
  then have "s = k @ c # r" by (metis takeWhile_dropWhile_id)
  then show ?thesis by simp
qed

text \<open>The size of the buffer once it is allocated, and what a piece of text adds to it.\<close>

definition keys_size :: "nat \<Rightarrow> nat \<Rightarrow> nat" where
  "keys_size kl used = (if kl > 0 then max used 4 else used)"

definition keys_within :: "nat \<Rightarrow> nat \<Rightarrow> string \<Rightarrow> nat \<Rightarrow> string \<Rightarrow> bool" where
  "keys_within kl used s used' r \<longleftrightarrow>
     length r < length s \<and>
     (keys_size kl used' \<le> keys_size kl used \<or>
      keys_size kl used' + length r + 4 \<le> keys_size kl used + length s)"

lemma keys_size_init [simp]: "keys_size kl (keys_init kl used) = keys_size kl used"
  by (simp add: keys_size_def keys_init_def)

lemma keys_size_add: "keys_size kl (add_key used key) \<le> keys_size kl used + (length key + 1)"
  by (auto simp: keys_size_def add_key_def max_def)

lemma member_key_length:
  assumes "member_key used s = (used', Some (key, t))"
  shows "keys_size kl used' + length t \<le> keys_size kl used + length s - 1 \<and> length t + 2 \<le> length s"
proof -
  from assms obtain r where r: "read_key s = Some (key, r)" and u: "used' = add_key used key"
    by (auto simp: member_key_def split: option.splits list.splits if_splits)
  with assms obtain c q where q: "skip_white r = c # q" and t: "t = skip_white q"
    by (auto simp: member_key_def split: list.splits if_splits)
  have "length t < length r" using skip_white_Cons [OF q] skip_white_length [of q] t by simp
  with read_key_length [OF r] keys_size_add [of kl used key] u show ?thesis by simp
qed

definition reads :: "nat \<Rightarrow> nat \<Rightarrow> value_reader \<Rightarrow> bool" where
  "reads kl n p \<longleftrightarrow>
     (\<forall>used s. length s < n \<longrightarrow>
        (\<exists>used' res. p used s = Some (used', res) \<and> (\<forall>v r. res = Some (v, r) \<longrightarrow> keys_within kl used s used' r)))"

lemma readsD:
  assumes "reads kl n p" "length s < n"
  obtains used' res where "p used s = Some (used', res)" "\<And>v r. res = Some (v, r) \<Longrightarrow> keys_within kl used s used' r"
  using assms unfolding reads_def by blast

lemma keys_within_trans:
  "keys_within kl used1 s1 used2 s2 \<Longrightarrow> keys_within kl used2 s2 used3 r \<Longrightarrow> keys_within kl used1 s1 used3 r"
  by (auto simp: keys_within_def)

lemma object_members_reads:
  assumes p: "reads kl d p"
  shows "length s < d \<Longrightarrow> length s < n \<Longrightarrow>
    \<exists>used' res. object_members n p ms used s = Some (used', res) \<and> (\<forall>v r. res = Some (v, r) \<longrightarrow> keys_within kl used s used' r)"
proof (induction n arbitrary: ms used s)
  case (Suc n)
  show ?case
  proof (cases "skip_white s")
    case (Cons c t)
    note ct = skip_white_Cons [OF Cons]
    obtain used1 res1 where mk: "member_key used t = (used1, res1)" by fastforce
    show ?thesis
    proof (cases "c = CHR 0x22 \<and> (\<exists>key t1. res1 = Some (key, t1))")
      case False
      then show ?thesis using Cons ct mk by (auto simp: keys_within_def split: option.splits)
    next
      case True
      then obtain key t1 where c: "c = CHR 0x22" and r1: "res1 = Some (key, t1)" by blast
      note k = member_key_length [OF mk [unfolded r1], of kl]
      have "length t1 < d" using k ct Suc.prems by simp
      then obtain used2 res2 where v: "p used1 t1 = Some (used2, res2)"
        and w: "\<And>v r. res2 = Some (v, r) \<Longrightarrow> keys_within kl used1 t1 used2 r"
        using readsD [OF p] by metis
      show ?thesis
      proof (cases res2)
        case None
        with Cons c mk r1 v show ?thesis by simp
      next
        case (Some q)
        then obtain x t2 where q: "res2 = Some (x, t2)" by (cases q) simp
        note w2 = w [OF q]
        show ?thesis
        proof (cases "skip_white t2")
          case Nil
          with Cons c mk r1 v q show ?thesis by simp
        next
          case t3: (Cons c3 t3)
          note c3 = skip_white_Cons [OF t3]
          have here: "keys_within kl used s used2 t3"
            using w2 k ct c3 by (auto simp: keys_within_def)
          have l3: "length t3 < d" "length t3 < n"
            using w2 k ct c3 Suc.prems by (auto simp: keys_within_def)
          obtain used4 res4 where m: "object_members n p (ms @ [(c_str key, x)]) used2 t3 = Some (used4, res4)"
            and w4: "\<And>v r. res4 = Some (v, r) \<Longrightarrow> keys_within kl used2 t3 used4 r"
            using Suc.IH [OF l3] by blast
          have "keys_within kl used s used4 r" if "res4 = Some (v, r)" for v r
            by (rule keys_within_trans [OF here w4 [OF that]])
          with here Cons c mk r1 v q t3 m show ?thesis by simp
        qed
      qed
    qed
  qed simp
qed simp

lemma array_elements_reads:
  assumes p: "reads kl d p"
  shows "length s < d \<Longrightarrow> length s < n \<Longrightarrow>
    \<exists>used' res. array_elements n p xs used s = Some (used', res) \<and> (\<forall>v r. res = Some (v, r) \<longrightarrow> keys_within kl used s used' r)"
proof (induction n arbitrary: xs used s)
  case (Suc n)
  show ?case
  proof (cases "skip_white s")
    case (Cons c t)
    note ct = skip_white_Cons [OF Cons]
    show ?thesis
    proof (cases "c = CHR '']''")
      case True
      with Cons ct show ?thesis by (simp add: keys_within_def)
    next
      case False
      have "length (c # t) < d" using ct Suc.prems by simp
      then obtain used2 res2 where v: "p used (c # t) = Some (used2, res2)"
        and w: "\<And>v r. res2 = Some (v, r) \<Longrightarrow> keys_within kl used (c # t) used2 r"
        using readsD [OF p] by metis
      show ?thesis
      proof (cases res2)
        case None
        with Cons False v show ?thesis by simp
      next
        case (Some q)
        then obtain x t2 where q: "res2 = Some (x, t2)" by (cases q) simp
        note w2 = w [OF q]
        show ?thesis
        proof (cases "skip_white t2")
          case Nil
          with Cons False v q show ?thesis by simp
        next
          case t3: (Cons c3 t3)
          note c3 = skip_white_Cons [OF t3]
          have here: "keys_within kl used s used2 t3"
            using w2 ct c3 by (auto simp: keys_within_def)
          have l3: "length t3 < d" "length t3 < n"
            using w2 ct c3 Suc.prems by (auto simp: keys_within_def)
          obtain used4 res4 where m: "array_elements n p (xs @ [x]) used2 t3 = Some (used4, res4)"
            and w4: "\<And>v r. res4 = Some (v, r) \<Longrightarrow> keys_within kl used2 t3 used4 r"
            using Suc.IH [OF l3] by blast
          have "keys_within kl used s used4 r" if "res4 = Some (v, r)" for v r
            by (rule keys_within_trans [OF here w4 [OF that]])
          with here Cons False v q t3 m show ?thesis by simp
        qed
      qed
    qed
  qed simp
qed simp

lemma read_value_reads: "reads kl n (read_value n td kl)"
proof (induction n)
  case (Suc n)
  show ?case unfolding reads_def
  proof (intro allI impI)
    fix used and s :: string
    assume l: "length s < Suc n"
    show "\<exists>used' res. read_value (Suc n) td kl used s = Some (used', res) \<and> (\<forall>v r. res = Some (v, r) \<longrightarrow> keys_within kl used s used' r)"
    proof (cases s)
      case (Cons c t)
      with l have t: "length t < n" "length t < length t + 1" by simp_all
      have lift: "keys_within kl used s used' r" if "keys_within kl used0 t used' r" "keys_size kl used0 = keys_size kl used" for used0 used' r
        using that Cons by (auto simp: keys_within_def)
      show ?thesis
      proof (cases "c = CHR ''{'' \<or> c = CHR ''[''")
        case True
        then show ?thesis
          using object_members_reads [OF Suc.IH t, of "[]" "keys_init kl used"] array_elements_reads [OF Suc.IH t, of "[]" used] lift
          by (auto simp: Cons)
      next
        case False
        then show ?thesis
          by (auto simp: Cons keys_within_def dest!: read_string_shorter read_token_shorter)
      qed
    qed simp
  qed
qed (simp add: reads_def)

lemma read_value_total:
  assumes "length s < n"
  obtains used' res where "read_value n td kl used s = Some (used', res)"
    "\<And>v r. res = Some (v, r) \<Longrightarrow> keys_within kl used s used' r"
  using readsD [OF read_value_reads assms] by metis

text \<open>The bytes the buffer of the keys has when the first key is stored.\<close>

definition keys_capacity :: "string \<Rightarrow> nat \<Rightarrow> nat" where
  "keys_capacity s keys_len = (if keys_len = 0 \<and> length s > 4 then length s else keys_len)"

text \<open>C19. Reading.\<close>

theorem co_parse_returns:
  "\<exists>used res. parse_from td s keys_len = Some (used, res) \<and>
     (0 < keys_len \<or> res = None \<or> used \<le> keys_capacity s keys_len)"
proof -
  let ?kl = "keys_capacity s keys_len"
  have l: "length (skip_white s) < length s + 1" using skip_white_length [of s] by simp
  obtain used res where v: "read_value (length s + 1) td ?kl 0 (skip_white s) = Some (used, res)"
    and w: "\<And>v r. res = Some (v, r) \<Longrightarrow> keys_within ?kl 0 (skip_white s) used r"
    using read_value_total [OF l] by metis
  have used: "used \<le> ?kl" if "keys_len = 0" "res = Some (x, r)" for x r
    using w [OF that(2)] that(1) skip_white_length [of s]
    by (auto simp: keys_within_def keys_size_def keys_capacity_def split: if_splits)
  show ?thesis
  proof (cases "skip_white s")
    case (Cons c t)
    with v have v: "read_value (length s + 1) td ?kl 0 (c # t) = Some (used, res)" by simp
    show ?thesis
      using v used Cons unfolding parse_from_def Let_def keys_capacity_def
      by (cases res; cases "keys_len = 0") (auto simp del: read_value.simps)
  qed (simp add: parse_from_def)
qed

text \<open>The buffer is too small for a text that ends after the first key.\<close>

theorem co_truncated_text_outgrows_keys:
  assumes "list_all (\<lambda>c. c \<noteq> CHR 0x22) k" "2 \<le> length k" "s = [CHR ''{'', CHR 0x22] @ k @ [CHR 0x22]"
  shows "\<exists>used. parse_from td s 0 = Some (used, None) \<and> keys_capacity s 0 < used"
proof -
  have tk: "takeWhile (\<lambda>c. c \<noteq> CHR 0x22) (k @ [CHR 0x22]) = k" "dropWhile (\<lambda>c. c \<noteq> CHR 0x22) (k @ [CHR 0x22]) = [CHR 0x22]"
    using assms(1) by (simp_all add: list_all_iff takeWhile_append2 dropWhile_append2)
  have "read_key (k @ [CHR 0x22]) = Some (k, [])" by (simp add: read_key_def tk)
  then have m: "member_key 4 (k @ [CHR 0x22]) = (length k + 5, None)"
    by (simp add: member_key_def add_key_def skip_white_def)
  have "read_value (length s + 1) td (length s) 0 s = Some (length k + 5, None)"
    using assms(2) m by (simp add: assms(3) skip_white_def is_white_char_def keys_init_def)
  then have "parse_from td s 0 = Some (length k + 5, None)"
    using assms(2) by (simp add: parse_from_def assms(3) skip_white_def is_white_char_def del: read_value.simps)
  then show ?thesis using assms(2,3) by (auto simp: keys_capacity_def)
qed

section \<open>What is printed is read back\<close>

text \<open>Values that the text format can carry: no NUL, no quote in a key, integers of 64 bits.\<close>

definition no_nul :: "string \<Rightarrow> bool" where
  "no_nul s \<longleftrightarrow> list_all (\<lambda>c. c \<noteq> CHR 0x00) s"

definition key_ok :: "string \<Rightarrow> bool" where
  "key_ok k \<longleftrightarrow> no_nul k \<and> list_all (\<lambda>c. c \<noteq> CHR 0x22) k"

text \<open>A double whose text has one dot and that the library reads back.\<close>

definition double_ok :: "(rat \<Rightarrow> string) \<Rightarrow> (string \<Rightarrow> rat option) \<Rightarrow> rat \<Rightarrow> bool" where
  "double_ok dtoa td d \<longleftrightarrow>
     (case dtoa d of
        [] \<Rightarrow> False
      | c # t \<Rightarrow>
          (c = CHR ''-'' \<or> is_digit c) \<and> list_all (\<lambda>c. \<not> token_end c) t \<and>
          length (filter (\<lambda>c. c = CHR ''.'') t) = 1 \<and> td (c # t) = Some d)"

fun cj_ok :: "(rat \<Rightarrow> string) \<Rightarrow> (string \<Rightarrow> rat option) \<Rightarrow> cjson \<Rightarrow> bool" where
  "cj_ok dtoa td (CString s) \<longleftrightarrow> no_nul s"
| "cj_ok dtoa td (CInt i) \<longleftrightarrow> - (2 ^ 63) \<le> i \<and> i < 2 ^ 63"
| "cj_ok dtoa td (CDouble d) \<longleftrightarrow> double_ok dtoa td d"
| "cj_ok dtoa td (CArray vs) \<longleftrightarrow> list_all (cj_ok dtoa td) vs"
| "cj_ok dtoa td (CObject ms) \<longleftrightarrow> list_all (\<lambda>(k, v). key_ok k \<and> cj_ok dtoa td v) ms"
| "cj_ok dtoa td _ \<longleftrightarrow> True"

lemma c_str_no_nul [simp]: "no_nul s \<Longrightarrow> c_str s = s"
  by (simp add: no_nul_def c_str_def list_all_iff)

lemma read_string_escape:
  "c \<noteq> CHR 0x00 \<Longrightarrow> read_string acc (escape_char c @ s) = read_string (acc @ [c]) s"
  by (auto simp: escape_char_def escaped_def unescape_def)

lemma read_string_escaped:
  "no_nul s \<Longrightarrow> read_string acc (concat (map escape_char s) @ CHR 0x22 # r) = Some (acc @ s, r)"
  by (induction s arbitrary: acc) (simp_all add: no_nul_def read_string_escape)

lemma escape_none: "\<not> list_ex escaped s \<Longrightarrow> concat (map escape_char s) = s"
  by (induction s) (simp_all add: escape_char_def)

lemma read_string_text:
  assumes "no_nul s"
  shows "\<exists>t. string_text s @ r = CHR 0x22 # t \<and> read_string [] t = Some (s, r)"
  using assms read_string_escaped [of s "[]" r] escape_none [of s] by (auto simp: string_text_def)

lemma read_token_plain:
  assumes "list_all (\<lambda>c. \<not> token_end c) w" "token_end c"
    and "dots + length (filter (\<lambda>c. c = CHR ''.'') w) \<le> 1"
  shows "read_token td tok dots (w @ c # r) =
    (case token_value td (tok @ w) (dots + length (filter (\<lambda>c. c = CHR ''.'') w)) of None \<Rightarrow> None | Some v \<Rightarrow> Some (v, c # r))"
  using assms by (induction w arbitrary: tok dots) auto

lemma fastatoi_digits:
  "list_all is_digit ds \<Longrightarrow>
    foldl (\<lambda>v c. v * 10 + of_char c - 48) (of_nat n :: 64 word) ds = of_nat (foldl (\<lambda>n c. 10 * n + digit_val c) n ds)"
proof (induction ds arbitrary: n)
  case (Cons c ds)
  then have d: "(48 :: nat) \<le> of_char c" by (simp add: is_digit_def)
  have "(of_char c :: 64 word) = of_nat (of_char c)" by (simp only: of_nat_of_char)
  then have "(of_nat n :: 64 word) * 10 + of_char c - 48 = of_nat (10 * n + digit_val c)"
    using d by (simp add: digit_val_def of_nat_diff)
  with Cons show ?case by (simp del: of_nat_add of_nat_mult)
qed simp

lemma digit_not_minus: "is_digit c \<Longrightarrow> c \<noteq> CHR ''-''"
  by (auto simp: is_digit_def)

lemma fastatoi_dec:
  assumes "- (2 ^ 63) \<le> i" "i < 2 ^ 63"
  shows "fastatoi (dec_int i) = Some i"
proof -
  have dn: "foldl (\<lambda>v c. v * 10 + of_char c - 48) (0 :: 64 word) (dec_nat n) = of_nat n" for n
    using fastatoi_digits [OF dec_nat_digits, of 0 n] nat_of_digits_dec [of n] by (simp add: nat_of_digits_def)
  have si: "sint (word_of_int i :: 64 word) = i" using assms by (simp add: sint_sbintrunc' signed_take_bit_int_eq_self)
  show ?thesis
  proof (cases "i < 0")
    case True
    then have "- of_nat (nat (- i)) = (word_of_int i :: 64 word)" by (simp add: of_nat_nat)
    with True dn si show ?thesis by (simp add: fastatoi_def dec_int_def Let_def dec_nat_digits)
  next
    case False
    obtain c t where ct: "dec_nat (nat i) = c # t" by (cases "dec_nat (nat i)") auto
    with dec_nat_digits [of "nat i"] have "c \<noteq> CHR ''-''" by (auto dest: digit_not_minus)
    moreover have "of_nat (nat i) = (word_of_int i :: 64 word)" using False by (simp add: of_nat_nat)
    ultimately show ?thesis using False ct dn [of "nat i"] si dec_nat_digits [of "nat i"]
      by (simp add: fastatoi_def dec_int_def Let_def)
  qed
qed

text \<open>An integer less than 48 from the limits is computed without overflow, the largest is not.\<close>

lemma digits_grow: "n \<le> foldl (\<lambda>n c. 10 * n + digit_val c) n ds"
proof (induction ds arbitrary: n)
  case (Cons c ds)
  from Cons [of "10 * n + digit_val c"] show ?case by simp
qed simp

lemma digits_no_overflow:
  "list_all is_digit ds \<Longrightarrow> foldl (\<lambda>n c. 10 * n + digit_val c) n ds < 2 ^ 63 - 48 \<Longrightarrow> \<not> atoi_overflows (int n) ds"
proof (induction ds arbitrary: n)
  case (Cons c ds)
  let ?m = "10 * n + digit_val c"
  have "48 \<le> (of_char c :: nat)" using Cons.prems by (simp add: is_digit_def)
  then have c: "int n * 10 + of_char c = int ?m + 48" "int n * 10 + of_char c - 48 = int ?m"
    using of_nat_of_char [of c, where 'a = int] by (simp_all add: digit_val_def of_nat_diff)
  have "?m < 2 ^ 63 - 48" using Cons.prems digits_grow [of ?m ds] by simp
  then show ?case using Cons.IH [of ?m] Cons.prems unfolding atoi_overflows.simps c by simp
qed simp

lemma dec_no_overflow: "n < 2 ^ 63 - 48 \<Longrightarrow> \<not> atoi_overflows 0 (dec_nat n)"
  using digits_no_overflow [of "dec_nat n" 0] nat_of_digits_dec [of n] by (simp add: nat_of_digits_def dec_nat_digits)

lemma largest_overflows: "atoi_overflows 0 ''9223372036854775807''"
  by simp

lemma digit_plain: "is_digit c \<Longrightarrow> \<not> token_end c \<and> c \<noteq> CHR ''.'' \<and> c \<noteq> CHR 0x22 \<and> c \<noteq> CHR ''{'' \<and> c \<noteq> CHR ''['' \<and>
    c \<noteq> CHR ''f'' \<and> c \<noteq> CHR ''t'' \<and> c \<noteq> CHR ''n''"
  by (auto simp: is_digit_def token_end_def is_white_char_def)

lemma dec_int_text:
  obtains c w where "dec_int i = c # w" "list_all is_digit w" "c = CHR ''-'' \<or> is_digit c"
proof -
  obtain c t where ct: "dec_nat (nat i) = c # t" by (cases "dec_nat (nat i)") auto
  with dec_nat_digits [of "nat i"] have c: "is_digit c" "list_all is_digit t" by auto
  show thesis
  proof (cases "i < 0")
    case True
    then show thesis using that [of "CHR ''-''" "dec_nat (nat (- i))"] by (simp add: dec_int_def dec_nat_digits)
  next
    case False
    with ct c show thesis using that [of c t] by (simp add: dec_int_def)
  qed
qed

text \<open>A value is read back where its text ends: a container anywhere, a token before an end of token.\<close>

definition text_ends :: "cjson \<Rightarrow> string \<Rightarrow> bool" where
  "text_ends v r \<longleftrightarrow> is_object v \<or> is_array v \<or> is_string v \<or> (\<exists>c t. r = c # t \<and> token_end c)"

definition value_back :: "value_reader \<Rightarrow> (rat \<Rightarrow> string) \<Rightarrow> cjson \<Rightarrow> bool" where
  "value_back p dtoa v \<longleftrightarrow> (\<forall>used r. text_ends v r \<longrightarrow> (\<exists>used'. p used (json2str dtoa v @ r) = Some (used', Some (v, r))))"

lemma value_backD: "value_back p dtoa v \<Longrightarrow> text_ends v r \<Longrightarrow> \<exists>used'. p used (json2str dtoa v @ r) = Some (used', Some (v, r))"
  by (simp add: value_back_def)

lemma read_value_plain:
  assumes "c = CHR ''-'' \<or> is_digit c" "list_all (\<lambda>c. \<not> token_end c) w" "token_end e"
    and "length (filter (\<lambda>c. c = CHR ''.'') w) = k" "k \<le> 1"
    and "(if k = 0 then map_option CInt (fastatoi (c # w)) else map_option CDouble (td (c # w))) = Some v"
  shows "read_value (Suc n) td kl used (c # w @ e # r) = Some (used, Some (v, e # r))"
proof -
  have c: "c \<noteq> CHR 0x22" "c \<noteq> CHR ''{''" "c \<noteq> CHR ''[''" "c \<noteq> CHR ''f''" "c \<noteq> CHR ''t''" "c \<noteq> CHR ''n''"
    using assms(1) by (auto dest: digit_plain)
  have "token_value td (c # w) k = Some v" using c assms(6) by (simp add: token_value_def)
  with read_token_plain [OF assms(2,3), of 0 td "[c]" r] assms(4,5) c show ?thesis by simp
qed

text \<open>The first character of a text: no white space and no end of a container.\<close>

lemma json2str_first:
  assumes "cj_ok dtoa td v"
  obtains c t where "json2str dtoa v = c # t" "\<not> is_white_char c" "c \<noteq> CHR '']''" "c \<noteq> CHR ''}''"
proof -
  have "\<exists>c t. json2str dtoa v = c # t \<and> \<not> is_white_char c \<and> c \<noteq> CHR '']'' \<and> c \<noteq> CHR ''}''"
  proof (cases v)
    case (CInt i)
    obtain c w where "dec_int i = c # w" "c = CHR ''-'' \<or> is_digit c" using dec_int_text [of i] by metis
    then show ?thesis using CInt by (auto simp: is_white_char_def is_digit_def)
  next
    case (CDouble d)
    with assms show ?thesis by (auto simp: double_ok_def is_white_char_def is_digit_def split: list.splits)
  next
    case (CArray vs)
    then show ?thesis by (cases vs) (auto simp: is_white_char_def)
  next
    case (CObject ms)
    then show ?thesis by (cases ms) (auto simp: is_white_char_def)
  qed (auto simp: bool_text_def string_text_def is_white_char_def)
  with that show thesis by blast
qed

lemma skip_white_first [simp]: "\<not> is_white_char c \<Longrightarrow> skip_white (c # t) = c # t"
  by (simp add: skip_white_def)

definition member_text :: "(rat \<Rightarrow> string) \<Rightarrow> string \<times> cjson \<Rightarrow> string" where
  "member_text dtoa m = key_text (fst m) @ json2str dtoa (snd m)"

lemma read_key_text: "key_ok k \<Longrightarrow> read_key (k @ CHR 0x22 # r) = Some (k, r)"
  by (simp add: key_ok_def read_key_def list_all_iff takeWhile_append2 dropWhile_append2)

lemma member_key_text:
  assumes "key_ok k" "cj_ok dtoa td v"
  shows "\<exists>t. key_text k @ json2str dtoa v @ r = CHR 0x22 # t \<and> member_key used t = (add_key used k, Some (k, json2str dtoa v @ r))"
proof -
  from assms(2) obtain c t where "json2str dtoa v = c # t" "\<not> is_white_char c" by (rule json2str_first)
  then show ?thesis using read_key_text [OF assms(1), of "CHR '':'' # c # t @ r"]
    by (simp add: key_text_def member_key_def is_white_char_def)
qed

lemma separator_not_white [simp]:
  "\<not> is_white_char (CHR '','')" "\<not> is_white_char (CHR ''}'')" "\<not> is_white_char (CHR '']'')" "\<not> is_white_char (CHR 0x22)"
  "token_end (CHR '','')" "token_end (CHR ''}'')" "token_end (CHR '']'')"
  by (simp_all add: is_white_char_def token_end_def)

lemma text_ends_Cons [simp]: "token_end c \<Longrightarrow> text_ends v (c # r)"
  by (simp add: text_ends_def)

lemma object_members_text:
  assumes "\<forall>(k, v) \<in> set (m # ms). key_ok k \<and> cj_ok dtoa td v \<and> value_back p dtoa v" "length ms < n"
  shows "\<exists>used'. object_members n p acc used (member_text dtoa m @ concat (map (\<lambda>m. CHR '','' # member_text dtoa m) ms) @ CHR ''}'' # r)
    = Some (used', Some (CObject (acc @ m # ms), r))"
  using assms
proof (induction ms arbitrary: m n acc used)
  case Nil
  obtain k v where m: "m = (k, v)" by fastforce
  with Nil obtain n' where n: "n = Suc n'" and ok: "key_ok k" "cj_ok dtoa td v" "value_back p dtoa v" by (cases n) auto
  obtain t where t: "key_text k @ json2str dtoa v @ CHR ''}'' # r = CHR 0x22 # t"
    "member_key used t = (add_key used k, Some (k, json2str dtoa v @ CHR ''}'' # r))"
    using member_key_text [OF ok(1,2), of "CHR ''}'' # r" used] by blast
  obtain used' where "p (add_key used k) (json2str dtoa v @ CHR ''}'' # r) = Some (used', Some (v, CHR ''}'' # r))"
    using value_backD [OF ok(3)] by fastforce
  with t n m ok(1) show ?case by (simp add: member_text_def key_ok_def)
next
  case (Cons m2 ms)
  obtain k v where m: "m = (k, v)" by fastforce
  with Cons.prems obtain n' where n: "n = Suc n'" and ok: "key_ok k" "cj_ok dtoa td v" "value_back p dtoa v" by (cases n) auto
  let ?rest = "member_text dtoa m2 @ concat (map (\<lambda>m. CHR '','' # member_text dtoa m) ms) @ CHR ''}'' # r"
  obtain t where t: "key_text k @ json2str dtoa v @ CHR '','' # ?rest = CHR 0x22 # t"
    "member_key used t = (add_key used k, Some (k, json2str dtoa v @ CHR '','' # ?rest))"
    using member_key_text [OF ok(1,2), of "CHR '','' # ?rest" used] by blast
  obtain used1 where p: "p (add_key used k) (json2str dtoa v @ CHR '','' # ?rest) = Some (used1, Some (v, CHR '','' # ?rest))"
    using value_backD [OF ok(3)] by fastforce
  have "\<exists>used'. object_members n' p (acc @ [m]) used1 ?rest = Some (used', Some (CObject ((acc @ [m]) @ m2 # ms), r))"
    using Cons.prems n by (intro Cons.IH) auto
  with t n m p ok(1) show ?case by (simp add: member_text_def key_ok_def)
qed

lemma array_elements_text:
  assumes "\<forall>v \<in> set (v # vs). cj_ok dtoa td v \<and> value_back p dtoa v" "length vs < n"
  shows "\<exists>used'. array_elements n p acc used (json2str dtoa v @ concat (map (\<lambda>v. CHR '','' # json2str dtoa v) vs) @ CHR '']'' # r)
    = Some (used', Some (CArray (acc @ v # vs), r))"
  using assms
proof (induction vs arbitrary: v n acc used)
  case Nil
  then obtain n' where n: "n = Suc n'" and ok: "cj_ok dtoa td v" "value_back p dtoa v" by (cases n) auto
  obtain c t where c: "json2str dtoa v = c # t" "\<not> is_white_char c" "c \<noteq> CHR '']''" using json2str_first [OF ok(1)] by metis
  obtain used' where "p used (json2str dtoa v @ CHR '']'' # r) = Some (used', Some (v, CHR '']'' # r))"
    using value_backD [OF ok(2)] by fastforce
  with n c show ?case by simp
next
  case (Cons v2 vs)
  then obtain n' where n: "n = Suc n'" and ok: "cj_ok dtoa td v" "value_back p dtoa v" by (cases n) auto
  obtain c t where c: "json2str dtoa v = c # t" "\<not> is_white_char c" "c \<noteq> CHR '']''" using json2str_first [OF ok(1)] by metis
  let ?rest = "json2str dtoa v2 @ concat (map (\<lambda>v. CHR '','' # json2str dtoa v) vs) @ CHR '']'' # r"
  obtain used1 where p: "p used (json2str dtoa v @ CHR '','' # ?rest) = Some (used1, Some (v, CHR '','' # ?rest))"
    using value_backD [OF ok(2)] by fastforce
  have "\<exists>used'. array_elements n' p (acc @ [v]) used1 ?rest = Some (used', Some (CArray ((acc @ [v]) @ v2 # vs), r))"
    using Cons.prems n by (intro Cons.IH) auto
  with n c p show ?case by simp
qed

lemma length_le_separated: "length xs \<le> length (concat (map (\<lambda>x. c # f x) xs))"
  by (induction xs) auto

lemma length_in_separated: "x \<in> set xs \<Longrightarrow> length (f x) < length (concat (map (\<lambda>x. c # f x) xs))"
  by (induction xs) auto

lemma json2str_object:
  "json2str dtoa (CObject (m # ms)) = CHR ''{'' # member_text dtoa m @ concat (map (\<lambda>m. CHR '','' # member_text dtoa m) ms) @ ''}''"
  by (cases m) (simp add: member_text_def split_def)

lemma member_text_length: "length (json2str dtoa (snd m)) < length (member_text dtoa m)"
  by (simp add: member_text_def key_text_def)

lemma value_back_object:
  assumes IH: "\<And>v. cj_ok dtoa td v \<Longrightarrow> length (json2str dtoa v) \<le> n \<Longrightarrow> value_back (read_value n td kl) dtoa v"
    and ok: "cj_ok dtoa td (CObject ms)" and len: "length (json2str dtoa (CObject ms)) \<le> Suc n"
  shows "value_back (read_value (Suc n) td kl) dtoa (CObject ms)"
proof (cases ms)
  case Nil
  then show ?thesis by (simp add: value_back_def)
next
  case (Cons m ms')
  have each: "key_ok (fst x) \<and> cj_ok dtoa td (snd x) \<and> value_back (read_value n td kl) dtoa (snd x)" if x: "x \<in> set (m # ms')" for x
  proof -
    have "length (member_text dtoa x) \<le> n"
      using x len length_in_separated [of x ms' "member_text dtoa" "CHR '',''"]
      by (auto simp: Cons json2str_object simp del: json2str.simps)
    moreover have "key_ok (fst x)" "cj_ok dtoa td (snd x)" using ok x by (auto simp: Cons list_all_iff)
    ultimately show ?thesis using IH member_text_length [of dtoa x] by simp
  qed
  then have all: "\<forall>(k, v) \<in> set (m # ms'). key_ok k \<and> cj_ok dtoa td v \<and> value_back (read_value n td kl) dtoa v"
    unfolding split_def by blast
  show ?thesis unfolding value_back_def
  proof (intro allI impI)
    fix used r
    let ?t = "member_text dtoa m @ concat (map (\<lambda>m. CHR '','' # member_text dtoa m) ms') @ CHR ''}'' # r"
    have "length ms' < length ?t + 1"
      using length_le_separated [of ms' "CHR '',''" "member_text dtoa"] by simp
    then have "\<exists>used'. object_members (length ?t + 1) (read_value n td kl) [] (keys_init kl used) ?t = Some (used', Some (CObject ([] @ m # ms'), r))"
      using all by (intro object_members_text [where td = td])
    then show "\<exists>used'. read_value (Suc n) td kl used (json2str dtoa (CObject ms) @ r) = Some (used', Some (CObject ms, r))"
      by (simp add: Cons json2str_object del: json2str.simps object_members.simps)
  qed
qed

lemma value_back_array:
  assumes IH: "\<And>v. cj_ok dtoa td v \<Longrightarrow> length (json2str dtoa v) \<le> n \<Longrightarrow> value_back (read_value n td kl) dtoa v"
    and ok: "cj_ok dtoa td (CArray vs)" and len: "length (json2str dtoa (CArray vs)) \<le> Suc n"
  shows "value_back (read_value (Suc n) td kl) dtoa (CArray vs)"
proof (cases vs)
  case Nil
  then show ?thesis by (simp add: value_back_def)
next
  case (Cons v vs')
  have each: "cj_ok dtoa td x \<and> value_back (read_value n td kl) dtoa x" if x: "x \<in> set (v # vs')" for x
  proof -
    have "length (json2str dtoa x) \<le> n"
      using x len length_in_separated [of x vs' "json2str dtoa" "CHR '',''"] by (auto simp: Cons)
    then show ?thesis using IH ok x by (auto simp: Cons list_all_iff)
  qed
  show ?thesis unfolding value_back_def
  proof (intro allI impI)
    fix used r
    let ?t = "json2str dtoa v @ concat (map (\<lambda>v. CHR '','' # json2str dtoa v) vs') @ CHR '']'' # r"
    have "length vs' < length ?t + 1"
      using length_le_separated [of vs' "CHR '',''" "json2str dtoa"] by simp
    then have "\<exists>used'. array_elements (length ?t + 1) (read_value n td kl) [] used ?t = Some (used', Some (CArray ([] @ v # vs'), r))"
      using each by (intro array_elements_text [where td = td]) blast+
    then show "\<exists>used'. read_value (Suc n) td kl used (json2str dtoa (CArray vs) @ r) = Some (used', Some (CArray vs, r))"
      by (simp add: Cons del: array_elements.simps)
  qed
qed

lemma value_back_token:
  assumes "cj_ok dtoa td v" "\<not> is_object v" "\<not> is_array v"
  shows "value_back (read_value (Suc n) td kl) dtoa v"
  unfolding value_back_def
proof (intro allI impI)
  fix used r
  assume e: "text_ends v r"
  show "\<exists>used'. read_value (Suc n) td kl used (json2str dtoa v @ r) = Some (used', Some (v, r))"
  proof (cases v)
    case (CString s)
    with read_string_text [of s r] assms(1) show ?thesis by auto
  next
    case (CInt i)
    with e obtain c q where r: "r = c # q" "token_end c" by (auto simp: text_ends_def is_object_def is_array_def is_string_def)
    obtain d w where d: "dec_int i = d # w" "list_all is_digit w" "d = CHR ''-'' \<or> is_digit d" by (rule dec_int_text)
    then have "list_all (\<lambda>c. \<not> token_end c) w" "length (filter (\<lambda>c. c = CHR ''.'') w) = 0"
      by (auto simp: list_all_iff filter_empty_conv dest: digit_plain)
    moreover have "fastatoi (d # w) = Some i" using assms(1) CInt fastatoi_dec [of i] d(1) by simp
    ultimately have "read_value (Suc n) td kl used (d # w @ c # q) = Some (used, Some (v, c # q))"
      using d(3) r(2) CInt by (intro read_value_plain) auto
    then show ?thesis using CInt d(1) r(1) by simp
  next
    case (CDouble x)
    with e obtain c q where r: "r = c # q" "token_end c" by (auto simp: text_ends_def is_object_def is_array_def is_string_def)
    from assms(1) CDouble obtain d w where d: "dtoa x = d # w" "d = CHR ''-'' \<or> is_digit d" "list_all (\<lambda>c. \<not> token_end c) w"
      "length (filter (\<lambda>c. c = CHR ''.'') w) = 1" "td (d # w) = Some x"
      by (auto simp: double_ok_def split: list.splits)
    have "read_value (Suc n) td kl used (d # w @ c # q) = Some (used, Some (v, c # q))"
      using d r(2) CDouble by (intro read_value_plain) auto
    then show ?thesis using CDouble d(1) r(1) by simp
  qed (use assms e in \<open>auto simp: text_ends_def is_object_def is_array_def is_string_def bool_text_def token_value_def token_end_def is_white_char_def split: if_splits\<close>)
qed

lemma read_value_back:
  "cj_ok dtoa td v \<Longrightarrow> length (json2str dtoa v) \<le> n \<Longrightarrow> value_back (read_value n td kl) dtoa v"
proof (induction n arbitrary: v)
  case 0
  from 0(1) obtain c t where "json2str dtoa v = c # t" by (rule json2str_first)
  with 0(2) show ?case by simp
next
  case (Suc n)
  show ?case
  proof (cases "is_object v \<or> is_array v")
    case True
    then consider ms where "v = CObject ms" | vs where "v = CArray vs"
      by (auto simp: is_object_def is_array_def split: cjson.splits)
    then show ?thesis
      using Suc value_back_object value_back_array by cases blast+
  qed (use Suc value_back_token in blast)
qed

text \<open>What the application reads: the value of a text.\<close>

definition cj_read :: "(string \<Rightarrow> rat option) \<Rightarrow> string \<Rightarrow> cjson outcome" where
  "cj_read td s = (case parse_from td s 0 of Some (_, Some v) \<Rightarrow> Inr v | _ \<Rightarrow> Inl (Thrown ''not json''))"

definition cj_message :: "(rat \<Rightarrow> string) \<Rightarrow> (string \<Rightarrow> rat option) \<Rightarrow> cjson \<Rightarrow> bool" where
  "cj_message dtoa td v \<longleftrightarrow> cj_ok dtoa td v \<and> (is_object v \<or> is_array v)"

lemma json2str_container:
  assumes "is_object v \<or> is_array v"
  shows "\<exists>c t. json2str dtoa v = c # t \<and> (c = CHR ''{'' \<or> c = CHR ''['')"
proof -
  from assms consider ms where "v = CObject ms" | vs where "v = CArray vs"
    by (auto simp: is_object_def is_array_def split: cjson.splits)
  then show ?thesis
  proof cases
    case 1
    then show ?thesis by (cases ms) auto
  next
    case 2
    then show ?thesis by (cases vs) auto
  qed
qed

lemma cj_read_back:
  assumes "cj_message dtoa td v"
  shows "cj_read td (json2str dtoa v) = Inr v"
proof -
  let ?s = "json2str dtoa v"
  from assms obtain c t where s: "?s = c # t" "c = CHR ''{'' \<or> c = CHR ''[''"
    using json2str_container unfolding cj_message_def by metis
  have w: "skip_white ?s = c # t" using s by (auto simp: is_white_char_def)
  have "value_back (read_value (length ?s + 1) td (keys_capacity ?s 0)) dtoa v"
    using assms by (intro read_value_back) (simp_all add: cj_message_def)
  then obtain used where "read_value (length ?s + 1) td (keys_capacity ?s 0) 0 (?s @ []) = Some (used, Some (v, []))"
    using assms value_backD [of _ dtoa v "[]" 0] by (fastforce simp: text_ends_def cj_message_def simp del: read_value.simps)
  then have "parse_from td ?s 0 = Some (used, Some v)"
    using w s unfolding parse_from_def Let_def keys_capacity_def by (simp del: read_value.simps)
  then show ?thesis by (simp add: cj_read_def)
qed

interpretation co_json: codec "json2str dtoa" "cj_read td" "cj_message dtoa td"
  by unfold_locales (rule cj_read_back)

text \<open>
  A double with a whole value is printed by \<open>%.7g\<close> without a dot, so the reader makes an
  integer of it; one printed with an exponent only, \<open>1e+20\<close>, is refused.
\<close>

lemma whole_double_reads_as_int:
  assumes "dtoa d = ''5''"
  shows "cj_read td (json2str dtoa (CArray [CDouble d])) = Inr (CArray [CInt 5])"
  using assms by (simp add: cj_read_def parse_from_def skip_white_def is_white_char_def token_end_def token_value_def fastatoi_def is_digit_def)

lemma exponent_double_is_refused:
  assumes "dtoa d = ''1e+20''"
  shows "cj_read td (json2str dtoa (CArray [CDouble d])) = Inl (Thrown ''not json'')"
  using assms by (simp add: cj_read_def parse_from_def skip_white_def is_white_char_def token_end_def token_value_def fastatoi_def is_digit_def)

text \<open>
  C11. What the library prints, it reads back, for an object or array whose keys have neither
  quotes nor NUL, whose texts have no NUL, whose integers fit 64 bits and whose doubles
  print as a text that begins with a digit or a minus sign, has exactly one dot after that,
  no comma, bracket, brace or white space, and that the C library reads back as the same
  double. So a whole double such as \<open>5.0\<close>, which prints as \<open>5\<close>, is excluded: it comes back as
  an integer (\<open>whole_double_reads_as_int\<close>). For integers within 48 of the limits the reader
  relies on wrap-around.
\<close>

theorem co_json_roundtrip:
  assumes "cj_message dtoa td v"
  shows "cj_read td (json2str dtoa v) = Inr v"
  by (rule co_json.dec_enc [OF assms])

theorem co_json_roundtrip_witness:
  "cj_read (\<lambda>_. Some (1 / 2)) (json2str (\<lambda>_. ''0.5'')
     (CObject [(''method'', CString ''a b''), (''v'', CArray [CInt (- 5), CNull, CBool True, CDouble (1 / 2)])]))
   = Inr (CObject [(''method'', CString ''a b''), (''v'', CArray [CInt (- 5), CNull, CBool True, CDouble (1 / 2)])])"
  by (rule co_json_roundtrip)
    (simp add: cj_message_def is_object_def key_ok_def no_nul_def double_ok_def token_end_def is_white_char_def is_digit_def)

theorem co_truncated_text_outgrows_keys_witness:
  "\<exists>used. parse_from (\<lambda>_. None) ([CHR ''{'', CHR 0x22] @ ''id'' @ [CHR 0x22]) 0 = Some (used, None) \<and>
     keys_capacity ([CHR ''{'', CHR 0x22] @ ''id'' @ [CHR 0x22]) 0 < used"
  by (rule co_truncated_text_outgrows_keys [where k = "''id''"]) simp_all

end
