(* ===== verification/Hash.thy ===== *)
theory Hash
  imports CText
begin

text \<open>
  The hashes of the \<open>co\<close> library: \<open>hash/crc16.cc\<close>, \<open>hash/murmur_hash.cc\<close> and the wrappers
  of \<open>hash.h\<close>. Memory is the list of its bytes; 64-bit words are read little-endian. The
  service dispatches the methods of a request by their 64-bit hash.
\<close>

unbundle bit_operations_syntax

section \<open>CRC16\<close>

definition crc16tab :: "u16 list" where
  "crc16tab =
   [0x0000, 0x1021, 0x2042, 0x3063, 0x4084, 0x50a5, 0x60c6, 0x70e7,
    0x8108, 0x9129, 0xa14a, 0xb16b, 0xc18c, 0xd1ad, 0xe1ce, 0xf1ef,
    0x1231, 0x0210, 0x3273, 0x2252, 0x52b5, 0x4294, 0x72f7, 0x62d6,
    0x9339, 0x8318, 0xb37b, 0xa35a, 0xd3bd, 0xc39c, 0xf3ff, 0xe3de,
    0x2462, 0x3443, 0x0420, 0x1401, 0x64e6, 0x74c7, 0x44a4, 0x5485,
    0xa56a, 0xb54b, 0x8528, 0x9509, 0xe5ee, 0xf5cf, 0xc5ac, 0xd58d,
    0x3653, 0x2672, 0x1611, 0x0630, 0x76d7, 0x66f6, 0x5695, 0x46b4,
    0xb75b, 0xa77a, 0x9719, 0x8738, 0xf7df, 0xe7fe, 0xd79d, 0xc7bc,
    0x48c4, 0x58e5, 0x6886, 0x78a7, 0x0840, 0x1861, 0x2802, 0x3823,
    0xc9cc, 0xd9ed, 0xe98e, 0xf9af, 0x8948, 0x9969, 0xa90a, 0xb92b,
    0x5af5, 0x4ad4, 0x7ab7, 0x6a96, 0x1a71, 0x0a50, 0x3a33, 0x2a12,
    0xdbfd, 0xcbdc, 0xfbbf, 0xeb9e, 0x9b79, 0x8b58, 0xbb3b, 0xab1a,
    0x6ca6, 0x7c87, 0x4ce4, 0x5cc5, 0x2c22, 0x3c03, 0x0c60, 0x1c41,
    0xedae, 0xfd8f, 0xcdec, 0xddcd, 0xad2a, 0xbd0b, 0x8d68, 0x9d49,
    0x7e97, 0x6eb6, 0x5ed5, 0x4ef4, 0x3e13, 0x2e32, 0x1e51, 0x0e70,
    0xff9f, 0xefbe, 0xdfdd, 0xcffc, 0xbf1b, 0xaf3a, 0x9f59, 0x8f78,
    0x9188, 0x81a9, 0xb1ca, 0xa1eb, 0xd10c, 0xc12d, 0xf14e, 0xe16f,
    0x1080, 0x00a1, 0x30c2, 0x20e3, 0x5004, 0x4025, 0x7046, 0x6067,
    0x83b9, 0x9398, 0xa3fb, 0xb3da, 0xc33d, 0xd31c, 0xe37f, 0xf35e,
    0x02b1, 0x1290, 0x22f3, 0x32d2, 0x4235, 0x5214, 0x6277, 0x7256,
    0xb5ea, 0xa5cb, 0x95a8, 0x8589, 0xf56e, 0xe54f, 0xd52c, 0xc50d,
    0x34e2, 0x24c3, 0x14a0, 0x0481, 0x7466, 0x6447, 0x5424, 0x4405,
    0xa7db, 0xb7fa, 0x8799, 0x97b8, 0xe75f, 0xf77e, 0xc71d, 0xd73c,
    0x26d3, 0x36f2, 0x0691, 0x16b0, 0x6657, 0x7676, 0x4615, 0x5634,
    0xd94c, 0xc96d, 0xf90e, 0xe92f, 0x99c8, 0x89e9, 0xb98a, 0xa9ab,
    0x5844, 0x4865, 0x7806, 0x6827, 0x18c0, 0x08e1, 0x3882, 0x28a3,
    0xcb7d, 0xdb5c, 0xeb3f, 0xfb1e, 0x8bf9, 0x9bd8, 0xabbb, 0xbb9a,
    0x4a75, 0x5a54, 0x6a37, 0x7a16, 0x0af1, 0x1ad0, 0x2ab3, 0x3a92,
    0xfd2e, 0xed0f, 0xdd6c, 0xcd4d, 0xbdaa, 0xad8b, 0x9de8, 0x8dc9,
    0x7c26, 0x6c07, 0x5c64, 0x4c45, 0x3ca2, 0x2c83, 0x1ce0, 0x0cc1,
    0xef1f, 0xff3e, 0xcf5d, 0xdf7c, 0xaf9b, 0xbfba, 0x8fd9, 0x9ff8,
    0x6e17, 0x7e36, 0x4e55, 0x5e74, 0x2e93, 0x3eb2, 0x0ed1, 0x1ef0]"

fun crc16 :: "u8 list \<Rightarrow> u16 \<Rightarrow> u16" where
  "crc16 [] crc = crc"
| "crc16 (b # s) crc =
     crc16 s (push_bit 8 crc XOR crc16tab ! unat ((drop_bit 8 crc XOR ucast b) AND 0x00ff))"

text \<open>The reference: one bit of the message at a time, with the polynomial \<open>0x1021\<close>.\<close>

definition crc_bit :: "u16 \<Rightarrow> u16" where
  "crc_bit c = (if bit c 15 then push_bit 1 c XOR 0x1021 else push_bit 1 c)"

definition crc_byte :: "u16 \<Rightarrow> u16" where
  "crc_byte c = (crc_bit ^^ 8) c"

fun crc_spec :: "u8 list \<Rightarrow> u16 \<Rightarrow> u16" where
  "crc_spec [] crc = crc"
| "crc_spec (b # s) crc = crc_spec s (crc_byte (crc XOR push_bit 8 (ucast b)))"

section \<open>Murmur\<close>

fun le_word :: "u8 list \<Rightarrow> u64" where
  "le_word [] = 0"
| "le_word (b # bs) = ucast b OR push_bit 8 (le_word bs)"

definition murmur_m :: u64 where "murmur_m = 0xc6a4a7935bd1e995"

definition murmur_block :: "u64 \<Rightarrow> u8 list \<Rightarrow> u64" where
  "murmur_block h bs =
     (let k = le_word bs * murmur_m;
          k = k XOR drop_bit 47 k;
          k = k * murmur_m
      in (h XOR k) * murmur_m)"

text \<open>The last one to seven bytes fall through the cases, from the highest one down.\<close>

definition murmur_tail :: "u64 \<Rightarrow> u8 list \<Rightarrow> u64" where
  "murmur_tail h bs = (if bs = [] then h else (h XOR le_word bs) * murmur_m)"

fun murmur_loop :: "u64 \<Rightarrow> u8 list \<Rightarrow> u64" where
  "murmur_loop h (a # b # c # d # e # f # g # i # bs) = murmur_loop (murmur_block h [a, b, c, d, e, f, g, i]) bs"
| "murmur_loop h bs = murmur_tail h bs"

definition murmur_hash64 :: "u8 list \<Rightarrow> u64 \<Rightarrow> u64" where
  "murmur_hash64 key seed =
     (let h = murmur_loop (seed XOR of_nat (length key) * murmur_m) key;
          h = h XOR drop_bit 47 h;
          h = h * murmur_m
      in h XOR drop_bit 47 h)"

definition hash64 :: "u8 list \<Rightarrow> u64" where
  "hash64 s = murmur_hash64 s 0"

definition hash32 :: "u8 list \<Rightarrow> u32" where
  "hash32 s = ucast (hash64 s)"

definition string_bytes :: "string \<Rightarrow> u8 list" where
  "string_bytes s = map of_char s"

definition hash64_string :: "string \<Rightarrow> u64" where
  "hash64_string s = hash64 (string_bytes s)"

section \<open>Facts\<close>

lemma crc_bit_xor: "crc_bit (a XOR b) = crc_bit a XOR crc_bit b"
  by (rule bit_word_eqI) (auto simp: crc_bit_def bit_simps)

lemma funpow_crc_xor: "(crc_bit ^^ n) (a XOR b) = (crc_bit ^^ n) a XOR (crc_bit ^^ n) b"
  by (induction n) (simp_all add: crc_bit_xor)

lemma crc_bit_low: "\<not> bit c 15 \<Longrightarrow> crc_bit c = push_bit 1 c"
  by (simp add: crc_bit_def)

text \<open>The low byte is only moved up.\<close>

lemma low_byte_bit: "bit (c AND 0x00ff :: u16) k \<Longrightarrow> k < 8"
proof -
  assume "bit (c AND 0x00ff) k"
  moreover have "(0x00ff :: u16) = mask 8" by (simp add: mask_eq_exp_minus_1)
  ultimately show "k < 8" by (simp add: bit_simps)
qed

lemma crc_low_byte: "n \<le> 8 \<Longrightarrow> (crc_bit ^^ n) (c AND 0x00ff) = push_bit n (c AND 0x00ff)"
proof (induction n)
  case (Suc n)
  have "\<not> bit (c AND 0x00ff) (15 - n)" using Suc.prems low_byte_bit [of c "15 - n"] by auto
  then have "\<not> bit (push_bit n (c AND 0x00ff)) 15" by (simp only: bit_push_bit_iff) simp
  with Suc show ?case by (simp add: crc_bit_low)
qed simp

text \<open>The table, one bit of the index at a time.\<close>

fun double_table :: "u16 list \<Rightarrow> u16 list" where
  "double_table [] = []"
| "double_table (c # cs) = crc_bit c # (crc_bit c XOR 0x1021) # double_table cs"

lemma double_table_length: "length (double_table cs) = 2 * length cs"
  by (induction cs) simp_all

lemma double_table_nth:
  "i < length cs \<Longrightarrow> double_table cs ! (2 * i) = crc_bit (cs ! i) \<and> double_table cs ! (2 * i + 1) = crc_bit (cs ! i) XOR 0x1021"
proof (induction cs arbitrary: i)
  case (Cons c cs)
  then show ?case by (cases i) (simp_all add: nth_Cons')
qed simp

lemma crc_bits_one: "m + n \<le> 15 \<Longrightarrow> (crc_bit ^^ n) (push_bit m 1) = push_bit (m + n) 1"
proof (induction n)
  case (Suc n)
  then have "\<not> bit (push_bit (m + n) (1 :: u16)) 15" by (auto simp: bit_simps)
  with Suc show ?case by (simp add: crc_bit_low)
qed simp

lemma even_plus_one: "even (a :: u16) \<Longrightarrow> a + 1 = a XOR 1"
  by (rule disjunctive_add_eq_xor) (simp add: and_one_eq even_iff_mod_2_eq_zero)

lemma crc_bits_zero: "(crc_bit ^^ n) 0 = 0"
  by (induction n) (simp_all add: crc_bit_def)

lemma double_table_power:
  "n \<le> 8 \<Longrightarrow> length ((double_table ^^ n) [0]) = 2 ^ n \<and>
     (\<forall>i < 2 ^ n. (double_table ^^ n) [0] ! i = (crc_bit ^^ n) (push_bit (16 - n) (of_nat i)))"
proof (induction n)
  case (Suc n)
  let ?t = "(double_table ^^ n) [0]"
  have l: "length ?t = 2 ^ n" and t: "\<And>i. i < 2 ^ n \<Longrightarrow> ?t ! i = (crc_bit ^^ n) (push_bit (16 - n) (of_nat i))"
    using Suc by auto
  have "double_table ?t ! i = crc_bit ((crc_bit ^^ n) (push_bit (15 - n) (of_nat i)))" if i: "i < 2 ^ Suc n" for i
  proof -
    define j where "j = i div 2"
    have j: "j < 2 ^ n" using i by (simp add: j_def less_mult_imp_div_less)
    have e: "push_bit (15 - n) (of_nat (2 * j)) = (push_bit (16 - n) (of_nat j) :: u16)"
    proof -
      have "16 - n = Suc (15 - n)" using Suc.prems by simp
      then show ?thesis by (simp add: push_bit_eq_mult ac_simps)
    qed
    show ?thesis
    proof (cases "even i")
      case True
      then have "i = 2 * j" by (simp add: j_def)
      with double_table_nth [of j ?t] l j t e show ?thesis by simp
    next
      case False
      then have i2: "i = 2 * j + 1" by (simp add: j_def)
      have "(of_nat i :: u16) = of_nat (2 * j) XOR 1" using even_plus_one [of "of_nat (2 * j)"] i2 by (simp add: add.commute)
      then have "(crc_bit ^^ n) (push_bit (15 - n) (of_nat i)) = ?t ! j XOR push_bit 15 1"
        using Suc.prems t [OF j] e crc_bits_one [of "15 - n" n] by (simp add: push_bit_xor funpow_crc_xor)
      moreover have "crc_bit (push_bit 15 1) = 0x1021" by code_simp
      ultimately show ?thesis using double_table_nth [of j ?t] l j i2 by (simp add: crc_bit_xor)
    qed
  qed
  then show ?case using l by (simp add: double_table_length)
qed simp

lemma crc_table_doubled: "(double_table ^^ 8) [0] = crc16tab"
  by code_simp

lemma crc_table_nth: "i < 256 \<Longrightarrow> crc16tab ! i = crc_byte (push_bit 8 (of_nat i))"
  using double_table_power [of 8] by (simp add: crc_table_doubled crc_byte_def)

text \<open>A state splits into its high byte with the next byte of the message and its low byte.\<close>

lemma crc_split:
  fixes crc :: u16 and b :: u8
  defines "x \<equiv> (drop_bit 8 crc XOR ucast b) AND 0x00ff"
  shows "crc XOR push_bit 8 (ucast b) = push_bit 8 x XOR (crc AND 0x00ff)"
proof -
  have m: "(0x00ff :: u16) = mask 8" by (simp add: mask_eq_exp_minus_1)
  show ?thesis unfolding x_def m
    by (rule bit_word_eqI) (auto simp: bit_simps dest: bit_u8 bit_imp_le_length)
qed

lemma crc_step:
  "crc_byte (crc XOR push_bit 8 (ucast (b :: u8))) = push_bit 8 crc XOR crc16tab ! unat ((drop_bit 8 crc XOR ucast b) AND 0x00ff)"
proof -
  let ?x = "(drop_bit 8 crc XOR ucast b) AND 0x00ff :: u16"
  have "unat ?x < 2 ^ 8" by (rule unat_less_bits) (rule low_byte_bit)
  then have "crc16tab ! unat ?x = crc_byte (push_bit 8 ?x)" using crc_table_nth [of "unat ?x"] by simp
  moreover have "crc_byte (crc AND 0x00ff) = push_bit 8 (crc AND 0x00ff)" using crc_low_byte [of 8 crc] by (simp add: crc_byte_def)
  moreover have "push_bit 8 (crc AND 0x00ff) = push_bit 8 crc"
  proof -
    have m: "(0x00ff :: u16) = mask 8" by (simp add: mask_eq_exp_minus_1)
    show ?thesis unfolding m by (rule bit_word_eqI) (auto simp: bit_simps)
  qed
  ultimately show ?thesis by (simp add: crc_split crc_byte_def funpow_crc_xor xor.commute)
qed

section \<open>Properties\<close>

text \<open>
  The table-driven checksum is the bit-by-bit division by the polynomial \<open>0x1021\<close>, for
  every message and every start value.
\<close>

theorem crc16_is_bitwise: "crc16 s crc = crc_spec s crc"
  by (induction s arbitrary: crc) (simp_all add: crc_step)

end
