(* ===== verification/DeServ.thy ===== *)
theory DeServ
  imports CoJson Hash Base64 Borders
begin

text \<open>
  \<open>utility/de_serv.h\<close> and \<open>utility/de_serv_impl.cpp\<close>: the service behind the RPC server. A
  request names a method; the methods start the graph of a camera from a rewritten
  configuration, hand out the last key frame of a camera and store its borders. The file
  system is a map from names to texts. What the device answers and which files can be
  written are arguments; the calls to the device are logged.
\<close>

section \<open>State and surroundings\<close>

datatype device_call =
    Hiai_Init
  | Create_Graph string
  | Set_Data_Recv u32 u32
  | Send_Data u32 u32

record device =
  dv_creates :: "string \<Rightarrow> bool"
  dv_instance :: "u32 \<Rightarrow> bool"
  dv_writes :: "string \<Rightarrow> bool"
  dv_g17 :: "rat \<Rightarrow> string"
  dv_dtoa :: "rat \<Rightarrow> string"

record de_serv =
  ds_files :: files
  ds_process_num :: int
  ds_pid_map :: "(string \<times> int) list"
  ds_loader :: loader
  ds_log :: "device_call list"

definition SRC_ENGINE :: u32 where "SRC_ENGINE = 101"
definition ENGINE_ID :: u32 where "ENGINE_ID = 106"

definition configFileName :: string where
  "configFileName = ''./graph.config''"

definition write_file :: "device \<Rightarrow> string \<Rightarrow> string \<Rightarrow> files \<Rightarrow> files" where
  "write_file dv name text fs = (if dv_writes dv name then fs(name \<mapsto> text) else fs)"

section \<open>The configuration of a graph\<close>

text \<open>\<open>getline\<close> until the end of the text: a last line without its newline counts, an empty one does not.\<close>

function getlines :: "string \<Rightarrow> string list" where
  "getlines s =
     (if s = [] then []
      else takeWhile (\<lambda>c. c \<noteq> CHR 0x0A) s #
        (case dropWhile (\<lambda>c. c \<noteq> CHR 0x0A) s of [] \<Rightarrow> [] | _ # r \<Rightarrow> getlines r))"
  by pat_completeness auto
termination
proof (relation "measure length")
  fix s r :: string and c
  assume "dropWhile (\<lambda>c. c \<noteq> CHR 0x0A) s = c # r"
  then have "length (c # r) \<le> length s" by (metis length_dropWhile_le)
  then show "(r, s) \<in> measure length" by simp
qed simp

declare getlines.simps [simp del]

text \<open>\<open>substr(0, find(":") + 1)\<close>; without a colon the sum wraps to 0.\<close>

definition up_to_colon :: "string \<Rightarrow> string" where
  "up_to_colon t = (if CHR '':'' \<in> set t then takeWhile (\<lambda>c. c \<noteq> CHR '':'') t @ '':'' else [])"

definition quoted :: "string \<Rightarrow> string" where
  "quoted s = CHR 0x22 # s @ [CHR 0x22]"

definition config_line :: "string \<Rightarrow> string \<Rightarrow> u32 \<Rightarrow> nat \<Rightarrow> string \<Rightarrow> string" where
  "config_line content ip graph_id linenum temp =
     (if linenum = 18 then up_to_colon temp @ quoted content
      else if linenum = 2 then up_to_colon temp @ dec_nat (unat graph_id)
      else if linenum = 76 then up_to_colon temp @ quoted ip
      else temp)"

fun config_lines :: "string \<Rightarrow> string \<Rightarrow> u32 \<Rightarrow> nat \<Rightarrow> string list \<Rightarrow> string" where
  "config_lines content ip graph_id linenum [] = []"
| "config_lines content ip graph_id linenum (temp # lines) =
     config_line content ip graph_id linenum temp @ CHR 0x0A #
     config_lines content ip graph_id (linenum + 1) lines"

section \<open>The methods\<close>

text \<open>\<open>res.add_member(key, req[key])\<close>: a missing member of the request is added to it as null.\<close>

definition copy_member :: "string \<Rightarrow> cjson \<Rightarrow> cjson \<Rightarrow> (cjson \<times> cjson) outcome" where
  "copy_member key req res =
     bindR (cj_at key req) (\<lambda>(v, req). bindR (add_member key v res) (\<lambda>res. Inr (req, res)))"

definition reply_code :: "cjson \<Rightarrow> string \<Rightarrow> string \<Rightarrow> cjson \<Rightarrow> cjson outcome" where
  "reply_code code key msg res = bindR (add_member ''code'' code res) (add_member key (CString msg))"

text \<open>The status \<open>HIAI_InitAndStartGraph\<close> returns is good when the graph was created, with or without an instance.\<close>

definition HIAI_InitAndStartGraph :: "device \<Rightarrow> string \<Rightarrow> u32 \<Rightarrow> de_serv \<Rightarrow> bool \<times> de_serv" where
  "HIAI_InitAndStartGraph dv configFile graph_id s =
     (let s = s\<lparr>ds_log := ds_log s @ [Hiai_Init, Create_Graph configFile]\<rparr>
      in if \<not> dv_creates dv configFile then (False, s)
         else if \<not> dv_instance dv graph_id then (True, s)
         else (True, s\<lparr>ds_log := ds_log s @ [Set_Data_Recv graph_id ENGINE_ID]\<rparr>))"

definition start_task :: "device \<Rightarrow> string \<Rightarrow> string \<Rightarrow> cjson \<Rightarrow> de_serv \<Rightarrow> (cjson \<times> de_serv) outcome" where
  "start_task dv content ip res s =
     (let graph_id = word_of_int (100 + ds_process_num s);
          newconfig = ''graph'' @ dec_int (ds_process_num s) @ ''.config'';
          temp = config_lines content ip graph_id 1 (getlines (file_text configFileName (ds_files s)));
          s = s\<lparr>ds_files := write_file dv newconfig temp (ds_files s)\<rparr>
      in case HIAI_InitAndStartGraph dv newconfig graph_id s of (created, s) \<Rightarrow>
           if \<not> created then Inr (res, s)
           else if \<not> dv_instance dv graph_id then Inr (res, s)
           else
             let s = s\<lparr>ds_log := ds_log s @ [Send_Data graph_id SRC_ENGINE],
                       ds_pid_map := map_put content (sint graph_id) (ds_pid_map s),
                       ds_process_num := ds_process_num s + 1\<rparr>
             in bindR (reply_code (CInt 200) ''code_msg'' ''200 ok'' res) (\<lambda>res. Inr (res, s)))"

definition set_egbd_task :: "device \<Rightarrow> cjson \<Rightarrow> cjson \<Rightarrow> de_serv \<Rightarrow> (cjson \<times> de_serv) outcome" where
  "set_egbd_task dv req res s =
     bindR (copy_member ''req_id'' req res) (\<lambda>(req, res).
     bindR (copy_member ''method'' req res) (\<lambda>(req, res).
     bindR (cj_at ''params'' req) (\<lambda>(params, req).
       if json2str (dv_dtoa dv) params = [] then
         bindR (reply_code (CInt 400) ''code_msg'' ''400 params not found'' res) (\<lambda>res. Inr (res, s))
       else
         bindR (cj_at ''rtsp_url'' params) (\<lambda>(url, params).
         bindR (get_string url) (\<lambda>content.
           if content = [] then
             bindR (reply_code (CInt 404) ''err_msg'' ''400 rtsp_url not found'' res) (\<lambda>res. Inr (res, s))
           else
             bindR (cj_at ''ip'' params) (\<lambda>(ip, params).
             bindR (get_string ip) (\<lambda>ip. start_task dv content ip res s)))))))"

definition get_key_frame :: "cjson \<Rightarrow> cjson \<Rightarrow> de_serv \<Rightarrow> (cjson \<times> de_serv) outcome" where
  "get_key_frame req res s =
     bindR (copy_member ''req_id'' req res) (\<lambda>(req, res).
     bindR (copy_member ''method'' req res) (\<lambda>(req, res).
     bindR (cj_at ''params'' req) (\<lambda>(params, req).
     bindR (cj_at ''ip'' params) (\<lambda>(ip, params).
     bindR (get_string ip) (\<lambda>ip.
       case ds_files s (''/home/'' @ ip @ ''.jpg'') of
         Some text \<Rightarrow>
           bindR (reply_code (CInt 200) ''code_msg'' ''200 ok'' res) (\<lambda>res.
           bindR (add_member ''data'' (CString (base64_encode (string_bytes text))) res) (\<lambda>res. Inr (res, s)))
       | None \<Rightarrow>
           bindR (reply_code (CInt 400) ''code_msg'' ''400 key frame not found'' res) (\<lambda>res. Inr (res, s)))))))"

definition set_border_info :: "device \<Rightarrow> cjson \<Rightarrow> cjson \<Rightarrow> de_serv \<Rightarrow> (cjson \<times> de_serv) outcome" where
  "set_border_info dv req res s =
     bindR (copy_member ''req_id'' req res) (\<lambda>(req, res).
     bindR (copy_member ''method'' req res) (\<lambda>(req, res).
     bindR (cj_at ''params'' req) (\<lambda>(params, req).
     bindR (cj_at ''info'' params) (\<lambda>(info, params).
     bindR (cj_at ''ip'' params) (\<lambda>(ip, params).
     bindR (get_string ip) (\<lambda>ip.
       case json_parse (c_str (json2str (dv_dtoa dv) info)) [] STANDARD of
         None \<Rightarrow> Inl Out_Of_Range
       | Some (borders, err) \<Rightarrow>
           if err \<noteq> [] then
             bindR (reply_code (CString ''400'') ''code_msg'' ''400 parse borders error'' res) (\<lambda>res. Inr (res, s))
           else
             let filename = ip @ ''.json'';
                 (fs, bl) = save_borders (dv_g17 dv) borders filename (dv_writes dv filename) (ds_files s) (ds_loader s)
             in bindR (reply_code (CInt 200) ''code_msg'' ''200 ok'' res) (\<lambda>res.
                  Inr (res, s\<lparr>ds_files := fs, ds_loader := bl\<rparr>))))))))"

section \<open>Dispatch\<close>

datatype de_method = Set_Egbd_Task | Get_Key_Frame | Set_Border_Info

text \<open>The table of the constructor: a later entry replaces one with the same hash.\<close>

definition methods :: "u64 \<Rightarrow> de_method option" where
  "methods = Map.empty(hash64_string ''set_egbd_task'' \<mapsto> Set_Egbd_Task,
     hash64_string ''get_key_frame'' \<mapsto> Get_Key_Frame,
     hash64_string ''set_border_info'' \<mapsto> Set_Border_Info)"

fun run_method :: "device \<Rightarrow> de_method \<Rightarrow> cjson \<Rightarrow> cjson \<Rightarrow> de_serv \<Rightarrow> (cjson \<times> de_serv) outcome" where
  "run_method dv Set_Egbd_Task = set_egbd_task dv"
| "run_method dv Get_Key_Frame = get_key_frame"
| "run_method dv Set_Border_Info = set_border_info dv"

definition reply_err :: "int \<Rightarrow> string \<Rightarrow> cjson \<Rightarrow> cjson outcome" where
  "reply_err err msg res = bindR (add_member ''err'' (CInt err) res) (add_member ''errmsg'' (CString msg))"

definition de_process :: "device \<Rightarrow> cjson \<Rightarrow> cjson \<Rightarrow> de_serv \<Rightarrow> (cjson \<times> de_serv) outcome" where
  "de_process dv req res s =
     bindR (cj_at ''method'' req) (\<lambda>(m, req).
       case m of
         CString name \<Rightarrow>
           (case methods (hash64_string name) of
              None \<Rightarrow> bindR (reply_err 404 ''404 method not found'' res) (\<lambda>res. Inr (res, s))
            | Some f \<Rightarrow> run_method dv f req res s)
       | _ \<Rightarrow> bindR (reply_err 400 ''400 req has no method'' res) (\<lambda>res. Inr (res, s)))"

section \<open>The address of the server\<close>

text \<open>
  \<open>GetIp\<close> of \<open>main.cpp\<close>: at most 256 characters of the file are read into a buffer of 512
  that was not set before, and the text is what comes before the first NUL in it.
\<close>

definition GetIp :: "(string \<Rightarrow> rat option) \<Rightarrow> string \<Rightarrow> files \<Rightarrow> (bool \<times> string) outcome" where
  "GetIp td junk fs =
     (let text = take 256 (file_text ''network.json'' fs);
          buf = text @ drop (length text) junk
      in if CHR 0x00 \<notin> set buf then Inl Out_Of_Range
         else case find_member ''server_ip'' (cj_parse td (c_str buf)) of
             CString ip \<Rightarrow> Inr (True, c_str ip)
           | _ \<Rightarrow> Inr (False, []))"

text \<open>The same in \<open>DstEngine\<close>, with other names; the address it finds goes into a copy.\<close>

definition getIp :: "(string \<Rightarrow> rat option) \<Rightarrow> string \<Rightarrow> files \<Rightarrow> bool outcome" where
  "getIp td junk fs =
     (let text = take 256 (file_text ''network2.json'' fs);
          buf = text @ drop (length text) junk
      in if CHR 0x00 \<notin> set buf then Inl Out_Of_Range
         else case find_member ''client_ip'' (cj_parse td (c_str buf)) of
             CString ip \<Rightarrow> Inr True
           | _ \<Rightarrow> Inr False)"

section \<open>Facts: lines\<close>

definition no_newline :: "string \<Rightarrow> bool" where
  "no_newline s \<longleftrightarrow> CHR 0x0A \<notin> set s"

definition unlines :: "string list \<Rightarrow> string" where
  "unlines ls = concat (map (\<lambda>l. l @ [CHR 0x0A]) ls)"

lemma getlines_line: "no_newline l \<Longrightarrow> getlines (l @ CHR 0x0A # r) = l # getlines r"
proof -
  assume "no_newline l"
  then have "\<And>c. c \<in> set l \<Longrightarrow> c \<noteq> CHR 0x0A" by (auto simp: no_newline_def)
  then have "takeWhile (\<lambda>c. c \<noteq> CHR 0x0A) (l @ CHR 0x0A # r) = l" "dropWhile (\<lambda>c. c \<noteq> CHR 0x0A) (l @ CHR 0x0A # r) = CHR 0x0A # r"
    by (simp_all add: takeWhile_append2 dropWhile_append2)
  then show ?thesis by (subst getlines.simps) simp
qed

lemma getlines_nil: "getlines [] = []"
  by (subst getlines.simps) simp

lemma getlines_unlines: "list_all no_newline ls \<Longrightarrow> getlines (unlines ls) = ls"
  by (induction ls) (simp_all add: unlines_def getlines_line getlines_nil)

lemma getlines_no_newline: "list_all no_newline (getlines s)"
proof (induction s rule: getlines.induct)
  case (1 s)
  have "no_newline (takeWhile (\<lambda>c. c \<noteq> CHR 0x0A) s)" by (auto simp: no_newline_def dest: set_takeWhileD)
  with 1 show ?case by (subst getlines.simps) (auto split: list.splits)
qed

lemma config_lines_unlines:
  "config_lines content ip g n ls = unlines (map (\<lambda>i. config_line content ip g (n + i) (ls ! i)) [0..<length ls])"
proof (induction ls arbitrary: n)
  case (Cons l ls)
  have "[0..<length (l # ls)] = 0 # map Suc [0..<length ls]" by (simp only: length_Cons upt_conv_Cons map_Suc_upt zero_less_Suc)
  with Cons show ?case by (simp add: unlines_def comp_def)
qed (simp add: unlines_def)

lemma config_line_no_newline:
  assumes "no_newline content" "no_newline ip" "no_newline l"
  shows "no_newline (config_line content ip g n l)"
proof -
  have "no_newline (up_to_colon l)" using assms(3)
    by (auto simp: no_newline_def up_to_colon_def dest: set_takeWhileD)
  moreover have "no_newline (dec_nat k)" for k
    using dec_nat_digits [of k] by (auto simp: no_newline_def list_all_iff is_digit_def)
  ultimately show ?thesis using assms by (simp add: config_line_def no_newline_def quoted_def)
qed

lemma config_rewritten:
  assumes "no_newline content" "no_newline ip"
  shows "getlines (config_lines content ip g 1 (getlines t)) =
    map (\<lambda>i. config_line content ip g (1 + i) (getlines t ! i)) [0..<length (getlines t)]"
  unfolding config_lines_unlines using assms getlines_no_newline [of t]
  by (intro getlines_unlines) (auto simp: list_all_iff config_line_no_newline)

section \<open>Facts: members\<close>

definition touch :: "string \<Rightarrow> (string \<times> cjson) list \<Rightarrow> (string \<times> cjson) list" where
  "touch key ms = (if map_of ms key = None then ms @ [(key, CNull)] else ms)"

lemma find_touch [simp]: "find_member k (CObject (touch key ms)) = find_member k (CObject ms)"
  by (auto simp: find_member_def touch_def map_of_append map_add_def split: option.splits)

lemma cj_at_object: "cj_at key (CObject ms) = Inr (find_member key (CObject ms), CObject (touch key ms))"
  by (auto simp: cj_at_def find_member_def touch_def split: option.splits)

lemma cj_at_null: "cj_at key CNull = Inr (CNull, CObject (touch key []))"
  by (simp add: cj_at_def touch_def)

lemma add_member_simps [simp]:
  "add_member k x CNull = Inr (CObject [(k, x)])" "add_member k x (CObject ms) = Inr (CObject (ms @ [(k, x)]))"
  by (simp_all add: add_member_def)

lemma copy_member_simps [simp]:
  "copy_member k (CObject ms) CNull = Inr (CObject (touch k ms), CObject [(k, find_member k (CObject ms))])"
  "copy_member k (CObject ms) (CObject rs) = Inr (CObject (touch k ms), CObject (rs @ [(k, find_member k (CObject ms))]))"
  by (simp_all add: copy_member_def cj_at_object)

lemma reply_code_object [simp]:
  "reply_code c k m (CObject rs) = Inr (CObject (rs @ [(''code'', c), (k, CString m)]))"
  by (simp add: reply_code_def)

lemma json2str_nonempty: "(\<And>d. dtoa d \<noteq> []) \<Longrightarrow> json2str dtoa v \<noteq> []"
  by (cases "(dtoa, v)" rule: json2str.cases) (simp_all add: string_text_def dec_int_def bool_text_def)

text \<open>The two members every reply starts with.\<close>

definition reply_head :: "(string \<times> cjson) list \<Rightarrow> (string \<times> cjson) list" where
  "reply_head ms = [(''req_id'', find_member ''req_id'' (CObject ms)), (''method'', find_member ''method'' (CObject ms))]"

section \<open>Properties\<close>

fun method_name :: "de_method \<Rightarrow> string" where
  "method_name Set_Egbd_Task = ''set_egbd_task''"
| "method_name Get_Key_Frame = ''get_key_frame''"
| "method_name Set_Border_Info = ''set_border_info''"

lemma method_hashes:
  "hash64_string ''set_egbd_task'' \<noteq> hash64_string ''get_key_frame''"
  "hash64_string ''set_egbd_task'' \<noteq> hash64_string ''set_border_info''"
  "hash64_string ''get_key_frame'' \<noteq> hash64_string ''set_border_info''"
  by code_simp+

lemma methods_found: "methods (hash64_string (method_name f)) = Some f"
  using method_hashes by (cases f) (simp_all add: methods_def)

text \<open>
  A request for one of the three methods is handled by that method, on the request as it
  came: the hashes the table is built from do not collide.
\<close>

theorem process_dispatches:
  assumes "map_of ms ''method'' = Some (CString (method_name f))"
  shows "de_process dv (CObject ms) res s = run_method dv f (CObject ms) res s"
proof -
  have "cj_at ''method'' (CObject ms) = Inr (CString (method_name f), CObject ms)"
    using assms by (simp add: cj_at_def)
  then show ?thesis by (simp add: de_process_def methods_found)
qed

definition sample_device :: device where
  "sample_device = \<lparr>dv_creates = (\<lambda>_. True), dv_instance = (\<lambda>_. True), dv_writes = (\<lambda>_. True),
     dv_g17 = (\<lambda>_. ''0.5''), dv_dtoa = (\<lambda>_. ''0.5'')\<rparr>"

definition sample_serv :: de_serv where
  "sample_serv = \<lparr>ds_files = [configFileName \<mapsto> ''graphs {
    graph_id: 100
'', ''/home/cam.jpg'' \<mapsto> ''abc''], ds_process_num = 1, ds_pid_map = [], ds_loader = \<lparr>bl_borders = JNull\<rparr>, ds_log = []\<rparr>"

theorem process_dispatches_witness:
  "de_process sample_device (CObject [(''method'', CString ''get_key_frame'')]) CNull sample_serv =
   get_key_frame (CObject [(''method'', CString ''get_key_frame'')]) CNull sample_serv"
  using process_dispatches [of "[(''method'', CString ''get_key_frame'')]" Get_Key_Frame sample_device CNull sample_serv]
  by simp

text \<open>
  C23. A task that can be started leaves a configuration with as many lines as the template,
  of which only lines 2, 18 and 76 differ: they carry, behind their first colon, the number
  of the new graph, the quoted address of the stream and the quoted address of the camera.
  The graph is created from that configuration, gets its receiver, is sent the start signal
  and is booked under the stream; the reply is 200. A task can be started when the parameters
  are an object whose address of the stream and address of the camera are texts, the first of
  them not empty and neither with a newline in it (a newline would move every later line), the
  configuration can be written, and the device creates the graph and hands out its instance.
\<close>

theorem task_starts_configured_graph:
  assumes "find_member ''params'' (CObject ms) = CObject ps"
    and "find_member ''rtsp_url'' (CObject ps) = CString url" "find_member ''ip'' (CObject ps) = CString ip"
    and "c_str url \<noteq> []" "no_newline (c_str url)" "no_newline (c_str ip)"
    and "n = ds_process_num s" "g = (word_of_int (100 + n) :: u32)" "config = ''graph'' @ dec_int n @ ''.config''"
    and "dv_writes dv config" "dv_creates dv config" "dv_instance dv g"
    and "old = getlines (file_text configFileName (ds_files s))" "\<And>d. dv_dtoa dv d \<noteq> []"
  shows "\<exists>s' new. set_egbd_task dv (CObject ms) CNull s =
      Inr (CObject (reply_head ms @ [(''code'', CInt 200), (''code_msg'', CString ''200 ok'')]), s') \<and>
    ds_files s' config = Some new \<and> length (getlines new) = length old \<and>
    (\<forall>i < length old. getlines new ! i = (if i = 1 then up_to_colon (old ! i) @ dec_nat (unat g)
       else if i = 17 then up_to_colon (old ! i) @ quoted (c_str url)
       else if i = 75 then up_to_colon (old ! i) @ quoted (c_str ip)
       else old ! i)) \<and>
    ds_log s' = ds_log s @ [Hiai_Init, Create_Graph config, Set_Data_Recv g 106, Send_Data g 101] \<and>
    map_find (c_str url) (ds_pid_map s') = Some (sint g) \<and> ds_process_num s' = n + 1"
proof -
  let ?new = "config_lines (c_str url) (c_str ip) g 1 old"
  have new: "getlines ?new = map (\<lambda>i. config_line (c_str url) (c_str ip) g (1 + i) (old ! i)) [0..<length old]"
    unfolding assms(13) by (rule config_rewritten [OF assms(5,6)])
  have get: "get_string (CString x) = Inr (c_str x)" for x by (simp add: get_string_def)
  have "set_egbd_task dv (CObject ms) CNull s =
      start_task dv (c_str url) (c_str ip) (CObject (reply_head ms)) s"
    using assms(4) json2str_nonempty [OF assms(14), where v = "CObject ps"]
    by (simp add: set_egbd_task_def cj_at_object assms(1-3) get reply_head_def)
  moreover have "\<exists>s'. start_task dv (c_str url) (c_str ip) (CObject (reply_head ms)) s =
      Inr (CObject (reply_head ms @ [(''code'', CInt 200), (''code_msg'', CString ''200 ok'')]), s') \<and>
      ds_files s' config = Some ?new \<and>
      ds_log s' = ds_log s @ [Hiai_Init, Create_Graph config, Set_Data_Recv g 106, Send_Data g 101] \<and>
      map_find (c_str url) (ds_pid_map s') = Some (sint g) \<and> ds_process_num s' = n + 1"
    unfolding start_task_def Let_def assms(7) [symmetric] assms(8) [symmetric] assms(9) [symmetric] assms(13) [symmetric]
    using assms(10-12)
    by (simp add: HIAI_InitAndStartGraph_def Let_def write_file_def map_find_put ENGINE_ID_def SRC_ENGINE_def assms(7))
  moreover have "getlines ?new ! i = (if i = 1 then up_to_colon (old ! i) @ dec_nat (unat g)
       else if i = 17 then up_to_colon (old ! i) @ quoted (c_str url)
       else if i = 75 then up_to_colon (old ! i) @ quoted (c_str ip)
       else old ! i)" if "i < length old" for i
    using that unfolding new by (simp add: config_line_def)
  moreover have "length (getlines ?new) = length old" unfolding new by simp
  ultimately show ?thesis by metis
qed

lemmas member_simps = find_member_def cj_at_object get_string_def

definition sample_task :: "(string \<times> cjson) list" where
  "sample_task = [(''req_id'', CInt 7), (''method'', CString ''set_egbd_task''),
     (''params'', CObject [(''rtsp_url'', CString ''rtsp://a''), (''ip'', CString ''cam'')])]"

theorem task_starts_configured_graph_witness:
  "\<exists>s' new. set_egbd_task sample_device (CObject sample_task) CNull sample_serv =
      Inr (CObject [(''req_id'', CInt 7), (''method'', CString ''set_egbd_task''), (''code'', CInt 200), (''code_msg'', CString ''200 ok'')], s') \<and>
    ds_files s' ''graph1.config'' = Some new \<and> length (getlines new) = 2 \<and> ds_process_num s' = 2"
proof -
  have n: "''graph1.config'' = ''graph'' @ dec_int 1 @ ''.config''" by code_simp
  have t: "getlines ''graphs {
    graph_id: 100
'' = [''graphs {'', ''    graph_id: 100'']"
    using getlines_unlines [of "[''graphs {'', ''    graph_id: 100'']"] by (simp add: no_newline_def unlines_def)
  have f: "[''graphs {'', ''    graph_id: 100''] = getlines (file_text configFileName (ds_files sample_serv))"
    using t by (simp add: file_text_def sample_serv_def configFileName_def)
  have w: "dv_writes sample_device c" "dv_creates sample_device c" "dv_instance sample_device g" "dv_dtoa sample_device d \<noteq> []" for c g d
    by (simp_all add: sample_device_def)
  have "find_member ''params'' (CObject sample_task) = CObject [(''rtsp_url'', CString ''rtsp://a''), (''ip'', CString ''cam'')]"
    "find_member ''rtsp_url'' (CObject [(''rtsp_url'', CString ''rtsp://a''), (''ip'', CString ''cam'')]) = CString ''rtsp://a''"
    "find_member ''ip'' (CObject [(''rtsp_url'', CString ''rtsp://a''), (''ip'', CString ''cam'')]) = CString ''cam''"
    "c_str ''rtsp://a'' \<noteq> []" "no_newline (c_str ''rtsp://a'')" "no_newline (c_str ''cam'')"
    "1 = ds_process_num sample_serv" "(101 :: u32) = word_of_int (100 + 1)"
    by (simp_all add: find_member_def sample_task_def c_str_def no_newline_def sample_serv_def)
  from task_starts_configured_graph [OF this n w(1) w(2) w(3) f w(4)]
  have "\<exists>s' new. set_egbd_task sample_device (CObject sample_task) CNull sample_serv =
      Inr (CObject (reply_head sample_task @ [(''code'', CInt 200), (''code_msg'', CString ''200 ok'')]), s') \<and>
    ds_files s' ''graph1.config'' = Some new \<and> length (getlines new) = 2 \<and> ds_process_num s' = 2" by auto
  then show ?thesis by (simp add: reply_head_def sample_task_def find_member_def)
qed

text \<open>
  The picture a key frame reply carries, decoded, is the content of the camera's file.
\<close>

theorem key_frame_is_delivered:
  assumes "find_member ''params'' (CObject ms) = CObject ps" "find_member ''ip'' (CObject ps) = CString ip"
    and "ds_files s (''/home/'' @ c_str ip @ ''.jpg'') = Some content" "content \<noteq> []"
  shows "\<exists>data. get_key_frame (CObject ms) CNull s =
      Inr (CObject (reply_head ms @ [(''code'', CInt 200), (''code_msg'', CString ''200 ok''), (''data'', CString data)]), s) \<and>
    base64_decode sg data = Inr (string_bytes content)"
proof -
  have "base64_decode sg (base64_encode (string_bytes content)) = Inr (string_bytes content)"
    using assms(4) by (intro base64.dec_enc) (simp add: string_bytes_def)
  then show ?thesis
    using assms(3) by (simp add: get_key_frame_def cj_at_object assms(1,2) get_string_def reply_head_def)
qed

theorem key_frame_is_delivered_witness:
  "\<exists>data. get_key_frame (CObject [(''params'', CObject [(''ip'', CString ''cam'')])]) CNull sample_serv =
      Inr (CObject [(''req_id'', CNull), (''method'', CNull), (''code'', CInt 200), (''code_msg'', CString ''200 ok''), (''data'', CString data)], sample_serv) \<and>
    base64_decode False data = Inr [0x61, 0x62, 0x63]"
  using key_frame_is_delivered [of "[(''params'', CObject [(''ip'', CString ''cam'')])]" "[(''ip'', CString ''cam'')]" "''cam''" sample_serv "''abc''"]
  by (simp add: find_member_def sample_serv_def c_str_def reply_head_def string_bytes_def configFileName_def)

text \<open>
  A task request whose parameters are missing, or lack the address of the stream, never
  gets one of the two error replies written for it: the handler fails an assertion.
\<close>

theorem task_without_url_fails:
  assumes "\<not> is_string (find_member ''rtsp_url'' (find_member ''params'' (CObject ms)))" "\<And>d. dv_dtoa dv d \<noteq> []"
  shows "set_egbd_task dv (CObject ms) CNull s = Inl assert_failed"
proof -
  define p where "p = find_member ''params'' (CObject ms)"
  have "bindR (cj_at ''rtsp_url'' p) (\<lambda>(url, params). bindR (get_string url) (f params)) = Inl assert_failed" for f :: "cjson \<Rightarrow> string \<Rightarrow> 'z outcome"
    using assms(1) unfolding p_def [symmetric]
    by (cases p) (auto simp: cj_at_object cj_at_null cj_at_def [of _ "CBool _"] cj_at_def [of _ "CInt _"] cj_at_def [of _ "CDouble _"]
        cj_at_def [of _ "CString _"] cj_at_def [of _ "CArray _"] get_string_def is_string_def split: cjson.splits)
  then show ?thesis
    using json2str_nonempty [OF assms(2), where v = p] by (simp add: set_egbd_task_def cj_at_object flip: p_def)
qed

theorem task_without_url_fails_witness:
  "set_egbd_task sample_device (CObject [(''method'', CString ''set_egbd_task'')]) CNull sample_serv = Inl assert_failed"
  by (rule task_without_url_fails) (simp_all add: find_member_def is_string_def sample_device_def)

end
