(* ===== verification/CoSocket.thy ===== *)
theory CoSocket
  imports Prelude "HOL-Library.Sublist"
begin

text \<open>
  Blocking reads and writes of a coroutine (\<open>co/impl/co_unix.cc\<close>): \<open>recv\<close>, \<open>recvn\<close> and \<open>send\<close>
  with a time limit, over a socket that delivers and takes bytes in pieces. What the kernel
  answers to the calls on a socket, one after the other, is a list; a wait for the socket
  that ends in time and an interrupted call are answers after which the call is repeated.
  When the list is used up nothing happens on the socket any more, and a wait ends by its
  time limit. \<open>recvn\<close> reads a long buffer in chunks of \<open>tcp_max_recv_size\<close>, an argument.
\<close>

section \<open>Reading\<close>

datatype stop = Closed | Timed_Out | Failed

datatype arrival =
    Bytes "u8 list"
  | Became_Ready
  | Interrupted
  | Stops stop

datatype received =
    Got "u8 list"
  | Stopped stop

text \<open>One call of the kernel: what is there, at most \<open>n\<close> bytes, and what stays.\<close>

fun put_back :: "u8 list \<Rightarrow> arrival list \<Rightarrow> arrival list" where
  "put_back [] as = as"
| "put_back bs as = Bytes bs # as"

text \<open>
  \<open>recv\<close> with a time limit: the first bytes that are there. A read of nothing returns at once.
\<close>

fun co_recv :: "nat \<Rightarrow> arrival list \<Rightarrow> received \<times> arrival list" where
  "co_recv 0 as = (Got [], as)"
| "co_recv n [] = (Stopped Timed_Out, [])"
| "co_recv n (Bytes [] # as) = co_recv n as"
| "co_recv n (Bytes (b # bs) # as) = (Got (take n (b # bs)), put_back (drop n (b # bs)) as)"
| "co_recv n (Became_Ready # as) = co_recv n as"
| "co_recv n (Interrupted # as) = co_recv n as"
| "co_recv n (Stops e # as) = (Stopped e, as)"

text \<open>\<open>_Recvn\<close>: the loop that fills the buffer; \<open>s\<close> is what is filled so far.\<close>

function recvn_loop :: "nat \<Rightarrow> u8 list \<Rightarrow> arrival list \<Rightarrow> received \<times> arrival list" where
  "recvn_loop 0 s as = (Got s, as)"
| "recvn_loop (Suc n) s [] = (Stopped Timed_Out, [])"
| "recvn_loop (Suc n) s (Bytes bs # as) =
     (if length bs \<ge> Suc n then (Got (s @ take (Suc n) bs), put_back (drop (Suc n) bs) as)
      else recvn_loop (Suc n - length bs) (s @ bs) as)"
| "recvn_loop (Suc n) s (Became_Ready # as) = recvn_loop (Suc n) s as"
| "recvn_loop (Suc n) s (Interrupted # as) = recvn_loop (Suc n) s as"
| "recvn_loop (Suc n) s (Stops e # as) = (Stopped e, as)"
  by pat_completeness auto
termination by (relation "measure (\<lambda>(n, s, as). length as)") auto

text \<open>
  \<open>recvn\<close>: whole chunks first, then the rest; a chunk that stops ends the read. The chunk size
  is a flag of the program. At 0 the loop of the code asks for nothing, gets it and never ends;
  that setting is excluded here, in \<open>send_chunks\<close> too: 0 stands for a size no request exceeds.
\<close>

function recvn_chunks :: "nat \<Rightarrow> nat \<Rightarrow> u8 list \<Rightarrow> arrival list \<Rightarrow> received \<times> arrival list" where
  "recvn_chunks m remain s as =
     (if m > 0 \<and> remain > m then
        (case recvn_loop m [] as of
           (Got bs, as) \<Rightarrow> recvn_chunks m (remain - m) (s @ bs) as
         | (Stopped e, as) \<Rightarrow> (Stopped e, as))
      else
        (case recvn_loop remain [] as of
           (Got bs, as) \<Rightarrow> (Got (s @ bs), as)
         | (Stopped e, as) \<Rightarrow> (Stopped e, as)))"
  by pat_completeness auto
termination by (relation "measure (\<lambda>(m, remain, s, as). remain)") auto

declare recvn_chunks.simps [simp del]

definition recvn :: "nat \<Rightarrow> nat \<Rightarrow> arrival list \<Rightarrow> received \<times> arrival list" where
  "recvn m n as = recvn_chunks m n [] as"

section \<open>Writing\<close>

datatype departure =
    Takes nat
  | Write_Ready
  | Write_Interrupted
  | Write_Stops stop

text \<open>
  \<open>_Send\<close>: the bytes the kernel took and whether all went out. When the list is used up the
  kernel takes everything.
\<close>

fun send_loop :: "u8 list \<Rightarrow> u8 list \<Rightarrow> departure list \<Rightarrow> (bool \<times> u8 list) \<times> departure list" where
  "send_loop sent s [] = ((True, sent @ s), [])"
| "send_loop sent s (Takes k # ds) =
     (if k \<ge> length s then ((True, sent @ s), ds) else send_loop (sent @ take k s) (drop k s) ds)"
| "send_loop sent s (Write_Ready # ds) = send_loop sent s ds"
| "send_loop sent s (Write_Interrupted # ds) = send_loop sent s ds"
| "send_loop sent s (Write_Stops e # ds) = ((False, sent), ds)"

function send_chunks :: "nat \<Rightarrow> u8 list \<Rightarrow> u8 list \<Rightarrow> departure list \<Rightarrow> (bool \<times> u8 list) \<times> departure list" where
  "send_chunks m sent s ds =
     (if m > 0 \<and> length s > m then
        (case send_loop [] (take m s) ds of
           ((True, bs), ds) \<Rightarrow> send_chunks m (sent @ bs) (drop m s) ds
         | ((False, bs), ds) \<Rightarrow> ((False, sent @ bs), ds))
      else
        (case send_loop [] s ds of ((ok, bs), ds) \<Rightarrow> ((ok, sent @ bs), ds)))"
  by pat_completeness auto
termination by (relation "measure (\<lambda>(m, sent, s, ds). length s)") auto

declare send_chunks.simps [simp del]

definition co_send :: "nat \<Rightarrow> u8 list \<Rightarrow> departure list \<Rightarrow> (bool \<times> u8 list) \<times> departure list" where
  "co_send m s ds = send_chunks m [] s ds"

section \<open>The stream behind the pieces\<close>

text \<open>What arrives, byte by byte, with the places where a read stops.\<close>

datatype symbol = Byte u8 | Stop stop

fun symbols :: "arrival list \<Rightarrow> symbol list" where
  "symbols [] = []"
| "symbols (Bytes bs # as) = map Byte bs @ symbols as"
| "symbols (Became_Ready # as) = symbols as"
| "symbols (Interrupted # as) = symbols as"
| "symbols (Stops e # as) = Stop e # symbols as"

text \<open>Reading exactly \<open>n\<close> bytes of it.\<close>

fun read_exactly :: "nat \<Rightarrow> u8 list \<Rightarrow> symbol list \<Rightarrow> received \<times> symbol list" where
  "read_exactly 0 s ys = (Got s, ys)"
| "read_exactly (Suc n) s [] = (Stopped Timed_Out, [])"
| "read_exactly (Suc n) s (Byte b # ys) = read_exactly n (s @ [b]) ys"
| "read_exactly (Suc n) s (Stop e # ys) = (Stopped e, ys)"

lemma symbols_put_back: "symbols (put_back bs as) = map Byte bs @ symbols as"
  by (cases "(bs, as)" rule: put_back.cases) simp_all

lemma read_exactly_bytes:
  "read_exactly n s (map Byte bs @ ys) =
    (if n \<le> length bs then (Got (s @ take n bs), map Byte (drop n bs) @ ys)
     else read_exactly (n - length bs) (s @ bs) ys)"
proof (induction bs arbitrary: n s)
  case (Cons b bs)
  then show ?case by (cases n) simp_all
qed (cases n, simp_all)

lemma recvn_loop_reads:
  "recvn_loop n s as = (r, as') \<Longrightarrow> read_exactly n s (symbols as) = (r, symbols as')"
  by (induction n s as arbitrary: as' rule: recvn_loop.induct)
    (auto simp: read_exactly_bytes symbols_put_back Suc_diff_le split: if_splits)

lemma read_exactly_got: "read_exactly n s ys = (Got bs, ys') \<Longrightarrow> \<exists>cs. bs = s @ cs \<and> length cs = n"
  by (induction n s ys rule: read_exactly.induct) force+

lemma read_exactly_prefix:
  "read_exactly n (s @ t) ys = (case read_exactly n t ys of (Got bs, ys) \<Rightarrow> (Got (s @ bs), ys) | (Stopped e, ys) \<Rightarrow> (Stopped e, ys))"
  by (induction n t ys rule: read_exactly.induct) (simp_all flip: append_assoc)

lemma read_exactly_add:
  "read_exactly (m + n) s ys = (case read_exactly m s ys of (Got bs, ys) \<Rightarrow> read_exactly n bs ys | (Stopped e, ys) \<Rightarrow> (Stopped e, ys))"
  by (induction m s ys rule: read_exactly.induct) simp_all

lemma recvn_chunks_reads:
  "recvn_chunks m n s as = (r, as') \<Longrightarrow> read_exactly n s (symbols as) = (r, symbols as')"
proof (induction m n s as rule: recvn_chunks.induct)
  case (1 m n s as)
  show ?case
  proof (cases "m > 0 \<and> n > m")
    case True
    obtain r1 as1 where l: "recvn_loop m [] as = (r1, as1)" by fastforce
    note re = recvn_loop_reads [OF l]
    have sp: "read_exactly n s (symbols as) =
      (case read_exactly m s (symbols as) of (Got bs, ys) \<Rightarrow> read_exactly (n - m) bs ys | (Stopped e, ys) \<Rightarrow> (Stopped e, ys))"
      using True read_exactly_add [of m "n - m" s "symbols as"] by simp
    show ?thesis
    proof (cases r1)
      case (Got bs)
      then have "recvn_chunks m (n - m) (s @ bs) as1 = (r, as')"
        using 1(2) True l by (subst (asm) recvn_chunks.simps) simp
      then have "read_exactly (n - m) (s @ bs) (symbols as1) = (r, symbols as')"
        using 1(1) True l Got by simp
      then show ?thesis using sp read_exactly_prefix [of m s "[]" "symbols as"] re Got by simp
    next
      case (Stopped e)
      then show ?thesis using 1(2) True l sp read_exactly_prefix [of m s "[]" "symbols as"] re
        by (subst (asm) recvn_chunks.simps) auto
    qed
  next
    case False
    obtain r1 as1 where l: "recvn_loop n [] as = (r1, as1)" by fastforce
    have "recvn_chunks m n s as = (case r1 of Got bs \<Rightarrow> (Got (s @ bs), as1) | Stopped e \<Rightarrow> (Stopped e, as1))"
      using False l by (subst recvn_chunks.simps) auto
    then show ?thesis using 1(2) read_exactly_prefix [of n s "[]" "symbols as"] recvn_loop_reads [OF l]
      by (cases r1) auto
  qed
qed

lemma recvn_reads: "recvn m n as = (r, as') \<Longrightarrow> read_exactly n [] (symbols as) = (r, symbols as')"
  unfolding recvn_def by (rule recvn_chunks_reads)

lemma send_loop_sends:
  "send_loop sent s ds = ((ok, out), ds') \<Longrightarrow> prefix sent out \<and> prefix out (sent @ s) \<and> (ok \<longrightarrow> out = sent @ s)"
proof (induction sent s ds rule: send_loop.induct)
  case (2 sent s k ds)
  show ?case
  proof (cases "length s \<le> k")
    case True
    with 2 show ?thesis by (auto simp: prefix_def)
  next
    case False
    with 2 have "prefix (sent @ take k s) out \<and> prefix out (sent @ s) \<and> (ok \<longrightarrow> out = sent @ s)" by simp
    then show ?thesis by (auto dest: append_prefixD)
  qed
qed (auto simp: prefix_def)

lemma send_chunks_sends:
  "send_chunks m sent s ds = ((ok, out), ds') \<Longrightarrow> prefix out (sent @ s) \<and> (ok \<longrightarrow> out = sent @ s)"
proof (induction m sent s ds rule: send_chunks.induct)
  case (1 m sent s ds)
  define c where "c = (if m > 0 \<and> length s > m then take m s else s)"
  obtain k bs ds1 where l: "send_loop [] c ds = ((k, bs), ds1)" by (metis prod.exhaust)
  have b: "prefix bs c" "k \<longrightarrow> bs = c" using send_loop_sends [OF l] by simp_all
  show ?case
  proof (cases "m > 0 \<and> length s > m \<and> k")
    case True
    then have "send_chunks m (sent @ bs) (drop m s) ds1 = ((ok, out), ds')"
      using 1(2) l by (subst (asm) send_chunks.simps) (simp add: c_def)
    with 1(1) True l have "prefix out ((sent @ bs) @ drop m s) \<and> (ok \<longrightarrow> out = (sent @ bs) @ drop m s)"
      by (simp add: c_def)
    moreover have "bs @ drop m s = s" using b(2) True by (simp add: c_def)
    ultimately show ?thesis by simp
  next
    case False
    then have "(ok, out) = (k, sent @ bs)"
      using 1(2) l by (subst (asm) send_chunks.simps) (auto simp: c_def split: if_splits)
    moreover have "prefix bs s" using b(1) take_is_prefix [of m s] by (auto simp: c_def intro: prefix_order.trans split: if_splits)
    moreover have "c = s" if k using that False by (auto simp: c_def)
    ultimately show ?thesis using b by auto
  qed
qed

lemma co_send_sends: "co_send m s ds = ((ok, out), ds') \<Longrightarrow> prefix out s \<and> (ok \<longrightarrow> out = s)"
  unfolding co_send_def using send_chunks_sends [of m "[]" s ds ok out ds'] by simp

text \<open>
  C28. However the bytes arrive and however large the chunks are (but not of size 0), a blocking read returns the
  next \<open>n\<close> bytes of the stream or the event that comes before them, and leaves the rest of
  the stream; a blocking write that succeeds wrote everything, one that fails a first part.
\<close>

theorem blocking_io_is_stream_io:
  "(case recvn m n as of (r, as') \<Rightarrow> (r, symbols as')) = read_exactly n [] (symbols as) \<and>
   (case co_send m s ds of ((ok, out), ds') \<Rightarrow> if ok then out = s else prefix out s)"
proof
  obtain r as' where r: "recvn m n as = (r, as')" by fastforce
  with recvn_reads [OF r] show "(case recvn m n as of (r, as') \<Rightarrow> (r, symbols as')) = read_exactly n [] (symbols as)" by simp
  obtain ok out ds' where c: "co_send m s ds = ((ok, out), ds')" by (metis prod.exhaust)
  with co_send_sends [OF c] show "case co_send m s ds of ((ok, out), ds') \<Rightarrow> if ok then out = s else prefix out s" by auto
qed

end
