(* ===== verification/Md5.thy ===== *)
theory Md5
  imports CText
begin

text \<open>
  \<open>co/base/hash/md5.cc\<close>: the digest behind the password check of the server. The context
  keeps the four registers, the length in bytes (29 bits in \<open>lo\<close>, the rest in \<open>hi\<close>) and the
  bytes that do not fill a block yet. Sizes are natural numbers; the registers and the
  length are 32-bit words that wrap.
\<close>

unbundle bit_operations_syntax

section \<open>The program\<close>

type_synonym registers = "u32 \<times> u32 \<times> u32 \<times> u32"

record md5_ctx =
  mc_lo :: u32
  mc_hi :: u32
  mc_regs :: registers
  mc_buffer :: "u8 list"

datatype md5_fun = Fun_F | Fun_G | Fun_H | Fun_H2 | Fun_I

fun md5_apply :: "md5_fun \<Rightarrow> u32 \<Rightarrow> u32 \<Rightarrow> u32 \<Rightarrow> u32" where
  "md5_apply Fun_F x y z = z XOR (x AND (y XOR z))"
| "md5_apply Fun_G x y z = y XOR (z AND (x XOR y))"
| "md5_apply Fun_H x y z = (x XOR y) XOR z"
| "md5_apply Fun_H2 x y z = x XOR (y XOR z)"
| "md5_apply Fun_I x y z = y XOR (x OR NOT z)"

text \<open>
  \<open>STEP\<close> changes one register and the next step works on the registers turned by one, so
  that the registers are handed on in the order the next step names them.
\<close>

definition md5_step :: "u32 list \<Rightarrow> registers \<Rightarrow> md5_fun \<times> nat \<times> u32 \<times> nat \<Rightarrow> registers" where
  "md5_step x r st =
     (case r of (a, b, c, d) \<Rightarrow> case st of (f, n, t, s) \<Rightarrow>
        let a = a + (md5_apply f b c d + x ! n + t);
            a = push_bit s a OR drop_bit (32 - s) (a AND 0xffffffff);
            a = a + b
        in (d, a, b, c))"

definition md5_steps :: "(md5_fun \<times> nat \<times> u32 \<times> nat) list" where
  "md5_steps =
     [(Fun_F, 0, 0xd76aa478, 7), (Fun_F, 1, 0xe8c7b756, 12), (Fun_F, 2, 0x242070db, 17), (Fun_F, 3, 0xc1bdceee, 22),
      (Fun_F, 4, 0xf57c0faf, 7), (Fun_F, 5, 0x4787c62a, 12), (Fun_F, 6, 0xa8304613, 17), (Fun_F, 7, 0xfd469501, 22),
      (Fun_F, 8, 0x698098d8, 7), (Fun_F, 9, 0x8b44f7af, 12), (Fun_F, 10, 0xffff5bb1, 17), (Fun_F, 11, 0x895cd7be, 22),
      (Fun_F, 12, 0x6b901122, 7), (Fun_F, 13, 0xfd987193, 12), (Fun_F, 14, 0xa679438e, 17), (Fun_F, 15, 0x49b40821, 22),
      (Fun_G, 1, 0xf61e2562, 5), (Fun_G, 6, 0xc040b340, 9), (Fun_G, 11, 0x265e5a51, 14), (Fun_G, 0, 0xe9b6c7aa, 20),
      (Fun_G, 5, 0xd62f105d, 5), (Fun_G, 10, 0x02441453, 9), (Fun_G, 15, 0xd8a1e681, 14), (Fun_G, 4, 0xe7d3fbc8, 20),
      (Fun_G, 9, 0x21e1cde6, 5), (Fun_G, 14, 0xc33707d6, 9), (Fun_G, 3, 0xf4d50d87, 14), (Fun_G, 8, 0x455a14ed, 20),
      (Fun_G, 13, 0xa9e3e905, 5), (Fun_G, 2, 0xfcefa3f8, 9), (Fun_G, 7, 0x676f02d9, 14), (Fun_G, 12, 0x8d2a4c8a, 20),
      (Fun_H, 5, 0xfffa3942, 4), (Fun_H2, 8, 0x8771f681, 11), (Fun_H, 11, 0x6d9d6122, 16), (Fun_H2, 14, 0xfde5380c, 23),
      (Fun_H, 1, 0xa4beea44, 4), (Fun_H2, 4, 0x4bdecfa9, 11), (Fun_H, 7, 0xf6bb4b60, 16), (Fun_H2, 10, 0xbebfbc70, 23),
      (Fun_H, 13, 0x289b7ec6, 4), (Fun_H2, 0, 0xeaa127fa, 11), (Fun_H, 3, 0xd4ef3085, 16), (Fun_H2, 6, 0x04881d05, 23),
      (Fun_H, 9, 0xd9d4d039, 4), (Fun_H2, 12, 0xe6db99e5, 11), (Fun_H, 15, 0x1fa27cf8, 16), (Fun_H2, 2, 0xc4ac5665, 23),
      (Fun_I, 0, 0xf4292244, 6), (Fun_I, 7, 0x432aff97, 10), (Fun_I, 14, 0xab9423a7, 15), (Fun_I, 5, 0xfc93a039, 21),
      (Fun_I, 12, 0x655b59c3, 6), (Fun_I, 3, 0x8f0ccc92, 10), (Fun_I, 10, 0xffeff47d, 15), (Fun_I, 1, 0x85845dd1, 21),
      (Fun_I, 8, 0x6fa87e4f, 6), (Fun_I, 15, 0xfe2ce6e0, 10), (Fun_I, 6, 0xa3014314, 15), (Fun_I, 13, 0x4e0811a1, 21),
      (Fun_I, 4, 0xf7537e82, 6), (Fun_I, 11, 0xbd3af235, 10), (Fun_I, 2, 0x2ad7d2bb, 15), (Fun_I, 9, 0xeb86d391, 21)]"

text \<open>\<open>SET\<close>: a word of the block from its bytes, the lowest first.\<close>

definition md5_word :: "u8 list \<Rightarrow> nat \<Rightarrow> u32" where
  "md5_word p n =
     ucast (p ! (n * 4)) OR push_bit 8 (ucast (p ! (n * 4 + 1))) OR push_bit 16 (ucast (p ! (n * 4 + 2))) OR
     push_bit 24 (ucast (p ! (n * 4 + 3)))"

definition md5_block :: "registers \<Rightarrow> u8 list \<Rightarrow> registers" where
  "md5_block r p =
     (case foldl (md5_step (map (md5_word p) [0..<16])) r md5_steps of (a, b, c, d) \<Rightarrow>
      case r of (saved_a, saved_b, saved_c, saved_d) \<Rightarrow> (a + saved_a, b + saved_b, c + saved_c, d + saved_d))"

text \<open>The loop of \<open>body\<close>, which runs at least once.\<close>

function md5_blocks :: "registers \<Rightarrow> u8 list \<Rightarrow> registers" where
  "md5_blocks r data =
     (let r = md5_block r (take 64 data) in if length data - 64 = 0 then r else md5_blocks r (drop 64 data))"
  by pat_completeness auto
termination by (relation "measure (\<lambda>(r, data). length data)") auto

declare md5_blocks.simps [simp del]

definition body :: "md5_ctx \<Rightarrow> u8 list \<Rightarrow> md5_ctx" where
  "body ctx data = ctx\<lparr>mc_regs := md5_blocks (mc_regs ctx) data\<rparr>"

text \<open>The buffer of a new context is not set; what it holds is an argument.\<close>

definition md5_init :: "u8 list \<Rightarrow> md5_ctx" where
  "md5_init junk =
     \<lparr>mc_lo = 0, mc_hi = 0, mc_regs = (0x67452301, 0xefcdab89, 0x98badcfe, 0x10325476), mc_buffer = junk\<rparr>"

definition put_bytes :: "nat \<Rightarrow> u8 list \<Rightarrow> u8 list \<Rightarrow> u8 list" where
  "put_bytes i bs buf = take i buf @ bs @ drop (i + length bs) buf"

definition md5_count :: "nat \<Rightarrow> md5_ctx \<Rightarrow> md5_ctx" where
  "md5_count sz ctx =
     (let saved_lo = mc_lo ctx; lo = of_nat (take_bit 29 (unat saved_lo + sz));
          hi = (if lo < saved_lo then mc_hi ctx + 1 else mc_hi ctx)
      in ctx\<lparr>mc_lo := lo, mc_hi := hi + of_nat (drop_bit 29 sz)\<rparr>)"

definition md5_rest :: "u8 list \<Rightarrow> md5_ctx \<Rightarrow> md5_ctx" where
  "md5_rest data ctx =
     (let n = length data - length data mod 64;
          ctx = (if length data \<ge> 64 then body ctx (take n data) else ctx)
      in ctx\<lparr>mc_buffer := put_bytes 0 (if length data \<ge> 64 then drop n data else data) (mc_buffer ctx)\<rparr>)"

definition md5_update :: "u8 list \<Rightarrow> md5_ctx \<Rightarrow> md5_ctx" where
  "md5_update data ctx =
     (let used = unat (mc_lo ctx AND 0x3f); ctx = md5_count (length data) ctx
      in if used \<noteq> 0 then
           (let available = 64 - used
            in if length data < available then ctx\<lparr>mc_buffer := put_bytes used data (mc_buffer ctx)\<rparr>
               else
                 let ctx = ctx\<lparr>mc_buffer := put_bytes used (take available data) (mc_buffer ctx)\<rparr>
                 in md5_rest (drop available data) (body ctx (mc_buffer ctx)))
         else md5_rest data ctx)"

definition word_bytes :: "u32 \<Rightarrow> u8 list" where
  "word_bytes w = [ucast w, ucast (drop_bit 8 w), ucast (drop_bit 16 w), ucast (drop_bit 24 w)]"

definition regs_bytes :: "registers \<Rightarrow> u8 list" where
  "regs_bytes r = (case r of (a, b, c, d) \<Rightarrow> word_bytes a @ word_bytes b @ word_bytes c @ word_bytes d)"

definition md5_finish :: "md5_ctx \<Rightarrow> u8 list \<times> md5_ctx" where
  "md5_finish ctx =
     (let used = unat (mc_lo ctx AND 0x3f);
          ctx = ctx\<lparr>mc_buffer := put_bytes used [0x80] (mc_buffer ctx)\<rparr>;
          used = used + 1; available = 64 - used;
          full = available < 8;
          ctx = (if full then
                   let ctx = ctx\<lparr>mc_buffer := put_bytes used (replicate available 0) (mc_buffer ctx)\<rparr>
                   in body ctx (mc_buffer ctx)
                 else ctx);
          used = (if full then 0 else used); available = (if full then 64 else available);
          ctx = ctx\<lparr>mc_buffer := put_bytes used (replicate (available - 8) 0) (mc_buffer ctx)\<rparr>;
          ctx = ctx\<lparr>mc_lo := push_bit 3 (mc_lo ctx)\<rparr>;
          ctx = ctx\<lparr>mc_buffer := put_bytes 56 (word_bytes (mc_lo ctx) @ word_bytes (mc_hi ctx)) (mc_buffer ctx)\<rparr>;
          ctx = body ctx (mc_buffer ctx)
      in (regs_bytes (mc_regs ctx), \<lparr>mc_lo = 0, mc_hi = 0, mc_regs = (0, 0, 0, 0), mc_buffer = replicate 64 0\<rparr>))"

definition hex_byte :: "u8 \<Rightarrow> string" where
  "hex_byte b = [digit_char (unat (drop_bit 4 b)), digit_char (unat (b AND 0x0f))]"

definition md5sum :: "u8 list \<Rightarrow> u8 list \<Rightarrow> string" where
  "md5sum junk s = concat (map hex_byte (fst (md5_finish (md5_update s (md5_init junk)))))"

section \<open>The standard\<close>

text \<open>
  The digest of RFC 1321 over the whole message: padding to blocks, and 64 steps per block
  given by formulas for the function, the word and the shift of a step, and by a table for its
  constant. None of it is taken from the program's definitions.
\<close>

definition rfc_fun :: "nat \<Rightarrow> u32 \<Rightarrow> u32 \<Rightarrow> u32 \<Rightarrow> u32" where
  "rfc_fun i x y z =
     (if i < 16 then (x AND y) OR (NOT x AND z)
      else if i < 32 then (x AND z) OR (y AND NOT z)
      else if i < 48 then x XOR y XOR z
      else y XOR (x OR NOT z))"

definition rfc_index :: "nat \<Rightarrow> nat" where
  "rfc_index i =
     (if i < 16 then i else if i < 32 then (5 * i + 1) mod 16 else if i < 48 then (3 * i + 5) mod 16 else 7 * i mod 16)"

definition rfc_shift :: "nat \<Rightarrow> nat" where
  "rfc_shift i =
     [[7, 12, 17, 22], [5, 9, 14, 20], [4, 11, 16, 23], [6, 10, 15, 21]] ! (i div 16) ! (i mod 4)"

text \<open>
  The constant of a step, the table \<open>T\<close> of the standard in decimal: step \<open>i\<close>, counted from 0, has
  the integer part of \<open>2^32\<close> times the absolute value of the sine of \<open>i + 1\<close> radians.
\<close>

definition rfc_table :: "u32 list" where
  "rfc_table =
     [3614090360, 3905402710, 606105819, 3250441966, 4118548399, 1200080426, 2821735955, 4249261313,
      1770035416, 2336552879, 4294925233, 2304563134, 1804603682, 4254626195, 2792965006, 1236535329,
      4129170786, 3225465664, 643717713, 3921069994, 3593408605, 38016083, 3634488961, 3889429448,
      568446438, 3275163606, 4107603335, 1163531501, 2850285829, 4243563512, 1735328473, 2368359562,
      4294588738, 2272392833, 1839030562, 4259657740, 2763975236, 1272893353, 4139469664, 3200236656,
      681279174, 3936430074, 3572445317, 76029189, 3654602809, 3873151461, 530742520, 3299628645,
      4096336452, 1126891415, 2878612391, 4237533241, 1700485571, 2399980690, 4293915773, 2240044497,
      1873313359, 4264355552, 2734768916, 1309151649, 4149444226, 3174756917, 718787259, 3951481745]"

definition rfc_constant :: "nat \<Rightarrow> u32" where
  "rfc_constant i = rfc_table ! i"

definition rfc_step :: "u32 list \<Rightarrow> registers \<Rightarrow> nat \<Rightarrow> registers" where
  "rfc_step x r i =
     (case r of (a, b, c, d) \<Rightarrow>
        (d, b + word_rotl (rfc_shift i) (a + rfc_fun i b c d + x ! rfc_index i + rfc_constant i), b, c))"

text \<open>A word is its four bytes to the base 256, the lowest first; so is it written to the digest.\<close>

definition rfc_word :: "u8 list \<Rightarrow> nat \<Rightarrow> u32" where
  "rfc_word p n = of_nat (\<Sum>k\<leftarrow>[0..<4]. unat (p ! (4 * n + k)) * 256 ^ k)"

definition rfc_output :: "registers \<Rightarrow> u8 list" where
  "rfc_output r =
     (case r of (a, b, c, d) \<Rightarrow> concat (map (\<lambda>w. map (\<lambda>i. of_nat (unat w div 256 ^ i)) [0..<4]) [a, b, c, d]))"

definition rfc_block :: "registers \<Rightarrow> u8 list \<Rightarrow> registers" where
  "rfc_block r p =
     (case foldl (rfc_step (map (rfc_word p) [0..<16])) r [0..<64] of (a, b, c, d) \<Rightarrow>
      case r of (a0, b0, c0, d0) \<Rightarrow> (a0 + a, b0 + b, c0 + c, d0 + d))"

function chunks64 :: "'a list \<Rightarrow> 'a list list" where
  "chunks64 xs = (if length xs < 64 then [] else take 64 xs # chunks64 (drop 64 xs))"
  by pat_completeness auto
termination by (relation "measure length") auto

declare chunks64.simps [simp del]

definition rfc_pad :: "u8 list \<Rightarrow> u8 list" where
  "rfc_pad msg =
     msg @ [0x80] @ replicate ((119 - length msg mod 64) mod 64) 0 @
     map (\<lambda>i. of_nat (8 * length msg div 256 ^ i)) [0..<8]"

definition rfc_digest :: "u8 list \<Rightarrow> u8 list" where
  "rfc_digest msg =
     rfc_output (foldl rfc_block (0x67452301, 0xefcdab89, 0x98badcfe, 0x10325476) (chunks64 (rfc_pad msg)))"

section \<open>One block\<close>

lemma rotl_shifts:
  fixes a :: u32
  assumes "0 < s" "s < 32"
  shows "push_bit s a OR drop_bit (32 - s) (a AND 0xffffffff) = word_rotl s a"
proof (rule bit_word_eqI)
  fix n assume n: "n < LENGTH(32)"
  have "(0xffffffff :: u32) = mask 32" by (simp add: mask_eq_exp_minus_1)
  then have m: "a AND 0xffffffff = a" using take_bit_length_eq [of a] by (simp add: take_bit_eq_mask)
  have l: "bit (push_bit s a OR drop_bit (32 - s) a) n = (s \<le> n \<and> bit a (n - s) \<or> bit a (32 - s + n))"
    using n by (auto simp: bit_or_iff bit_push_bit_iff bit_drop_bit_eq)
  have "\<not> bit a (32 - s + n)" if "s \<le> n" using that assms n by (auto dest: bit_imp_le_length)
  moreover have "(n + (32 - s mod 32)) mod 32 = (if s \<le> n then n - s else 32 - s + n)"
    using assms n by (auto simp: mod_if)
  ultimately show "bit (push_bit s a OR drop_bit (32 - s) (a AND 0xffffffff)) n = bit (word_rotl s a) n"
    unfolding m l bit_word_rotl_iff using n by (simp split: if_splits)
qed

definition same_fun :: "md5_fun \<Rightarrow> md5_fun" where
  "same_fun f = (if f = Fun_H2 then Fun_H else f)"

definition rfc_name :: "nat \<Rightarrow> md5_fun" where
  "rfc_name i = (if i < 16 then Fun_F else if i < 32 then Fun_G else if i < 48 then Fun_H else Fun_I)"

lemma md5_steps_regular:
  "map (\<lambda>(f, n, t, s). (same_fun f, n, s)) md5_steps = map (\<lambda>i. (rfc_name i, rfc_index i, rfc_shift i)) [0..<64]"
  by code_simp

lemma md5_constants: "map (\<lambda>st. fst (snd (snd st))) md5_steps = rfc_table"
  by (simp add: md5_steps_def rfc_table_def)

lemma same_fun_apply: "md5_apply (same_fun f) x y z = md5_apply f x y z"
  by (cases f) (simp_all add: same_fun_def ac_simps)

lemma rfc_name_apply: "md5_apply (rfc_name i) x y z = rfc_fun i x y z"
  by (auto simp: rfc_name_def rfc_fun_def intro!: bit_eqI simp: bit_simps)

lemma rfc_shifts: "list_all (\<lambda>i. 0 < rfc_shift i \<and> rfc_shift i < 32) [0..<64]"
  by code_simp

lemma md5_steps_length: "length md5_steps = 64"
  by (simp add: md5_steps_def)

lemma md5_step_rfc:
  assumes "i < 64"
  shows "md5_step x r (md5_steps ! i) = rfc_step x r i"
proof -
  obtain f n t s where st: "md5_steps ! i = (f, n, t, s)" by (cases "md5_steps ! i") auto
  have "map (\<lambda>(f, n, t, s). (same_fun f, n, s)) md5_steps ! i = (rfc_name i, rfc_index i, rfc_shift i)"
    using assms by (simp add: md5_steps_regular)
  then have reg: "same_fun f = rfc_name i" "n = rfc_index i" "s = rfc_shift i"
    using assms st by (simp_all add: md5_steps_length)
  have t: "t = rfc_constant i" using nth_map [of i md5_steps "\<lambda>st. fst (snd (snd st))"] assms st
    by (simp add: md5_constants rfc_constant_def md5_steps_length)
  have s: "0 < rfc_shift i" "rfc_shift i < 32" using rfc_shifts assms by (simp_all add: list_all_iff)
  have f: "md5_apply f b c d = rfc_fun i b c d" for b c d
    using same_fun_apply [of f b c d] rfc_name_apply [of i b c d] reg(1) by simp
  obtain a b c d where r: "r = (a, b, c, d)" by (cases r) auto
  show ?thesis
    unfolding md5_step_def rfc_step_def st r Let_def prod.case f reg(2,3) t rotl_shifts [OF s]
    by (simp add: ac_simps)
qed

text \<open>The bytes of a word.\<close>

lemma bit_byte: "bit (ucast (b :: u8) :: u32) n \<Longrightarrow> n < 8"
  by (auto simp: bit_simps dest: bit_imp_le_length)

lemma md5_word_rfc: "md5_word p n = rfc_word p n"
proof -
  let ?b = "\<lambda>k. ucast (p ! (4 * n + k)) :: u32"
  have o: "x OR push_bit k (ucast (b :: u8)) = x + push_bit k (ucast b :: u32)" if "\<And>m. bit x m \<Longrightarrow> m < k" for x :: u32 and k b
    using that by (intro disjunctive_add [symmetric]) (fastforce simp: bit_push_bit_iff)
  have l: "m < 16" if "bit (?b 0 OR push_bit 8 (?b 1)) m" for m
    using that by (auto simp: bit_or_iff bit_push_bit_iff dest: bit_byte)
  have l2: "m < 24" if "bit ((?b 0 OR push_bit 8 (?b 1)) OR push_bit 16 (?b 2)) m" for m
    using that by (auto simp: bit_or_iff bit_push_bit_iff dest: bit_byte)
  have 1: "?b 0 OR push_bit 8 (?b 1) = ?b 0 + push_bit 8 (?b 1)" by (rule o) (rule bit_byte)
  have 2: "(?b 0 OR push_bit 8 (?b 1)) OR push_bit 16 (?b 2) = (?b 0 OR push_bit 8 (?b 1)) + push_bit 16 (?b 2)"
    by (rule o) (rule l)
  have 3: "((?b 0 OR push_bit 8 (?b 1)) OR push_bit 16 (?b 2)) OR push_bit 24 (?b 3) =
      ((?b 0 OR push_bit 8 (?b 1)) OR push_bit 16 (?b 2)) + push_bit 24 (?b 3)"
    by (rule o) (rule l2)
  have s: "4 * n + 3 = Suc (Suc (Suc (4 * n)))" by simp
  have "md5_word p n = ((?b 0 OR push_bit 8 (?b 1)) OR push_bit 16 (?b 2)) OR push_bit 24 (?b 3)"
    by (simp add: md5_word_def mult.commute or.assoc)
  also have "\<dots> = ?b 0 + push_bit 8 (?b 1) + push_bit 16 (?b 2) + push_bit 24 (?b 3)"
    unfolding 3 unfolding 2 unfolding 1 by (rule refl)
  also have "\<dots> = rfc_word p n"
    by (simp add: rfc_word_def push_bit_eq_mult upt_rec s)
  finally show ?thesis .
qed

lemma md5_block_rfc: "md5_block = rfc_block"
proof (intro ext)
  fix r p
  have "foldl (md5_step x) r md5_steps = foldl (rfc_step x) r [0..<64]" for x
  proof -
    have "md5_steps = map (\<lambda>i. md5_steps ! i) [0..<64]"
      using map_nth [of md5_steps] by (simp add: md5_steps_length)
    then have "foldl (md5_step x) r md5_steps = foldl (\<lambda>r i. md5_step x r (md5_steps ! i)) r [0..<64]"
      by (metis foldl_map)
    also have "\<dots> = foldl (rfc_step x) r [0..<64]"
      by (rule foldl_cong) (auto simp: md5_step_rfc)
    finally show ?thesis .
  qed
  then show "md5_block r p = rfc_block r p"
    by (simp add: md5_block_def rfc_block_def md5_word_rfc [abs_def] add.commute split: prod.splits)
qed

section \<open>Messages in pieces\<close>

lemma chunks64_short: "length xs < 64 \<Longrightarrow> chunks64 xs = []"
  by (subst chunks64.simps) simp

lemma chunks64_block: "length b = 64 \<Longrightarrow> chunks64 (b @ xs) = b # chunks64 xs"
  by (subst chunks64.simps) simp

lemma chunks64_append:
  "length xs mod 64 = 0 \<Longrightarrow> chunks64 (xs @ ys) = chunks64 xs @ chunks64 ys"
proof (induction xs rule: chunks64.induct)
  case (1 xs)
  show ?case
  proof (cases "length xs < 64")
    case True
    with 1 have "xs = []" by simp
    then show ?thesis by (simp add: chunks64_short)
  next
    case False
    then have "length (drop 64 xs) mod 64 = 0" using 1 by (simp add: mod_if split: if_splits)
    with 1 False have IH: "chunks64 (drop 64 xs @ ys) = chunks64 (drop 64 xs) @ chunks64 ys" by simp
    have "chunks64 (take 64 xs @ (drop 64 xs @ ys)) = take 64 xs # chunks64 (drop 64 xs @ ys)"
      using False by (intro chunks64_block) simp
    then have a: "chunks64 (xs @ ys) = take 64 xs # chunks64 (drop 64 xs @ ys)"
      by (metis append_assoc append_take_drop_id)
    have b: "chunks64 xs = take 64 xs # chunks64 (drop 64 xs)" using False by (subst chunks64.simps) simp
    show ?thesis unfolding a b IH by simp
  qed
qed

lemma chunks64_base: "chunks64 xs = chunks64 (take (length xs - length xs mod 64) xs)"
proof -
  let ?n = "length xs - length xs mod 64"
  have m: "?n mod 64 = 0" by simp
  have "chunks64 (take ?n xs @ drop ?n xs) = chunks64 (take ?n xs) @ chunks64 (drop ?n xs)"
    using m by (intro chunks64_append) (simp add: min_absorb2)
  then show ?thesis by (simp add: chunks64_short)
qed

lemma md5_blocks_chunks:
  "data \<noteq> [] \<Longrightarrow> length data mod 64 = 0 \<Longrightarrow> md5_blocks r data = foldl md5_block r (chunks64 data)"
proof (induction r data rule: md5_blocks.induct)
  case (1 r data)
  then have l: "64 \<le> length data" by (cases "length data < 64") auto
  then have c: "chunks64 data = take 64 data # chunks64 (drop 64 data)" by (subst chunks64.simps) simp
  show ?case
  proof (cases "length data = 64")
    case True
    then show ?thesis using c by (subst md5_blocks.simps) (simp add: chunks64_short)
  next
    case False
    with l 1(3) have "drop 64 data \<noteq> []" "length (drop 64 data) mod 64 = 0" by (simp_all add: mod_if split: if_splits)
    with 1(1) False l c show ?thesis by (subst md5_blocks.simps) (simp add: Let_def)
  qed
qed

lemma put_bytes_length: "i + length bs \<le> length buf \<Longrightarrow> length (put_bytes i bs buf) = length buf"
  by (simp add: put_bytes_def)

lemma take_put_bytes: "i \<le> length buf \<Longrightarrow> take (i + length bs) (put_bytes i bs buf) = take i buf @ bs"
  by (simp add: put_bytes_def)

text \<open>What a context stands for: the message fed to it so far.\<close>

definition full_part :: "'a list \<Rightarrow> nat" where
  "full_part msg = length msg - length msg mod 64"

definition md5_holds :: "md5_ctx \<Rightarrow> u8 list \<Rightarrow> bool" where
  "md5_holds ctx msg \<longleftrightarrow>
     mc_regs ctx = foldl md5_block (0x67452301, 0xefcdab89, 0x98badcfe, 0x10325476) (chunks64 msg) \<and>
     length (mc_buffer ctx) = 64 \<and> take (length msg mod 64) (mc_buffer ctx) = drop (full_part msg) msg \<and>
     unat (mc_lo ctx) = length msg mod 2 ^ 29 \<and> unat (mc_hi ctx) = length msg div 2 ^ 29 mod 2 ^ 32"

lemma used_bytes: "unat (w AND 0x3f) = unat (w :: u32) mod 64"
proof -
  have "(0x3f :: u32) = mask 6" by (simp add: mask_eq_exp_minus_1)
  then have "w AND 0x3f = take_bit 6 w" by (simp add: take_bit_eq_mask)
  moreover have "unat (take_bit 6 w) = unat w mod 64"
    by (simp only: unsigned_take_bit_eq) (simp add: take_bit_eq_mod)
  ultimately show ?thesis by simp
qed

lemma unat_plus_of_nat: "unat ((w :: u32) + of_nat k) = (unat w + k) mod 2 ^ 32"
  by (simp add: unat_word_ariths unat_of_nat mod_add_right_eq)

lemma div_carry:
  fixes m :: nat
  assumes "0 < m"
  shows "(n + k) div m = n div m + ((if (n + k) mod m < n mod m then 1 else 0) + k div m)"
proof -
  have l: "n mod m < m" "k mod m < m" using assms by simp_all
  have e: "(n + k) mod m = (n mod m + k mod m) mod m" by (simp add: mod_add_eq)
  have "(n mod m + k mod m) div m = (if (n + k) mod m < n mod m then 1 else 0)"
  proof (cases "n mod m + k mod m < m")
    case True
    with e show ?thesis by simp
  next
    case False
    define r where "r = n mod m + k mod m - m"
    have r: "n mod m + k mod m = m + r" "r < m" "r < n mod m" using False l unfolding r_def by linarith+
    then have "(n mod m + k mod m) mod m = r" by simp
    moreover have "(n mod m + k mod m) div m = 1" unfolding r(1) using r(2) by (intro div_nat_eqI) simp_all
    ultimately have "(n mod m + k mod m) mod m = r" "(n mod m + k mod m) div m = 1" by simp_all
    with e r(3) show ?thesis by simp
  qed
  then show ?thesis unfolding div_add1_eq [of n k m] by linarith
qed

lemma md5_count_lo: "unat (mc_lo (md5_count k ctx)) = (unat (mc_lo ctx) + k) mod 2 ^ 29"
proof -
  have "(unat (mc_lo ctx) + k) mod 2 ^ 29 < 2 ^ 29" by simp
  then have "(unat (mc_lo ctx) + k) mod 2 ^ 29 < 2 ^ 32" by (rule order_less_trans) simp
  then show ?thesis by (simp add: md5_count_def Let_def unat_of_nat take_bit_eq_mod)
qed

lemma md5_count_hi:
  "mc_hi (md5_count k ctx) =
    mc_hi ctx + of_nat ((if mc_lo (md5_count k ctx) < mc_lo ctx then 1 else 0) + k div 2 ^ 29)"
  by (simp add: md5_count_def Let_def drop_bit_eq_div)

lemma md5_count_adds:
  assumes lo: "unat (mc_lo ctx) = n mod 2 ^ 29" and hi: "unat (mc_hi ctx) = n div 2 ^ 29 mod 2 ^ 32"
  shows "unat (mc_lo (md5_count k ctx)) = (n + k) mod 2 ^ 29"
    and "unat (mc_hi (md5_count k ctx)) = (n + k) div 2 ^ 29 mod 2 ^ 32"
proof -
  show l: "unat (mc_lo (md5_count k ctx)) = (n + k) mod 2 ^ 29"
    unfolding md5_count_lo lo by (simp only: mod_add_left_eq)
  have "unat (mc_hi (md5_count k ctx)) = (n div 2 ^ 29 mod 2 ^ 32 +
      ((if (n + k) mod 2 ^ 29 < n mod 2 ^ 29 then 1 else 0) + k div 2 ^ 29)) mod 2 ^ 32"
    unfolding md5_count_hi unat_plus_of_nat hi word_less_nat_alt l lo by (rule refl)
  also have "\<dots> = (n + k) div 2 ^ 29 mod 2 ^ 32"
    unfolding mod_add_left_eq by (subst div_carry [of "2 ^ 29" n k]) simp_all
  finally show "unat (mc_hi (md5_count k ctx)) = (n + k) div 2 ^ 29 mod 2 ^ 32" .
qed

lemma md5_count_keeps: "mc_regs (md5_count k ctx) = mc_regs ctx" "mc_buffer (md5_count k ctx) = mc_buffer ctx"
  by (simp_all add: md5_count_def Let_def)

text \<open>Adding to what a context holds, when it holds whole blocks and the data are longer than that.\<close>

lemma full_part_split:
  obtains b t where "msg = b @ t" "length b mod 64 = 0" "length t = length msg mod 64" "length t < 64"
    "drop (full_part msg) msg = t" "chunks64 msg = chunks64 b"
proof -
  let ?b = "take (full_part msg) msg" and ?t = "drop (full_part msg) msg"
  have "full_part msg \<le> length msg" by (simp add: full_part_def)
  then have "length ?b = full_part msg" "length ?t = length msg mod 64" by (simp_all add: full_part_def min_absorb2)
  moreover have "full_part msg mod 64 = 0" by (simp add: full_part_def)
  moreover have "chunks64 msg = chunks64 ?b" using chunks64_base [of msg] by (simp add: full_part_def)
  ultimately show thesis using that [of ?b ?t] by simp
qed

lemma whole_blocks: "length a mod 64 = 0 \<Longrightarrow> length b mod 64 = 0 \<Longrightarrow> length (a @ b) mod 64 = 0"
  unfolding length_append by presburger

lemma mod_whole:
  assumes "length b mod 64 = 0" "length t < 64"
  shows "length (b @ t) mod 64 = length t"
proof -
  from assms(1) obtain k where "length b = 64 * k" by (metis mod_0_imp_dvd dvdE)
  with assms(2) show ?thesis by simp
qed

lemma full_part_append: "length b mod 64 = 0 \<Longrightarrow> length t < 64 \<Longrightarrow> drop (full_part (b @ t)) (b @ t) = t"
proof -
  assume a: "length b mod 64 = 0" "length t < 64"
  then have "length (b @ t) mod 64 = length t" by (rule mod_whole)
  then show ?thesis by (simp add: full_part_def)
qed

lemma md5_rest_holds:
  assumes "length base mod 64 = 0" "mc_regs ctx = foldl md5_block iv (chunks64 base)" "length (mc_buffer ctx) = 64"
  shows "mc_regs (md5_rest data ctx) = foldl md5_block iv (chunks64 (base @ data))"
    and "length (mc_buffer (md5_rest data ctx)) = 64"
    and "take (length (base @ data) mod 64) (mc_buffer (md5_rest data ctx)) = drop (full_part (base @ data)) (base @ data)"
    and "mc_lo (md5_rest data ctx) = mc_lo ctx" "mc_hi (md5_rest data ctx) = mc_hi ctx"
proof -
  obtain b t where b: "data = b @ t" "length b mod 64 = 0" "length t = length data mod 64" "length t < 64" "chunks64 data = chunks64 b"
    using full_part_split [of data] by metis
  have n: "length data - length data mod 64 = length b" using b(1,3) by simp
  have big: "length data \<ge> 64 \<longleftrightarrow> b \<noteq> []" using b by (cases b) (auto simp: mod_if split: if_splits)
  have c: "chunks64 (base @ data) = chunks64 base @ chunks64 b"
    using chunks64_append [OF assms(1), of data] b(5) by simp
  have eq: "md5_rest data ctx = (if b \<noteq> [] then body ctx b else ctx)\<lparr>mc_buffer := put_bytes 0 t (mc_buffer ctx)\<rparr>"
    unfolding md5_rest_def Let_def n big using b(1) by (auto simp: body_def)
  show "mc_regs (md5_rest data ctx) = foldl md5_block iv (chunks64 (base @ data))"
    using b(2) assms(2) md5_blocks_chunks [of b "mc_regs ctx"] by (simp add: eq c body_def chunks64_short)
  show "length (mc_buffer (md5_rest data ctx)) = 64"
    using b(4) assms(3) by (simp add: eq put_bytes_length)
  have m: "length (base @ b) mod 64 = 0" using assms(1) b(2) by (rule whole_blocks)
  have "length (base @ data) mod 64 = length t"
    using mod_whole [OF m b(4)] b(1) by simp
  moreover have "drop (full_part (base @ data)) (base @ data) = t"
    using full_part_append [OF m b(4)] b(1) by simp
  ultimately show "take (length (base @ data) mod 64) (mc_buffer (md5_rest data ctx)) = drop (full_part (base @ data)) (base @ data)"
    by (simp add: eq put_bytes_def)
  show "mc_lo (md5_rest data ctx) = mc_lo ctx" "mc_hi (md5_rest data ctx) = mc_hi ctx"
    by (simp_all add: eq body_def)
qed

lemma md5_update_holds:
  assumes "md5_holds ctx msg"
  shows "md5_holds (md5_update data ctx) (msg @ data)"
proof -
  let ?iv = "(0x67452301, 0xefcdab89, 0x98badcfe, 0x10325476) :: registers"
  let ?c = "md5_count (length data) ctx"
  note h = assms [unfolded md5_holds_def]
  obtain b t where b: "msg = b @ t" "length b mod 64 = 0" "length t = length msg mod 64" "length t < 64"
    "drop (full_part msg) msg = t" "chunks64 msg = chunks64 b"
    using full_part_split [of msg] by metis
  have used: "unat (mc_lo ctx AND 0x3f) = length t"
    using h b(3) by (simp add: used_bytes mod_mod_cancel)
  have buf: "take (length t) (mc_buffer ctx) = t" "length (mc_buffer ctx) = 64" using h b(3,5) by simp_all
  have regs: "mc_regs ctx = foldl md5_block ?iv (chunks64 b)" using h b(6) by simp
  have count: "unat (mc_lo ?c) = length (msg @ data) mod 2 ^ 29" "unat (mc_hi ?c) = length (msg @ data) div 2 ^ 29 mod 2 ^ 32"
    using md5_count_adds [of ctx "length msg" "length data"] h by simp_all
  show ?thesis
  proof (cases "t = []")
    case True
    then have "md5_update data ctx = md5_rest data ?c" using used by (simp add: md5_update_def)
    then show ?thesis
      using md5_rest_holds [OF b(2), of ?c ?iv data] regs buf(2) count b(1) True
      by (simp add: md5_holds_def md5_count_keeps)
  next
    case t: False
    show ?thesis
    proof (cases "length data < 64 - length t")
      case True
      have eq: "md5_update data ctx = ?c\<lparr>mc_buffer := put_bytes (length t) data (mc_buffer ctx)\<rparr>"
        using t True used by (simp add: md5_update_def Let_def md5_count_keeps)
      have l: "length (t @ data) < 64" using True by simp
      have "chunks64 (msg @ data) = chunks64 b"
        using chunks64_append [OF b(2), of "t @ data"] b(1) chunks64_short [OF l] by simp
      moreover have "length (msg @ data) mod 64 = length (t @ data)"
        using mod_whole [OF b(2) l] b(1) by simp
      moreover have "drop (full_part (msg @ data)) (msg @ data) = t @ data"
        using full_part_append [OF b(2) l] b(1) by simp
      ultimately show ?thesis
        using regs count buf l take_put_bytes [of "length t" "mc_buffer ctx" data]
        by (simp add: md5_holds_def eq md5_count_keeps put_bytes_length)
    next
      case False
      let ?a = "take (64 - length t) data" and ?d = "drop (64 - length t) data"
      let ?c1 = "?c\<lparr>mc_buffer := put_bytes (length t) ?a (mc_buffer ctx)\<rparr>"
      have la: "length (t @ ?a) = 64" using False b(4) by simp
      have full: "mc_buffer ?c1 = t @ ?a"
        using take_put_bytes [of "length t" "mc_buffer ctx" ?a] buf la
        by (simp add: put_bytes_def)
      have eq: "md5_update data ctx = md5_rest ?d (body ?c1 (t @ ?a))"
        using t False used full by (simp add: md5_update_def Let_def md5_count_keeps)
      have m: "length (b @ t @ ?a) mod 64 = 0" using la by (intro whole_blocks [OF b(2)]) simp
      have "chunks64 (b @ t @ ?a) = chunks64 b @ [t @ ?a]"
        using chunks64_append [OF b(2), of "t @ ?a"] chunks64_block [OF la, of "[]"] by (simp add: chunks64_short)
      moreover have "md5_blocks r (t @ ?a) = md5_block r (t @ ?a)" for r
        using la by (subst md5_blocks.simps) simp
      ultimately have "mc_regs (body ?c1 (t @ ?a)) = foldl md5_block ?iv (chunks64 (b @ t @ ?a))"
        using regs by (simp add: body_def md5_count_keeps)
      moreover have "length (mc_buffer (body ?c1 (t @ ?a))) = 64" using full la by (simp add: body_def)
      moreover have "msg @ data = (b @ t @ ?a) @ ?d" using b(1) by simp
      ultimately show ?thesis
        using md5_rest_holds [OF m, of "body ?c1 (t @ ?a)" ?iv ?d] count
        by (simp add: md5_holds_def eq body_def)
    qed
  qed
qed

section \<open>Padding\<close>

definition low_bytes :: "nat \<Rightarrow> u8 list" where
  "low_bytes n = [of_nat n, of_nat (drop_bit 8 n), of_nat (drop_bit 16 n), of_nat (drop_bit 24 n)]"

lemma byte_take_bit: "8 \<le> k \<Longrightarrow> (of_nat (take_bit k n) :: u8) = of_nat n"
  by (simp add: word_of_nat_eq_iff min_def)

lemma word_bytes_low:
  assumes "unat w = take_bit 32 n"
  shows "word_bytes w = low_bytes n"
proof -
  have u: "(ucast (drop_bit k w) :: u8) = of_nat (drop_bit k (unat w))" for k
  proof -
    have "of_nat (unat (drop_bit k w)) = (ucast (drop_bit k w) :: u8)" by simp
    moreover have "unat w < 2 ^ 32" using unsigned_less [of w] by simp
    then have "unat (drop_bit k w) = drop_bit k (unat w)" by (simp add: unsigned_drop_bit_eq take_bit_nat_eq_self)
    ultimately show ?thesis by (simp only:)
  qed
  have "(ucast w :: u8) = of_nat (unat w)" using u [of 0] by simp
  moreover have "drop_bit k (unat w) = take_bit (32 - k) (drop_bit k n)" if "k \<le> 32" for k
    using that by (simp add: assms drop_bit_take_bit)
  ultimately show ?thesis by (simp add: word_bytes_def low_bytes_def u assms byte_take_bit)
qed

lemma regs_bytes_rfc: "regs_bytes r = rfc_output r"
proof -
  have "[0..<4] = [0, 1, 2, 3 :: nat]" by (simp add: upt_rec)
  moreover have "unat w = take_bit 32 (unat w)" for w :: u32
    using unsigned_less [of w, where 'a = nat] by (simp add: take_bit_nat_eq_self)
  from word_bytes_low [OF this] have "word_bytes w = low_bytes (unat w)" for w .
  ultimately show ?thesis by (cases r) (simp add: regs_bytes_def rfc_output_def low_bytes_def drop_bit_eq_div)
qed

lemma low_bytes_div:
  "low_bytes n @ low_bytes (drop_bit 32 n) = map (\<lambda>i. of_nat (n div 256 ^ i)) [0..<8]"
proof -
  have "[0..<8] = [0, 1, 2, 3, 4, 5, 6, 7 :: nat]" by (simp add: upt_rec)
  then show ?thesis by (simp add: low_bytes_def drop_bit_eq_div flip: div_mult2_eq)
qed

lemma length_field:
  assumes "unat lo = n mod 2 ^ 29" "unat hi = n div 2 ^ 29 mod 2 ^ 32"
  shows "word_bytes (push_bit 3 lo) @ word_bytes hi = map (\<lambda>i. of_nat (8 * n div 256 ^ i)) [0..<8]"
proof -
  have "unat (push_bit 3 lo) = take_bit 32 (8 * unat lo)"
    by (simp add: push_bit_eq_mult unat_word_ariths take_bit_eq_mod mult.commute)
  also have "8 * unat lo = take_bit 32 (8 * n)" unfolding assms(1)
    using mult_mod_right [of 8 n "2 ^ 29"] by (simp add: take_bit_eq_mod)
  finally have lo: "word_bytes (push_bit 3 lo) = low_bytes (8 * n)" by (intro word_bytes_low) simp
  have "unat hi = take_bit 32 (drop_bit 32 (8 * n))"
    unfolding assms(2) by (simp add: take_bit_eq_mod drop_bit_eq_div flip: div_mult2_eq)
  then have "word_bytes hi = low_bytes (drop_bit 32 (8 * n))" by (rule word_bytes_low)
  with lo show ?thesis by (simp only: low_bytes_div)
qed

lemma put_bytes_end: "length a = i \<Longrightarrow> length buf = i + length bs \<Longrightarrow> take i buf = a \<Longrightarrow> put_bytes i bs buf = a @ bs"
  by (simp add: put_bytes_def)

lemma put_bytes_middle:
  "length a = i \<Longrightarrow> length buf = i + length bs + k \<Longrightarrow> take i buf = a \<Longrightarrow> \<exists>r. put_bytes i bs buf = (a @ bs) @ r \<and> length r = k"
  by (simp add: put_bytes_def)

lemma md5_blocks_one: "length p = 64 \<Longrightarrow> md5_blocks r p = md5_block r p"
  by (subst md5_blocks.simps) simp

lemma md5_finish_digest:
  assumes "md5_holds ctx msg"
  shows "fst (md5_finish ctx) = rfc_digest msg"
proof -
  let ?iv = "(0x67452301, 0xefcdab89, 0x98badcfe, 0x10325476) :: registers"
  note h = assms [unfolded md5_holds_def]
  obtain b t where b: "msg = b @ t" "length b mod 64 = 0" "length t = length msg mod 64" "length t < 64"
    "drop (full_part msg) msg = t" "chunks64 msg = chunks64 b"
    using full_part_split [of msg] by metis
  have used: "unat (mc_lo ctx AND 0x3f) = length t" using h b(3) by (simp add: used_bytes mod_mod_cancel)
  have buf: "take (length t) (mc_buffer ctx) = t" "length (mc_buffer ctx) = 64" using h b(3,5) by simp_all
  define L where "L = word_bytes (push_bit 3 (mc_lo ctx)) @ word_bytes (mc_hi ctx)"
  have L: "L = map (\<lambda>i. of_nat (8 * length msg div 256 ^ i)) [0..<8]" "length L = 8"
    using length_field [of "mc_lo ctx" "length msg" "mc_hi ctx"] h by (simp_all add: L_def)
  have "rfc_pad msg = b @ (t @ [0x80] @ replicate ((119 - length t) mod 64) 0 @ L)"
    unfolding rfc_pad_def L(1) [symmetric] b(3) [symmetric] by (subst b(1)) (simp only: append_assoc)
  then have pad: "chunks64 (rfc_pad msg) = chunks64 msg @ chunks64 (t @ [0x80] @ replicate ((119 - length t) mod 64) 0 @ L)"
    using chunks64_append [OF b(2)] b(6) by (simp only:)
  have regs: "mc_regs ctx = foldl md5_block ?iv (chunks64 msg)" using h by simp
  obtain r where r: "put_bytes (length t) [0x80] (mc_buffer ctx) = (t @ [0x80]) @ r" "length r = 63 - length t"
    using put_bytes_middle [of t "length t" "mc_buffer ctx" "[0x80]" "63 - length t"] buf b(4) by auto
  show ?thesis
  proof (cases "length t < 56")
    case True
    let ?z = "replicate (55 - length t) (0 :: u8)"
    obtain q where q: "put_bytes (Suc (length t)) ?z ((t @ [0x80]) @ r) = ((t @ [0x80]) @ ?z) @ q" "length q = 8"
      using put_bytes_middle [of "t @ [0x80]" "Suc (length t)" "(t @ [0x80]) @ r" ?z 8] r(2) True by auto
    have e: "put_bytes 56 L (((t @ [0x80]) @ ?z) @ q) = ((t @ [0x80]) @ ?z) @ L"
    proof -
      have l: "length ((t @ [0x80]) @ ?z) = 56" using True by simp
      then have "take 56 (((t @ [0x80]) @ ?z) @ q) = (t @ [0x80]) @ ?z" by (metis append_eq_conv_conj)
      then show ?thesis using l q(2) L(2) by (intro put_bytes_end) simp_all
    qed
    have p: "length (((t @ [0x80]) @ ?z) @ L) = 64" using True L(2) by simp
    have k: "(119 - length t) mod 64 = 55 - length t" using True by (simp add: mod_if)
    have nf: "\<not> 63 - length t < 8" using True by linarith
    have "fst (md5_finish ctx) = regs_bytes (md5_block (mc_regs ctx) (((t @ [0x80]) @ ?z) @ L))"
      using nf r q e p by (simp add: md5_finish_def Let_def used body_def L_def md5_blocks_one)
    moreover have "chunks64 (t @ [0x80] @ replicate ((119 - length t) mod 64) 0 @ L) = [((t @ [0x80]) @ ?z) @ L]"
      using chunks64_block [OF p, of "[]"] by (simp add: k chunks64_short)
    ultimately show ?thesis by (simp add: rfc_digest_def pad regs flip: md5_block_rfc regs_bytes_rfc)
  next
    case False
    let ?z = "replicate (63 - length t) (0 :: u8)"
    have f: "put_bytes (Suc (length t)) ?z ((t @ [0x80]) @ r) = (t @ [0x80]) @ ?z"
      using r(2) b(4) by (intro put_bytes_end) simp_all
    let ?p1 = "(t @ [0x80]) @ ?z"
    have p1: "length ?p1 = 64" using b(4) by simp
    obtain q where q: "put_bytes 0 (replicate 56 0) ?p1 = ([] @ replicate 56 0) @ q" "length q = 8"
      using put_bytes_middle [of "[]" 0 ?p1 "replicate 56 0" 8] p1 by auto
    have e: "put_bytes 56 L (replicate 56 0 @ q) = replicate 56 0 @ L"
      using q(2) L(2) by (intro put_bytes_end) simp_all
    have p2: "length (replicate 56 (0 :: u8) @ L) = 64" using L(2) by simp
    have "(119 - length t) mod 64 = (63 - length t) + 56" using False b(4) by (simp add: mod_if)
    then have k: "t @ [0x80] @ replicate ((119 - length t) mod 64) 0 @ L = ?p1 @ (replicate 56 0 @ L)"
      by (simp only: replicate_add append_assoc)
    have full: "63 - length t < 8" using False by linarith
    have "fst (md5_finish ctx) = regs_bytes (md5_block (md5_block (mc_regs ctx) ?p1) (replicate 56 0 @ L))"
      using full r f q e p1 p2 by (simp add: md5_finish_def Let_def used body_def L_def md5_blocks_one)
    moreover have "chunks64 (?p1 @ (replicate 56 0 @ L)) = [?p1, replicate 56 0 @ L]"
      using chunks64_block [OF p1] chunks64_block [OF p2, of "[]"] by (simp add: chunks64_short)
    ultimately show ?thesis unfolding rfc_digest_def pad k by (simp add: regs flip: md5_block_rfc regs_bytes_rfc)
  qed
qed

lemma md5_init_holds: "length junk = 64 \<Longrightarrow> md5_holds (md5_init junk) []"
  by (simp add: md5_holds_def md5_init_def chunks64_short full_part_def)

lemma md5_updates_hold: "md5_holds ctx msg \<Longrightarrow> md5_holds (fold md5_update ds ctx) (msg @ concat ds)"
proof (induction ds arbitrary: ctx msg)
  case (Cons d ds)
  with md5_update_holds [OF Cons.prems, of d] show ?case using Cons.IH [of "md5_update d ctx" "msg @ d"] by simp
qed simp

text \<open>The digest of \<open>abc\<close> the standard gives as a test.\<close>

definition abc_block :: "u8 list" where
  "abc_block = [0x61, 0x62, 0x63, 0x80] @ replicate 52 0 @ [24, 0, 0, 0, 0, 0, 0, 0]"

definition abc_words :: "u32 list" where
  "abc_words = [0x80636261, 0, 0, 0, 0, 0, 0, 0, 0, 0, 0, 0, 0, 0, 24, 0]"

lemma abc_pad: "rfc_pad [0x61, 0x62, 0x63] = abc_block"
  by (simp add: rfc_pad_def abc_block_def upt_rec)

lemma abc_block_words: "map (rfc_word abc_block) [0..<16] = abc_words"
  unfolding md5_word_rfc [abs_def, symmetric]
  by (simp add: abc_words_def abc_block_def md5_word_def upt_rec nth_append nth_Cons')

lemma md5_steps_rounds:
  "md5_steps = take 16 md5_steps @ take 16 (drop 16 md5_steps) @ take 16 (drop 32 md5_steps) @ take 16 (drop 48 md5_steps)"
  by (simp add: md5_steps_def)

lemma abc_round1:
  "foldl (md5_step abc_words) (0x67452301, 0xefcdab89, 0x98badcfe, 0x10325476) (take 16 md5_steps) =
     (0xdda9b9a6, 0x72aff2e0, 0xe396856b, 0xa1051895)"
  by (simp add: md5_step_def abc_words_def md5_steps_def)

lemma abc_round2:
  "foldl (md5_step abc_words) (0xdda9b9a6, 0x72aff2e0, 0xe396856b, 0xa1051895) (take 16 (drop 16 md5_steps)) =
     (0x790a77fb, 0x726342d3, 0xa62884aa, 0x9f47e4f8)"
  by (simp add: md5_step_def abc_words_def md5_steps_def)

lemma abc_round3:
  "foldl (md5_step abc_words) (0x790a77fb, 0x726342d3, 0xa62884aa, 0x9f47e4f8) (take 16 (drop 32 md5_steps)) =
     (0x7f2e507b, 0x7beb9700, 0x8fae6399, 0x99d9679d)"
  by (simp add: md5_step_def abc_words_def md5_steps_def)

lemma abc_round4:
  "foldl (md5_step abc_words) (0x7f2e507b, 0x7beb9700, 0x8fae6399, 0x99d9679d) (take 16 (drop 48 md5_steps)) =
     (0x310ade8f, 0xc08226b3, 0xe484b9d8, 0x624d8cb2)"
  by (simp add: md5_step_def abc_words_def md5_steps_def)

lemma abc_rounds:
  "foldl (md5_step abc_words) (0x67452301, 0xefcdab89, 0x98badcfe, 0x10325476) md5_steps = (0x310ade8f, 0xc08226b3, 0xe484b9d8, 0x624d8cb2)"
  by (subst md5_steps_rounds) (simp only: foldl_append abc_round1 abc_round2 abc_round3 abc_round4)

lemma abc_digest:
  "rfc_digest [0x61, 0x62, 0x63] =
     [0x90, 0x01, 0x50, 0x98, 0x3c, 0xd2, 0x4f, 0xb0, 0xd6, 0x96, 0x3f, 0x7d, 0x28, 0xe1, 0x7f, 0x72]"
proof -
  have l: "length abc_block = 64" by (simp add: abc_block_def)
  have c: "chunks64 abc_block = [abc_block]" using chunks64_block [OF l, of "[]"] by (simp add: chunks64_short)
  have w: "map (md5_word abc_block) [0..<16] = abc_words" using abc_block_words by (simp add: md5_word_rfc [abs_def])
  show ?thesis
    unfolding rfc_digest_def abc_pad c foldl.simps md5_block_rfc [symmetric] md5_block_def w abc_rounds prod.case
      regs_bytes_rfc [symmetric] regs_bytes_def word_bytes_def
    by simp
qed

text \<open>
  C21. Whatever the pieces a message is fed in, and whatever was in the buffer before, the
  digest is the one the standard defines for the whole message. The standard's side shares
  nothing with the program's but the types: its table of constants, its formulas for the
  steps, its words and its output are its own, and it gives the standard's digest of \<open>abc\<close>.
\<close>

theorem md5_is_rfc1321:
  assumes "length junk = 64"
  shows "fst (md5_finish (fold md5_update pieces (md5_init junk))) = rfc_digest (concat pieces)"
  using md5_finish_digest [OF md5_updates_hold [OF md5_init_holds [OF assms]], of pieces] by simp

theorem md5_is_rfc1321_witness:
  "fst (md5_finish (fold md5_update [[0x61], [0x62, 0x63]] (md5_init (replicate 64 7)))) = rfc_digest [0x61, 0x62, 0x63]"
  using md5_is_rfc1321 [of "replicate 64 7" "[[0x61], [0x62, 0x63]]"] by simp

end
