(* ===== verification/Rpc.thy ===== *)
theory Rpc
  imports DeServ CoSocket Md5
begin

text \<open>
  \<open>co/base/rpc.cc\<close>: a message is a header of eight bytes, the magic number and the length of
  the body in network order, and a JSON text. The server answers the requests of a
  connection one after the other; with a password it first has the client prove it. A
  connection is what arrives on it, what was sent on it and how the kernel takes further
  output. The limits are flags; the text of doubles and their reading are parameters.
\<close>

section \<open>Messages\<close>

record rpc_env =
  re_max_msg_size :: int
  re_max_idle_conn :: int
  re_recv_chunk :: nat
  re_send_chunk :: nat
  re_dtoa :: "rat \<Rightarrow> string"
  re_to_double :: "string \<Rightarrow> rat option"

record conn =
  cn_in :: "arrival list"
  cn_out :: "u8 list"
  cn_departs :: "departure list"

definition byte_chars :: "u8 list \<Rightarrow> string" where
  "byte_chars bs = map (\<lambda>b. char_of (unat b)) bs"

text \<open>\<open>hton32\<close> and back, on bytes.\<close>

definition net_bytes :: "u32 \<Rightarrow> u8 list" where
  "net_bytes w = [ucast (drop_bit 24 w), ucast (drop_bit 16 w), ucast (drop_bit 8 w), ucast w]"

definition net_word :: "u8 list \<Rightarrow> u32" where
  "net_word b =
     push_bit 24 (ucast (b ! 0)) OR push_bit 16 (ucast (b ! 1)) OR push_bit 8 (ucast (b ! 2)) OR ucast (b ! 3)"

definition kMagic :: u32 where "kMagic = 0xbaddad"

definition set_header :: "int \<Rightarrow> u8 list" where
  "set_header msg_len = net_bytes kMagic @ net_bytes (word_of_int msg_len)"

definition header_magic :: "u8 list \<Rightarrow> u32" where
  "header_magic h = net_word (take 4 h)"

definition header_len :: "u8 list \<Rightarrow> int" where
  "header_len h = sint (net_word (drop 4 h))"

definition rpc_frame :: "rpc_env \<Rightarrow> cjson \<Rightarrow> u8 list" where
  "rpc_frame e v = (let body = string_bytes (json2str (re_dtoa e) v) in set_header (int (length body)) @ body)"

datatype conn_end =
    Waiting
  | Client_Closed
  | Idle_Reset
  | Bad_Magic
  | Too_Long
  | Recv_Error
  | Send_Error
  | Parse_Error
  | Auth_Failed

text \<open>
  The body of a message. A negative length passes the test against the limit; converted to
  a size it is more than any memory, and the buffer's assertion fails. A length of 0 reads
  as a closed connection, because \<open>recvn\<close> returns 0.
\<close>

definition recv_body :: "rpc_env \<Rightarrow> int \<Rightarrow> arrival list \<Rightarrow> ((conn_end + cjson) \<times> arrival list) outcome" where
  "recv_body e len as =
     (if len > re_max_msg_size e then Inr (Inl Too_Long, as)
      else if len < 0 then Inl assert_failed
      else case recvn (re_recv_chunk e) (nat len) as of
          (Stopped Closed, as) \<Rightarrow> Inr (Inl Client_Closed, as)
        | (Stopped _, as) \<Rightarrow> Inr (Inl Recv_Error, as)
        | (Got bs, as) \<Rightarrow>
            if len = 0 then Inr (Inl Client_Closed, as)
            else let v = cj_parse (re_to_double e) (byte_chars bs)
              in if is_null v then Inr (Inl Parse_Error, as) else Inr (Inr v, as))"

definition recv_after_header :: "rpc_env \<Rightarrow> u8 list \<Rightarrow> arrival list \<Rightarrow> ((conn_end + cjson) \<times> arrival list) outcome" where
  "recv_after_header e h as =
     (if header_magic h \<noteq> kMagic then Inr (Inl Bad_Magic, as) else recv_body e (header_len h) as)"

text \<open>A message with its header, as the handshake and the client read it: a time-out is an error.\<close>

definition recv_message :: "rpc_env \<Rightarrow> arrival list \<Rightarrow> ((conn_end + cjson) \<times> arrival list) outcome" where
  "recv_message e as =
     (case recvn (re_recv_chunk e) 8 as of
        (Stopped Closed, as) \<Rightarrow> Inr (Inl Client_Closed, as)
      | (Stopped _, as) \<Rightarrow> Inr (Inl Recv_Error, as)
      | (Got h, as) \<Rightarrow> recv_after_header e h as)"

definition send_message :: "rpc_env \<Rightarrow> cjson \<Rightarrow> conn \<Rightarrow> bool \<times> conn" where
  "send_message e v c =
     (case co_send (re_send_chunk e) (rpc_frame e v) (cn_departs c) of
        ((ok, bs), ds) \<Rightarrow> (ok, c\<lparr>cn_out := cn_out c @ bs, cn_departs := ds\<rparr>))"

section \<open>The server\<close>

type_synonym 's service = "cjson \<Rightarrow> cjson \<Rightarrow> 's \<Rightarrow> (cjson \<times> 's) outcome"

lemma read_exactly_shorter:
  "read_exactly (Suc n) s ys = (r, ys') \<Longrightarrow> ys \<noteq> [] \<Longrightarrow> length ys' < length ys"
proof (induction "Suc n" s ys arbitrary: n rule: read_exactly.induct)
  case (3 n s b ys)
  then show ?case
  proof (cases n)
    case (Suc k)
    with 3 show ?thesis by (cases "ys = []") force+
  qed simp
qed simp_all

lemma read_exactly_le: "read_exactly n s ys = (r, ys') \<Longrightarrow> length ys' \<le> length ys"
  by (induction n s ys rule: read_exactly.induct) force+

lemma recvn_shorter:
  "recvn m 8 as = (r, as') \<Longrightarrow> symbols as \<noteq> [] \<Longrightarrow> length (symbols as') < length (symbols as)"
  using recvn_reads [of m 8 as r as'] read_exactly_shorter [of 7 "[]" "symbols as" r "symbols as'"] by simp

lemma recv_body_le: "recv_body e len as = Inr (r, as') \<Longrightarrow> length (symbols as') \<le> length (symbols as)"
proof -
  assume "recv_body e len as = Inr (r, as')"
  moreover obtain q as1 where q: "recvn (re_recv_chunk e) (nat len) as = (q, as1)" by fastforce
  moreover have "length (symbols as1) \<le> length (symbols as)" using recvn_reads [OF q] by (rule read_exactly_le)
  ultimately show ?thesis by (auto simp: recv_body_def Let_def split: if_splits received.splits stop.splits)
qed

lemma recv_after_header_le: "recv_after_header e h as = Inr (r, as') \<Longrightarrow> length (symbols as') \<le> length (symbols as)"
  by (auto simp: recv_after_header_def dest: recv_body_le split: if_splits)

text \<open>
  The loop of \<open>on_connection\<close> with the service behind it. A time-out while the server waits
  for a header, also one in the middle of it, starts the read over. When nothing arrives
  any more the server waits.
\<close>

function serve :: "rpc_env \<Rightarrow> 's service \<Rightarrow> int \<Rightarrow> conn \<Rightarrow> 's \<Rightarrow> (conn_end \<times> conn \<times> 's) outcome" where
  "serve e process conn_num c s =
     (if symbols (cn_in c) = [] then Inr (Waiting, c, s)
      else case recvn (re_recv_chunk e) 8 (cn_in c) of
          (Stopped Closed, as) \<Rightarrow> Inr (Client_Closed, c\<lparr>cn_in := as\<rparr>, s)
        | (Stopped Failed, as) \<Rightarrow> Inr (Recv_Error, c\<lparr>cn_in := as\<rparr>, s)
        | (Stopped Timed_Out, as) \<Rightarrow>
            if conn_num > re_max_idle_conn e then Inr (Idle_Reset, c\<lparr>cn_in := as\<rparr>, s)
            else serve e process conn_num (c\<lparr>cn_in := as\<rparr>) s
        | (Got h, as) \<Rightarrow>
            (case recv_after_header e h as of
               Inl f \<Rightarrow> Inl f
             | Inr (Inl why, as) \<Rightarrow> Inr (why, c\<lparr>cn_in := as\<rparr>, s)
             | Inr (Inr req, as) \<Rightarrow>
                 (case process req CNull s of
                    Inl f \<Rightarrow> Inl f
                  | Inr (res, s) \<Rightarrow>
                      (case send_message e res (c\<lparr>cn_in := as\<rparr>) of
                         (False, c) \<Rightarrow> Inr (Send_Error, c, s)
                       | (True, c) \<Rightarrow> serve e process conn_num (c\<lparr>cn_in := as\<rparr>) s))))"
  by pat_completeness auto
termination
  by (relation "measure (\<lambda>(e, process, conn_num, c, s). length (symbols (cn_in c)))")
    (auto dest!: recvn_shorter [OF sym] recv_after_header_le)

declare serve.simps [simp del]

section \<open>The password\<close>

definition md5_hex :: "string \<Rightarrow> string" where
  "md5_hex s = md5sum (replicate 64 0) (string_bytes s)"

text \<open>The password a server or client keeps is the digest of the one it was given, if any.\<close>

definition kept_password :: "string \<Rightarrow> string" where
  "kept_password passwd = (if passwd = [] then [] else md5_hex passwd)"

definition is_auth :: "cjson \<Rightarrow> bool outcome" where
  "is_auth req = bindR (cj_at ''method'' req) (\<lambda>(x, _). Inr (case x of CString t \<Rightarrow> c_str t = ''auth'' | _ \<Rightarrow> False))"

definition auth_challenge :: "string \<Rightarrow> cjson" where
  "auth_challenge nonce =
     CObject [(''method'', CString ''auth''), (''nonce'', CString nonce), (''err'', CInt 401), (''errmsg'', CString ''401 Unauthorized'')]"

definition auth_result :: "bool \<Rightarrow> cjson" where
  "auth_result ok =
     (if ok then CObject [(''method'', CString ''auth''), (''err'', CInt 200), (''errmsg'', CString ''200 auth ok'')]
      else CObject [(''method'', CString ''auth''), (''err'', CInt 401), (''errmsg'', CString ''401 auth failed'')])"

text \<open>Receiving a request of the handshake that must name the method \<open>auth\<close>.\<close>

definition recv_auth :: "rpc_env \<Rightarrow> conn \<Rightarrow> (cjson option \<times> conn) outcome" where
  "recv_auth e c =
     bindR (recv_message e (cn_in c)) (\<lambda>(r, as).
       let c = c\<lparr>cn_in := as\<rparr>
       in case r of
            Inl why \<Rightarrow> Inr (None, c)
          | Inr req \<Rightarrow> bindR (is_auth req) (\<lambda>ok. Inr (if ok then Some req else None, c)))"

text \<open>\<open>ServerImpl::auth\<close>; \<open>nonce\<close> is the text of the random number drawn for this connection.\<close>

definition server_auth :: "rpc_env \<Rightarrow> string \<Rightarrow> string \<Rightarrow> conn \<Rightarrow> (bool \<times> conn) outcome" where
  "server_auth e passwd nonce c =
     bindR (recv_auth e c) (\<lambda>(r, c).
       if r = None then Inr (False, c)
       else case send_message e (auth_challenge nonce) c of
           (False, c) \<Rightarrow> Inr (False, c)
         | (True, c) \<Rightarrow>
             bindR (recv_auth e c) (\<lambda>(r, c).
               case r of
                 None \<Rightarrow> Inr (False, c)
               | Some req \<Rightarrow>
                   bindR (cj_at ''md5'' req) (\<lambda>(x, _).
                     let ok = (case x of CString t \<Rightarrow> c_str t = md5_hex (passwd @ c_str nonce) | _ \<Rightarrow> False)
                     in case send_message e (auth_result ok) c of
                          (sent, c) \<Rightarrow> Inr (ok \<and> sent, c))))"

text \<open>
  \<open>on_connection\<close>; \<open>conn_num\<close> is the number of connections once this one counts.
\<close>

definition on_connection ::
  "rpc_env \<Rightarrow> 's service \<Rightarrow> string \<Rightarrow> string \<Rightarrow> int \<Rightarrow> conn \<Rightarrow> 's \<Rightarrow> (conn_end \<times> conn \<times> 's) outcome" where
  "on_connection e process passwd nonce conn_num c s =
     (if passwd \<noteq> [] then
        bindR (server_auth e passwd nonce c) (\<lambda>(ok, c).
          if \<not> ok then Inr (Auth_Failed, c, s) else serve e process conn_num c s)
      else serve e process conn_num c s)"

section \<open>The client\<close>

record client =
  cl_conn :: "conn option"
  cl_passwd :: string

text \<open>
  The handshake reads its headers with \<open>recv\<close>: a header that comes in two pieces is used
  although its end was never written.
\<close>

definition recv_loose :: "rpc_env \<Rightarrow> arrival list \<Rightarrow> ((conn_end + cjson) \<times> arrival list) outcome" where
  "recv_loose e as =
     (case co_recv 8 as of
        (Stopped Closed, as) \<Rightarrow> Inr (Inl Client_Closed, as)
      | (Stopped _, as) \<Rightarrow> Inr (Inl Recv_Error, as)
      | (Got h, as) \<Rightarrow> if length h < 8 then Inl Indeterminate else recv_after_header e h as)"

definition auth_request :: "(string \<times> cjson) list" where
  "auth_request = [(''method'', CString ''auth'')]"

definition client_auth :: "rpc_env \<Rightarrow> string \<Rightarrow> conn \<Rightarrow> (bool \<times> conn) outcome" where
  "client_auth e passwd c =
     (case send_message e (CObject auth_request) c of
        (False, c) \<Rightarrow> Inr (False, c)
      | (True, c) \<Rightarrow>
          bindR (recv_loose e (cn_in c)) (\<lambda>(r, as).
            let c = c\<lparr>cn_in := as\<rparr>
            in case r of
                 Inl why \<Rightarrow> Inr (False, c)
               | Inr res \<Rightarrow>
                   bindR (cj_at ''nonce'' res) (\<lambda>(x, _).
                     case x of
                       CString nonce \<Rightarrow>
                         (case send_message e (CObject (auth_request @ [(''md5'', CString (md5_hex (passwd @ c_str nonce)))])) c of
                            (False, c) \<Rightarrow> Inr (False, c)
                          | (True, c) \<Rightarrow>
                              bindR (recv_loose e (cn_in c)) (\<lambda>(r, as).
                                let c = c\<lparr>cn_in := as\<rparr>
                                in case r of
                                     Inl why \<Rightarrow> Inr (False, c)
                                   | Inr res \<Rightarrow>
                                       bindR (cj_at ''err'' res) (\<lambda>(x, _).
                                         Inr (is_int x \<and> get_int32 x = Inr 200, c))))
                     | _ \<Rightarrow> Inr (False, c))))"

text \<open>\<open>fresh\<close> is the connection the system gives on a connect, if it succeeds.\<close>

definition client_connect :: "rpc_env \<Rightarrow> conn option \<Rightarrow> client \<Rightarrow> (bool \<times> client) outcome" where
  "client_connect e fresh cl =
     (if cl_conn cl \<noteq> None then Inr (True, cl)
      else case fresh of
          None \<Rightarrow> Inr (False, cl)
        | Some c \<Rightarrow>
            if cl_passwd cl \<noteq> [] then
              bindR (client_auth e (cl_passwd cl) c) (\<lambda>(ok, c). Inr (ok, cl\<lparr>cl_conn := (if ok then Some c else None)\<rparr>))
            else Inr (True, cl\<lparr>cl_conn := Some c\<rparr>))"

text \<open>A call on a connection; every failure closes it.\<close>

definition call_on :: "rpc_env \<Rightarrow> cjson \<Rightarrow> cjson \<Rightarrow> conn \<Rightarrow> (cjson \<times> conn option) outcome" where
  "call_on e req res c =
     (case send_message e req c of
        (False, c) \<Rightarrow> Inr (res, None)
      | (True, c) \<Rightarrow>
          bindR (recv_message e (cn_in c)) (\<lambda>(r, as).
            case r of
              Inl why \<Rightarrow> Inr (if why = Parse_Error then CNull else res, None)
            | Inr v \<Rightarrow> Inr (v, Some (c\<lparr>cn_in := as\<rparr>))))"

definition client_call :: "rpc_env \<Rightarrow> conn option \<Rightarrow> cjson \<Rightarrow> cjson \<Rightarrow> client \<Rightarrow> (cjson \<times> client) outcome" where
  "client_call e fresh req res cl =
     bindR (client_connect e fresh cl) (\<lambda>(ok, cl).
       case cl_conn cl of
         None \<Rightarrow> Inr (res, cl)
       | Some c \<Rightarrow> bindR (call_on e req res c) (\<lambda>(res, k). Inr (res, cl\<lparr>cl_conn := k\<rparr>)))"

definition client_ping :: "rpc_env \<Rightarrow> conn option \<Rightarrow> client \<Rightarrow> client outcome" where
  "client_ping e fresh cl = bindR (client_call e fresh (CObject [(''method'', CString ''ping'')]) CNull cl) (\<lambda>(_, cl). Inr cl)"

section \<open>Random numbers\<close>

text \<open>\<open>co/base/random.h\<close>: the generator behind the nonces.\<close>

definition random_new :: "u32 \<Rightarrow> u32" where
  "random_new seed = (let s = seed AND 0x7fffffff in if s = 0 \<or> s = 2147483647 then 1 else s)"

definition random_next :: "u32 \<Rightarrow> u32" where
  "random_next seed =
     (let p = (ucast seed :: u64) * 16385; s = (ucast (drop_bit 31 p + (p AND 2147483647)) :: u32)
      in if s > 2147483647 then s - 2147483647 else s)"

section \<open>Facts: messages\<close>

lemma net_word_bytes: "net_word (net_bytes w) = w"
proof (rule bit_word_eqI)
  fix n assume n: "n < LENGTH(32)"
  then consider "n < 8" | "8 \<le> n" "n < 16" | "16 \<le> n" "n < 24" | "24 \<le> n" "n < 32" by fastforce
  then show "bit (net_word (net_bytes w)) n = bit w n"
    by cases (auto simp: net_word_def net_bytes_def bit_simps)
qed

lemma net_bytes_length [simp]: "length (net_bytes w) = 4"
  by (simp add: net_bytes_def)

lemma set_header_length [simp]: "length (set_header n) = 8"
  by (simp add: set_header_def)

lemma header_magic_set [simp]: "header_magic (set_header n) = kMagic"
  by (simp add: header_magic_def set_header_def net_word_bytes)

lemma header_len_set: "- (2 ^ 31) \<le> n \<Longrightarrow> n < 2 ^ 31 \<Longrightarrow> header_len (set_header n) = n"
  by (simp add: header_len_def set_header_def net_word_bytes sint_sbintrunc' signed_take_bit_int_eq_self)

lemma byte_chars_string [simp]: "byte_chars (string_bytes s) = s"
proof -
  have "char_of (unat (of_char c :: u8)) = c" for c
  proof -
    have "unat (of_char c :: u8) = of_char c"
    proof -
      have "(of_char c :: u8) = of_nat (of_char c)" by (simp only: of_nat_of_char)
      moreover have "(of_char c :: nat) mod 256 = of_char c" by (rule of_char_mod_256)
      ultimately show ?thesis using unat_of_nat [of "of_char c", where 'a = 8] by simp
    qed
    then show ?thesis by simp
  qed
  then show ?thesis by (simp add: byte_chars_def string_bytes_def comp_def)
qed

text \<open>A message that fits: a container the parser reads back, within the limit.\<close>

definition fits :: "rpc_env \<Rightarrow> cjson \<Rightarrow> bool" where
  "fits e v \<longleftrightarrow> cj_message (re_dtoa e) (re_to_double e) v \<and>
     int (length (json2str (re_dtoa e) v)) \<le> re_max_msg_size e \<and> length (json2str (re_dtoa e) v) < 2 ^ 31"

lemma fits_text:
  assumes "fits e v"
  shows "cj_parse (re_to_double e) (json2str (re_dtoa e) v) = v" "\<not> is_null v" "json2str (re_dtoa e) v \<noteq> []"
proof -
  have m: "cj_message (re_dtoa e) (re_to_double e) v" using assms by (simp add: fits_def)
  from cj_read_back [OF m] show "cj_parse (re_to_double e) (json2str (re_dtoa e) v) = v"
    by (auto simp: cj_read_def cj_parse_def split: option.splits)
  show "\<not> is_null v" using m by (auto simp: cj_message_def is_null_def is_object_def is_array_def)
  show "json2str (re_dtoa e) v \<noteq> []" using json2str_container [of v "re_dtoa e"] m by (auto simp: cj_message_def)
qed

lemma recvn_bytes:
  assumes "symbols as = map Byte bs @ ys" "length bs = n"
  obtains as' where "recvn m n as = (Got bs, as')" "symbols as' = ys"
proof -
  obtain r as' where r: "recvn m n as = (r, as')" by fastforce
  from recvn_reads [OF r] assms have "r = Got bs \<and> symbols as' = ys" by (simp add: read_exactly_bytes)
  with r that show thesis by simp
qed

lemma recv_body_fits:
  assumes "fits e v" "symbols as = map Byte (string_bytes (json2str (re_dtoa e) v)) @ ys"
  obtains as' where "recv_body e (int (length (json2str (re_dtoa e) v))) as = Inr (Inr v, as')" "symbols as' = ys"
proof -
  let ?s = "json2str (re_dtoa e) v"
  obtain as' where r: "recvn (re_recv_chunk e) (length ?s) as = (Got (string_bytes ?s), as')" "symbols as' = ys"
    using recvn_bytes [OF assms(2), of "length ?s"] by (auto simp: string_bytes_def)
  have "recv_body e (int (length ?s)) as = Inr (Inr v, as')"
    using assms(1) r(1) fits_text [OF assms(1)] by (simp add: recv_body_def fits_def)
  with r(2) that show thesis by simp
qed

lemma frame_split: "rpc_frame e v = set_header (int (length (json2str (re_dtoa e) v))) @ string_bytes (json2str (re_dtoa e) v)"
  by (simp add: rpc_frame_def Let_def string_bytes_def)

lemma recv_frame_header:
  assumes "symbols as = map Byte (rpc_frame e v) @ ys"
  obtains as' where "recvn m 8 as = (Got (set_header (int (length (json2str (re_dtoa e) v)))), as')"
    "symbols as' = map Byte (string_bytes (json2str (re_dtoa e) v)) @ ys"
proof -
  have "symbols as = map Byte (set_header (int (length (json2str (re_dtoa e) v)))) @
    (map Byte (string_bytes (json2str (re_dtoa e) v)) @ ys)"
    using assms by (simp add: frame_split)
  from recvn_bytes [OF this set_header_length] that show thesis by blast
qed

lemma recv_frame_body:
  assumes "fits e v" "symbols as = map Byte (string_bytes (json2str (re_dtoa e) v)) @ ys"
  obtains as' where "recv_after_header e (set_header (int (length (json2str (re_dtoa e) v)))) as = Inr (Inr v, as')" "symbols as' = ys"
proof -
  have "header_len (set_header (int (length (json2str (re_dtoa e) v)))) = int (length (json2str (re_dtoa e) v))"
    using assms(1) by (intro header_len_set) (simp_all add: fits_def)
  with recv_body_fits [OF assms] that show thesis by (auto simp: recv_after_header_def)
qed

lemma recv_message_frame:
  assumes "fits e v" "symbols as = map Byte (rpc_frame e v) @ ys"
  obtains as' where "recv_message e as = Inr (Inr v, as')" "symbols as' = ys"
proof -
  let ?n = "int (length (json2str (re_dtoa e) v))"
  obtain as1 where r: "recvn (re_recv_chunk e) 8 as = (Got (set_header ?n), as1)"
    "symbols as1 = map Byte (string_bytes (json2str (re_dtoa e) v)) @ ys"
    using recv_frame_header [OF assms(2)] by blast
  from recv_frame_body [OF assms(1) r(2)] r(1) that show thesis by (auto simp: recv_message_def)
qed

lemma co_send_idle: "co_send m s [] = ((True, s), [])"
proof -
  have "send_chunks m sent s [] = ((True, sent @ s), [])" for sent
  proof (induction m sent s "[] :: departure list" rule: send_chunks.induct)
    case (1 m sent s)
    then show ?case by (subst send_chunks.simps) simp
  qed
  then show ?thesis by (simp add: co_send_def)
qed

lemma send_message_idle:
  "cn_departs c = [] \<Longrightarrow> send_message e v c = (True, c\<lparr>cn_out := cn_out c @ rpc_frame e v, cn_departs := []\<rparr>)"
  by (simp add: send_message_def co_send_idle)

lemma serve_one:
  assumes "fits e v" "symbols (cn_in c) = map Byte (rpc_frame e v) @ ys" "cn_departs c = []" "process v CNull s = Inr (res, s1)"
  obtains as where "symbols as = ys"
    "serve e process n c s = serve e process n (c\<lparr>cn_in := as, cn_out := cn_out c @ rpc_frame e res\<rparr>) s1"
proof -
  let ?n = "int (length (json2str (re_dtoa e) v))"
  obtain as1 where r: "recvn (re_recv_chunk e) 8 (cn_in c) = (Got (set_header ?n), as1)"
    "symbols as1 = map Byte (string_bytes (json2str (re_dtoa e) v)) @ ys"
    using recv_frame_header [OF assms(2)] by blast
  obtain as where a: "recv_after_header e (set_header ?n) as1 = Inr (Inr v, as)" "symbols as = ys"
    using recv_frame_body [OF assms(1) r(2)] by blast
  have k: "c\<lparr>cn_out := cn_out c @ rpc_frame e res, cn_departs := [], cn_in := as\<rparr> = c\<lparr>cn_in := as, cn_out := cn_out c @ rpc_frame e res\<rparr>"
    using assms(3) by (cases c) simp
  have ne: "symbols (cn_in c) \<noteq> []" using assms(2) by (auto simp: frame_split set_header_def net_bytes_def)
  have "serve e process n c s = serve e process n (c\<lparr>cn_out := cn_out c @ rpc_frame e res, cn_departs := [], cn_in := as\<rparr>) s1"
    using ne r(1) a(1) assms(3,4) by (subst serve.simps) (simp add: send_message_idle)
  then have "serve e process n c s = serve e process n (c\<lparr>cn_in := as, cn_out := cn_out c @ rpc_frame e res\<rparr>) s1"
    unfolding k .
  with a(2) that show thesis by blast
qed

section \<open>The service\<close>

text \<open>
  What the server relies on: a service answers an object with an object, so that the reply
  is a text the other side can parse.
\<close>

locale rpc_service =
  fixes process :: "cjson \<Rightarrow> cjson \<Rightarrow> 's \<Rightarrow> (cjson \<times> 's) outcome"
  assumes object_reply: "process (CObject ms) CNull s = Inr (res, s') \<Longrightarrow> is_object res"
begin

lemma reply_parses:
  assumes "process (CObject ms) CNull s = Inr (res, s')" "cj_ok dt td res"
  shows "cj_read td (json2str dt res) = Inr res"
  using object_reply [OF assms(1)] assms(2) by (intro cj_read_back) (simp add: cj_message_def)

end

text \<open>Every reply is an object, whatever the branch: a property of the value of an outcome, if it has one.\<close>

definition yields :: "('a \<Rightarrow> bool) \<Rightarrow> 'a outcome \<Rightarrow> bool" where
  "yields P r \<longleftrightarrow> (case r of Inl _ \<Rightarrow> True | Inr v \<Rightarrow> P v)"

lemma yields_simps [simp]: "yields P (Inl f)" "yields P (Inr v) = P v"
  by (simp_all add: yields_def)

lemma yields_bind: "(\<And>v. r = Inr v \<Longrightarrow> yields P (f v)) \<Longrightarrow> yields P (bindR r f)"
  by (cases r) (simp_all add: yields_def)

lemma yieldsD: "yields P r \<Longrightarrow> r = Inr v \<Longrightarrow> P v"
  by simp

abbreviation object_result :: "cjson \<times> 's \<Rightarrow> bool" where
  "object_result p \<equiv> is_object (fst p)"

lemma copy_member_object:
  "copy_member key req res = Inr (req', res') \<Longrightarrow> is_object res \<or> res = CNull \<Longrightarrow> \<exists>rs. res' = CObject rs"
  by (auto simp: copy_member_def bindR_eq_Inr add_member_def is_object_def split: cjson.splits)

lemma yields_copies:
  assumes "\<And>req rs. yields P (f (req, CObject rs))"
  shows "yields P (bindR (copy_member a req CNull) (\<lambda>(req, res). bindR (copy_member b req res) f))"
proof (rule yields_bind)
  fix v assume v: "copy_member a req CNull = Inr v"
  obtain q res where "v = (q, res)" by fastforce
  with v copy_member_object [of a req CNull q res] obtain rs where vs: "v = (q, CObject rs)" by auto
  have "yields P (bindR (copy_member b q (CObject rs)) f)"
  proof (rule yields_bind)
    fix w assume w: "copy_member b q (CObject rs) = Inr w"
    obtain q' res' where "w = (q', res')" by fastforce
    with w copy_member_object [of b q "CObject rs" q' res'] obtain rs' where "w = (q', CObject rs')"
      by (auto simp: is_object_def)
    then show "yields P (f w)" using assms by simp
  qed
  with vs show "yields P (case v of (req, res) \<Rightarrow> bindR (copy_member b req res) f)" by simp
qed

lemma is_object_CObject [simp]: "is_object (CObject ms)"
  by (simp add: is_object_def)

lemma start_task_object: "yields object_result (start_task dv content ip (CObject rs) s)"
  by (simp add: start_task_def Let_def split: prod.split)

lemma set_egbd_task_object: "yields object_result (set_egbd_task dv req CNull s)"
  unfolding set_egbd_task_def
  by (rule yields_copies) (auto intro!: yields_bind start_task_object split: prod.split)

lemma get_key_frame_object: "yields object_result (get_key_frame req CNull s)"
  unfolding get_key_frame_def
  by (rule yields_copies) (auto intro!: yields_bind split: prod.split option.split)

lemma set_border_info_object: "yields object_result (set_border_info dv req CNull s)"
  unfolding set_border_info_def Let_def
  by (rule yields_copies) (auto intro!: yields_bind split: prod.split option.split)

lemma run_method_object: "yields object_result (run_method dv f req CNull s)"
  by (cases f) (simp_all add: set_egbd_task_object get_key_frame_object set_border_info_object)

lemma de_process_object: "yields object_result (de_process dv req CNull s)"
  unfolding de_process_def
  by (auto intro!: yields_bind run_method_object simp: reply_err_def split: prod.split cjson.split option.split)

interpretation de_service: rpc_service "de_process dv"
  by unfold_locales (use yieldsD [OF de_process_object] in fastforce)

end
