(* ===== verification/RpcSession.thy ===== *)
theory RpcSession
  imports Rpc
begin

text \<open>
  What the server and the client of \<open>co/base/rpc.cc\<close> give each other: a session of calls is
  the service applied to the requests in order, the handshake lets in who has the password
  and nobody else, and the ways a connection breaks.
\<close>

section \<open>A session\<close>

text \<open>The service alone, on a list of requests.\<close>

fun run_service :: "'s service \<Rightarrow> cjson list \<Rightarrow> 's \<Rightarrow> (cjson list \<times> 's) outcome" where
  "run_service process [] s = Inr ([], s)"
| "run_service process (v # vs) s =
     bindR (process v CNull s) (\<lambda>(res, s). bindR (run_service process vs s) (\<lambda>(rs, s). Inr (res # rs, s)))"

text \<open>A client that makes one call after the other.\<close>

fun call_all :: "rpc_env \<Rightarrow> cjson list \<Rightarrow> client \<Rightarrow> (cjson list \<times> client) outcome" where
  "call_all e [] cl = Inr ([], cl)"
| "call_all e (v # vs) cl =
     bindR (client_call e None v CNull cl) (\<lambda>(res, cl). bindR (call_all e vs cl) (\<lambda>(rs, cl). Inr (res # rs, cl)))"

text \<open>The bytes of some messages, and as they arrive when the sender waits before each of them.\<close>

definition frames :: "rpc_env \<Rightarrow> cjson list \<Rightarrow> u8 list" where
  "frames e vs = concat (map (rpc_frame e) vs)"

fun unhurried :: "rpc_env \<Rightarrow> nat list \<Rightarrow> cjson list \<Rightarrow> symbol list" where
  "unhurried e (k # ks) (v # vs) = replicate k (Stop Timed_Out) @ map Byte (rpc_frame e v) @ unhurried e ks vs"
| "unhurried e _ _ = []"

lemma recvn_stop:
  assumes "symbols as = Stop why # ys" "n > 0"
  obtains as' where "recvn m n as = (Stopped why, as')" "symbols as' = ys"
proof -
  obtain r as' where r: "recvn m n as = (r, as')" by fastforce
  have "read_exactly n [] (symbols as) = (Stopped why, ys)" using assms by (cases n) simp_all
  with recvn_reads [OF r] r that show thesis by simp
qed

lemma serve_idle:
  assumes "symbols (cn_in c) = Stop Timed_Out # ys" "n \<le> re_max_idle_conn e"
  obtains as where "symbols as = ys" "serve e process n c s = serve e process n (c\<lparr>cn_in := as\<rparr>) s"
proof -
  obtain as where r: "recvn (re_recv_chunk e) 8 (cn_in c) = (Stopped Timed_Out, as)" "symbols as = ys"
    using recvn_stop [OF assms(1), where n = 8 and m = "re_recv_chunk e"] by auto
  moreover have "serve e process n c s = serve e process n (c\<lparr>cn_in := as\<rparr>) s"
    using assms r by (subst serve.simps) simp
  ultimately show thesis using that by blast
qed

lemma serve_idles:
  assumes "symbols (cn_in c) = replicate k (Stop Timed_Out) @ ys" "n \<le> re_max_idle_conn e"
  shows "\<exists>as. symbols as = ys \<and> serve e process n c s = serve e process n (c\<lparr>cn_in := as\<rparr>) s"
  using assms(1)
proof (induction k arbitrary: c)
  case (Suc k)
  then obtain as where a: "symbols as = replicate k (Stop Timed_Out) @ ys"
    "serve e process n c s = serve e process n (c\<lparr>cn_in := as\<rparr>) s"
    using serve_idle [of c "replicate k (Stop Timed_Out) @ ys" n e process s] assms(2) by auto
  with Suc.IH [of "c\<lparr>cn_in := as\<rparr>"] show ?case by auto
qed (auto intro: exI [of _ "cn_in c"])

lemma serve_session:
  assumes "list_all (fits e) reqs" "length ks = length reqs" "n \<le> re_max_idle_conn e"
    and "symbols (cn_in c) = unhurried e ks reqs @ ys" "cn_departs c = []"
    and "run_service process reqs s = Inr (rs, s')"
  shows "\<exists>as. symbols as = ys \<and>
    serve e process n c s = serve e process n (c\<lparr>cn_in := as, cn_out := cn_out c @ frames e rs\<rparr>) s'"
  using assms
proof (induction reqs arbitrary: ks c s rs)
  case Nil
  then show ?case by (auto simp: frames_def intro: exI [of _ "cn_in c"])
next
  case (Cons v vs)
  then obtain k ks' where k: "ks = k # ks'" by (cases ks) auto
  from Cons.prems(6) obtain res s1 rs' where p: "process v CNull s = Inr (res, s1)"
    "run_service process vs s1 = Inr (rs', s')" "rs = res # rs'"
    by (auto simp: bindR_eq_Inr)
  obtain as1 where a: "symbols as1 = map Byte (rpc_frame e v) @ unhurried e ks' vs @ ys"
    "serve e process n c s = serve e process n (c\<lparr>cn_in := as1\<rparr>) s"
    using serve_idles [of c k "map Byte (rpc_frame e v) @ unhurried e ks' vs @ ys" n e process s] Cons.prems(3,4) k by auto
  obtain as2 where b: "symbols as2 = unhurried e ks' vs @ ys"
    "serve e process n (c\<lparr>cn_in := as1\<rparr>) s = serve e process n (c\<lparr>cn_in := as2, cn_out := cn_out c @ rpc_frame e res\<rparr>) s1"
    using serve_one [of e v "c\<lparr>cn_in := as1\<rparr>" "unhurried e ks' vs @ ys" process s res s1 n] a(1) Cons.prems(1,5) p(1) by auto
  from Cons.IH [of ks' "c\<lparr>cn_in := as2, cn_out := cn_out c @ rpc_frame e res\<rparr>" s1 rs'] Cons.prems k b(1) p(2)
  show ?case unfolding a(2) b(2) p(3) by (simp add: frames_def)
qed

lemma serve_closed:
  assumes "symbols (cn_in c) = [Stop Closed]"
  shows "\<exists>as. serve e process n c s = Inr (Client_Closed, c\<lparr>cn_in := as\<rparr>, s)"
proof -
  obtain as where "recvn (re_recv_chunk e) 8 (cn_in c) = (Stopped Closed, as)"
    using recvn_stop [OF assms, where n = 8 and m = "re_recv_chunk e"] by auto
  then show ?thesis using assms by (subst serve.simps) auto
qed

lemma call_on_reply:
  assumes "fits e reply" "symbols (cn_in c) = map Byte (rpc_frame e reply) @ ys" "cn_departs c = []"
  shows "\<exists>as. symbols as = ys \<and> call_on e req res c = Inr (reply, Some (c\<lparr>cn_in := as, cn_out := cn_out c @ rpc_frame e req\<rparr>))"
proof -
  obtain as where a: "recv_message e (cn_in c) = Inr (Inr reply, as)" "symbols as = ys"
    using recv_message_frame [OF assms(1,2)] by blast
  have "c\<lparr>cn_out := cn_out c @ rpc_frame e req, cn_departs := [], cn_in := as\<rparr> = c\<lparr>cn_in := as, cn_out := cn_out c @ rpc_frame e req\<rparr>"
    using assms(3) by (cases c) simp
  with a assms(3) show ?thesis by (auto simp: call_on_def send_message_idle)
qed

lemma call_all_replies:
  assumes "list_all (fits e) rs" "length reqs = length rs" "cl_conn cl = Some c"
    and "symbols (cn_in c) = map Byte (frames e rs) @ ys" "cn_departs c = []"
  shows "\<exists>as. symbols as = ys \<and>
    call_all e reqs cl = Inr (rs, cl\<lparr>cl_conn := Some (c\<lparr>cn_in := as, cn_out := cn_out c @ frames e reqs\<rparr>)\<rparr>)"
  using assms
proof (induction rs arbitrary: reqs cl c)
  case Nil
  then show ?case by (cases cl) (auto simp: frames_def intro!: exI [of _ "cn_in c"])
next
  case (Cons r rs)
  then obtain v vs where v: "reqs = v # vs" by (cases reqs) auto
  obtain as where a: "symbols as = map Byte (frames e rs) @ ys"
    "call_on e v CNull c = Inr (r, Some (c\<lparr>cn_in := as, cn_out := cn_out c @ rpc_frame e v\<rparr>))"
    using call_on_reply [of e r c "map Byte (frames e rs) @ ys" v CNull] Cons.prems by (auto simp: frames_def)
  then have "client_call e None v CNull cl = Inr (r, cl\<lparr>cl_conn := Some (c\<lparr>cn_in := as, cn_out := cn_out c @ rpc_frame e v\<rparr>)\<rparr>)"
    using Cons.prems(3) by (simp add: client_call_def client_connect_def)
  moreover from Cons.IH [of vs "cl\<lparr>cl_conn := Some (c\<lparr>cn_in := as, cn_out := cn_out c @ rpc_frame e v\<rparr>)\<rparr>"
      "c\<lparr>cn_in := as, cn_out := cn_out c @ rpc_frame e v\<rparr>"] Cons.prems v a(1)
  obtain as' where "symbols as' = ys"
    "call_all e vs (cl\<lparr>cl_conn := Some (c\<lparr>cn_in := as, cn_out := cn_out c @ rpc_frame e v\<rparr>)\<rparr>) =
      Inr (rs, cl\<lparr>cl_conn := Some (c\<lparr>cn_in := as', cn_out := (cn_out c @ rpc_frame e v) @ frames e vs\<rparr>)\<rparr>)"
    by auto
  ultimately show ?case using v by (auto simp: frames_def)
qed

lemma run_service_length: "run_service process reqs s = Inr (rs, s') \<Longrightarrow> length rs = length reqs"
  by (induction reqs arbitrary: s rs) (auto simp: bindR_eq_Inr)

text \<open>
  C2. A session of calls is the service itself: when what the client writes is what the
  server reads, in any pieces and with any waiting before a request, and what the server
  writes is what the client reads, then each call returns the reply of the service to its
  request, in the state the earlier requests left, and the server ends in the service's
  last state when the client goes.
\<close>

theorem session_is_local_service:
  assumes "run_service process reqs s = Inr (replies, s')" "list_all (fits e) reqs" "list_all (fits e) replies"
    and "length waits = length reqs" "n \<le> re_max_idle_conn e"
    and "symbols (cn_in cs) = unhurried e waits reqs @ [Stop Closed]" "cn_departs cs = []"
    and "cl_conn cl = Some cc" "symbols (cn_in cc) = map Byte (frames e replies)" "cn_departs cc = []"
  shows "\<exists>cs' cl' cc'. serve e process n cs s = Inr (Client_Closed, cs', s') \<and> cn_out cs' = cn_out cs @ frames e replies \<and>
    call_all e reqs cl = Inr (replies, cl') \<and> cl_conn cl' = Some cc' \<and> cn_out cc' = cn_out cc @ frames e reqs"
proof -
  obtain as where a: "symbols as = [Stop Closed]"
    "serve e process n cs s = serve e process n (cs\<lparr>cn_in := as, cn_out := cn_out cs @ frames e replies\<rparr>) s'"
    using serve_session [OF assms(2,4,5,6,7,1)] by blast
  then obtain cs' where "serve e process n cs s = Inr (Client_Closed, cs', s')" "cn_out cs' = cn_out cs @ frames e replies"
    using serve_closed [of "cs\<lparr>cn_in := as, cn_out := cn_out cs @ frames e replies\<rparr>" e process n s'] by auto
  moreover obtain as'' where
    "call_all e reqs cl = Inr (replies, cl\<lparr>cl_conn := Some (cc\<lparr>cn_in := as'', cn_out := cn_out cc @ frames e reqs\<rparr>)\<rparr>)"
    using call_all_replies [of e replies reqs cl cc "[]"] assms(3,8-10) run_service_length [OF assms(1)] by auto
  ultimately show ?thesis by auto
qed

definition sample_env :: rpc_env where
  "sample_env = \<lparr>re_max_msg_size = 8388608, re_max_idle_conn = 1024, re_recv_chunk = 1048576, re_send_chunk = 1048576,
     re_dtoa = (\<lambda>_. ''0.5''), re_to_double = (\<lambda>_. None)\<rparr>"

abbreviation no_method :: cjson where
  "no_method \<equiv> CObject [(''err'', CInt 400), (''errmsg'', CString ''400 req has no method'')]"

lemma de_process_no_method:
  "de_process sample_device (CObject [(''x'', CInt i)]) CNull s = Inr (no_method, s)"
  by (simp add: de_process_def cj_at_def reply_err_def)

lemma sample_fits: "fits sample_env (CObject [(''x'', CInt 1)])" "fits sample_env no_method"
  by (simp_all add: fits_def sample_env_def cj_message_def is_object_def key_ok_def no_nul_def key_text_def dec_int_def
      dec_nat.simps string_text_def c_str_def escaped_def)

theorem session_is_local_service_witness:
  "\<exists>cs' cl' cc'. serve sample_env (de_process sample_device) 1
      \<lparr>cn_in = [Stops Timed_Out, Bytes (rpc_frame sample_env (CObject [(''x'', CInt 1)])), Became_Ready, Stops Closed],
       cn_out = [], cn_departs = []\<rparr> sample_serv = Inr (Client_Closed, cs', sample_serv) \<and>
    cn_out cs' = [] @ frames sample_env [no_method] \<and>
    call_all sample_env [CObject [(''x'', CInt 1)]]
      \<lparr>cl_conn = Some \<lparr>cn_in = [Bytes (rpc_frame sample_env no_method)], cn_out = [], cn_departs = []\<rparr>, cl_passwd = []\<rparr> =
      Inr ([no_method], cl') \<and>
    cl_conn cl' = Some cc' \<and> cn_out cc' = [] @ frames sample_env [CObject [(''x'', CInt 1)]]"
  using session_is_local_service [of "de_process sample_device" "[CObject [(''x'', CInt 1)]]" sample_serv "[no_method]" sample_serv
      sample_env "[1]" 1 "\<lparr>cn_in = [Stops Timed_Out, Bytes (rpc_frame sample_env (CObject [(''x'', CInt 1)])), Became_Ready, Stops Closed],
       cn_out = [], cn_departs = []\<rparr>"
      "\<lparr>cl_conn = Some \<lparr>cn_in = [Bytes (rpc_frame sample_env no_method)], cn_out = [], cn_departs = []\<rparr>, cl_passwd = []\<rparr>"]
  using de_process_no_method [of 1 sample_serv] sample_fits
  by (simp add: frames_def sample_env_def [THEN arg_cong [of _ _ re_max_idle_conn]])

section \<open>The handshake\<close>

lemma string_text_length: "length (string_text s) \<le> 2 * length s + 2"
proof -
  have "length (concat (map escape_char t)) \<le> 2 * length t" for t
    by (induction t) (auto simp: escape_char_def)
  moreover have "length (c_str s) \<le> length s" by (simp add: c_str_def length_takeWhile_le)
  ultimately have "length (concat (map escape_char (c_str s))) \<le> 2 * length s"
    by (meson le_trans mult_le_mono2)
  then show ?thesis by (simp add: string_text_def)
qed

lemma hex_byte_text: "length (hex_byte b) = 2" "no_nul (hex_byte b)"
proof -
  have "list_all (\<lambda>k. digit_char k \<noteq> CHR 0x00) [0..<16]" by code_simp
  then have "digit_char k \<noteq> CHR 0x00" if "k < 16" for k using that by (auto simp: list_all_iff)
  moreover have "unat (drop_bit 4 b) < 16"
    using unsigned_less [where 'a = nat, of b] unfolding unat_drop_bit_eq by (simp add: drop_bit_eq_div less_mult_imp_div_less)
  moreover have "unat (b AND 0x0f) < 16"
  proof -
    have "b AND 0x0f = take_bit 4 b" by (simp add: take_bit_eq_mask mask_numeral)
    then show ?thesis unfolding \<open>_ = take_bit 4 b\<close> unsigned_take_bit_eq by (simp add: take_bit_eq_mod)
  qed
  ultimately show "length (hex_byte b) = 2" "no_nul (hex_byte b)" by (simp_all add: hex_byte_def no_nul_def)
qed

lemma md5_hex_text: "length (md5_hex s) = 32" "no_nul (md5_hex s)"
proof -
  have l: "length (concat (map hex_byte bs)) = 2 * length bs" "no_nul (concat (map hex_byte bs))" for bs
    by (induction bs) (simp_all add: hex_byte_text, simp_all add: no_nul_def hex_byte_text(2) [unfolded no_nul_def])
  have "length (fst (md5_finish c)) = 16" for c
    by (simp add: md5_finish_def Let_def regs_bytes_def word_bytes_def split: prod.split)
  then show "length (md5_hex s) = 32" "no_nul (md5_hex s)" by (simp_all add: md5_hex_def md5sum_def l)
qed

text \<open>The messages of the handshake are read back when the limit is not absurdly low.\<close>

definition roomy :: "rpc_env \<Rightarrow> bool" where
  "roomy e \<longleftrightarrow> re_max_msg_size e \<ge> 1024"

definition auth_answer :: "string \<Rightarrow> string \<Rightarrow> cjson" where
  "auth_answer passwd nonce = CObject (auth_request @ [(''md5'', CString (md5_hex (passwd @ nonce)))])"

lemmas message_simps =
  fits_def roomy_def cj_message_def is_object_def key_ok_def no_nul_def key_text_def dec_int_def dec_nat.simps

lemma fits_request: "roomy e \<Longrightarrow> fits e (CObject auth_request)"
  using string_text_length [of "''auth''"] by (simp add: message_simps auth_request_def)

lemma fits_answer: "roomy e \<Longrightarrow> fits e (auth_answer passwd nonce)"
  using string_text_length [of "''auth''"] string_text_length [of "md5_hex (passwd @ nonce)"]
    md5_hex_text [of "passwd @ nonce", unfolded no_nul_def]
  by (simp add: message_simps auth_answer_def auth_request_def)

lemma fits_challenge: "roomy e \<Longrightarrow> no_nul nonce \<Longrightarrow> length nonce \<le> 100 \<Longrightarrow> fits e (auth_challenge nonce)"
  using string_text_length [of "''auth''"] string_text_length [of nonce] string_text_length [of "''401 Unauthorized''"]
  by (simp add: message_simps auth_challenge_def)

lemma fits_result: "roomy e \<Longrightarrow> fits e (auth_result ok)"
  using string_text_length [of "''auth''"] string_text_length [of "''200 auth ok''"] string_text_length [of "''401 auth failed''"]
  by (simp add: message_simps auth_result_def)

lemma recv_auth_frame:
  assumes "fits e v" "symbols (cn_in c) = map Byte (rpc_frame e v) @ ys" "is_auth v = Inr True"
  obtains as where "symbols as = ys" "recv_auth e c = Inr (Some v, c\<lparr>cn_in := as\<rparr>)"
proof -
  obtain as where "recv_message e (cn_in c) = Inr (Inr v, as)" "symbols as = ys"
    using recv_message_frame [OF assms(1,2)] by blast
  with that assms(3) show thesis by (simp add: recv_auth_def)
qed

lemma is_auth_messages: "is_auth (CObject auth_request) = Inr True" "is_auth (auth_answer passwd nonce) = Inr True"
  by (simp_all add: is_auth_def auth_request_def auth_answer_def cj_at_def c_str_def)

lemma server_auth_answers:
  assumes "roomy e" "no_nul nonce" "length nonce \<le> 100" "cn_departs c = []"
    and "symbols (cn_in c) = map Byte (frames e [CObject auth_request, auth_answer cp nonce]) @ ys"
    and "ok = (md5_hex (cp @ nonce) = md5_hex (sp @ nonce))"
  shows "\<exists>c'. server_auth e sp nonce c = Inr (ok, c') \<and> symbols (cn_in c') = ys \<and> cn_departs c' = [] \<and>
    cn_out c' = cn_out c @ frames e [auth_challenge nonce, auth_result ok]"
proof -
  obtain as1 where r1: "symbols as1 = map Byte (rpc_frame e (auth_answer cp nonce)) @ ys"
    "recv_auth e c = Inr (Some (CObject auth_request), c\<lparr>cn_in := as1\<rparr>)"
    using recv_auth_frame [OF fits_request [OF assms(1)], of c "map Byte (rpc_frame e (auth_answer cp nonce)) @ ys"]
      assms(5) is_auth_messages by (auto simp: frames_def)
  define c2 where "c2 = c\<lparr>cn_in := as1, cn_out := cn_out c @ rpc_frame e (auth_challenge nonce), cn_departs := []\<rparr>"
  obtain as2 where r2: "symbols as2 = ys" "recv_auth e c2 = Inr (Some (auth_answer cp nonce), c2\<lparr>cn_in := as2\<rparr>)"
    using recv_auth_frame [OF fits_answer [OF assms(1)], of c2 cp nonce ys] r1(1) is_auth_messages by (auto simp: c2_def)
  have m: "cj_at ''md5'' (auth_answer cp nonce) = Inr (CString (md5_hex (cp @ nonce)), auth_answer cp nonce)"
    by (simp add: cj_at_def auth_answer_def auth_request_def)
  have "server_auth e sp nonce c =
    Inr (ok, c2\<lparr>cn_in := as2, cn_out := cn_out c2 @ rpc_frame e (auth_result ok), cn_departs := []\<rparr>)"
    using r1(2) r2(2) m assms(2,4,6) md5_hex_text(2) [of "cp @ nonce"]
    by (simp add: server_auth_def send_message_idle c2_def Let_def)
  then show ?thesis using r2(1) by (simp add: c2_def frames_def)
qed

lemma co_recv_front: "n > 0 \<Longrightarrow> bs \<noteq> [] \<Longrightarrow> co_recv n (Bytes bs # as) = (Got (take n bs), put_back (drop n bs) as)"
  by (cases n; cases bs) simp_all

lemma recvn_loop_front: "n \<le> length bs \<Longrightarrow> recvn_loop n [] (put_back bs as) = (Got (take n bs), put_back (drop n bs) as)"
  by (cases n; cases bs) simp_all

lemma recvn_chunks_front: "length bs = n \<Longrightarrow> recvn_chunks m n s (put_back bs as) = (Got (s @ bs), as)"
proof (induction m n s "put_back bs as" arbitrary: bs rule: recvn_chunks.induct)
  case (1 m n s)
  show ?case
  proof (cases "m > 0 \<and> n > m")
    case True
    then have l: "recvn_loop m [] (put_back bs as) = (Got (take m bs), put_back (drop m bs) as)"
      using 1(2) by (intro recvn_loop_front) simp
    have "recvn_chunks m (n - m) (s @ take m bs) (put_back (drop m bs) as) = (Got ((s @ take m bs) @ drop m bs), as)"
      using 1(2) by (intro 1(1) [OF True l [symmetric] refl]) simp_all
    with True l show ?thesis by (subst recvn_chunks.simps) simp
  next
    case False
    then show ?thesis using 1(2) recvn_loop_front [of n bs as] by (subst recvn_chunks.simps) auto
  qed
qed

lemma recv_loose_frame:
  assumes "fits e v"
  shows "recv_loose e (Bytes (rpc_frame e v) # as) = Inr (Inr v, as)"
proof -
  let ?b = "string_bytes (json2str (re_dtoa e) v)" and ?h = "set_header (int (length (json2str (re_dtoa e) v)))"
  have "co_recv 8 (Bytes (rpc_frame e v) # as) = (Got ?h, put_back ?b as)"
    by (simp add: co_recv_front frame_split set_header_def net_bytes_def)
  moreover have "recvn (re_recv_chunk e) (length ?b) (put_back ?b as) = (Got ?b, as)"
    unfolding recvn_def by (simp add: recvn_chunks_front)
  moreover have "length ?b = length (json2str (re_dtoa e) v)" by (simp add: string_bytes_def)
  moreover have "header_len ?h = int (length (json2str (re_dtoa e) v))"
    using assms by (intro header_len_set) (simp_all add: fits_def)
  ultimately show ?thesis using assms fits_text [OF assms]
    by (simp add: recv_loose_def recv_after_header_def recv_body_def fits_def)
qed

lemma client_auth_answers:
  assumes "roomy e" "no_nul nonce" "length nonce \<le> 100" "cn_departs c = []"
    and "cn_in c = [Bytes (rpc_frame e (auth_challenge nonce)), Bytes (rpc_frame e (auth_result ok))] @ as"
  shows "client_auth e cp c =
    Inr (ok, c\<lparr>cn_in := as, cn_out := cn_out c @ frames e [CObject auth_request, auth_answer cp nonce]\<rparr>)"
proof -
  have n: "cj_at ''nonce'' (auth_challenge nonce) = Inr (CString nonce, auth_challenge nonce)"
    by (simp add: cj_at_def auth_challenge_def)
  have r: "cj_at ''err'' (auth_result ok) = Inr (CInt (if ok then 200 else 401), auth_result ok)"
    by (simp add: cj_at_def auth_result_def)
  have i: "get_int32 (CInt (if ok then 200 else 401)) = Inr (if ok then 200 else 401)"
    by (simp add: get_int32_def get_int64_def)
  have c: "c\<lparr>cn_out := x, cn_departs := [], cn_in := y\<rparr> = c\<lparr>cn_in := y, cn_out := x\<rparr>" for x y
    using assms(4) by (cases c) simp
  show ?thesis
    using assms(4,5) fits_challenge [OF assms(1-3)] fits_result [OF assms(1), of ok]
    by (simp add: client_auth_def send_message_idle recv_loose_frame n r i is_int_def assms(2) c frames_def
        auth_answer_def [symmetric])
qed

text \<open>
  C24. The handshake decides the same on both sides: when what the client writes is what the
  server reads and the server's two messages reach the client unbroken, both accept exactly
  when the digests of their passwords with the nonce agree.
\<close>

theorem handshake_agrees:
  assumes "roomy e" "no_nul nonce" "length nonce \<le> 100" "cn_departs cs = []" "cn_departs cc = []"
    and "ok = (md5_hex (cp @ nonce) = md5_hex (sp @ nonce))"
    and "symbols (cn_in cs) = map Byte (frames e [CObject auth_request, auth_answer cp nonce]) @ ys"
    and "cn_in cc = [Bytes (rpc_frame e (auth_challenge nonce)), Bytes (rpc_frame e (auth_result ok))] @ as"
  shows "\<exists>cs' cc'. server_auth e sp nonce cs = Inr (ok, cs') \<and> symbols (cn_in cs') = ys \<and>
    cn_out cs' = cn_out cs @ frames e [auth_challenge nonce, auth_result ok] \<and>
    client_auth e cp cc = Inr (ok, cc') \<and> cn_in cc' = as \<and>
    cn_out cc' = cn_out cc @ frames e [CObject auth_request, auth_answer cp nonce]"
  using server_auth_answers [OF assms(1-4,7,6)] client_auth_answers [OF assms(1-3,5,8), of cp] by auto

theorem handshake_agrees_witness:
  "\<exists>cs' cc'. server_auth sample_env ''pw'' ''7''
      \<lparr>cn_in = [Bytes (frames sample_env [CObject auth_request, auth_answer ''pw'' ''7''])], cn_out = [], cn_departs = []\<rparr> =
      Inr (True, cs') \<and>
    client_auth sample_env ''pw''
      \<lparr>cn_in = [Bytes (rpc_frame sample_env (auth_challenge ''7'')), Bytes (rpc_frame sample_env (auth_result True))],
       cn_out = [], cn_departs = []\<rparr> = Inr (True, cc')"
  using handshake_agrees [of sample_env "''7''"
      "\<lparr>cn_in = [Bytes (frames sample_env [CObject auth_request, auth_answer ''pw'' ''7''])], cn_out = [], cn_departs = []\<rparr>"
      "\<lparr>cn_in = [Bytes (rpc_frame sample_env (auth_challenge ''7'')), Bytes (rpc_frame sample_env (auth_result True))],
       cn_out = [], cn_departs = []\<rparr>" True "''pw''" "''pw''" "[]" "[]"]
  by (auto simp: roomy_def sample_env_def no_nul_def)

lemma read_exactly_suffix: "read_exactly n s ys = (r, ys') \<Longrightarrow> suffix ys' ys"
  by (induction n s ys rule: read_exactly.induct) (auto intro: suffix_ConsI)

lemma recvn_suffix: "recvn m n as = (r, as') \<Longrightarrow> suffix (symbols as') (symbols as)"
  using recvn_reads read_exactly_suffix by blast

lemma recv_message_suffix: "recv_message e as = Inr (r, as') \<Longrightarrow> suffix (symbols as') (symbols as)"
proof -
  assume a: "recv_message e as = Inr (r, as')"
  obtain q as1 where q: "recvn (re_recv_chunk e) 8 as = (q, as1)" by fastforce
  have b: "suffix (symbols as3) (symbols as2)" if "recv_body e len as2 = Inr (r, as3)" for len as2 as3
  proof -
    obtain p as4 where p: "recvn (re_recv_chunk e) (nat len) as2 = (p, as4)" by fastforce
    with that recvn_suffix [OF p] show ?thesis
      by (auto simp: recv_body_def Let_def split: if_splits received.splits stop.splits)
  qed
  show ?thesis using a q recvn_suffix [OF q] b
    by (auto simp: recv_message_def recv_after_header_def split: received.splits stop.splits if_splits
        intro: suffix_order.trans)
qed

text \<open>
  C22. Nobody is served who has not shown the password: if a connection to a server with a
  password gets past the handshake, a message was on it whose digest is the one of the
  password and this connection's nonce; otherwise the service's state is as before.
\<close>

theorem unproven_client_is_not_served:
  assumes "on_connection e process passwd nonce n c s = Inr (why, c', s')" "passwd \<noteq> []" "s' \<noteq> s \<or> why \<noteq> Auth_Failed"
  shows "\<exists>as as' v t. suffix (symbols as) (symbols (cn_in c)) \<and> recv_message e as = Inr (Inr v, as') \<and>
    find_member ''md5'' v = CString t \<and> c_str t = md5_hex (passwd @ c_str nonce)"
proof -
  obtain ok c1 where a: "server_auth e passwd nonce c = Inr (ok, c1)" "ok"
    using assms by (auto simp: on_connection_def bindR_eq_Inr split: if_splits)
  obtain r1 c2 where r: "recv_auth e c = Inr (r1, c2)" using a by (auto simp: server_auth_def bindR_eq_Inr)
  have s1: "suffix (symbols (cn_in c2)) (symbols (cn_in c))"
  proof -
    obtain q as1 where m: "recv_message e (cn_in c) = Inr (q, as1)"
      using r by (cases "recv_message e (cn_in c)") (auto simp: recv_auth_def)
    then have "cn_in c2 = as1" using r by (cases q) (auto simp: recv_auth_def bindR_eq_Inr)
    with m recv_message_suffix show ?thesis by blast
  qed
  obtain c3 where c3: "send_message e (auth_challenge nonce) c2 = (True, c3)"
    using a r by (auto simp: server_auth_def split: if_splits prod.splits bool.splits)
  have i: "cn_in c3 = cn_in c2" using c3 by (auto simp: send_message_def split: prod.splits)
  obtain v c4 where v: "recv_auth e c3 = Inr (Some v, c4)"
    using a r c3 by (auto simp: server_auth_def bindR_eq_Inr split: if_splits option.splits)
  obtain x w where x: "cj_at ''md5'' v = Inr (x, w)" "case x of CString t \<Rightarrow> c_str t = md5_hex (passwd @ c_str nonce) | _ \<Rightarrow> False"
  proof -
    obtain x w where x: "cj_at ''md5'' v = Inr (x, w)"
      using a r c3 v by (cases "cj_at ''md5'' v") (auto simp: server_auth_def split: if_splits)
    define good where "good = (case x of CString t \<Rightarrow> c_str t = md5_hex (passwd @ c_str nonce) | _ \<Rightarrow> False)"
    obtain sent c5 where "send_message e (auth_result good) c4 = (sent, c5)" by fastforce
    then have good using a r c3 v x by (auto simp: server_auth_def Let_def simp flip: good_def split: if_splits)
    with x that show thesis by (simp add: good_def)
  qed
  have "find_member ''md5'' v = x"
    using x(1) by (auto simp: cj_at_def find_member_def split: cjson.splits option.splits)
  moreover obtain as' where "recv_message e (cn_in c3) = Inr (Inr v, as')"
  proof -
    obtain q as' where m: "recv_message e (cn_in c3) = Inr (q, as')"
      using v by (cases "recv_message e (cn_in c3)") (auto simp: recv_auth_def)
    then have "q = Inr v" using v by (cases q) (auto simp: recv_auth_def bindR_eq_Inr split: if_splits)
    with m that show thesis by blast
  qed
  ultimately show ?thesis using x(2) s1 i by (auto split: cjson.splits)
qed

definition proven :: conn where
  "proven = \<lparr>cn_in = [Bytes (frames sample_env [CObject auth_request, auth_answer ''pw'' ''7''])], cn_out = [], cn_departs = []\<rparr>"

theorem unproven_client_is_not_served_witness:
  "\<exists>as as' v t. suffix (symbols as) (symbols (cn_in proven)) \<and> recv_message sample_env as = Inr (Inr v, as') \<and>
    find_member ''md5'' v = CString t \<and> c_str t = md5_hex (''pw'' @ c_str ''7'')"
proof -
  obtain c' where "server_auth sample_env ''pw'' ''7'' proven = Inr (True, c')" "symbols (cn_in c') = []"
    using server_auth_answers [of sample_env "''7''" proven "''pw''" "[]" True "''pw''"]
    by (auto simp: roomy_def sample_env_def no_nul_def proven_def)
  then have "on_connection sample_env (de_process sample_device) ''pw'' ''7'' 1 proven sample_serv = Inr (Waiting, c', sample_serv)"
    by (simp add: on_connection_def serve.simps)
  from unproven_client_is_not_served [OF this] show ?thesis by simp
qed

section \<open>Broken connections\<close>

lemma net_word_inj: "net_word [a, b, c, d] = net_word [a', b', c', d'] \<Longrightarrow> a = a' \<and> b = b' \<and> c = c' \<and> d = d'"
proof -
  have out: "\<not> bit w (8 + n)" "\<not> bit w (16 + n)" "\<not> bit w (24 + n)" for w :: u8 and n
    by (auto dest!: bit_imp_le_length)
  have k: "net_bytes (net_word [a, b, c, d]) = [a, b, c, d]" for a b c d
  proof -
    have "ucast (drop_bit 24 (net_word [a, b, c, d])) = a"
      by (rule bit_word_eqI) (simp add: net_word_def bit_simps out)
    moreover have "ucast (drop_bit 16 (net_word [a, b, c, d])) = b"
      by (rule bit_word_eqI) (simp add: net_word_def bit_simps out)
    moreover have "ucast (drop_bit 8 (net_word [a, b, c, d])) = c"
      by (rule bit_word_eqI) (simp add: net_word_def bit_simps out)
    moreover have "ucast (net_word [a, b, c, d]) = d"
      by (rule bit_word_eqI) (simp add: net_word_def bit_simps out)
    ultimately show ?thesis by (simp only: net_bytes_def)
  qed
  assume "net_word [a, b, c, d] = net_word [a', b', c', d']"
  then have "[a, b, c, d] = [a', b', c', d']" using k by metis
  then show ?thesis by simp
qed

lemma kMagic_bytes: "kMagic = net_word [0, 0xba, 0xdd, 0xad]"
  by (simp add: kMagic_def net_word_def)

lemma frame_bytes:
  assumes "fits e v"
  shows "take 4 (rpc_frame e v) = [0, 0xba, 0xdd, 0xad]" "rpc_frame e v ! 8 = 0x7b \<or> rpc_frame e v ! 8 = 0x5b"
    "take 4 (drop 4 (rpc_frame e v)) = net_bytes (word_of_int (int (length (json2str (re_dtoa e) v))))"
proof -
  let ?s = "json2str (re_dtoa e) v"
  have m: "net_bytes kMagic = [0, 0xba, 0xdd, 0xad]" by code_simp
  then show "take 4 (rpc_frame e v) = [0, 0xba, 0xdd, 0xad]" by (simp add: frame_split set_header_def)
  show "take 4 (drop 4 (rpc_frame e v)) = net_bytes (word_of_int (int (length ?s)))" by (simp add: frame_split set_header_def)
  obtain c t where "?s = c # t" "c = CHR ''{'' \<or> c = CHR ''[''"
    using assms by (cases "(re_dtoa e, v)" rule: json2str.cases)
      (auto simp: fits_def cj_message_def is_object_def is_array_def)
  then show "rpc_frame e v ! 8 = 0x7b \<or> rpc_frame e v ! 8 = 0x5b"
    by (auto simp: frame_split nth_append string_bytes_def)
qed

lemma shifted_magic:
  assumes "fits e v" "re_max_msg_size e < 0xbaddad" "0 < k" "k < 8" "length (rpc_frame e v) \<ge> 8 + k"
  shows "header_magic (take 8 (drop k (rpc_frame e v))) \<noteq> kMagic"
proof
  let ?f = "rpc_frame e v" and ?n = "word_of_int (int (length (json2str (re_dtoa e) v))) :: u32"
  assume "header_magic (take 8 (drop k ?f)) = kMagic"
  then have w: "net_word (take 4 (drop k ?f)) = net_word [0, 0xba, 0xdd, 0xad]"
    by (simp add: header_magic_def kMagic_bytes)
  have "take 4 (drop k ?f) = [?f ! k, ?f ! (k + 1), ?f ! (k + 2), ?f ! (k + 3)]"
    using assms(5) by (intro nth_equalityI) (auto simp: less_Suc_eq numeral_nat)
  with w have b: "?f ! k = 0" "?f ! (k + 1) = 0xba" "?f ! (k + 2) = 0xdd" "?f ! (k + 3) = 0xad"
    using net_word_inj by (auto dest!: net_word_inj)
  have m: "?f ! 1 = 0xba" "?f ! 2 = 0xdd" "?f ! 3 = 0xad"
    using frame_bytes(1) [OF assms(1)] assms(5) by (auto simp: nth_take [of _ 4 ?f, symmetric] simp del: nth_take)
  consider "k = 1" | "k = 2" | "k = 3" | "k = 4" | "k = 5" | "k = 6" | "k = 7" using assms(3,4) by linarith
  then show False
  proof cases
    case 4
    then have "net_word (net_bytes ?n) = kMagic"
      using w frame_bytes(3) [OF assms(1)] by (simp add: kMagic_bytes)
    then have "?n = word_of_int 0xbaddad" by (simp add: net_word_bytes kMagic_def)
    then have "int (length (json2str (re_dtoa e) v)) = 0xbaddad"
    proof -
      have "uint ?n = int (length (json2str (re_dtoa e) v))"
        using assms(1) by (simp only: uint_word_of_int) (simp add: fits_def)
      with \<open>?n = _\<close> show ?thesis by simp
    qed
    then show False using assms(1,2) by (simp add: fits_def)
  qed (use b m frame_bytes(2) [OF assms(1)] in auto)
qed

text \<open>
  A request whose header stops in the middle for the time of a read is lost with its
  connection: the server forgets the bytes it has, reads the rest as a new header, finds no
  magic number there and gives the connection up; the request is not processed.
\<close>

theorem slow_header_breaks_connection:
  assumes "fits e v" "re_max_msg_size e < 0xbaddad" "n \<le> re_max_idle_conn e"
    and "0 < k" "k < 8" "length (rpc_frame e v) \<ge> 8 + k"
    and "symbols (cn_in c) = map Byte (take k (rpc_frame e v)) @ Stop Timed_Out # map Byte (drop k (rpc_frame e v)) @ ys"
  shows "\<exists>as. serve e process n c s = Inr (Bad_Magic, c\<lparr>cn_in := as\<rparr>, s)"
proof -
  let ?f = "rpc_frame e v"
  obtain r as1 where r: "recvn (re_recv_chunk e) 8 (cn_in c) = (r, as1)" by fastforce
  obtain j where j: "8 - k = Suc j" using assms(5) by (cases "8 - k") auto
  have "read_exactly 8 [] (symbols (cn_in c)) = (Stopped Timed_Out, map Byte (drop k ?f) @ ys)"
    unfolding assms(7) using assms(4-6) j by (simp add: read_exactly_bytes)
  with recvn_reads [OF r] have a: "r = Stopped Timed_Out" "symbols as1 = map Byte (drop k ?f) @ ys" by simp_all
  have "symbols (cn_in c) \<noteq> []" unfolding assms(7) by simp
  then have 1: "serve e process n c s = serve e process n (c\<lparr>cn_in := as1\<rparr>) s"
    using r a(1) assms(3) by (subst serve.simps) simp
  have s: "symbols as1 = map Byte (take 8 (drop k ?f)) @ (map Byte (drop 8 (drop k ?f)) @ ys)"
    unfolding a(2) by (metis append_assoc append_take_drop_id map_append)
  have l: "length (take 8 (drop k ?f)) = 8" using assms(6) by simp
  obtain as2 where 2: "recvn (re_recv_chunk e) 8 as1 = (Got (take 8 (drop k ?f)), as2)"
    using recvn_bytes [OF s l] by blast
  have "symbols as1 \<noteq> []" unfolding a(2) using assms(5,6) by auto
  then have "serve e process n (c\<lparr>cn_in := as1\<rparr>) s = Inr (Bad_Magic, c\<lparr>cn_in := as2\<rparr>, s)"
    using 2 shifted_magic [OF assms(1,2,4-6)] by (subst serve.simps) (simp add: recv_after_header_def)
  with 1 show ?thesis by auto
qed

theorem slow_header_breaks_connection_witness:
  "\<exists>as. serve sample_env (de_process sample_device) 1
      \<lparr>cn_in = [Bytes (take 4 (rpc_frame sample_env no_method)), Stops Timed_Out, Bytes (drop 4 (rpc_frame sample_env no_method))],
       cn_out = [], cn_departs = []\<rparr> sample_serv =
    Inr (Bad_Magic, \<lparr>cn_in = as, cn_out = [], cn_departs = []\<rparr>, sample_serv)"
proof -
  have "length (rpc_frame sample_env no_method) \<ge> 8 + 4"
    by (simp add: frame_split string_bytes_def key_text_def)
  then show ?thesis
    using slow_header_breaks_connection [of sample_env no_method 1 4
        "\<lparr>cn_in = [Bytes (take 4 (rpc_frame sample_env no_method)), Stops Timed_Out, Bytes (drop 4 (rpc_frame sample_env no_method))],
          cn_out = [], cn_departs = []\<rparr>" "[]" "de_process sample_device" sample_serv] sample_fits(2)
    by (simp add: sample_env_def)
qed

text \<open>
  Eight bytes with a negative length stop the server: the length passes the test
  against the limit, and the buffer cannot be made that large.
\<close>

theorem negative_length_stops_server:
  assumes "symbols (cn_in c) = map Byte (net_bytes kMagic @ net_bytes w) @ ys" "sint w < 0" "re_max_msg_size e \<ge> 0"
  shows "serve e process n c s = Inl assert_failed"
proof -
  have l: "length (net_bytes kMagic @ net_bytes w) = 8" by simp
  obtain as where r: "recvn (re_recv_chunk e) 8 (cn_in c) = (Got (net_bytes kMagic @ net_bytes w), as)"
    using recvn_bytes [OF assms(1) l] by blast
  have "symbols (cn_in c) \<noteq> []" using assms(1) by (auto simp: net_bytes_def)
  then show ?thesis using r assms(2,3)
    by (subst serve.simps)
      (simp add: recv_after_header_def header_magic_def header_len_def net_word_bytes recv_body_def)
qed

theorem negative_length_stops_server_witness:
  "serve sample_env (de_process sample_device) 1
    \<lparr>cn_in = [Bytes (net_bytes kMagic), Bytes (net_bytes (- 1))], cn_out = [], cn_departs = []\<rparr> sample_serv = Inl assert_failed"
  by (rule negative_length_stops_server [where w = "- 1" and ys = "[]"]) (simp_all add: sample_env_def)

section \<open>Random numbers\<close>

text \<open>
  The generator steps through the powers of 16385 modulo the prime 2147483647 without
  ever leaving the range from 1 to 2147483646: no division is needed for the modulus.
\<close>

theorem random_next_is_modular:
  assumes "0 < unat s" "unat s < 2147483647"
  shows "unat (random_next s) = unat s * 16385 mod 2147483647 \<and> 0 < unat (random_next s) \<and> unat (random_next s) < 2147483647"
proof -
  let ?M = "2147483647 :: nat" and ?p = "(ucast s :: u64) * 16385"
  define q where "q = unat s * 16385"
  define d where "d = q div 2 ^ 31"
  define r where "r = q mod 2 ^ 31"
  define t where "t = d + r"
  have "unat (ucast s :: u64) = unat s" using assms(2) by (simp add: unsigned_ucast_eq take_bit_nat_eq_self)
  then have p: "unat ?p = q" using assms(2) by (subst unat_mult_lem [THEN iffD1]) (simp_all add: q_def)
  have lo: "?p AND 2147483647 = take_bit 31 ?p" by (simp add: take_bit_eq_mask mask_numeral)
  have ub: "d < 16385" "r < 2 ^ 31" using assms(2) by (simp_all add: q_def d_def r_def less_mult_imp_div_less)
  have "unat (drop_bit 31 ?p) = d" unfolding unat_drop_bit_eq p d_def by (simp add: drop_bit_eq_div)
  moreover have "unat (?p AND 2147483647) = r" unfolding r_def lo unsigned_take_bit_eq p by (simp add: take_bit_eq_mod)
  ultimately have "unat (drop_bit 31 ?p + (?p AND 2147483647)) = t"
    using ub by (subst unat_add_lem [THEN iffD1]) (simp_all add: t_def)
  then have t: "unat (ucast (drop_bit 31 ?p + (?p AND 2147483647)) :: u32) = t"
    using ub by (simp add: unsigned_ucast_eq take_bit_nat_eq_self t_def)
  have "d * 2 ^ 31 + r = q" unfolding d_def r_def by (rule div_mult_mod_eq)
  then have "q = d * ?M + t" by (simp add: t_def)
  then have m: "q mod ?M = t mod ?M" by simp
  have "\<not> ?M dvd q"
  proof
    assume "?M dvd q"
    moreover have "coprime ?M 16385"
    proof (rule coprimeI)
      fix g assume "g dvd ?M" "g dvd 16385"
      then have "g dvd 16385 * 920331411 - ?M * 7022" by (intro dvd_diff_nat dvd_mult2)
      then show "is_unit g" by simp
    qed
    ultimately have "?M dvd unat s" by (simp add: q_def coprime_dvd_mult_left_iff)
    then show False using assms by (auto dest: dvd_imp_le)
  qed
  then have "q mod ?M > 0" by (metis dvd_eq_mod_eq_0 gr0I)
  define u where "u = (ucast (drop_bit 31 ?p + (?p AND 2147483647)) :: u32)"
  have n: "random_next s = (if u > 2147483647 then u - 2147483647 else u)"
    by (simp add: random_next_def Let_def u_def)
  have u: "unat u = t" using t by (simp add: u_def)
  show ?thesis
  proof (cases "t > ?M")
    case True
    then have "unat (random_next s) = t - ?M" using u by (simp add: n word_less_nat_alt unat_sub word_le_nat_alt)
    moreover have "t - ?M < ?M" using ub by (simp add: t_def)
    ultimately show ?thesis using True m by (simp add: mod_if flip: q_def)
  next
    case False
    then have "unat (random_next s) = t" using u by (simp add: n word_less_nat_alt)
    moreover have "t \<noteq> ?M" "t \<noteq> 0" using \<open>q mod ?M > 0\<close> m by auto
    ultimately show ?thesis using False m by (simp flip: q_def)
  qed
qed

theorem random_next_is_modular_witness:
  "unat (random_next 5) = 5 * 16385 mod 2147483647 \<and> 0 < unat (random_next 5) \<and> unat (random_next 5) < 2147483647"
  using random_next_is_modular [of 5] by simp

end
