(* ===== verification/LruMap.thy ===== *)
theory LruMap
  imports Prelude
begin

text \<open>
  \<open>co/base/lru_map.h\<close>: the map that keeps the most recently used keys. The three members
  are the values by key, the place of every key in the list, and the list, newest first. A
  list iterator is the node it points to, and a node is known by the key it holds; the
  order of the hash maps is not observable here, they are association lists.
\<close>

section \<open>The map\<close>

record ('k, 'v) lru =
  lm_kv :: "('k \<times> 'v) list"
  lm_ki :: "('k \<times> 'k) list"
  lm_kl :: "'k list"
  lm_capacity :: nat

definition map_erase :: "'k \<Rightarrow> ('k \<times> 'x) list \<Rightarrow> ('k \<times> 'x) list" where
  "map_erase k m = filter (\<lambda>p. fst p \<noteq> k) m"

definition map_assign :: "'k \<Rightarrow> 'x \<Rightarrow> ('k \<times> 'x) list \<Rightarrow> ('k \<times> 'x) list" where
  "map_assign k x m = (k, x) # map_erase k m"

definition lru_new :: "nat \<Rightarrow> ('k, 'v) lru" where
  "lru_new capacity = \<lparr>lm_kv = [], lm_ki = [], lm_kl = [], lm_capacity = (if capacity > 0 then capacity else 1024)\<rparr>"

definition lru_size :: "('k, 'v) lru \<Rightarrow> nat" where
  "lru_size s = length (lm_kv s)"

definition lru_empty :: "('k, 'v) lru \<Rightarrow> bool" where
  "lru_empty s \<longleftrightarrow> lru_size s = 0"

text \<open>The front of an empty list and an iterator at the end must not be used.\<close>

definition lru_find :: "'k \<Rightarrow> ('k, 'v) lru \<Rightarrow> ('v option \<times> ('k, 'v) lru) outcome" where
  "lru_find key s =
     (case map_of (lm_kv s) key of
        None \<Rightarrow> Inr (None, s)
      | Some v \<Rightarrow>
          (case lm_kl s of
             [] \<Rightarrow> Inl Indeterminate
           | front # _ \<Rightarrow>
               if front \<noteq> key then
                 (case map_of (lm_ki s) key of
                    None \<Rightarrow> Inl Null_Deref
                  | Some node \<Rightarrow>
                      let kl = node # remove1 node (lm_kl s)
                      in Inr (Some v, s\<lparr>lm_kl := kl, lm_ki := map_assign key (hd kl) (lm_ki s)\<rparr>))
               else Inr (Some v, s)))"

definition lru_insert :: "'k \<Rightarrow> 'v \<Rightarrow> ('k, 'v) lru \<Rightarrow> ('k, 'v) lru" where
  "lru_insert key v s =
     (if map_of (lm_kv s) key \<noteq> None then s
      else
        let s = s\<lparr>lm_kv := (key, v) # lm_kv s, lm_kl := key # lm_kl s, lm_ki := map_assign key key (lm_ki s)\<rparr>
        in if length (lm_kv s) > lm_capacity s then
             let k = last (lm_kl s)
             in s\<lparr>lm_kl := butlast (lm_kl s), lm_kv := map_erase k (lm_kv s), lm_ki := map_erase k (lm_ki s)\<rparr>
           else s)"

definition lru_erase :: "'k \<Rightarrow> ('k, 'v) lru \<Rightarrow> ('k, 'v) lru outcome" where
  "lru_erase key s =
     (if map_of (lm_kv s) key = None then Inr s
      else case map_of (lm_ki s) key of
          None \<Rightarrow> Inl Null_Deref
        | Some node \<Rightarrow>
            Inr (s\<lparr>lm_kl := remove1 node (lm_kl s), lm_ki := map_erase key (lm_ki s), lm_kv := map_erase key (lm_kv s)\<rparr>))"

definition lru_clear :: "('k, 'v) lru \<Rightarrow> ('k, 'v) lru" where
  "lru_clear s = s\<lparr>lm_kv := [], lm_ki := [], lm_kl := []\<rparr>"

definition lru_swap :: "('k, 'v) lru \<Rightarrow> ('k, 'v) lru \<Rightarrow> ('k, 'v) lru \<times> ('k, 'v) lru" where
  "lru_swap s x = (x, s)"

datatype ('k, 'v) lru_op = Find 'k | Insert 'k 'v | Erase 'k | Clear

fun lru_do :: "('k, 'v) lru_op \<Rightarrow> ('k, 'v) lru \<Rightarrow> ('v option \<times> ('k, 'v) lru) outcome" where
  "lru_do (Find k) s = lru_find k s"
| "lru_do (Insert k v) s = Inr (None, lru_insert k v s)"
| "lru_do (Erase k) s = bindR (lru_erase k s) (\<lambda>s. Inr (None, s))"
| "lru_do Clear s = Inr (None, lru_clear s)"

fun lru_run :: "('k, 'v) lru_op list \<Rightarrow> ('k, 'v) lru \<Rightarrow> ('v option list \<times> ('k, 'v) lru) outcome" where
  "lru_run [] s = Inr ([], s)"
| "lru_run (x # xs) s = bindR (lru_do x s) (\<lambda>(r, s). bindR (lru_run xs s) (\<lambda>(rs, s). Inr (r # rs, s)))"

section \<open>The specification\<close>

text \<open>The pairs, newest first, never more than the capacity. Inserting a present key changes nothing.\<close>

fun spec_do :: "nat \<Rightarrow> ('k, 'v) lru_op \<Rightarrow> ('k \<times> 'v) list \<Rightarrow> 'v option \<times> ('k \<times> 'v) list" where
  "spec_do cap (Find k) xs =
     (case map_of xs k of None \<Rightarrow> (None, xs) | Some v \<Rightarrow> (Some v, (k, v) # map_erase k xs))"
| "spec_do cap (Insert k v) xs = (None, if map_of xs k \<noteq> None then xs else take cap ((k, v) # xs))"
| "spec_do cap (Erase k) xs = (None, map_erase k xs)"
| "spec_do cap Clear xs = (None, [])"

fun spec_run :: "nat \<Rightarrow> ('k, 'v) lru_op list \<Rightarrow> ('k \<times> 'v) list \<Rightarrow> 'v option list \<times> ('k \<times> 'v) list" where
  "spec_run cap [] xs = ([], xs)"
| "spec_run cap (x # ops) xs =
     (case spec_do cap x xs of (r, xs) \<Rightarrow> case spec_run cap ops xs of (rs, xs) \<Rightarrow> (r # rs, xs))"

text \<open>A concrete map stands for the pairs in the order of its list.\<close>

definition lru_abs :: "('k, 'v) lru \<Rightarrow> ('k \<times> 'v) list" where
  "lru_abs s = map (\<lambda>k. (k, the (map_of (lm_kv s) k))) (lm_kl s)"

definition lru_inv :: "('k, 'v) lru \<Rightarrow> bool" where
  "lru_inv s \<longleftrightarrow> distinct (lm_kl s) \<and> distinct (map fst (lm_kv s)) \<and> set (lm_kl s) = fst ` set (lm_kv s) \<and>
     (\<forall>k. map_of (lm_ki s) k = (if k \<in> set (lm_kl s) then Some k else None)) \<and>
     0 < lm_capacity s \<and> length (lm_kl s) \<le> lm_capacity s"

section \<open>Facts\<close>

lemma map_of_erase: "map_of (map_erase k m) k' = (if k' = k then None else map_of m k')"
  by (induction m) (auto simp: map_erase_def)

lemma map_of_assign: "map_of (map_assign k x m) k' = (if k' = k then Some x else map_of m k')"
  by (simp add: map_assign_def map_of_erase)

lemma keys_erase: "fst ` set (map_erase k m) = fst ` set m - {k}"
  by (auto simp: map_erase_def)

lemma distinct_erase: "distinct (map fst m) \<Longrightarrow> distinct (map fst (map_erase k m))"
  by (induction m) (auto simp: map_erase_def)

lemma inv_length:
  assumes "lru_inv s"
  shows "length (lm_kv s) = length (lm_kl s)"
proof -
  have "length (lm_kl s) = card (set (lm_kl s))" "length (lm_kv s) = card (fst ` set (lm_kv s))"
    using assms distinct_card [of "lm_kl s"] distinct_card [of "map fst (lm_kv s)"] by (simp_all add: lru_inv_def)
  moreover have "set (lm_kl s) = fst ` set (lm_kv s)" using assms by (simp add: lru_inv_def)
  ultimately show ?thesis by simp
qed

lemma inv_mem: "lru_inv s \<Longrightarrow> k \<in> set (lm_kl s) \<longleftrightarrow> map_of (lm_kv s) k \<noteq> None"
  by (simp add: lru_inv_def map_of_eq_None_iff)

lemma map_of_abs: "lru_inv s \<Longrightarrow> map_of (lru_abs s) k = map_of (lm_kv s) k"
  using inv_mem [of s k] by (auto simp: lru_abs_def map_of_map_restrict restrict_map_def)

lemma abs_erase: "map_erase k (map (\<lambda>k. (k, f k)) ks) = map (\<lambda>k. (k, f k)) (filter (\<lambda>x. x \<noteq> k) ks)"
  by (induction ks) (auto simp: map_erase_def)

lemma remove1_filter: "distinct ks \<Longrightarrow> remove1 k ks = filter (\<lambda>x. x \<noteq> k) ks"
  by (simp add: distinct_remove1_removeAll removeAll_filter_not_eq) (rule filter_cong [OF refl], auto)

text \<open>Every operation keeps the invariant and does what the specification says.\<close>

lemma find_refines:
  assumes "lru_inv s"
  shows "\<exists>s'. lru_find k s = Inr (fst (spec_do (lm_capacity s) (Find k) (lru_abs s)), s') \<and> lru_inv s' \<and> lm_capacity s' = lm_capacity s \<and>
    lru_abs s' = snd (spec_do (lm_capacity s) (Find k) (lru_abs s))"
proof (cases "map_of (lm_kv s) k")
  case None
  with assms show ?thesis by (simp add: lru_find_def map_of_abs)
next
  case (Some v)
  with inv_mem [OF assms, of k] have k: "k \<in> set (lm_kl s)" by simp
  then obtain front rest where kl: "lm_kl s = front # rest" by (cases "lm_kl s") auto
  have d: "distinct (lm_kl s)" and ki: "map_of (lm_ki s) k = Some k" using assms k by (auto simp: lru_inv_def)
  have e: "map_erase k (lru_abs s) = map (\<lambda>k. (k, the (map_of (lm_kv s) k))) (remove1 k (lm_kl s))"
    by (simp add: lru_abs_def abs_erase remove1_filter [OF d])
  show ?thesis
  proof (cases "front = k")
    case True
    then have "lru_abs s = (k, v) # map_erase k (lru_abs s)" using kl Some e by (simp add: lru_abs_def)
    with assms Some kl True show ?thesis by (simp add: lru_find_def map_of_abs)
  next
    case False
    let ?s = "s\<lparr>lm_kl := k # remove1 k (lm_kl s), lm_ki := map_assign k k (lm_ki s)\<rparr>"
    have "set (k # remove1 k (lm_kl s)) = set (lm_kl s)" "length (k # remove1 k (lm_kl s)) = length (lm_kl s)"
      using k d by (auto simp: length_remove1 dest: length_pos_if_in_set)
    then have "lru_inv ?s" using assms d by (auto simp: lru_inv_def map_of_assign)
    moreover have "lru_abs ?s = (k, v) # map_erase k (lru_abs s)" unfolding e using Some by (simp add: lru_abs_def)
    ultimately show ?thesis using assms Some kl False ki by (simp add: lru_find_def map_of_abs Let_def)
  qed
qed

lemma insert_refines:
  assumes "lru_inv s"
  shows "lru_inv (lru_insert k v s) \<and> lm_capacity (lru_insert k v s) = lm_capacity s \<and>
    lru_abs (lru_insert k v s) = snd (spec_do (lm_capacity s) (Insert k v) (lru_abs s))"
proof (cases "map_of (lm_kv s) k")
  case (Some w)
  with assms show ?thesis by (simp add: lru_insert_def map_of_abs)
next
  case None
  with inv_mem [OF assms, of k] have k: "k \<notin> set (lm_kl s)" by simp
  have kv: "k \<notin> fst ` set (lm_kv s)" using k assms by (simp add: lru_inv_def)
  have len: "length (lm_kv s) = length (lm_kl s)" by (rule inv_length [OF assms])
  have abs: "map (\<lambda>x. (x, the (if x = k then Some v else map_of (lm_kv s) x))) (lm_kl s) = lru_abs s"
    using k by (auto simp: lru_abs_def)
  show ?thesis
  proof (cases "length (lm_kl s) < lm_capacity s")
    case True
    then have "lru_insert k v s = s\<lparr>lm_kv := (k, v) # lm_kv s, lm_kl := k # lm_kl s, lm_ki := map_assign k k (lm_ki s)\<rparr>" (is "_ = ?t")
      using None len by (simp add: lru_insert_def)
    moreover have "lru_inv ?t" using assms k kv True by (auto simp: lru_inv_def map_of_assign)
    moreover have "lru_abs ?t = (k, v) # lru_abs s" using abs by (simp add: lru_abs_def fun_upd_def)
    moreover have "length (lru_abs s) = length (lm_kl s)" by (simp add: lru_abs_def)
    ultimately show ?thesis using None True assms by (simp add: map_of_abs)
  next
    case False
    with assms have cap: "length (lm_kl s) = lm_capacity s" "0 < lm_capacity s" by (auto simp: lru_inv_def)
    then obtain ks z where kl: "lm_kl s = ks @ [z]" by (cases "lm_kl s" rule: rev_exhaust) auto
    have z: "z \<noteq> k" "z \<notin> set ks" "distinct ks" "k \<notin> set ks" using k assms kl by (auto simp: lru_inv_def)
    let ?t = "s\<lparr>lm_kv := map_erase z ((k, v) # lm_kv s), lm_kl := k # ks, lm_ki := map_erase z (map_assign k k (lm_ki s))\<rparr>"
    have i: "lru_insert k v s = ?t" using None len cap kl by (simp add: lru_insert_def Let_def)
    have "lru_inv ?t"
      using assms z kv kl cap distinct_erase [of "(k, v) # lm_kv s" z]
      by (auto simp: lru_inv_def map_of_assign map_of_erase keys_erase)
    moreover have "lru_abs ?t = take (lm_capacity s) ((k, v) # lru_abs s)"
    proof -
      have "length ks = lm_capacity s - 1" using cap kl by simp
      then have "take (lm_capacity s) ((k, v) # lru_abs s) = (k, v) # map (\<lambda>x. (x, the (map_of (lm_kv s) x))) ks"
        using cap(2) kl by (cases "lm_capacity s") (simp_all add: lru_abs_def)
      moreover have "lru_abs ?t = (k, v) # map (\<lambda>x. (x, the (map_of (lm_kv s) x))) ks"
        using z by (auto simp: lru_abs_def map_of_erase)
      ultimately show ?thesis by simp
    qed
    ultimately show ?thesis using i None assms by (simp add: map_of_abs)
  qed
qed

lemma erase_refines:
  assumes "lru_inv s"
  shows "\<exists>s'. lru_erase k s = Inr s' \<and> lru_inv s' \<and> lm_capacity s' = lm_capacity s \<and> lru_abs s' = map_erase k (lru_abs s)"
proof (cases "map_of (lm_kv s) k")
  case None
  with inv_mem [OF assms, of k] have "k \<notin> set (lm_kl s)" by simp
  then have "map_erase k (lru_abs s) = lru_abs s" by (auto simp: map_erase_def lru_abs_def filter_id_conv)
  with assms None show ?thesis by (simp add: lru_erase_def)
next
  case (Some v)
  with inv_mem [OF assms, of k] have k: "k \<in> set (lm_kl s)" by simp
  have d: "distinct (lm_kl s)" and ki: "map_of (lm_ki s) k = Some k" using assms k by (auto simp: lru_inv_def)
  let ?t = "s\<lparr>lm_kl := remove1 k (lm_kl s), lm_ki := map_erase k (lm_ki s), lm_kv := map_erase k (lm_kv s)\<rparr>"
  have "lru_inv ?t" using assms d distinct_erase [of "lm_kv s" k]
    by (auto simp: lru_inv_def map_of_erase keys_erase length_remove1)
  moreover have "lru_abs ?t = map_erase k (lru_abs s)"
    by (auto simp: lru_abs_def abs_erase remove1_filter [OF d] map_of_erase)
  ultimately show ?thesis using Some ki by (simp add: lru_erase_def)
qed

lemma do_refines:
  assumes "lru_inv s" "spec_do (lm_capacity s) x (lru_abs s) = (r, xs)"
  shows "\<exists>s'. lru_do x s = Inr (r, s') \<and> lru_inv s' \<and> lm_capacity s' = lm_capacity s \<and> lru_abs s' = xs"
proof (cases x)
  case (Find k)
  with find_refines [OF assms(1), of k] assms(2) show ?thesis by simp
next
  case (Insert k v)
  with insert_refines [OF assms(1), of k v] assms(2) show ?thesis by auto
next
  case (Erase k)
  with erase_refines [OF assms(1), of k] assms(2) show ?thesis by auto
next
  case Clear
  with assms show ?thesis by (auto simp: lru_clear_def lru_inv_def lru_abs_def)
qed

lemma run_refines:
  assumes "lru_inv s"
  shows "\<exists>s'. lru_run ops s = Inr (fst (spec_run (lm_capacity s) ops (lru_abs s)), s') \<and> lru_inv s' \<and>
    lru_abs s' = snd (spec_run (lm_capacity s) ops (lru_abs s))"
  using assms
proof (induction ops arbitrary: s)
  case (Cons x ops)
  obtain r xs where x: "spec_do (lm_capacity s) x (lru_abs s) = (r, xs)" by fastforce
  from do_refines [OF Cons.prems x] obtain s1 where s1: "lru_do x s = Inr (r, s1)" "lru_inv s1" "lm_capacity s1 = lm_capacity s" "lru_abs s1 = xs"
    by blast
  with Cons.IH [OF s1(2)] x show ?case by (auto split: prod.splits)
qed simp

lemma lru_inv_new: "lru_inv (lru_new n)"
  by (simp add: lru_inv_def lru_new_def)

section \<open>Properties\<close>

text \<open>
  C39. Any sequence of operations on a new map runs without touching an invalid iterator,
  answers what the list of pairs in order of use answers, and leaves that list: the map
  never holds more than its capacity and what it drops is the key not used for longest.
\<close>

theorem lru_refines_use_order:
  fixes ops :: "('k, 'v) lru_op list"
  shows "\<exists>s. lru_run ops (lru_new n) = Inr (fst (spec_run ((if n > 0 then n else 1024)) ops []), s) \<and>
    lru_abs s = snd (spec_run ((if n > 0 then n else 1024)) ops []) \<and> lru_size s = length (lru_abs s) \<and> lru_size s \<le> lm_capacity s"
proof -
  have "lru_abs (lru_new n :: ('k, 'v) lru) = []" "lm_capacity (lru_new n :: ('k, 'v) lru) = (if n > 0 then n else 1024)"
    by (simp_all add: lru_abs_def lru_new_def)
  with run_refines [OF lru_inv_new [of n], of ops] obtain s where
    s: "lru_run ops (lru_new n) = Inr (fst (spec_run ((if n > 0 then n else 1024)) ops []), s)" "lru_inv s"
      "lru_abs s = snd (spec_run ((if n > 0 then n else 1024)) ops [])" by auto
  moreover have "lru_size s = length (lru_abs s)" using inv_length [OF s(2)] by (simp add: lru_size_def lru_abs_def)
  moreover have "lru_size s \<le> lm_capacity s" using s(2) inv_length [OF s(2)] by (simp add: lru_inv_def lru_size_def)
  ultimately show ?thesis by blast
qed

end
