(* ===== verification/FastText.thy ===== *)
theory FastText
  imports CText LruMap
begin

text \<open>
  \<open>co/base/fast.cc\<close>: the text of numbers for logs and JSON. Integers are cut into groups of
  four digits, each looked up in a table of 10000 entries of four bytes; the first byte of
  an entry holds, beside a digit, how many digits the entry has. Texts of floating point
  numbers come from \<open>snprintf\<close>, a parameter, through a cache.
\<close>

unbundle bit_operations_syntax

section \<open>The tables\<close>

definition itoh_table :: "nat \<Rightarrow> string" where
  "itoh_table i = [digit_char (i div 16), digit_char (i mod 16)]"

definition itoa_table :: "nat \<Rightarrow> u8 list outcome" where
  "itoa_table i =
     (if i < 10000 then
        Inr [of_nat (i div 1000) OR (if i > 999 then push_bit 4 3 else if i > 99 then push_bit 4 2 else if i > 9 then push_bit 4 1 else 0),
          of_nat (i mod 1000 div 100 + 48), of_nat (i mod 100 div 10 + 48), of_nat (i mod 10 + 48)]
      else Inl Out_Of_Range)"

section \<open>Hexadecimal text\<close>

text \<open>The loop over the bytes of the value, lowest first, each written before the ones so far.\<close>

function hex_bytes :: "nat \<Rightarrow> string \<Rightarrow> string" where
  "hex_bytes v s = (let s = itoh_table (v mod 256) @ s in if v div 256 > 0 then hex_bytes (v div 256) s else s)"
  by pat_completeness auto
termination by (relation "measure fst") auto

declare hex_bytes.simps [simp del]

definition hex_text :: "nat \<Rightarrow> string" where
  "hex_text v = (let s = hex_bytes v [] in ''0x'' @ (if hd s = CHR ''0'' then tl s else s))"

definition u32toh :: "u32 \<Rightarrow> string" where
  "u32toh v = hex_text (unat v)"

definition u64toh :: "u64 \<Rightarrow> string" where
  "u64toh v = hex_text (unat v)"

section \<open>Decimal text\<close>

definition ascii_digits :: "u8 list \<Rightarrow> u8 list" where
  "ascii_digits b = map (\<lambda>x. x OR 0x30) b"

text \<open>The entries of the lower groups, completed to digits, behind what is already there.\<close>

fun lower_groups :: "nat list \<Rightarrow> u8 list outcome" where
  "lower_groups [] = Inr []"
| "lower_groups (g # gs) =
     bindR (itoa_table g) (\<lambda>b. bindR (lower_groups gs) (\<lambda>bs. Inr (ascii_digits b @ bs)))"

text \<open>The array from the leading group on, and how much of its end is the text.\<close>

definition groups_text :: "nat \<Rightarrow> nat list \<Rightarrow> string outcome" where
  "groups_text lead gs =
     bindR (itoa_table lead) (\<lambda>h. bindR (lower_groups gs) (\<lambda>bs.
       let b = h @ bs; len = length b - 3 + unat (drop_bit 4 (hd b))
       in Inr (map (\<lambda>x. char_of (unat x)) (drop (length b - len) b))))"

definition u32toa :: "u32 \<Rightarrow> string outcome" where
  "u32toa v =
     (if v > 9999 then
        let b1 = v div 10000; g2 = unat (v - b1 * 10000)
        in if b1 > 9999 then
             let b0 = b1 div 10000 in groups_text (unat b0) [unat (b1 - b0 * 10000), g2]
           else groups_text (unat b1) [g2]
      else groups_text (unat v) [])"

definition u64toa :: "u64 \<Rightarrow> string outcome" where
  "u64toa v =
     (if v > 9999 then
        let x = v div 10000; g4 = unat (v - x * 10000)
        in if x > 9999 then
             let v = x div 10000; g3 = unat (x - v * 10000)
             in if v > 9999 then
                  let x = v div 10000; g2 = unat (v - x * 10000)
                  in if x > 9999 then
                       let b0 = x div 10000
                       in groups_text (unat (ucast b0 :: u32)) [unat (x - b0 * 10000), g2, g3, g4]
                     else groups_text (unat x) [g2, g3, g4]
                else groups_text (unat v) [g3, g4]
           else groups_text (unat x) [g4]
      else groups_text (unat v) [])"

text \<open>
  \<open>-v\<close> is computed in the signed type. For the least value C++ leaves that undefined; the
  model wraps, as the machine's instruction does, and the text is then the right one.
\<close>

definition i32toa :: "u32 \<Rightarrow> string outcome" where
  "i32toa v = (if 0 \<le>s v then u32toa v else bindR (u32toa (- v)) (\<lambda>t. Inr (CHR ''-'' # t)))"

definition i64toa :: "u64 \<Rightarrow> string outcome" where
  "i64toa v = (if 0 \<le>s v then u64toa v else bindR (u64toa (- v)) (\<lambda>t. Inr (CHR ''-'' # t)))"

section \<open>Floating point numbers\<close>

text \<open>
  A value is known by its bits; \<open>g7\<close> is what \<open>snprintf\<close> writes for \<open>%.7g\<close>, or its failure. The
  cache of the thread is made with the first call.
\<close>

definition dtoa :: "('b \<Rightarrow> string option) \<Rightarrow> 'b \<Rightarrow> ('b, string) lru option \<Rightarrow> (string \<times> ('b, string) lru) outcome" where
  "dtoa g7 key cache =
     bindR (case cache of Some c \<Rightarrow> lru_find key c | None \<Rightarrow> Inr (None, lru_new 1024)) (\<lambda>(hit, c).
       case hit of
         Some s \<Rightarrow> Inr (s, c)
       | None \<Rightarrow> (case g7 key of Some s \<Rightarrow> Inr (s, lru_insert key s c) | None \<Rightarrow> Inr ([], c)))"

section \<open>Facts\<close>

text \<open>Four digits, padded with zeros.\<close>

definition pad4 :: "nat \<Rightarrow> string" where
  "pad4 g = [digit_char (g div 1000), digit_char (g mod 1000 div 100), digit_char (g mod 100 div 10), digit_char (g mod 10)]"

lemma dec_nat_step: "0 < n \<Longrightarrow> d < 10 \<Longrightarrow> dec_nat (10 * n + d) = dec_nat n @ [digit_char d]"
  by (subst dec_nat.simps) (simp del: digit_char.simps)

lemma group_digits:
  assumes "(g :: nat) < 10000"
  obtains a b c d where "a = g div 1000" "b = g mod 1000 div 100" "c = g mod 100 div 10" "d = g mod 10"
    "a < 10" "b < 10" "c < 10" "d < 10" "g = 10 * (10 * (10 * a + b) + c) + d"
proof -
  have "(g :: nat) = a * 1000 + r \<Longrightarrow> r = b * 100 + s \<Longrightarrow> s = c * 10 + d \<Longrightarrow> g = 10 * (10 * (10 * a + b) + c) + d" for a b c d r s
    by simp
  note this [OF div_mult_mod_eq [of g 1000, symmetric] div_mult_mod_eq [of "g mod 1000" 100, symmetric]]
  then have "g = 10 * (10 * (10 * (g div 1000) + g mod 1000 div 100) + g mod 100 div 10) + g mod 10"
    using div_mult_mod_eq [of "g mod 100" 10] by (simp add: mod_mod_cancel)
  moreover have "g div 1000 < 10" "g mod 1000 div 100 < 10" "g mod 100 div 10 < 10" "g mod 10 < 10"
    using assms by auto
  ultimately show thesis using that by blast
qed

lemma dec_nat_group:
  assumes n: "0 < n" and g: "g < 10000"
  shows "dec_nat (10000 * n + g) = dec_nat n @ pad4 g"
proof -
  obtain a b c d where abcd: "a = g div 1000" "b = g mod 1000 div 100" "c = g mod 100 div 10" "d = g mod 10"
    and less: "a < 10" "b < 10" "c < 10" "d < 10" and g: "g = 10 * (10 * (10 * a + b) + c) + d"
    using group_digits [OF g] by metis
  have eq: "10000 * n + g = 10 * (10 * (10 * (10 * n + a) + b) + c) + d" using g by simp
  have "dec_nat (10 * (10 * (10 * (10 * n + a) + b) + c) + d)
    = dec_nat n @ [digit_char a] @ [digit_char b] @ [digit_char c] @ [digit_char d]"
    using n less by (simp only: dec_nat_step append_assoc zero_less_mult_iff add_pos_nonneg mult_pos_pos
      zero_less_numeral zero_le trans_less_add1)
  then show ?thesis unfolding eq by (simp only: pad4_def abcd append.simps)
qed

lemma digit_byte:
  assumes "d < 10"
  shows "char_of (unat ((of_nat d :: u8) OR 0x30)) = digit_char d"
    and "char_of (unat ((of_nat (d + 48) :: u8))) = digit_char d"
    and "char_of (unat ((of_nat (d + 48) :: u8) OR 0x30)) = digit_char d"
proof -
  have "d \<in> set [0, 1, 2, 3, 4, 5, 6, 7, 8, 9]" using assms by auto
  then show "char_of (unat ((of_nat d :: u8) OR 0x30)) = digit_char d"
    "char_of (unat ((of_nat (d + 48) :: u8))) = digit_char d"
    "char_of (unat ((of_nat (d + 48) :: u8) OR 0x30)) = digit_char d"
    by auto
qed

definition bytes_text :: "u8 list \<Rightarrow> string" where
  "bytes_text b = map (\<lambda>x. char_of (unat x)) b"

lemma lead_byte:
  assumes "a < 10" "k < 4"
  shows "unat (drop_bit 4 ((of_nat a :: u8) OR push_bit 4 (of_nat k))) = k"
    and "char_of (unat (((of_nat a :: u8) OR push_bit 4 (of_nat k)) OR 0x30)) = digit_char a"
    and "char_of (unat ((of_nat a :: u8) OR push_bit 4 3)) = digit_char a"
proof -
  have "a \<in> set [0, 1, 2, 3, 4, 5, 6, 7, 8, 9]" "k \<in> set [0, 1, 2, 3]" using assms by auto
  then show "unat (drop_bit 4 ((of_nat a :: u8) OR push_bit 4 (of_nat k))) = k"
    "char_of (unat (((of_nat a :: u8) OR push_bit 4 (of_nat k)) OR 0x30)) = digit_char a"
    "char_of (unat ((of_nat a :: u8) OR push_bit 4 3)) = digit_char a"
    by auto
qed

text \<open>How many digits an entry has beside its last.\<close>

definition more_digits :: "nat \<Rightarrow> nat" where
  "more_digits i = (if i > 999 then 3 else if i > 99 then 2 else if i > 9 then 1 else 0)"

lemma itoa_table_entry:
  assumes "g < 10000"
  obtains x where "itoa_table g = Inr [x, of_nat (g mod 1000 div 100 + 48), of_nat (g mod 100 div 10 + 48), of_nat (g mod 10 + 48)]"
    "unat (drop_bit 4 x) = more_digits g" "char_of (unat (x OR 0x30)) = digit_char (g div 1000)"
    "g > 999 \<Longrightarrow> char_of (unat x) = digit_char (g div 1000)"
proof -
  let ?x = "(of_nat (g div 1000) :: u8) OR push_bit 4 (of_nat (more_digits g))"
  have a: "g div 1000 < 10" "more_digits g < 4" using assms by (auto simp: more_digits_def)
  have "itoa_table g = Inr [?x, of_nat (g mod 1000 div 100 + 48), of_nat (g mod 100 div 10 + 48), of_nat (g mod 10 + 48)]"
    using assms by (simp add: itoa_table_def more_digits_def)
  moreover have "char_of (unat ?x) = digit_char (g div 1000)" if "g > 999"
    using lead_byte(3) [OF a] that by (simp add: more_digits_def)
  ultimately show thesis using that lead_byte(1,2) [OF a] by blast
qed

lemma lower_groups_text:
  "list_all (\<lambda>g. g < 10000) gs \<Longrightarrow> \<exists>bs. lower_groups gs = Inr bs \<and> bytes_text bs = concat (map pad4 gs)"
proof (induction gs)
  case (Cons g gs)
  then obtain bs where bs: "lower_groups gs = Inr bs" "bytes_text bs = concat (map pad4 gs)" by auto
  have g: "g < 10000" using Cons.prems by simp
  obtain x where x: "itoa_table g = Inr [x, of_nat (g mod 1000 div 100 + 48), of_nat (g mod 100 div 10 + 48), of_nat (g mod 10 + 48)]"
    "char_of (unat (x OR 0x30)) = digit_char (g div 1000)"
    using itoa_table_entry [OF g] by metis
  have d: "g mod 1000 div 100 < 10" "g mod 100 div 10 < 10" "g mod 10 < 10" by auto
  show ?case
    using bs x d by (simp add: bytes_text_def ascii_digits_def pad4_def [of g] digit_byte del: digit_char.simps of_nat_add)
qed (simp add: bytes_text_def)

lemma dec_nat_short:
  assumes "i < 10000"
  shows "dec_nat i = drop (3 - more_digits i) (pad4 i)"
proof -
  have e: "i < 10 \<Longrightarrow> i mod 10 = i" "i < 100 \<Longrightarrow> i mod 100 = i" "i < 1000 \<Longrightarrow> i mod 1000 = i" by auto
  obtain a b c d where abcd: "a = i div 1000" "b = i mod 1000 div 100" "c = i mod 100 div 10" "d = i mod 10"
    and l: "a < 10" "b < 10" "c < 10" "d < 10" and i: "i = 10 * (10 * (10 * a + b) + c) + d"
    using group_digits [OF assms] by metis
  have p: "pad4 i = [digit_char a, digit_char b, digit_char c, digit_char d]" by (simp only: pad4_def abcd)
  have one: "x < 10 \<Longrightarrow> dec_nat x = [digit_char x]" for x by (subst dec_nat.simps) simp
  consider "a > 0" | "a = 0" "b > 0" | "a = 0" "b = 0" "c > 0" | "a = 0" "b = 0" "c = 0" by blast
  then show ?thesis
  proof cases
    case 1
    then have "more_digits i = 3" using i by (simp add: more_digits_def)
    moreover have "dec_nat i = [digit_char a, digit_char b, digit_char c, digit_char d]"
      using 1 l unfolding i by (simp add: dec_nat_step one del: digit_char.simps distrib_left_numeral)
    ultimately show ?thesis by (simp add: p del: digit_char.simps)
  next
    case 2
    then have "more_digits i = 2" using i l by (simp add: more_digits_def)
    moreover have "dec_nat i = [digit_char b, digit_char c, digit_char d]"
      using 2 l unfolding i by (simp add: dec_nat_step one del: digit_char.simps distrib_left_numeral)
    ultimately show ?thesis by (simp add: p del: digit_char.simps)
  next
    case 3
    then have "more_digits i = 1" using i l by (simp add: more_digits_def)
    moreover have "dec_nat i = [digit_char c, digit_char d]"
      using 3 l unfolding i by (simp add: dec_nat_step one del: digit_char.simps distrib_left_numeral)
    ultimately show ?thesis by (simp add: p del: digit_char.simps)
  next
    case 4
    then have "more_digits i = 0" using i l by (simp add: more_digits_def)
    moreover have "drop 3 (pad4 i) = [digit_char d]" by (simp add: p)
    moreover have "dec_nat i = [digit_char d]" using 4 i l one [of i] by simp
    ultimately show ?thesis by simp
  qed
qed

lemma groups_text_ok:
  assumes lead: "lead < 10000" and gs: "list_all (\<lambda>g. g < 10000) gs"
  shows "groups_text lead gs = Inr (dec_nat lead @ concat (map pad4 gs))"
proof -
  obtain bs where bs: "lower_groups gs = Inr bs" "bytes_text bs = concat (map pad4 gs)"
    using lower_groups_text [OF gs] by blast
  obtain x where x: "itoa_table lead = Inr [x, of_nat (lead mod 1000 div 100 + 48), of_nat (lead mod 100 div 10 + 48), of_nat (lead mod 10 + 48)]"
    "unat (drop_bit 4 x) = more_digits lead" "lead > 999 \<Longrightarrow> char_of (unat x) = digit_char (lead div 1000)"
    using itoa_table_entry [OF lead] by metis
  let ?h = "[x, of_nat (lead mod 1000 div 100 + 48), of_nat (lead mod 100 div 10 + 48), of_nat (lead mod 10 + 48)]"
  have d: "lead mod 1000 div 100 < 10" "lead mod 100 div 10 < 10" "lead mod 10 < 10" by auto
  have m: "more_digits lead \<le> 3" by (simp add: more_digits_def)
  have "length (?h @ bs) - (length (?h @ bs) - 3 + more_digits lead) = 3 - more_digits lead" using m by simp
  moreover have "drop (3 - more_digits lead) (?h @ bs) = drop (3 - more_digits lead) ?h @ bs"
    using drop_append [of "3 - more_digits lead" ?h bs] by simp
  moreover have "bytes_text (drop (3 - more_digits lead) ?h) = drop (3 - more_digits lead) (pad4 lead)"
  proof (cases "more_digits lead = 3")
    case True
    then have "lead > 999" by (simp add: more_digits_def split: if_splits)
    with x d True show ?thesis by (simp add: bytes_text_def pad4_def digit_byte del: digit_char.simps of_nat_add)
  next
    case False
    with m consider "more_digits lead = 0" | "more_digits lead = 1" | "more_digits lead = 2" by linarith
    then show ?thesis
      using d by cases (simp_all add: bytes_text_def pad4_def digit_byte del: digit_char.simps of_nat_add)
  qed
  ultimately have "bytes_text (drop (length (?h @ bs) - (length (?h @ bs) - 3 + unat (drop_bit 4 (hd (?h @ bs))))) (?h @ bs))
    = dec_nat lead @ concat (map pad4 gs)"
    using x(2) bs(2) dec_nat_short [OF lead] by (simp add: bytes_text_def)
  then show ?thesis unfolding groups_text_def x(1) bs(1) bindR_simps Let_def bytes_text_def by simp
qed

text \<open>One step of cutting: a quotient that is not zero, and a group.\<close>

lemma cut_group:
  fixes v :: "'a :: len word"
  assumes "unat v > 9999" "LENGTH('a) \<ge> 32"
  shows "unat (v div 10000) = unat v div 10000" "unat (v - v div 10000 * 10000) = unat v mod 10000"
    "dec_nat (unat v) = dec_nat (unat v div 10000) @ pad4 (unat v mod 10000)" "unat v mod 10000 < 10000"
proof -
  have "(2 :: nat) ^ 32 \<le> 2 ^ LENGTH('a)" by (rule power_increasing [OF assms(2)]) simp
  then have t: "unat (10000 :: 'a word) = 10000"
    using unat_of_nat [of 10000, where 'a = 'a] by simp
  show q: "unat (v div 10000) = unat v div 10000" by (simp only: unat_div_distrib t)
  have le: "unat (v div 10000) * unat (10000 :: 'a word) \<le> unat v" by (simp only: q t)
  have "v - v div 10000 * 10000 = v mod 10000" by (metis minus_div_mult_eq_mod)
  then show "unat (v - v div 10000 * 10000) = unat v mod 10000" by (simp only: unat_mod_distrib t)
  have "unat v = 10000 * (unat v div 10000) + unat v mod 10000" by simp
  then show "dec_nat (unat v) = dec_nat (unat v div 10000) @ pad4 (unat v mod 10000)"
    using dec_nat_group [of "unat v div 10000" "unat v mod 10000"] assms(1) by simp
qed simp

lemma above_9999:
  fixes v :: "'a :: len word"
  assumes "LENGTH('a) \<ge> 32"
  shows "v > 9999 \<longleftrightarrow> unat v > 9999"
proof -
  have "(2 :: nat) ^ 32 \<le> 2 ^ LENGTH('a)" by (rule power_increasing [OF assms]) simp
  then have "unat (9999 :: 'a word) = 9999" using unat_of_nat [of 9999, where 'a = 'a] by simp
  then show ?thesis by (simp only: word_less_nat_alt)
qed

lemma cut:
  fixes v :: "'a :: len word"
  assumes "unat v > 9999" "LENGTH('a) \<ge> 32"
  shows "dec_nat (unat v) = dec_nat (unat (v div 10000)) @ pad4 (unat (v - v div 10000 * 10000))"
    "unat (v - v div 10000 * 10000) < 10000"
  using cut_group [OF assms] by simp_all

lemma u32toa_dec: "u32toa v = Inr (dec_nat (unat v))"
proof -
  define x where "x = v div 10000"
  define y where "y = x div 10000"
  have v: "unat v < 2 ^ 32" using unsigned_less [of v] by simp
  have "unat y < 10000" if "unat v > 9999" "unat x > 9999"
    using v cut_group(1) [OF that(1)] cut_group(1) [OF that(2)] by (simp add: x_def y_def)
  with cut [of v, folded x_def] cut [of x, folded y_def] show ?thesis
    by (simp add: u32toa_def above_9999 groups_text_ok Let_def flip: x_def y_def)
qed

lemma five_groups: "(n :: nat) < 2 ^ 64 \<Longrightarrow> n div 10000 div 10000 div 10000 div 10000 < 10000"
  by (simp add: less_mult_imp_div_less flip: div_mult2_eq)

lemma u64toa_dec: "u64toa v = Inr (dec_nat (unat v))"
proof -
  define x where "x = v div 10000"
  define y where "y = x div 10000"
  define z where "z = y div 10000"
  define w where "w = z div 10000"
  have v: "unat v < 2 ^ 64" using unsigned_less [of v] by simp
  have w: "unat w < 10000" if "unat v > 9999" "unat x > 9999" "unat y > 9999" "unat z > 9999"
    using v cut_group(1) [OF that(1)] cut_group(1) [OF that(2)] cut_group(1) [OF that(3)]
      cut_group(1) [OF that(4)] five_groups [OF v] by (simp add: x_def y_def z_def w_def)
  have u: "unat (ucast w :: u32) = unat w" if "unat w < 10000"
    using that by (simp add: unsigned_ucast_eq take_bit_nat_eq_self)
  consider "\<not> unat v > 9999" | "unat v > 9999" "\<not> unat x > 9999" | "unat v > 9999" "unat x > 9999" "\<not> unat y > 9999"
    | "unat v > 9999" "unat x > 9999" "unat y > 9999" "\<not> unat z > 9999"
    | "unat v > 9999" "unat x > 9999" "unat y > 9999" "unat z > 9999" by blast
  then show ?thesis
  proof cases
    case 1
    then show ?thesis by (simp add: u64toa_def above_9999 groups_text_ok)
  next
    case 2
    then show ?thesis using cut [of v, folded x_def]
      by (simp add: u64toa_def above_9999 groups_text_ok Let_def flip: x_def)
  next
    case 3
    then show ?thesis using cut [of v, folded x_def] cut [of x, folded y_def]
      by (simp add: u64toa_def above_9999 groups_text_ok Let_def flip: x_def y_def)
  next
    case 4
    then show ?thesis using cut [of v, folded x_def] cut [of x, folded y_def] cut [of y, folded z_def]
      by (simp add: u64toa_def above_9999 groups_text_ok Let_def flip: x_def y_def z_def)
  next
    case 5
    then show ?thesis using w u cut [of v, folded x_def] cut [of x, folded y_def] cut [of y, folded z_def] cut [of z, folded w_def]
      by (simp add: u64toa_def above_9999 groups_text_ok Let_def flip: x_def y_def z_def w_def)
  qed
qed

lemma signed_text:
  fixes v :: "'a :: len word"
  assumes "LENGTH('a) > 1"
  shows "dec_int (sint v) = (if 0 \<le>s v then dec_nat (unat v) else CHR ''-'' # dec_nat (unat (- v)))"
proof (cases "0 \<le>s v")
  case True
  then have "0 \<le> sint v" by (simp add: word_sle_eq)
  moreover have "uint v = sint v mod 2 ^ LENGTH('a)" using uint_word_of_int [of "sint v", where 'a = 'a] by simp
  moreover have "sint v < 2 ^ LENGTH('a)"
    using sint_less [of v] by (rule order_less_le_trans) (simp add: power_increasing)
  ultimately have "sint v = uint v" by (simp add: mod_pos_pos_trivial)
  with True show ?thesis using \<open>0 \<le> sint v\<close> by (simp add: dec_int_def)
next
  case False
  then have n: "sint v < 0" by (simp add: word_sle_eq)
  have "uint (- v) = (- sint v) mod 2 ^ LENGTH('a)"
    using uint_word_of_int [of "- sint v", where 'a = 'a] by simp
  moreover have "- sint v \<le> 2 ^ (LENGTH('a) - 1)" using sint_ge [of v] by simp
  then have "- sint v < 2 ^ LENGTH('a)"
    by (rule order_le_less_trans) (simp add: assms power_strict_increasing)
  ultimately have "uint (- v) = - sint v" using n by (simp add: mod_pos_pos_trivial)
  then show ?thesis using n False by (simp add: dec_int_def unat_eq_nat_uint)
qed

text \<open>The shortest hexadecimal text.\<close>

fun hex_nat :: "nat \<Rightarrow> string" where
  "hex_nat n = (if n < 16 then [digit_char n] else hex_nat (n div 16) @ [digit_char (n mod 16)])"

declare hex_nat.simps [simp del] digit_char.simps [simp del]

lemma hex_nat_0: "n < 16 \<Longrightarrow> hex_nat n = [digit_char n]"
  by (subst hex_nat.simps) simp

lemma hex_nat_step: "16 \<le> n \<Longrightarrow> hex_nat n = hex_nat (n div 16) @ [digit_char (n mod 16)]"
  by (subst hex_nat.simps) simp

lemma hex_nat_first: "0 < n \<Longrightarrow> \<exists>c t. hex_nat n = c # t \<and> c \<noteq> CHR ''0''"
proof (induction n rule: hex_nat.induct)
  case (1 n)
  show ?case
  proof (cases "n < 16")
    case True
    have "of_char (digit_char n) \<noteq> (48 :: nat)" using 1 True by (simp add: digit_char.simps of_char_of)
    then have "digit_char n \<noteq> CHR ''0''" by auto
    with True show ?thesis by (simp add: hex_nat_0)
  next
    case False
    with 1 have "\<exists>c t. hex_nat (n div 16) = c # t \<and> c \<noteq> CHR ''0''" by simp
    with False show ?thesis by (auto simp: hex_nat_step)
  qed
qed

lemma digit_0: "digit_char 0 = CHR ''0''"
  by code_simp

lemma hex_bytes_nat:
  "hex_bytes v s = (if odd (length (hex_nat v)) then CHR ''0'' # hex_nat v else hex_nat v) @ s"
proof (induction v arbitrary: s rule: less_induct)
  case (less v)
  have m: "v mod 256 div 16 = v div 16 mod 16" "v mod 256 mod 16 = v mod 16"
    using mod_mult2_eq [of v 16 16] by (simp_all add: mod_mod_cancel)
  show ?case
  proof (cases "v < 256")
    case True
    then have b: "hex_bytes v s = itoh_table v @ s" by (subst hex_bytes.simps) simp
    show ?thesis
    proof (cases "v < 16")
      case True
      then show ?thesis using b digit_0 by (simp add: itoh_table_def hex_nat_0)
    next
      case False
      then show ?thesis using b True by (simp add: itoh_table_def hex_nat_step hex_nat_0)
    qed
  next
    case False
    then have "hex_bytes v s = hex_bytes (v div 256) (itoh_table (v mod 256) @ s)"
      by (subst hex_bytes.simps) (simp add: div_greater_zero_iff)
    moreover have "hex_nat v = hex_nat (v div 256) @ itoh_table (v mod 256)"
      using False by (simp add: hex_nat_step itoh_table_def m flip: div_mult2_eq)
    ultimately show ?thesis using less [of "v div 256"] False by (simp add: itoh_table_def)
  qed
qed

lemma hex_text_nat: "hex_text v = ''0x'' @ hex_nat v"
proof (cases "v = 0")
  case True
  then show ?thesis by (simp add: hex_text_def hex_bytes_nat hex_nat_0 digit_0)
next
  case False
  then obtain c t where "hex_nat v = c # t" "c \<noteq> CHR ''0''" using hex_nat_first [of v] by auto
  then show ?thesis by (simp add: hex_text_def hex_bytes_nat)
qed

text \<open>
  C40. The table-driven routines print every 32-bit and 64-bit integer, signed in decimal
  and unsigned in hexadecimal, as the shortest text of its value, and never read behind a
  table.
\<close>

theorem integers_print_shortest:
  "i32toa v = Inr (dec_int (sint v)) \<and> i64toa w = Inr (dec_int (sint w)) \<and>
   u32toh v = ''0x'' @ hex_nat (unat v) \<and> u64toh w = ''0x'' @ hex_nat (unat w)"
  by (simp add: i32toa_def i64toa_def u32toa_dec u64toa_dec signed_text u32toh_def u64toh_def hex_text_nat)

section \<open>The cache of floating point texts\<close>

definition cached_right :: "('b \<Rightarrow> string option) \<Rightarrow> ('b, string) lru option \<Rightarrow> bool" where
  "cached_right g7 cache \<longleftrightarrow>
     (case cache of None \<Rightarrow> True | Some c \<Rightarrow> lru_inv c \<and> (\<forall>(k, s) \<in> set (lru_abs c). g7 k = Some s))"

lemma map_of_right:
  "(\<forall>(k, s) \<in> set xs. g7 k = Some s) \<Longrightarrow> map_of xs k = Some s \<Longrightarrow> g7 k = Some s"
  by (auto dest: map_of_SomeD)

lemma lru_abs_new [simp]: "lru_abs (lru_new n) = []"
  by (simp add: lru_abs_def lru_new_def)

lemma lru_find_new [simp]: "lru_find k (lru_new n) = Inr (None, lru_new n)"
  by (simp add: lru_find_def lru_new_def)

lemma find_answers:
  assumes "lru_inv c"
  shows "\<exists>c'. lru_find k c = Inr (map_of (lru_abs c) k, c') \<and> lru_inv c' \<and> set (lru_abs c') \<subseteq> set (lru_abs c)"
proof -
  obtain r xs where x: "spec_do (lm_capacity c) (Find k) (lru_abs c) = (r, xs)" by fastforce
  from do_refines [OF assms x] obtain c' where c: "lru_find k c = Inr (r, c')" "lru_inv c'" "lru_abs c' = xs" by auto
  have "r = map_of (lru_abs c) k \<and> set xs \<subseteq> set (lru_abs c)"
  proof (cases "map_of (lru_abs c) k")
    case (Some v)
    with x map_of_SomeD [OF Some] show ?thesis by (auto simp: map_erase_def)
  qed (use x in simp)
  with c show ?thesis by blast
qed

lemma insert_adds:
  assumes "lru_inv c"
  shows "lru_inv (lru_insert k v c)" "set (lru_abs (lru_insert k v c)) \<subseteq> insert (k, v) (set (lru_abs c))"
proof -
  obtain r xs where x: "spec_do (lm_capacity c) (Insert k v) (lru_abs c) = (r, xs)" by fastforce
  from do_refines [OF assms x] show "lru_inv (lru_insert k v c)" by simp
  from do_refines [OF assms x] x show "set (lru_abs (lru_insert k v c)) \<subseteq> insert (k, v) (set (lru_abs c))"
    using set_take_subset [of "lm_capacity c" "(k, v) # lru_abs c"] by (auto split: if_splits)
qed

text \<open>
  Whatever was printed before, the text of a floating point number is what \<open>snprintf\<close>
  writes for it, and the cache stays right.
\<close>

theorem cached_text_is_right:
  assumes "cached_right g7 cache"
  shows "\<exists>c. dtoa g7 key cache = Inr (case g7 key of Some s \<Rightarrow> s | None \<Rightarrow> [], c) \<and> cached_right g7 (Some c)"
proof -
  define c0 where "c0 = (case cache of Some c \<Rightarrow> c | None \<Rightarrow> lru_new 1024)"
  have c0: "lru_inv c0" "\<forall>(k, s) \<in> set (lru_abs c0). g7 k = Some s"
    using assms lru_inv_new by (auto simp: c0_def cached_right_def split: option.splits)
  obtain c1 where c1: "lru_find key c0 = Inr (map_of (lru_abs c0) key, c1)" "lru_inv c1" "set (lru_abs c1) \<subseteq> set (lru_abs c0)"
    using find_answers [OF c0(1)] by blast
  have start: "(case cache of Some c \<Rightarrow> lru_find key c | None \<Rightarrow> Inr (None, lru_new 1024)) = Inr (map_of (lru_abs c0) key, c1)"
    using c1(1) by (cases cache) (auto simp: c0_def)
  have r1: "\<forall>(k, s) \<in> set (lru_abs c1). g7 k = Some s" using c0(2) c1(3) by blast
  show ?thesis
  proof (cases "map_of (lru_abs c0) key")
    case (Some s)
    with map_of_right [OF c0(2) Some] start c1(2) r1 show ?thesis by (simp add: dtoa_def cached_right_def)
  next
    case None
    show ?thesis
    proof (cases "g7 key")
      case None
      with \<open>map_of (lru_abs c0) key = None\<close> start c1(2) r1 show ?thesis by (simp add: dtoa_def cached_right_def)
    next
      case (Some s)
      then have "\<forall>(k, s) \<in> set (lru_abs (lru_insert key s c1)). g7 k = Some s"
        using r1 insert_adds(2) [OF c1(2), of key s] by blast
      with Some \<open>map_of (lru_abs c0) key = None\<close> start insert_adds(1) [OF c1(2)] show ?thesis
        by (simp add: dtoa_def cached_right_def)
    qed
  qed
qed

theorem cached_text_is_right_witness:
  "\<exists>c. dtoa (\<lambda>x :: nat. if x = 5 then Some ''5'' else None) 5 None = Inr (''5'', c) \<and>
     cached_right (\<lambda>x :: nat. if x = 5 then Some ''5'' else None) (Some c)"
  using cached_text_is_right [of "\<lambda>x :: nat. if x = 5 then Some ''5'' else None" None 5] by (simp add: cached_right_def)

end
