(* ===== verification/StepSystem.thy ===== *)
theory StepSystem
  imports Prelude
begin

text \<open>
  The interface of the concurrent components: a step relation, where it starts, and an
  invariant every step keeps. A state is reachable when a run of steps leads to it.
\<close>

locale step_system =
  fixes step :: "'s \<Rightarrow> 's \<Rightarrow> bool"
    and start :: 's
    and inv :: "'s \<Rightarrow> bool"
  assumes inv_start: "inv start"
    and inv_next: "inv s \<Longrightarrow> step s t \<Longrightarrow> inv t"
begin

lemma inv_run: "step\<^sup>*\<^sup>* s t \<Longrightarrow> inv s \<Longrightarrow> inv t"
  by (induction rule: rtranclp_induct) (auto intro: inv_next)

lemma inv_reachable: "step\<^sup>*\<^sup>* start s \<Longrightarrow> inv s"
  using inv_run inv_start by blast

end

end
