(* ===== verification/CoMutex.thy ===== *)
theory CoMutex
  imports StepSystem
begin

text \<open>
  The mutex of coroutines (\<open>co/base/co/impl/co.cc\<close>): a flag and a queue of waiting coroutines,
  each operation under a thread mutex. A coroutine that finds the mutex locked queues itself
  and yields; unlocking hands the mutex to the first of the queue, which then runs when
  its scheduler comes to it. Coroutines are numbers.
\<close>

section \<open>The operations\<close>

record co_mutex =
  mx_lock :: bool
  mx_wait :: "nat list"

definition mutex_new :: co_mutex where
  "mutex_new = \<lparr>mx_lock = False, mx_wait = []\<rparr>"

text \<open>Whether the mutex was free; otherwise the coroutine has to yield.\<close>

definition mutex_lock :: "nat \<Rightarrow> co_mutex \<Rightarrow> bool \<times> co_mutex" where
  "mutex_lock co m =
     (if \<not> mx_lock m then (True, m\<lparr>mx_lock := True\<rparr>) else (False, m\<lparr>mx_wait := mx_wait m @ [co]\<rparr>))"

text \<open>The coroutine that is handed to its scheduler, if one waits.\<close>

definition mutex_unlock :: "co_mutex \<Rightarrow> nat option \<times> co_mutex" where
  "mutex_unlock m =
     (case mx_wait m of
        [] \<Rightarrow> (None, m\<lparr>mx_lock := False\<rparr>)
      | co # cos \<Rightarrow> (Some co, m\<lparr>mx_wait := cos\<rparr>))"

definition mutex_try_lock :: "co_mutex \<Rightarrow> bool \<times> co_mutex" where
  "mutex_try_lock m = (if mx_lock m then (False, m) else (True, m\<lparr>mx_lock := True\<rparr>))"

section \<open>Coroutines around a mutex\<close>

text \<open>
  Where a coroutine is: outside, in its critical section, yielded in the queue, or handed to
  its scheduler with the mutex but not running yet. The two lists record who queued and who
  was handed the mutex, in order.
\<close>

datatype place = Outside | Holding | Queued | Granted

record mx_system =
  ms_mutex :: co_mutex
  ms_place :: "nat \<Rightarrow> place"
  ms_queued :: "nat list"
  ms_granted :: "nat list"

definition mx_start :: mx_system where
  "mx_start = \<lparr>ms_mutex = mutex_new, ms_place = (\<lambda>_. Outside), ms_queued = [], ms_granted = []\<rparr>"

definition at_place :: "nat \<Rightarrow> place \<Rightarrow> co_mutex \<Rightarrow> mx_system \<Rightarrow> mx_system" where
  "at_place co p m s = s\<lparr>ms_mutex := m, ms_place := (ms_place s)(co := p)\<rparr>"

text \<open>A coroutine unlocks only what it holds.\<close>

inductive mx_step :: "mx_system \<Rightarrow> mx_system \<Rightarrow> bool" where
  lock_free: "ms_place s co = Outside \<Longrightarrow> mutex_lock co (ms_mutex s) = (True, m) \<Longrightarrow>
     mx_step s (at_place co Holding m s)"
| lock_busy: "ms_place s co = Outside \<Longrightarrow> mutex_lock co (ms_mutex s) = (False, m) \<Longrightarrow>
     mx_step s (at_place co Queued m (s\<lparr>ms_queued := ms_queued s @ [co]\<rparr>))"
| try_lock: "ms_place s co = Outside \<Longrightarrow> mutex_try_lock (ms_mutex s) = (ok, m) \<Longrightarrow>
     mx_step s (at_place co (if ok then Holding else Outside) m s)"
| unlock_free: "ms_place s co = Holding \<Longrightarrow> mutex_unlock (ms_mutex s) = (None, m) \<Longrightarrow>
     mx_step s (at_place co Outside m s)"
| unlock_pass: "ms_place s co = Holding \<Longrightarrow> mutex_unlock (ms_mutex s) = (Some d, m) \<Longrightarrow>
     mx_step s (at_place d Granted m (at_place co Outside m (s\<lparr>ms_granted := ms_granted s @ [d]\<rparr>)))"
| resumed: "ms_place s co = Granted \<Longrightarrow> mx_step s (at_place co Holding (ms_mutex s) s)"

inductive_cases mx_stepE: "mx_step s t"

section \<open>The invariant\<close>

abbreviation owns :: "mx_system \<Rightarrow> nat \<Rightarrow> bool" where
  "owns s co \<equiv> ms_place s co = Holding \<or> ms_place s co = Granted"

definition mx_inv :: "mx_system \<Rightarrow> bool" where
  "mx_inv s \<longleftrightarrow>
     (mx_lock (ms_mutex s) \<longleftrightarrow> (\<exists>co. owns s co)) \<and>
     (\<forall>co co'. owns s co \<and> owns s co' \<longrightarrow> co = co') \<and>
     distinct (mx_wait (ms_mutex s)) \<and>
     (\<forall>co. co \<in> set (mx_wait (ms_mutex s)) \<longleftrightarrow> ms_place s co = Queued) \<and>
     (mx_wait (ms_mutex s) \<noteq> [] \<longrightarrow> mx_lock (ms_mutex s)) \<and>
     ms_queued s = ms_granted s @ mx_wait (ms_mutex s)"

lemma mx_inv_step: "mx_inv s \<Longrightarrow> mx_step s t \<Longrightarrow> mx_inv t"
proof (erule mx_stepE)
  fix co m assume i: "mx_inv s" and p: "ms_place s co = Outside" and o: "mutex_lock co (ms_mutex s) = (True, m)"
    and t: "t = at_place co Holding m s"
  then have f: "\<not> mx_lock (ms_mutex s)" "m = (ms_mutex s)\<lparr>mx_lock := True\<rparr>" by (auto simp: mutex_lock_def split: if_splits)
  then have "\<not> owns s d" for d using i unfolding mx_inv_def by blast
  then show "mx_inv t" using i p f unfolding t mx_inv_def at_place_def by auto
next
  fix co m assume i: "mx_inv s" and p: "ms_place s co = Outside" and o: "mutex_lock co (ms_mutex s) = (False, m)"
    and t: "t = at_place co Queued m (s\<lparr>ms_queued := ms_queued s @ [co]\<rparr>)"
  then have f: "mx_lock (ms_mutex s)" "m = (ms_mutex s)\<lparr>mx_wait := mx_wait (ms_mutex s) @ [co]\<rparr>"
    by (auto simp: mutex_lock_def split: if_splits)
  have n: "co \<notin> set (mx_wait (ms_mutex s))" using i p unfolding mx_inv_def by auto
  have "owns t x \<longleftrightarrow> owns s x" "ms_place t x = Queued \<longleftrightarrow> x = co \<or> ms_place s x = Queued" for x
    using p unfolding t at_place_def by auto
  then show "mx_inv t" using i f n unfolding mx_inv_def t at_place_def by simp
next
  fix co m ok assume i: "mx_inv s" and p: "ms_place s co = Outside" and o: "mutex_try_lock (ms_mutex s) = (ok, m)"
    and t: "t = at_place co (if ok then Holding else Outside) m s"
  show "mx_inv t"
  proof (cases ok)
    case True
    then have f: "\<not> mx_lock (ms_mutex s)" "m = (ms_mutex s)\<lparr>mx_lock := True\<rparr>" using o by (auto simp: mutex_try_lock_def split: if_splits)
    then have "\<not> owns s d" for d using i unfolding mx_inv_def by blast
    then show ?thesis using i p f True unfolding t mx_inv_def at_place_def by auto
  next
    case False
    then have "m = ms_mutex s" using o by (auto simp: mutex_try_lock_def split: if_splits)
    moreover have "(ms_place s)(co := Outside) = ms_place s" using p by (simp add: fun_upd_idem)
    ultimately have "t = s" using False by (simp add: t at_place_def)
    with i show ?thesis by simp
  qed
next
  fix co m assume i: "mx_inv s" and p: "ms_place s co = Holding" and o: "mutex_unlock (ms_mutex s) = (None, m)"
    and t: "t = at_place co Outside m s"
  then have f: "mx_wait (ms_mutex s) = []" "m = (ms_mutex s)\<lparr>mx_lock := False\<rparr>" by (auto simp: mutex_unlock_def split: list.splits)
  have n: "owns s d \<Longrightarrow> d = co" for d using i p unfolding mx_inv_def by blast
  show "mx_inv t" using i p f n unfolding t mx_inv_def at_place_def by auto
next
  fix co m d assume i: "mx_inv s" and p: "ms_place s co = Holding" and o: "mutex_unlock (ms_mutex s) = (Some d, m)"
    and t: "t = at_place d Granted m (at_place co Outside m (s\<lparr>ms_granted := ms_granted s @ [d]\<rparr>))"
  then obtain ds where f: "mx_wait (ms_mutex s) = d # ds" "m = (ms_mutex s)\<lparr>mx_wait := ds\<rparr>"
    by (auto simp: mutex_unlock_def split: list.splits)
  have n: "owns s d \<Longrightarrow> d = co" for d using i p unfolding mx_inv_def by blast
  have q: "ms_place s d = Queued" using i f(1) unfolding mx_inv_def by (metis list.set_intros(1))
  then have "d \<noteq> co" using p by auto
  note q = q this
  have l: "mx_lock (ms_mutex s)" "distinct (d # ds)" "ms_queued s = ms_granted s @ d # ds"
    "\<And>x. x \<in> set (d # ds) \<longleftrightarrow> ms_place s x = Queued"
    using i f(1) unfolding mx_inv_def by auto
  have "x \<in> set ds \<longleftrightarrow> ms_place t x = Queued" for x using l(2) l(4) [of x] p q unfolding t at_place_def by auto
  moreover have "owns t x \<longleftrightarrow> x = d" for x using n q unfolding t at_place_def by auto
  ultimately show "mx_inv t" using l(1,2,3) f(2) unfolding mx_inv_def t at_place_def by auto
next
  fix co assume i: "mx_inv s" and p: "ms_place s co = Granted" and t: "t = at_place co Holding (ms_mutex s) s"
  have "owns t x \<longleftrightarrow> owns s x" "ms_place t x = Queued \<longleftrightarrow> ms_place s x = Queued" for x using p unfolding t at_place_def by auto
  moreover have "ms_mutex t = ms_mutex s" "ms_queued t = ms_queued s" "ms_granted t = ms_granted s"
    by (simp_all add: t at_place_def)
  ultimately have "mx_inv t = mx_inv s" unfolding mx_inv_def by (simp only:)
  with i show "mx_inv t" by simp
qed

interpretation mutex: step_system mx_step mx_start mx_inv
proof
  show "mx_inv mx_start" by (simp add: mx_inv_def mx_start_def mutex_new_def)
qed (rule mx_inv_step)


text \<open>A coroutine that has the mutex can pass it on, whatever the others do.\<close>

lemma pass_on:
  assumes "mx_inv s" "mx_wait (ms_mutex s) = d # ds"
  shows "\<exists>t. mx_step\<^sup>*\<^sup>* s t \<and> mx_wait (ms_mutex t) = ds \<and> ms_place t d = Granted"
proof -
  have "\<exists>co. owns s co" using assms unfolding mx_inv_def by (metis list.distinct(1))
  then obtain co where co: "owns s co" by blast
  define s1 where "s1 = (if ms_place s co = Granted then at_place co Holding (ms_mutex s) s else s)"
  have 1: "mx_step\<^sup>*\<^sup>* s s1" using resumed [of s co] by (auto simp: s1_def)
  have h: "ms_place s1 co = Holding" "ms_mutex s1 = ms_mutex s" using co by (auto simp: s1_def at_place_def)
  define m where "m = (ms_mutex s)\<lparr>mx_wait := ds\<rparr>"
  have "mutex_unlock (ms_mutex s1) = (Some d, m)" using h assms(2) by (simp add: mutex_unlock_def m_def)
  define t where "t = at_place d Granted m (at_place co Outside m (s1\<lparr>ms_granted := ms_granted s1 @ [d]\<rparr>))"
  have "mx_step s1 t" unfolding t_def by (rule unlock_pass [OF h(1)]) fact
  with 1 have "mx_step\<^sup>*\<^sup>* s t" by simp
  moreover have "mx_wait (ms_mutex t) = ds" "ms_place t d = Granted" by (simp_all add: t_def at_place_def m_def)
  ultimately show ?thesis by blast
qed

lemma queue_drains:
  assumes "mx_inv s" "mx_wait (ms_mutex s) = xs @ d # ys"
  shows "\<exists>t. mx_step\<^sup>*\<^sup>* s t \<and> ms_place t d = Granted"
  using assms
proof (induction xs arbitrary: s)
  case Nil
  then show ?case using pass_on [of s d ys] by auto
next
  case (Cons x xs)
  obtain t where t: "mx_step\<^sup>*\<^sup>* s t" "mx_wait (ms_mutex t) = xs @ d # ys"
    using pass_on [of s x "xs @ d # ys"] Cons.prems by auto
  moreover have "mx_inv t" using mutex.inv_run [OF t(1)] Cons.prems(1) by simp
  ultimately show ?case using Cons.IH by (meson rtranclp_trans)
qed

text \<open>
  A waiting coroutine cannot be starved by a deadlock of the mutex itself: from every
  reachable state there is a run on which it gets the mutex and runs.
\<close>

theorem queued_coroutine_can_get_mutex:
  assumes "mx_step\<^sup>*\<^sup>* mx_start s" "ms_place s co = Queued"
  shows "\<exists>t. mx_step\<^sup>*\<^sup>* s t \<and> ms_place t co = Holding"
proof -
  have i: "mx_inv s" using mutex.inv_reachable [OF assms(1)] .
  then have "co \<in> set (mx_wait (ms_mutex s))" using assms(2) unfolding mx_inv_def by blast
  then obtain xs ys where "mx_wait (ms_mutex s) = xs @ co # ys" by (meson split_list)
  from queue_drains [OF i this] obtain t where t: "mx_step\<^sup>*\<^sup>* s t" "ms_place t co = Granted" by blast
  have "ms_place (at_place co Holding (ms_mutex t) t) co = Holding" by (simp add: at_place_def)
  with resumed [OF t(2)] t(1) show ?thesis by (meson rtranclp.rtrancl_into_rtrancl)
qed

lemma queued_run: "\<exists>s. mx_step\<^sup>*\<^sup>* mx_start s \<and> ms_place s 1 = Queued \<and> ms_place s 0 = Holding"
proof -
  let ?s1 = "at_place 0 Holding \<lparr>mx_lock = True, mx_wait = []\<rparr> mx_start"
  let ?s2 = "at_place 1 Queued \<lparr>mx_lock = True, mx_wait = [1]\<rparr> (?s1\<lparr>ms_queued := [1]\<rparr>)"
  have "mx_step mx_start ?s1"
    by (rule lock_free) (simp_all add: mx_start_def mutex_new_def mutex_lock_def)
  moreover have "mx_step ?s1 ?s2"
    using lock_busy [of ?s1 1] by (simp add: at_place_def mx_start_def mutex_lock_def)
  moreover have "ms_place ?s2 1 = Queued" "ms_place ?s2 0 = Holding" by (simp_all add: at_place_def)
  ultimately show ?thesis by (meson rtranclp.rtrancl_into_rtrancl rtranclp.rtrancl_refl)
qed


theorem queued_coroutine_can_get_mutex_witness: "\<exists>s t. ms_place s 1 = Queued \<and> mx_step\<^sup>*\<^sup>* s t \<and> ms_place t 1 = Holding"
  using queued_run queued_coroutine_can_get_mutex by blast

end
