(* ===== verification/CoWakeup.thy ===== *)
theory CoWakeup
  imports StepSystem
begin

text \<open>
  How a scheduler that waits for events learns of a new task (\<open>Scheduler::add_task\<close> and
  \<open>loop\<close> in \<open>co/base/co/impl/scheduler.h\<close>, \<open>scheduler.cc\<close>; \<open>Epoll::signal\<close> and \<open>handle_ev_pipe\<close> in
  \<open>epoll.h\<close>, \<open>epoll.cc\<close>). Any thread pushes a task under a mutex and then signals: the first to
  set a flag writes a byte to a pipe. The scheduler, told of the pipe once per write
  (edge-triggered), empties it, clears the flag and takes the tasks. The constructor of \<open>Epoll\<close>
  for Linux leaves the flag as it finds it in memory, so what it starts with is a parameter.
\<close>

section \<open>State and steps\<close>

datatype loop_pc = In_Wait | Draining | Resetting | Taking | Running

record wakeup =
  wk_tasks :: "nat list"
  wk_taken :: "nat list"
  wk_pushed :: nat
  wk_signaled :: bool
  wk_writing :: nat
  wk_pipe :: nat
  wk_edge :: bool
  wk_pc :: loop_pc

definition wk_start :: "bool \<Rightarrow> wakeup" where
  "wk_start sg = \<lparr>wk_tasks = [], wk_taken = [], wk_pushed = 0, wk_signaled = sg, wk_writing = 0, wk_pipe = 0,
     wk_edge = False, wk_pc = In_Wait\<rparr>"

text \<open>\<open>add_task\<close> up to its call of \<open>signal\<close>; the thread is then one of those about to signal.\<close>

definition push_task :: "nat \<Rightarrow> wakeup \<Rightarrow> wakeup" where
  "push_task t s = s\<lparr>wk_tasks := wk_tasks s @ [t], wk_pushed := wk_pushed s + 1\<rparr>"

text \<open>The compare-and-swap of \<open>signal\<close>, and the write of the thread that won it.\<close>

definition signal_flag :: "wakeup \<Rightarrow> wakeup" where
  "signal_flag s =
     (if wk_signaled s then s\<lparr>wk_pushed := wk_pushed s - 1\<rparr>
      else s\<lparr>wk_pushed := wk_pushed s - 1, wk_signaled := True, wk_writing := wk_writing s + 1\<rparr>)"

definition signal_write :: "wakeup \<Rightarrow> wakeup" where
  "signal_write s = s\<lparr>wk_writing := wk_writing s - 1, wk_pipe := wk_pipe s + 1, wk_edge := True\<rparr>"

text \<open>One read of \<open>handle_ev_pipe\<close>, of at most four bytes; a short read ends the loop.\<close>

definition drain_pipe :: "wakeup \<Rightarrow> wakeup" where
  "drain_pipe s =
     (if wk_pipe s < 4 then s\<lparr>wk_pipe := 0, wk_pc := Resetting\<rparr> else s\<lparr>wk_pipe := wk_pipe s - 4\<rparr>)"

definition reset_flag :: "wakeup \<Rightarrow> wakeup" where
  "reset_flag s = s\<lparr>wk_signaled := False, wk_pc := Taking\<rparr>"

definition take_tasks :: "wakeup \<Rightarrow> wakeup" where
  "take_tasks s = s\<lparr>wk_taken := wk_taken s @ wk_tasks s, wk_tasks := [], wk_pc := Running\<rparr>"

text \<open>
  The steps that need no event but the pipe's own, and with them a wait that ends for
  another reason.
\<close>

inductive wk_quiet :: "wakeup \<Rightarrow> wakeup \<Rightarrow> bool" where
  add: "wk_quiet s (push_task t s)"
| signal: "wk_pushed s > 0 \<Longrightarrow> wk_quiet s (signal_flag s)"
| signalled: "wk_writing s > 0 \<Longrightarrow> wk_quiet s (signal_write s)"
| pipe_event: "wk_pc s = In_Wait \<Longrightarrow> wk_edge s \<Longrightarrow> wk_quiet s (s\<lparr>wk_edge := False, wk_pc := Draining\<rparr>)"
| drain: "wk_pc s = Draining \<Longrightarrow> wk_quiet s (drain_pipe s)"
| reset: "wk_pc s = Resetting \<Longrightarrow> wk_quiet s (reset_flag s)"
| taken: "wk_pc s = Taking \<Longrightarrow> wk_quiet s (take_tasks s)"
| again: "wk_pc s = Running \<Longrightarrow> wk_quiet s (s\<lparr>wk_pc := In_Wait\<rparr>)"

inductive wk_step :: "wakeup \<Rightarrow> wakeup \<Rightarrow> bool" where
  quiet: "wk_quiet s t \<Longrightarrow> wk_step s t"
| other_event: "wk_pc s = In_Wait \<Longrightarrow> wk_step s (s\<lparr>wk_pc := Taking\<rparr>)"

inductive_cases wk_stepE: "wk_step s t"
inductive_cases wk_quietE: "wk_quiet s t"

lemmas wk_ops = push_task_def signal_flag_def signal_write_def drain_pipe_def reset_flag_def take_tasks_def

section \<open>The invariant\<close>

text \<open>
  The flag is up while a byte is on its way, in the pipe, or being read; there is never more
  than one. Tasks nobody will be told of exist only while the scheduler is about to take them.
\<close>

definition wk_inv :: "wakeup \<Rightarrow> bool" where
  "wk_inv s \<longleftrightarrow>
     (case wk_pc s of
        Draining \<Rightarrow> wk_signaled s \<and> wk_writing s = 0 \<and> wk_pipe s = 1 \<and> \<not> wk_edge s
      | Resetting \<Rightarrow> wk_signaled s \<and> wk_writing s = 0 \<and> wk_pipe s = 0 \<and> \<not> wk_edge s
      | _ \<Rightarrow> wk_writing s + wk_pipe s = (if wk_signaled s then 1 else 0) \<and> (wk_edge s \<longleftrightarrow> wk_pipe s = 1)) \<and>
     (wk_pc s \<noteq> Taking \<longrightarrow> wk_tasks s \<noteq> [] \<longrightarrow> wk_pushed s > 0 \<or> wk_signaled s)"

lemma wk_inv_step: "wk_inv s \<Longrightarrow> wk_step s t \<Longrightarrow> wk_inv t"
  by (erule wk_stepE; (erule wk_quietE)?; cases "wk_pc s"; auto simp: wk_inv_def wk_ops split: if_splits)

text \<open>
  With the flag up from the start every signal finds it up and writes nothing, so the event
  that would clear it never comes.
\<close>

definition wk_mute :: "wakeup \<Rightarrow> bool" where
  "wk_mute s \<longleftrightarrow>
     wk_signaled s \<and> wk_writing s = 0 \<and> wk_pipe s = 0 \<and> \<not> wk_edge s \<and> wk_pc s \<noteq> Draining \<and> wk_pc s \<noteq> Resetting"

lemma wk_mute_step: "wk_mute s \<Longrightarrow> wk_step s t \<Longrightarrow> wk_mute t"
  by (erule wk_stepE; (erule wk_quietE)?; auto simp: wk_mute_def wk_ops)

interpretation wakeup: step_system wk_step "wk_start False" wk_inv
proof
  show "wk_inv (wk_start False)" by (simp add: wk_inv_def wk_start_def)
qed (rule wk_inv_step)

interpretation mute: step_system wk_step "wk_start True" wk_mute
proof
  show "wk_mute (wk_start True)" by (simp add: wk_mute_def wk_start_def)
qed (rule wk_mute_step)

text \<open>
  C12. No wake-up is lost if the flag, which the Linux constructor does not initialise, happens
  to start cleared: while the scheduler waits with a task in its queue, a thread is about to
  signal or to write its byte, or the pipe's event is pending; and there is never more than one
  byte, so that the short read that ends the draining leaves none. If it starts raised, every
  wake-up is lost: no byte is ever written and the pipe's event never comes.
\<close>

theorem no_wakeup_is_lost:
  assumes "wk_step\<^sup>*\<^sup>* (wk_start sg) s"
  shows "(\<not> sg \<longrightarrow> (wk_pc s = In_Wait \<and> wk_tasks s \<noteq> [] \<longrightarrow> wk_pushed s > 0 \<or> wk_writing s > 0 \<or> wk_edge s) \<and> wk_pipe s \<le> 1) \<and>
    (sg \<longrightarrow> wk_writing s = 0 \<and> wk_pipe s = 0 \<and> \<not> wk_edge s)"
proof (cases sg)
  case True
  with assms have "wk_mute s" by (auto intro: mute.inv_reachable)
  with True show ?thesis by (simp add: wk_mute_def)
next
  case False
  with assms have "wk_inv s" by (auto intro: wakeup.inv_reachable)
  with False show ?thesis by (cases "wk_pc s") (auto simp: wk_inv_def split: if_splits)
qed

text \<open>
  Then a scheduler that waits takes no task however many are added, until an event of another
  kind ends the wait.
\<close>

lemma mute_wait_step: "wk_mute s \<and> wk_pc s = In_Wait \<and> wk_taken s = ts \<Longrightarrow> wk_quiet s t \<Longrightarrow> wk_mute t \<and> wk_pc t = In_Wait \<and> wk_taken t = ts"
  by (erule wk_quietE; auto simp: wk_mute_def wk_ops)

lemma raised_flag_strands_tasks:
  assumes "wk_step\<^sup>*\<^sup>* (wk_start True) s" "wk_pc s = In_Wait" "wk_quiet\<^sup>*\<^sup>* s u"
  shows "wk_taken u = wk_taken s"
proof -
  have "wk_mute s" using assms(1) by (rule mute.inv_reachable)
  with assms(3,2) have "wk_mute u \<and> wk_pc u = In_Wait \<and> wk_taken u = wk_taken s"
    by (induction rule: rtranclp_induct) (simp, rule mute_wait_step [rotated], assumption, simp)
  then show ?thesis by simp
qed

text \<open>Running on to the point where the tasks are taken, by the steps that need no other event.\<close>

lemma quiet_inv: "wk_inv s \<Longrightarrow> wk_quiet s t \<Longrightarrow> wk_inv t"
  by (auto intro: wk_inv_step quiet)

lemma quiet_run_inv: "wk_quiet\<^sup>*\<^sup>* s t \<Longrightarrow> wk_inv s \<Longrightarrow> wk_inv t"
  by (induction rule: rtranclp_induct) (auto intro: quiet_inv)

definition holds_task :: "nat \<Rightarrow> wakeup \<Rightarrow> bool" where
  "holds_task t s \<longleftrightarrow> t \<in> set (wk_tasks s)"

definition can_take :: "nat \<Rightarrow> wakeup \<Rightarrow> bool" where
  "can_take t s \<longleftrightarrow> (\<exists>u. wk_quiet\<^sup>*\<^sup>* s u \<and> t \<in> set (wk_taken u))"

lemma can_take_step: "wk_quiet s s' \<Longrightarrow> can_take t s' \<Longrightarrow> can_take t s"
  unfolding can_take_def by (meson converse_rtranclp_into_rtranclp)

lemma take_from_taking: "wk_pc s = Taking \<Longrightarrow> holds_task t s \<Longrightarrow> can_take t s"
  unfolding can_take_def holds_task_def using taken [of s] by (intro exI conjI, erule r_into_rtranclp) (simp add: take_tasks_def)

lemma take_from_resetting: "wk_pc s = Resetting \<Longrightarrow> holds_task t s \<Longrightarrow> can_take t s"
  by (rule can_take_step [OF reset], assumption, rule take_from_taking) (simp_all add: reset_flag_def holds_task_def)

lemma take_from_draining: "wk_inv s \<Longrightarrow> wk_pc s = Draining \<Longrightarrow> holds_task t s \<Longrightarrow> can_take t s"
  by (rule can_take_step [OF drain], assumption, rule take_from_resetting) (simp_all add: drain_pipe_def holds_task_def wk_inv_def)

lemma take_from_edge: "wk_inv s \<Longrightarrow> wk_pc s = In_Wait \<Longrightarrow> wk_edge s \<Longrightarrow> holds_task t s \<Longrightarrow> can_take t s"
  by (rule can_take_step [OF pipe_event], assumption, assumption, rule take_from_draining)
    (auto simp: holds_task_def intro: quiet_inv pipe_event)

lemma take_from_writing: "wk_inv s \<Longrightarrow> wk_pc s = In_Wait \<Longrightarrow> wk_writing s > 0 \<Longrightarrow> holds_task t s \<Longrightarrow> can_take t s"
  using can_take_step [OF signalled [of s]] take_from_edge [of "signal_write s" t] quiet_inv [OF _ signalled [of s]]
  by (simp add: holds_task_def signal_write_def)

lemma take_from_wait:
  assumes "wk_inv s" "wk_pc s = In_Wait" "holds_task t s"
  shows "can_take t s"
proof -
  have direct: "can_take t s" if "wk_inv s" "wk_pc s = In_Wait" "wk_signaled s" "holds_task t s" for s
    using that take_from_writing [of s t] take_from_edge [of s t] by (cases "wk_writing s > 0") (auto simp: wk_inv_def)
  show ?thesis
  proof (cases "wk_signaled s")
    case True
    with direct assms show ?thesis by blast
  next
    case False
    with assms have p: "wk_pushed s > 0" by (auto simp: wk_inv_def holds_task_def)
    show ?thesis
      using can_take_step [OF signal [OF p]] direct [of "signal_flag s"] quiet_inv [OF assms(1) signal [OF p]] assms False
      by (simp add: signal_flag_def holds_task_def)
  qed
qed

text \<open>
  With the flag cleared at the start, every task that was added can be taken without any other event, time-out or further
  task: from every reachable state there is such a run.
\<close>

theorem added_task_can_run:
  assumes "wk_step\<^sup>*\<^sup>* (wk_start False) s" "t \<in> set (wk_tasks s)"
  shows "\<exists>u. wk_quiet\<^sup>*\<^sup>* s u \<and> t \<in> set (wk_taken u)"
proof -
  have i: "wk_inv s" and h: "holds_task t s"
    using wakeup.inv_reachable [OF assms(1)] assms(2) by (simp_all add: holds_task_def)
  have "can_take t s"
  proof (cases "wk_pc s")
    case Running
    then show ?thesis
      using can_take_step [OF again [OF Running]] take_from_wait [of "s\<lparr>wk_pc := In_Wait\<rparr>" t] quiet_inv [OF i again [OF Running]] h
      by (simp add: holds_task_def)
  qed (use i h take_from_wait take_from_draining take_from_resetting take_from_taking in auto)
  then show ?thesis by (simp add: can_take_def)
qed

lemma one_task_added: "wk_step\<^sup>*\<^sup>* (wk_start sg) (push_task 5 (wk_start sg))"
  by (intro r_into_rtranclp quiet add)

theorem no_wakeup_is_lost_witness:
  "wk_pushed (push_task 5 (wk_start False)) > 0 \<and> wk_writing (push_task 5 (wk_start True)) = 0"
  using no_wakeup_is_lost [OF one_task_added, of False] no_wakeup_is_lost [OF one_task_added, of True]
  by (simp add: push_task_def wk_start_def)

theorem added_task_can_run_witness: "\<exists>u. wk_quiet\<^sup>*\<^sup>* (push_task 5 (wk_start False)) u \<and> 5 \<in> set (wk_taken u)"
  by (rule added_task_can_run [OF one_task_added]) (simp add: push_task_def)

end
