(* ===== verification/CoEpoll.thy ===== *)
theory CoEpoll
  imports StepSystem
begin

unbundle bit_operations_syntax

text \<open>
  The registration of sockets with \<open>epoll\<close> on Linux (\<open>co/base/co/impl/epoll.h\<close>, \<open>epoll.cc\<close>): a map
  from the descriptor to a word that holds the number of the coroutine waiting to read in
  its upper half and of the one waiting to write in its lower half. The same word is the
  kernel's data of the descriptor. What the kernel answers to a call, given the calls so
  far, is an argument. Numbers of coroutines are not negative.
\<close>

section \<open>The operations\<close>

datatype ctl =
    Ctl_Add int "bool \<times> bool" u64
  | Ctl_Mod int "bool \<times> bool" u64
  | Ctl_Del int

type_synonym ctl_log = "(ctl \<times> bool) list"

record epoll =
  ep_map :: "int \<rightharpoonup> u64"
  ep_log :: ctl_log

definition epoll_ctl :: "(ctl_log \<Rightarrow> ctl \<Rightarrow> bool) \<Rightarrow> ctl \<Rightarrow> epoll \<Rightarrow> bool \<times> epoll" where
  "epoll_ctl answers c s = (let ok = answers (ep_log s) c in (ok, s\<lparr>ep_log := ep_log s @ [(c, ok)]\<rparr>))"

definition reader_of :: "u64 \<Rightarrow> u32" where "reader_of x = ucast (drop_bit 32 x)"

definition writer_of :: "u64 \<Rightarrow> u32" where "writer_of x = ucast x"

text \<open>\<open>_ev_map[fd]\<close> adds a zero entry for a descriptor it does not know.\<close>

definition map_at :: "int \<Rightarrow> epoll \<Rightarrow> u64 \<times> epoll" where
  "map_at fd s = (case ep_map s fd of Some x \<Rightarrow> (x, s) | None \<Rightarrow> (0, s\<lparr>ep_map := (ep_map s)(fd \<mapsto> 0)\<rparr>))"

definition add_event :: "(ctl_log \<Rightarrow> ctl \<Rightarrow> bool) \<Rightarrow> int \<Rightarrow> bool \<times> bool \<Rightarrow> u64 \<Rightarrow> epoll \<Rightarrow> bool \<times> epoll" where
  "add_event answers fd events d s =
     (case epoll_ctl answers (Ctl_Add fd events d) s of
        (True, s) \<Rightarrow> (True, s\<lparr>ep_map := (ep_map s)(fd \<mapsto> d)\<rparr>)
      | (False, s) \<Rightarrow> (False, s))"

definition add_ev_read :: "(ctl_log \<Rightarrow> ctl \<Rightarrow> bool) \<Rightarrow> int \<Rightarrow> u32 \<Rightarrow> epoll \<Rightarrow> bool \<times> epoll" where
  "add_ev_read answers fd u s =
     (let (x, s) = map_at fd s
      in if reader_of x \<noteq> 0 then (True, s)
         else add_event answers fd (True, x \<noteq> 0) (push_bit 32 (ucast u) OR x) s)"

definition add_ev_write :: "(ctl_log \<Rightarrow> ctl \<Rightarrow> bool) \<Rightarrow> int \<Rightarrow> u32 \<Rightarrow> epoll \<Rightarrow> bool \<times> epoll" where
  "add_ev_write answers fd u s =
     (let (x, s) = map_at fd s
      in if writer_of x \<noteq> 0 then (True, s)
         else add_event answers fd (x \<noteq> 0, True) (x OR ucast u) s)"

definition del_event :: "(ctl_log \<Rightarrow> ctl \<Rightarrow> bool) \<Rightarrow> int \<Rightarrow> epoll \<Rightarrow> epoll" where
  "del_event answers fd s =
     (if ep_map s fd = None then s else snd (epoll_ctl answers (Ctl_Del fd) (s\<lparr>ep_map := (ep_map s)(fd := None)\<rparr>)))"

definition del_ev_read :: "(ctl_log \<Rightarrow> ctl \<Rightarrow> bool) \<Rightarrow> int \<Rightarrow> epoll \<Rightarrow> epoll" where
  "del_ev_read answers fd s =
     (case ep_map s fd of
        None \<Rightarrow> s
      | Some x \<Rightarrow>
          if reader_of x = 0 then s
          else if writer_of x = 0 then snd (epoll_ctl answers (Ctl_Del fd) (s\<lparr>ep_map := (ep_map s)(fd := None)\<rparr>))
          else
            let d = ucast (writer_of x)
            in snd (epoll_ctl answers (Ctl_Mod fd (False, True) d) (s\<lparr>ep_map := (ep_map s)(fd \<mapsto> d)\<rparr>)))"

definition del_ev_write :: "(ctl_log \<Rightarrow> ctl \<Rightarrow> bool) \<Rightarrow> int \<Rightarrow> epoll \<Rightarrow> epoll" where
  "del_ev_write answers fd s =
     (case ep_map s fd of
        None \<Rightarrow> s
      | Some x \<Rightarrow>
          if writer_of x = 0 then s
          else if reader_of x = 0 then snd (epoll_ctl answers (Ctl_Del fd) (s\<lparr>ep_map := (ep_map s)(fd := None)\<rparr>))
          else
            let d = x AND push_bit 32 (- 1)
            in snd (epoll_ctl answers (Ctl_Mod fd (True, False) d) (s\<lparr>ep_map := (ep_map s)(fd \<mapsto> d)\<rparr>)))"

text \<open>The coroutine an event resumes, from the data of the event.\<close>

definition ud :: "u64 \<Rightarrow> u32" where
  "ud x = (if writer_of x = 0 then reader_of x else writer_of x)"

section \<open>Runs\<close>

datatype ep_op = Add_Read int u32 | Add_Write int u32 | Del_Read int | Del_Write int | Del_Event int

fun ep_do :: "(ctl_log \<Rightarrow> ctl \<Rightarrow> bool) \<Rightarrow> ep_op \<Rightarrow> epoll \<Rightarrow> epoll" where
  "ep_do answers (Add_Read fd u) s = snd (add_ev_read answers fd u s)"
| "ep_do answers (Add_Write fd u) s = snd (add_ev_write answers fd u s)"
| "ep_do answers (Del_Read fd) s = del_ev_read answers fd s"
| "ep_do answers (Del_Write fd) s = del_ev_write answers fd s"
| "ep_do answers (Del_Event fd) s = del_event answers fd s"

definition ep_start :: epoll where
  "ep_start = \<lparr>ep_map = Map.empty, ep_log = []\<rparr>"

text \<open>The descriptors the kernel has, from the calls that succeeded.\<close>

fun apply_ctl :: "ctl \<times> bool \<Rightarrow> int set \<Rightarrow> int set" where
  "apply_ctl (Ctl_Add fd _ _, True) fds = insert fd fds"
| "apply_ctl (Ctl_Del fd, True) fds = fds - {fd}"
| "apply_ctl _ fds = fds"

definition registered :: "ctl_log \<Rightarrow> int set" where
  "registered log = fold apply_ctl log {}"

text \<open>Documented of \<open>epoll_ctl\<close>: adding a descriptor that is registered fails (\<open>EEXIST\<close>).\<close>

definition add_needs_new :: "(ctl_log \<Rightarrow> ctl \<Rightarrow> bool) \<Rightarrow> bool" where
  "add_needs_new answers \<longleftrightarrow> (\<forall>log fd events d. answers log (Ctl_Add fd events d) \<longrightarrow> fd \<notin> registered log)"

lemma registered_snoc [simp]: "registered (log @ [e]) = apply_ctl e (registered log)"
  by (simp add: registered_def)

text \<open>Every waiter's descriptor is registered, and it has a waiter in one direction only.\<close>

definition ep_inv :: "epoll \<Rightarrow> bool" where
  "ep_inv s \<longleftrightarrow> (\<forall>fd x. ep_map s fd = Some x \<longrightarrow> x \<noteq> 0 \<longrightarrow>
     fd \<in> registered (ep_log s) \<and> (reader_of x = 0 \<or> writer_of x = 0))"

lemma no_upper_bit [simp]: "\<not> bit (u :: u32) (32 + n)"
  by (auto dest!: bit_imp_le_length)

lemma halves: "reader_of (push_bit 32 (ucast u)) = u" "writer_of (push_bit 32 (ucast u)) = 0"
  "reader_of (ucast u) = 0" "writer_of (ucast u) = u"
  by (auto intro!: bit_word_eqI simp: reader_of_def writer_of_def bit_simps)

lemma zero_halves [simp]: "reader_of 0 = 0" "writer_of 0 = 0"
  by (simp_all add: reader_of_def writer_of_def)

lemma ep_invD:
  assumes "ep_inv s" "ep_map s fd = Some x" "x \<noteq> 0"
  shows "fd \<in> registered (ep_log s)" "reader_of x = 0 \<or> writer_of x = 0"
  using assms unfolding ep_inv_def by blast+

lemma ep_inv_start: "ep_inv ep_start"
  by (simp add: ep_inv_def ep_start_def)

lemma map_at_inv: "ep_inv s \<Longrightarrow> map_at fd s = (x, s') \<Longrightarrow> ep_inv s' \<and> ep_map s' fd = Some x"
  by (auto simp: map_at_def ep_inv_def split: option.splits if_splits; blast)

lemma add_event_inv:
  "ep_inv s \<Longrightarrow> reader_of d = 0 \<or> writer_of d = 0 \<Longrightarrow> ep_inv (snd (add_event answers fd events d s))"
  by (cases "answers (ep_log s) (Ctl_Add fd events d)") (auto simp: add_event_def epoll_ctl_def Let_def ep_inv_def)

lemma add_event_refused:
  assumes "add_needs_new answers" "ep_inv s" "ep_map s fd = Some x" "x \<noteq> 0"
  shows "\<exists>e. add_event answers fd events d s = (False, s\<lparr>ep_log := ep_log s @ [(e, False)]\<rparr>)"
proof -
  have "\<not> answers (ep_log s) (Ctl_Add fd events d)"
    using assms(1) ep_invD(1) [OF assms(2-4)] unfolding add_needs_new_def by blast
  then have "add_event answers fd events d s = (False, s\<lparr>ep_log := ep_log s @ [(Ctl_Add fd events d, False)]\<rparr>)"
    by (simp add: add_event_def epoll_ctl_def)
  then show ?thesis by blast
qed

lemma log_failure_inv: "ep_inv s \<Longrightarrow> ep_inv (s\<lparr>ep_log := ep_log s @ [(e, False)]\<rparr>)"
  by (cases e) (simp_all add: ep_inv_def)

lemma add_event_keeps_inv:
  assumes "add_needs_new answers" "ep_inv s" "ep_map s fd = Some x" "x = 0 \<Longrightarrow> reader_of d = 0 \<or> writer_of d = 0"
  shows "ep_inv (snd (add_event answers fd events d s))"
proof (cases "x = 0")
  case True
  with add_event_inv [OF assms(2,4)] show ?thesis by blast
next
  case False
  from add_event_refused [OF assms(1-3) this] obtain e
    where "add_event answers fd events d s = (False, s\<lparr>ep_log := ep_log s @ [(e, False)]\<rparr>)" by blast
  with log_failure_inv [OF assms(2), of e] show ?thesis by simp
qed

lemma one_way: "ep_inv s \<Longrightarrow> ep_map s fd = Some x \<Longrightarrow> reader_of x = 0 \<or> writer_of x = 0"
  using ep_invD(2) [of s fd x] by (cases "x = 0") auto

lemma del_inv:
  "ep_inv s \<Longrightarrow> ep_inv (snd (epoll_ctl answers (Ctl_Del fd) (s\<lparr>ep_map := (ep_map s)(fd := None)\<rparr>)))"
  by (cases "answers (ep_log s) (Ctl_Del fd)") (auto simp: epoll_ctl_def Let_def ep_inv_def)

lemma ep_do_inv:
  assumes "add_needs_new answers" "ep_inv s"
  shows "ep_inv (ep_do answers op s)"
proof (cases op)
  case (Add_Read fd u)
  obtain x s1 where m: "map_at fd s = (x, s1)" by fastforce
  then show ?thesis using Add_Read map_at_inv [OF assms(2) m] add_event_keeps_inv [OF assms(1), of s1 fd x]
    by (simp add: add_ev_read_def halves)
next
  case (Add_Write fd u)
  obtain x s1 where m: "map_at fd s = (x, s1)" by fastforce
  then show ?thesis using Add_Write map_at_inv [OF assms(2) m] add_event_keeps_inv [OF assms(1), of s1 fd x]
    by (simp add: add_ev_write_def halves)
next
  case (Del_Read fd)
  then show ?thesis using assms(2) del_inv [OF assms(2)] one_way [OF assms(2), of fd]
    by (fastforce simp: del_ev_read_def split: option.split)
next
  case (Del_Write fd)
  then show ?thesis using assms(2) del_inv [OF assms(2)] one_way [OF assms(2), of fd]
    by (fastforce simp: del_ev_write_def split: option.split)
next
  case (Del_Event fd)
  then show ?thesis using assms(2) del_inv [OF assms(2)] by (simp add: del_event_def)
qed

definition ep_next :: "(ctl_log \<Rightarrow> ctl \<Rightarrow> bool) \<Rightarrow> epoll \<Rightarrow> epoll \<Rightarrow> bool" where
  "ep_next answers s t \<longleftrightarrow> add_needs_new answers \<and> (\<exists>op. t = ep_do answers op s)"

interpretation ep: step_system "ep_next answers" ep_start ep_inv
  by unfold_locales (auto simp: ep_next_def ep_inv_start ep_do_inv)

lemma ep_run_reachable: "add_needs_new answers \<Longrightarrow> (ep_next answers)\<^sup>*\<^sup>* s (fold (ep_do answers) ops s)"
proof (induction ops arbitrary: s)
  case (Cons op ops)
  then have "ep_next answers s (ep_do answers op s)" by (auto simp: ep_next_def)
  with Cons show ?case by (simp add: converse_rtranclp_into_rtranclp)
qed simp

text \<open>
  C30. A socket on which a coroutine waits cannot get a waiter for the other direction: the
  word never has two waiters, so that an event resumes the one there is, and registering a
  second one is refused and leaves the word as it was, because the code adds the descriptor
  again where it had to modify it.
\<close>

theorem second_direction_is_refused:
  assumes "add_needs_new answers" "s = fold (ep_do answers) ops ep_start" "ep_map s fd = Some x" "x \<noteq> 0"
  shows "(if writer_of x = 0 then ud x = reader_of x \<and> reader_of x \<noteq> 0 else ud x = writer_of x \<and> reader_of x = 0) \<and>
    (writer_of x = 0 \<longrightarrow> fst (add_ev_write answers fd u s) = False \<and> ep_map (snd (add_ev_write answers fd u s)) = ep_map s) \<and>
    (reader_of x = 0 \<longrightarrow> fst (add_ev_read answers fd u s) = False \<and> ep_map (snd (add_ev_read answers fd u s)) = ep_map s)"
proof -
  have i: "ep_inv s" using ep.inv_reachable [OF ep_run_reachable [OF assms(1)]] assms(2) by simp
  have m: "map_at fd s = (x, s)" using assms(3) by (simp add: map_at_def)
  have r: "\<exists>e. add_event answers fd events d s = (False, s\<lparr>ep_log := ep_log s @ [(e, False)]\<rparr>)" for events d
    by (rule add_event_refused [OF assms(1) i assms(3,4)])
  have "reader_of x \<noteq> 0 \<or> writer_of x \<noteq> 0"
  proof (rule ccontr)
    assume "\<not> ?thesis"
    then have "bit x n = False" for n
    proof -
      assume "\<not> (reader_of x \<noteq> 0 \<or> writer_of x \<noteq> 0)"
      then have "bit (reader_of x) (n - 32) = False" "bit (writer_of x) n = False" by simp_all
      then show "bit x n = False"
        by (cases "n < 32"; cases "n < 64") (auto simp: reader_of_def writer_of_def bit_simps dest: bit_imp_le_length)
    qed
    then have "x = 0" by (intro bit_word_eqI) simp
    with assms(4) show False by simp
  qed
  moreover have "reader_of x = 0 \<or> writer_of x = 0" by (rule ep_invD(2) [OF i assms(3,4)])
  moreover have "fst (add_ev_write answers fd u s) = False \<and> ep_map (snd (add_ev_write answers fd u s)) = ep_map s" if "writer_of x = 0"
    using r [of "(x \<noteq> 0, True)" "x OR ucast u"] that m by (auto simp: add_ev_write_def)
  moreover have "fst (add_ev_read answers fd u s) = False \<and> ep_map (snd (add_ev_read answers fd u s)) = ep_map s" if "reader_of x = 0"
    using r [of "(True, x \<noteq> 0)" "push_bit 32 (ucast u) OR x"] that m by (auto simp: add_ev_read_def)
  ultimately show ?thesis by (auto simp: ud_def)
qed

definition sample_kernel :: "ctl_log \<Rightarrow> ctl \<Rightarrow> bool" where
  "sample_kernel log c = (case c of Ctl_Add fd _ _ \<Rightarrow> fd \<notin> registered log | _ \<Rightarrow> True)"

lemma sample_kernel_adds: "add_needs_new sample_kernel"
  by (simp add: add_needs_new_def sample_kernel_def)

lemma sample_reader: "ep_map (fold (ep_do sample_kernel) [Add_Read 7 3] ep_start) 7 = Some (push_bit 32 3)"
  by (simp add: add_ev_read_def map_at_def ep_start_def add_event_def epoll_ctl_def sample_kernel_def registered_def)

theorem second_direction_is_refused_witness:
  "fst (add_ev_write sample_kernel 7 4 (fold (ep_do sample_kernel) [Add_Read 7 3] ep_start)) = False"
proof -
  have "writer_of (push_bit 32 3) = 0" "(push_bit 32 3 :: u64) \<noteq> 0" by (simp_all add: writer_of_def)
  with second_direction_is_refused [OF sample_kernel_adds refl sample_reader, of 4] show ?thesis by simp
qed

end
