(* ===== verification/CoTimers.thy ===== *)
theory CoTimers
  imports StepSystem
begin

text \<open>
  The timers of a scheduler (\<open>co/base/co/impl/scheduler.h\<close>, \<open>scheduler.cc\<close>): the multimap
  \<open>_timed_wait\<close> from a time to a coroutine, the hint \<open>_it\<close> where the last timer of a socket was
  put, the time \<open>_wait_ms\<close> the next wait for events may take, and the event status of the coroutines. An iterator is the number
  of its timer, and \<open>end()\<close> is \<open>None\<close>; using the iterator of an erased timer is a fault. The
  clock is an argument.
\<close>

section \<open>The operations\<close>

record timer =
  tm_id :: nat
  tm_time :: int
  tm_co :: nat

record timers =
  tw_list :: "timer list"
  tw_it :: "nat option"
  tw_wait_ms :: u32
  tw_ev :: "nat \<Rightarrow> nat"
  tw_next :: nat

definition timers_start :: timers where
  "timers_start = \<lparr>tw_list = [], tw_it = None, tw_wait_ms = - 1, tw_ev = (\<lambda>_. 0), tw_next = 0\<rparr>"

text \<open>The position of an iterator, if its timer is still there.\<close>

definition position :: "timer list \<Rightarrow> nat \<Rightarrow> nat outcome" where
  "position ts i =
     (let n = length (takeWhile (\<lambda>t. tm_id t \<noteq> i) ts) in if n < length ts then Inr n else Inl Out_Of_Range)"

text \<open>
  \<open>insert\<close> of a multimap: behind the timers of the same time, or with a hint as close to the
  place before the hint as the order allows.
\<close>

definition put_timer :: "nat \<Rightarrow> timer \<Rightarrow> timer list \<Rightarrow> timer list" where
  "put_timer hint t ts =
     (let lower = length (takeWhile (\<lambda>u. tm_time u < tm_time t) ts);
          upper = length (takeWhile (\<lambda>u. tm_time u \<le> tm_time t) ts);
          p = max lower (min upper hint)
      in take p ts @ t # drop p ts)"

definition new_timer :: "int \<Rightarrow> u32 \<Rightarrow> nat \<Rightarrow> timers \<Rightarrow> timer" where
  "new_timer now ms co s = \<lparr>tm_id = tw_next s, tm_time = now + uint ms, tm_co = co\<rparr>"

definition shorten_wait :: "u32 \<Rightarrow> timers \<Rightarrow> timers" where
  "shorten_wait ms s = (if tw_wait_ms s > ms then s\<lparr>tw_wait_ms := ms\<rparr> else s)"

text \<open>The timer of \<open>sleep\<close> and of \<open>add_ev_timer\<close>, with its iterator.\<close>

definition add_ev_timer :: "int \<Rightarrow> u32 \<Rightarrow> nat \<Rightarrow> timers \<Rightarrow> nat \<times> timers" where
  "add_ev_timer now ms co s =
     (tw_next s, (shorten_wait ms s)
        \<lparr>tw_list := put_timer (length (tw_list s)) (new_timer now ms co s) (tw_list s), tw_next := tw_next s + 1\<rparr>)"

definition add_timer :: "int \<Rightarrow> u32 \<Rightarrow> nat \<Rightarrow> timers \<Rightarrow> (nat \<times> timers) outcome" where
  "add_timer now ms co s =
     bindR (case tw_it s of None \<Rightarrow> Inr (length (tw_list s)) | Some i \<Rightarrow> position (tw_list s) i) (\<lambda>hint.
       Inr (tw_next s, (shorten_wait ms s)
         \<lparr>tw_list := put_timer hint (new_timer now ms co s) (tw_list s), tw_it := Some (tw_next s), tw_next := tw_next s + 1\<rparr>))"

definition erase_at :: "nat \<Rightarrow> timer list \<Rightarrow> timer list" where
  "erase_at n ts = take n ts @ drop (Suc n) ts"

definition iterator_at :: "nat \<Rightarrow> timer list \<Rightarrow> nat option" where
  "iterator_at n ts = (if n < length ts then Some (tm_id (ts ! n)) else None)"

definition del_timer :: "nat \<Rightarrow> timers \<Rightarrow> timers outcome" where
  "del_timer i s =
     bindR (position (tw_list s) i) (\<lambda>n.
       Inr (s\<lparr>tw_it := (if tw_it s = Some i then iterator_at (Suc n) (tw_list s) else tw_it s),
              tw_list := erase_at n (tw_list s)\<rparr>))"

text \<open>The erasure in \<open>loop\<close> of the timer of a coroutine whose event was signalled.\<close>

definition erase_ready :: "nat \<Rightarrow> timers \<Rightarrow> timers outcome" where
  "erase_ready i s =
     bindR (position (tw_list s) i) (\<lambda>n. Inr (s\<lparr>tw_list := erase_at n (tw_list s)\<rparr>))"

text \<open>\<open>check_timeout\<close>: the coroutines whose time has come, their event status cleared.\<close>

definition check_timeout :: "int \<Rightarrow> timers \<Rightarrow> (nat list \<times> timers) outcome" where
  "check_timeout now s =
     (let ts = tw_list s;
          due = takeWhile (\<lambda>t. tm_time t \<le> now) ts;
          rest = dropWhile (\<lambda>t. tm_time t \<le> now) ts
      in if ts = [] then Inr ([], s\<lparr>tw_wait_ms := - 1\<rparr>)
         else bindR (if due = [] then Inr (tw_it s)
                     else case tw_it s of
                         None \<Rightarrow> Inr None
                       | Some i \<Rightarrow> bindR (position ts i) (\<lambda>n.
                           Inr (if tm_time (ts ! n) \<le> now then iterator_at 0 rest else Some i))) (\<lambda>it.
           Inr (map tm_co due, s\<lparr>tw_list := rest, tw_it := it,
             tw_ev := (\<lambda>co. if co \<in> tm_co ` set due then 0 else tw_ev s co),
             tw_wait_ms := (if rest \<noteq> [] then word_of_int (tm_time (hd rest) - now) else - 1)\<rparr>)))"

text \<open>
  What the next wait for events is given: the \<open>uint32\<close> is passed as an \<open>int\<close>, and a negative
  one, here \<open>None\<close>, waits without end.
\<close>

definition epoll_timeout :: "timers \<Rightarrow> nat option" where
  "epoll_timeout s = (if sint (tw_wait_ms s) < 0 then None else Some (nat (sint (tw_wait_ms s))))"

section \<open>Well-formed timers\<close>

text \<open>The hint is live when it is \<open>end()\<close> or stands on a timer that is still there.\<close>

definition hint_live :: "timers \<Rightarrow> bool" where
  "hint_live s \<longleftrightarrow> (case tw_it s of None \<Rightarrow> True | Some i \<Rightarrow> i \<in> tm_id ` set (tw_list s))"

definition tw_sound :: "timers \<Rightarrow> bool" where
  "tw_sound s \<longleftrightarrow> sorted (map tm_time (tw_list s)) \<and> distinct (map tm_id (tw_list s)) \<and>
     (\<forall>t \<in> set (tw_list s). tm_id t < tw_next s)"

definition tw_inv :: "timers \<Rightarrow> bool" where
  "tw_inv s \<longleftrightarrow> sorted (map tm_time (tw_list s)) \<and> distinct (map tm_id (tw_list s)) \<and>
     (\<forall>t \<in> set (tw_list s). tm_id t < tw_next s) \<and> (\<forall>i. tw_it s = Some i \<longrightarrow> i \<in> tm_id ` set (tw_list s))"

lemma tw_inv_iff: "tw_inv s \<longleftrightarrow> tw_sound s \<and> hint_live s"
  by (auto simp: tw_inv_def tw_sound_def hint_live_def split: option.splits)

lemma position_found:
  assumes "i \<in> tm_id ` set ts"
  obtains n where "position ts i = Inr n" "n < length ts" "tm_id (ts ! n) = i"
proof -
  let ?n = "length (takeWhile (\<lambda>t. tm_id t \<noteq> i) ts)"
  have "?n < length ts" using assms by (induction ts) auto
  moreover from this have "tm_id (ts ! ?n) = i" using nth_length_takeWhile by fastforce
  ultimately show thesis using that by (simp add: position_def)
qed

lemma position_missing: "i \<notin> tm_id ` set ts \<Longrightarrow> position ts i = Inl Out_Of_Range"
proof -
  assume "i \<notin> tm_id ` set ts"
  then have t: "takeWhile (\<lambda>t. tm_id t \<noteq> i) ts = ts" by (auto simp: takeWhile_eq_all_conv)
  show ?thesis unfolding position_def t by simp
qed

lemma takeWhile_sorted:
  fixes f :: "'a \<Rightarrow> int"
  assumes "sorted (map f ts)"
  shows "\<And>t. t \<in> set (dropWhile (\<lambda>u. f u \<le> k) ts) \<Longrightarrow> k < f t" "\<And>t. t \<in> set (dropWhile (\<lambda>u. f u < k) ts) \<Longrightarrow> k \<le> f t"
  using assms by (induction ts) (auto split: if_splits)

lemma put_sorted:
  assumes "sorted (map tm_time ts)"
  shows "sorted (map tm_time (put_timer hint t ts))"
proof -
  let ?f = "tm_time" and ?k = "tm_time t"
  define lower where "lower = length (takeWhile (\<lambda>u. ?f u < ?k) ts)"
  define upper where "upper = length (takeWhile (\<lambda>u. ?f u \<le> ?k) ts)"
  define p where "p = max lower (min upper hint)"
  have lu: "lower \<le> upper"
    unfolding lower_def upper_def by (induction ts) auto
  have "?f u \<le> ?k" if "u \<in> set (take p ts)" for u
  proof -
    have "p \<le> upper" using lu by (simp add: p_def)
    then have "u \<in> set (take upper ts)" using that set_take_subset_set_take [of p upper ts] by blast
    moreover have "take upper ts = takeWhile (\<lambda>u. ?f u \<le> ?k) ts"
      unfolding upper_def by (rule takeWhile_eq_take [symmetric])
    ultimately have "u \<in> set (takeWhile (\<lambda>u. ?f u \<le> ?k) ts)" by simp
    then show ?thesis by (auto dest: set_takeWhileD)
  qed
  moreover have "?k \<le> ?f u" if "u \<in> set (drop p ts)" for u
  proof -
    have "lower \<le> p" by (simp add: p_def)
    then have "u \<in> set (drop lower ts)" using that set_drop_subset_set_drop [of lower p ts] by blast
    moreover have "drop lower ts = dropWhile (\<lambda>u. ?f u < ?k) ts"
      unfolding lower_def by (rule dropWhile_eq_drop [symmetric])
    ultimately have "u \<in> set (dropWhile (\<lambda>u. ?f u < ?k) ts)" by simp
    then show ?thesis using takeWhile_sorted(2) [OF assms] by blast
  qed
  moreover have "sorted (map ?f (take p ts))" "sorted (map ?f (drop p ts))"
    using assms by (simp_all add: take_map [symmetric] drop_map [symmetric] sorted_wrt_take sorted_wrt_drop)
  moreover have "?f u \<le> ?f v" if "u \<in> set (take p ts)" "v \<in> set (drop p ts)" for u v
    using calculation(1,2) that by fastforce
  moreover have "put_timer hint t ts = take p ts @ t # drop p ts"
    by (simp add: put_timer_def Let_def lower_def upper_def p_def)
  ultimately show ?thesis by (auto simp: sorted_append)
qed

lemma put_set: "set (put_timer hint t ts) = insert t (set ts)"
  by (auto simp: put_timer_def Let_def dest: in_set_takeD in_set_dropD) (metis append_take_drop_id Un_iff set_append)

lemma put_distinct: "distinct (map tm_id ts) \<Longrightarrow> tm_id t \<notin> tm_id ` set ts \<Longrightarrow> distinct (map tm_id (put_timer hint t ts))"
proof -
  assume d: "distinct (map tm_id ts)" "tm_id t \<notin> tm_id ` set ts"
  have "distinct (map tm_id (take p ts @ t # drop p ts))" for p
  proof -
    have "distinct (map tm_id (take p ts @ drop p ts))" using d(1) by simp
    then show ?thesis using d(2) by (auto dest: in_set_takeD in_set_dropD simp del: append_take_drop_id)
  qed
  then show ?thesis by (simp add: put_timer_def Let_def)
qed

lemma erase_split:
  assumes "n < length ts"
  obtains xs zs where "ts = xs @ ts ! n # zs" "erase_at n ts = xs @ zs" "iterator_at (Suc n) ts = iterator_at 0 zs"
proof -
  have "ts = take n ts @ ts ! n # drop (Suc n) ts" using assms by (rule id_take_nth_drop)
  moreover have "iterator_at (Suc n) ts = iterator_at 0 (drop (Suc n) ts)" using assms by (simp add: iterator_at_def)
  ultimately show thesis using that unfolding erase_at_def by blast
qed

lemma iterator_at_first: "iterator_at 0 ts = Some i \<Longrightarrow> i \<in> tm_id ` set ts"
  by (cases ts) (auto simp: iterator_at_def)

lemma shorten_wait_fields [simp]:
  "tw_list (shorten_wait ms s) = tw_list s" "tw_it (shorten_wait ms s) = tw_it s" "tw_next (shorten_wait ms s) = tw_next s"
  by (simp_all add: shorten_wait_def)

lemma put_sound:
  assumes "tw_sound s"
  shows "tw_sound (r\<lparr>tw_list := put_timer hint (new_timer now ms co s) (tw_list s), tw_it := it, tw_next := tw_next s + 1\<rparr>)"
proof -
  let ?t = "new_timer now ms co s"
  have "tm_id ?t \<notin> tm_id ` set (tw_list s)" using assms by (auto simp: tw_sound_def new_timer_def)
  then have "distinct (map tm_id (put_timer hint ?t (tw_list s)))" using assms by (intro put_distinct) (simp_all add: tw_sound_def)
  moreover have "sorted (map tm_time (put_timer hint ?t (tw_list s)))" using assms by (intro put_sorted) (simp add: tw_sound_def)
  ultimately show ?thesis using assms by (auto simp: tw_sound_def put_set new_timer_def)
qed

lemma put_inv:
  assumes "tw_inv s" "it = tw_it s \<or> it = Some (tw_next s)"
  shows "tw_inv (r\<lparr>tw_list := put_timer hint (new_timer now ms co s) (tw_list s), tw_it := it, tw_next := tw_next s + 1\<rparr>)"
  using assms put_sound [of s, where r = r and hint = hint and now = now and ms = ms and co = co and it = it]
  by (auto simp: tw_inv_iff hint_live_def put_set new_timer_def split: option.splits)

lemma add_ev_timer_sound: "tw_sound s \<Longrightarrow> tw_sound (snd (add_ev_timer now ms co s))"
  using put_sound [of s, where r = s and hint = "length (tw_list s)" and now = now and ms = ms and co = co and it = "tw_it s"]
  by (simp add: add_ev_timer_def tw_sound_def)

lemma add_timer_sound: "tw_sound s \<Longrightarrow> add_timer now ms co s = Inr (i, t) \<Longrightarrow> tw_sound t"
  using put_sound [of s] by (auto simp: add_timer_def bindR_eq_Inr)

lemma add_ev_timer_inv: "tw_inv s \<Longrightarrow> tw_inv (snd (add_ev_timer now ms co s))"
  using put_inv [of s "tw_it s", where hint = "length (tw_list s)" and now = now and ms = ms and co = co]
  by (simp add: add_ev_timer_def tw_inv_def)

lemma add_timer_live: "hint_live s \<longleftrightarrow> (\<exists>r. add_timer now ms co s = Inr r)"
proof (cases "tw_it s")
  case (Some j)
  show ?thesis
  proof (cases "j \<in> tm_id ` set (tw_list s)")
    case True
    from position_found [OF this] obtain n where "position (tw_list s) j = Inr n" by blast
    with True Some show ?thesis by (simp add: hint_live_def add_timer_def)
  next
    case False
    from position_missing [OF this] False Some show ?thesis by (simp add: hint_live_def add_timer_def)
  qed
qed (simp add: hint_live_def add_timer_def)

lemma add_timer_inv: "tw_inv s \<Longrightarrow> \<exists>t. add_timer now ms co s = Inr (tw_next s, t) \<and> tw_inv t"
  using add_timer_live [of s now ms co] put_inv [where s = s and it = "Some (tw_next s)"]
  by (auto simp: tw_inv_iff add_timer_def bindR_eq_Inr)

lemma erase_sound:
  assumes "tw_sound s" "n < length (tw_list s)"
  shows "tw_sound (s\<lparr>tw_it := it, tw_list := erase_at n (tw_list s)\<rparr>)"
proof -
  obtain xs zs where e: "tw_list s = xs @ tw_list s ! n # zs" "erase_at n (tw_list s) = xs @ zs"
    using erase_split [OF assms(2)] by blast
  define t where "t = tw_list s ! n"
  have l: "tw_list s = xs @ t # zs" using e(1) by (simp add: t_def)
  have "sorted (map tm_time (xs @ zs))" "distinct (map tm_id (xs @ zs))" "\<forall>u \<in> set (xs @ zs). tm_id u < tw_next s"
    using assms(1) unfolding tw_sound_def l by (auto simp: sorted_append)
  then show ?thesis unfolding e(2) by (simp add: tw_sound_def)
qed

lemma erase_inv:
  assumes "tw_inv s" "n < length (tw_list s)"
    and "it = (if tw_it s = Some (tm_id (tw_list s ! n)) then iterator_at (Suc n) (tw_list s) else tw_it s)"
  shows "tw_inv (s\<lparr>tw_it := it, tw_list := erase_at n (tw_list s)\<rparr>)"
proof -
  obtain xs zs where e: "tw_list s = xs @ tw_list s ! n # zs" "erase_at n (tw_list s) = xs @ zs"
    "iterator_at (Suc n) (tw_list s) = iterator_at 0 zs"
    using erase_split [OF assms(2)] by blast
  define t where "t = tw_list s ! n"
  have l: "tw_list s = xs @ t # zs" using e(1) by (simp add: t_def)
  have "i \<in> tm_id ` set (xs @ zs)" if "it = Some i" for i
    using that assms(1,3) iterator_at_first [of zs i] unfolding tw_inv_def e(3) t_def [symmetric] by (auto simp: l split: if_splits)
  then have "hint_live (s\<lparr>tw_it := it, tw_list := erase_at n (tw_list s)\<rparr>)"
    unfolding e(2) by (simp add: hint_live_def split: option.splits)
  then show ?thesis using erase_sound [OF _ assms(2)] assms(1) by (simp add: tw_inv_iff)
qed

lemma del_timer_inv:
  assumes "tw_inv s" "i \<in> tm_id ` set (tw_list s)"
  shows "\<exists>t. del_timer i s = Inr t \<and> tw_inv t"
proof -
  obtain n where n: "position (tw_list s) i = Inr n" "n < length (tw_list s)" "tm_id (tw_list s ! n) = i"
    using position_found [OF assms(2)] by blast
  from erase_inv [OF assms(1) n(2) refl] n show ?thesis by (simp add: del_timer_def)
qed

lemma erase_ready_inv:
  assumes "tw_inv s" "erase_ready i s = Inr t" "tw_it s \<noteq> Some i"
  shows "tw_inv t"
proof -
  obtain n where n: "position (tw_list s) i = Inr n" "t = s\<lparr>tw_list := erase_at n (tw_list s)\<rparr>"
    using assms(2) by (auto simp: erase_ready_def bindR_eq_Inr)
  have "i \<in> tm_id ` set (tw_list s)" using n(1) position_missing [of i "tw_list s"] by auto
  from position_found [OF this] n(1) have "n < length (tw_list s)" "tm_id (tw_list s ! n) = i" by auto
  from erase_inv [OF assms(1) this(1) refl] this(2) n(2) assms(3) show ?thesis by simp
qed

lemma position_bound: "position ts i = Inr n \<Longrightarrow> n < length ts"
  by (auto simp: position_def Let_def split: if_splits)

lemma erasing_sound:
  "tw_sound s \<Longrightarrow> del_timer i s = Inr t \<Longrightarrow> tw_sound t" "tw_sound s \<Longrightarrow> erase_ready i s = Inr t \<Longrightarrow> tw_sound t"
  using erase_sound [of s, where it = "tw_it s"] erase_sound [of s]
  by (auto simp: del_timer_def erase_ready_def bindR_eq_Inr dest!: position_bound)

lemma due_split:
  assumes "sorted (map tm_time ts)"
  shows "takeWhile (\<lambda>t. tm_time t \<le> now) ts = filter (\<lambda>t. tm_time t \<le> now) ts"
    "dropWhile (\<lambda>t. tm_time t \<le> now) ts = filter (\<lambda>t. now < tm_time t) ts"
  using assms by (induction ts) (auto intro!: filter_False [symmetric] filter_True [symmetric])

lemma first_timer_bounds:
  fixes w :: u32
  assumes "sorted (map tm_time rest)" "u \<in> set rest" "now < tm_time (hd rest)" "tm_time u - now < 2 ^ 31"
    and w: "w = word_of_int (tm_time (hd rest) - now)"
  shows "0 \<le> sint w \<and> sint w \<le> tm_time u - now"
proof -
  obtain r rs where rr: "rest = r # rs" using assms(2) by (cases rest) auto
  have le: "tm_time r \<le> tm_time u" using assms(1,2) by (auto simp: rr)
  have "sint w = signed_take_bit 31 (tm_time r - now)" unfolding w rr sint_sbintrunc' by simp
  also have "\<dots> = tm_time r - now" using le assms(3,4) by (intro signed_take_bit_int_eq_self) (simp_all add: rr)
  finally show ?thesis using le assms(3) by (simp add: rr)
qed

lemma check_timeout_hint:
  assumes "hint_live s \<or> filter (\<lambda>t. tm_time t \<le> now) (tw_list s) = []"
  defines "rest \<equiv> filter (\<lambda>t. now < tm_time t) (tw_list s)"
  obtains it where
    "(if filter (\<lambda>t. tm_time t \<le> now) (tw_list s) = [] then Inr (tw_it s) else case tw_it s of None \<Rightarrow> Inr None
      | Some i \<Rightarrow> bindR (position (tw_list s) i) (\<lambda>n.
          Inr (if tm_time (tw_list s ! n) \<le> now then iterator_at 0 rest else Some i))) = Inr it"
    "hint_live s \<longrightarrow> hint_live (s\<lparr>tw_list := rest, tw_it := it, tw_ev := ev, tw_wait_ms := w\<rparr>)"
proof (cases "filter (\<lambda>t. tm_time t \<le> now) (tw_list s) = [] \<or> tw_it s = None")
  case True
  then have "tw_it s = None \<or> rest = tw_list s"
    unfolding rest_def by (auto simp: filter_empty_conv intro!: filter_True simp flip: not_le)
  then show thesis using True that [of "tw_it s"] by (auto simp: hint_live_def split: option.splits)
next
  case False
  then obtain i where i: "tw_it s = Some i" by auto
  then have "i \<in> tm_id ` set (tw_list s)" using assms(1) False by (simp add: hint_live_def)
  then obtain n where n: "position (tw_list s) i = Inr n" "n < length (tw_list s)" "tm_id (tw_list s ! n) = i" by (rule position_found)
  have "i \<in> tm_id ` set rest" if "\<not> tm_time (tw_list s ! n) \<le> now"
    using that n unfolding rest_def by (auto intro!: image_eqI [of _ _ "tw_list s ! n"])
  then show thesis
    using that [of "if tm_time (tw_list s ! n) \<le> now then iterator_at 0 rest else Some i"] False i n(1) iterator_at_first [of rest]
    by (auto simp: hint_live_def split: option.splits)
qed

lemma check_timeout_runs:
  assumes "tw_sound s" "hint_live s \<or> filter (\<lambda>t. tm_time t \<le> now) (tw_list s) = []"
  shows "\<exists>t. check_timeout now s = Inr (map tm_co (filter (\<lambda>t. tm_time t \<le> now) (tw_list s)), t) \<and> tw_sound t \<and>
    (hint_live s \<longrightarrow> hint_live t) \<and> tw_list t = filter (\<lambda>t. now < tm_time t) (tw_list s) \<and>
    (\<forall>u \<in> set (tw_list t). tm_time u - now < 2 ^ 31 \<longrightarrow> (\<exists>w. epoll_timeout t = Some w \<and> int w \<le> tm_time u - now))"
proof (cases "tw_list s = []")
  case True
  then show ?thesis using assms(1) by (simp add: check_timeout_def tw_sound_def hint_live_def split: option.splits)
next
  case False
  let ?ts = "tw_list s" and ?now = "\<lambda>t. tm_time t \<le> now"
  define rest where "rest = filter (\<lambda>t. now < tm_time t) ?ts"
  define w :: u32 where "w = (if rest \<noteq> [] then word_of_int (tm_time (hd rest) - now) else - 1)"
  define ev where "ev = (\<lambda>co. if co \<in> tm_co ` set (filter ?now ?ts) then 0 else tw_ev s co)"
  have rs: "sorted (map tm_time rest)" "distinct (map tm_id rest)" "\<forall>t \<in> set rest. tm_id t < tw_next s" "\<forall>t \<in> set rest. now < tm_time t"
    using assms(1) unfolding rest_def tw_sound_def by (auto simp: sorted_filter distinct_map_filter)
  have sp: "takeWhile ?now ?ts = filter ?now ?ts" "dropWhile ?now ?ts = rest"
    using due_split [of ?ts now] assms(1) by (simp_all add: tw_sound_def rest_def)
  obtain it where it: "(if filter ?now ?ts = [] then Inr (tw_it s) else case tw_it s of None \<Rightarrow> Inr None
      | Some i \<Rightarrow> bindR (position ?ts i) (\<lambda>n. Inr (if tm_time (?ts ! n) \<le> now then iterator_at 0 rest else Some i))) = Inr it"
    "hint_live s \<longrightarrow> hint_live (s\<lparr>tw_list := rest, tw_it := it, tw_ev := ev, tw_wait_ms := w\<rparr>)"
    using check_timeout_hint [OF assms(2), folded rest_def, where ev = ev and w = w] by blast
  let ?t = "s\<lparr>tw_list := rest, tw_it := it, tw_ev := ev, tw_wait_ms := w\<rparr>"
  have c: "check_timeout now s = Inr (map tm_co (filter ?now ?ts), ?t)"
    unfolding check_timeout_def Let_def sp it(1) using False by (simp add: w_def ev_def)
  have "\<exists>k. epoll_timeout ?t = Some k \<and> int k \<le> tm_time u - now" if "u \<in> set rest" "tm_time u - now < 2 ^ 31" for u
    using first_timer_bounds [OF rs(1) that(1) _ that(2), of w] rs(4) that(1) hd_in_set [of rest]
    by (auto simp: w_def epoll_timeout_def)
  then have "\<forall>u \<in> set rest. tm_time u - now < 2 ^ 31 \<longrightarrow> (\<exists>w. epoll_timeout ?t = Some w \<and> int w \<le> tm_time u - now)"
    by blast
  moreover have l: "tw_list ?t = rest" by simp
  ultimately have "\<forall>u \<in> set (tw_list ?t). tm_time u - now < 2 ^ 31 \<longrightarrow> (\<exists>w. epoll_timeout ?t = Some w \<and> int w \<le> tm_time u - now)"
    unfolding l by blast
  moreover have "tw_sound ?t" using rs(1-3) by (simp add: tw_sound_def)
  ultimately show ?thesis using c it(2) l unfolding rest_def [symmetric] by (intro exI [of _ ?t] conjI)
qed

lemma check_timeout_faults:
  assumes "tw_sound s" "\<not> hint_live s" "t \<in> set (tw_list s)" "tm_time t \<le> now"
  shows "check_timeout now s = Inl Out_Of_Range"
proof -
  obtain i where i: "tw_it s = Some i" "i \<notin> tm_id ` set (tw_list s)"
    using assms(2) by (auto simp: hint_live_def split: option.splits)
  have "takeWhile (\<lambda>t. tm_time t \<le> now) (tw_list s) \<noteq> []"
    using due_split(1) [of "tw_list s" now] assms(1,3,4) by (auto simp: tw_sound_def filter_empty_conv)
  then show ?thesis using i position_missing [OF i(2)] assms(3) by (auto simp: check_timeout_def Let_def)
qed

section \<open>Properties\<close>

text \<open>What the program does with the timers.\<close>

inductive tw_step :: "timers \<Rightarrow> timers \<Rightarrow> bool" where
  sleep: "tw_step s (snd (add_ev_timer now ms co s))"
| io: "add_timer now ms co s = Inr (i, t) \<Longrightarrow> tw_step s t"
| io_done: "del_timer i s = Inr t \<Longrightarrow> tw_step s t"
| signalled: "erase_ready i s = Inr t \<Longrightarrow> tw_step s t"
| check: "check_timeout now s = Inr (cos, t) \<Longrightarrow> tw_step s t"

lemma check_returns:
  assumes "tw_sound s" "check_timeout now s = Inr (cos, t)"
  shows "tw_sound t \<and> (hint_live s \<longrightarrow> hint_live t)"
proof (cases "hint_live s \<or> filter (\<lambda>t. tm_time t \<le> now) (tw_list s) = []")
  case True
  from check_timeout_runs [OF assms(1) this] assms(2) show ?thesis by auto
next
  case False
  then show ?thesis using check_timeout_faults [OF assms(1), of _ now] assms(2) by (auto simp: filter_empty_conv)
qed

lemma tw_sound_step: "tw_sound s \<Longrightarrow> tw_step s t \<Longrightarrow> tw_sound t"
  by (erule tw_step.cases) (auto intro: add_ev_timer_sound add_timer_sound erasing_sound dest: check_returns)

interpretation timers: step_system tw_step timers_start tw_sound
proof
  show "tw_sound timers_start" by (simp add: tw_sound_def timers_start_def)
qed (rule tw_sound_step)

lemma del_timer_live: "i \<in> tm_id ` set (tw_list s) \<longleftrightarrow> (\<exists>r. del_timer i s = Inr r)"
proof (cases "i \<in> tm_id ` set (tw_list s)")
  case True
  from position_found [OF this] obtain n where "position (tw_list s) i = Inr n" by blast
  with True show ?thesis by (simp add: del_timer_def)
qed (simp add: del_timer_def position_missing)

lemma hint_lost_by_erasing:
  assumes "tw_sound s" "tw_step s t" "hint_live s" "\<not> hint_live t"
  shows "\<exists>i. tw_it s = Some i \<and> erase_ready i s = Inr t"
  using assms(2)
proof cases
  case (sleep now ms co)
  then show ?thesis using add_ev_timer_inv [of s now ms co] assms by (simp add: tw_inv_iff)
next
  case (io now ms co i)
  then show ?thesis using add_timer_inv [of s now ms co] assms by (auto simp: tw_inv_iff)
next
  case (io_done i)
  then show ?thesis using del_timer_inv [of s i] del_timer_live [of i s] assms by (auto simp: tw_inv_iff)
next
  case (signalled i)
  then show ?thesis using erase_ready_inv [of s i t] assms by (auto simp: tw_inv_iff)
next
  case (check now cos)
  then show ?thesis using check_returns [of s now cos t] assms by auto
qed

text \<open>
  C15. In every reachable state the timers are in the order of their times. While the hint
  \<open>_it\<close> is live, or no timer is due, a check resumes exactly the coroutines whose time has come,
  in that order, keeps the others, and lets the next wait for events end no later than any of
  them that is less than \<open>2^31\<close> ms away; and adding a socket's timer does not fault. The hint
  dies in one way only: the loop erases the timer it stands on, of a coroutine that was
  signalled (\<open>scheduler.cc:147\<close>). From then on adding a socket's timer, and a check that finds
  a timer due, use an erased iterator.
\<close>

theorem timers_fire_when_due:
  assumes "tw_step\<^sup>*\<^sup>* timers_start s"
  shows "sorted (map tm_time (tw_list s)) \<and>
    (hint_live s \<or> filter (\<lambda>t. tm_time t \<le> now) (tw_list s) = [] \<longrightarrow>
      (\<exists>t. check_timeout now s = Inr (map tm_co (filter (\<lambda>t. tm_time t \<le> now) (tw_list s)), t) \<and>
        tw_list t = filter (\<lambda>t. now < tm_time t) (tw_list s) \<and>
        (\<forall>u \<in> set (tw_list t). tm_time u - now < 2 ^ 31 \<longrightarrow> (\<exists>w. epoll_timeout t = Some w \<and> int w \<le> tm_time u - now)))) \<and>
    (\<not> hint_live s \<and> filter (\<lambda>t. tm_time t \<le> now) (tw_list s) \<noteq> [] \<longrightarrow> check_timeout now s = Inl Out_Of_Range) \<and>
    (hint_live s \<longleftrightarrow> (\<exists>r. add_timer now ms co s = Inr r)) \<and>
    (hint_live s \<and> tw_step s s' \<and> \<not> hint_live s' \<longrightarrow> (\<exists>i. tw_it s = Some i \<and> erase_ready i s = Inr s'))"
proof -
  have i: "tw_sound s" by (rule timers.inv_reachable [OF assms])
  then have "sorted (map tm_time (tw_list s))" by (simp add: tw_sound_def)
  moreover have "check_timeout now s = Inl Out_Of_Range"
    if "\<not> hint_live s \<and> filter (\<lambda>t. tm_time t \<le> now) (tw_list s) \<noteq> []"
    using that check_timeout_faults [OF i, of _ now] by (auto simp: filter_empty_conv)
  moreover have "\<exists>t. check_timeout now s = Inr (map tm_co (filter (\<lambda>t. tm_time t \<le> now) (tw_list s)), t) \<and>
        tw_list t = filter (\<lambda>t. now < tm_time t) (tw_list s) \<and>
        (\<forall>u \<in> set (tw_list t). tm_time u - now < 2 ^ 31 \<longrightarrow> (\<exists>w. epoll_timeout t = Some w \<and> int w \<le> tm_time u - now))"
    if "hint_live s \<or> filter (\<lambda>t. tm_time t \<le> now) (tw_list s) = []"
    using check_timeout_runs [OF i that] by (elim exE conjE) (intro exI conjI)
  moreover have "\<exists>i. tw_it s = Some i \<and> erase_ready i s = Inr s'" if "hint_live s \<and> tw_step s s' \<and> \<not> hint_live s'"
    using hint_lost_by_erasing [OF i, of s'] that by (elim conjE)
  ultimately show ?thesis using add_timer_live [of s now ms co] by (intro conjI impI)
qed

definition sample_timers :: timers where
  "sample_timers = snd (add_ev_timer 100 20 5 (snd (add_ev_timer 100 50 4 timers_start)))"

lemma sample_timers_reachable: "tw_step\<^sup>*\<^sup>* timers_start sample_timers"
  unfolding sample_timers_def by (meson sleep r_into_rtranclp rtranclp.rtrancl_into_rtrancl)

lemma sample_timers_list:
  "tw_list sample_timers = [\<lparr>tm_id = 1, tm_time = 120, tm_co = 5\<rparr>, \<lparr>tm_id = 0, tm_time = 150, tm_co = 4\<rparr>] \<and> tw_it sample_timers = None"
  by (simp add: sample_timers_def add_ev_timer_def timers_start_def put_timer_def new_timer_def shorten_wait_def Let_def)

theorem timers_fire_when_due_witness:
  "\<exists>t. check_timeout 130 sample_timers = Inr ([5], t) \<and> tw_list t = [\<lparr>tm_id = 0, tm_time = 150, tm_co = 4\<rparr>] \<and>
    (\<exists>w. epoll_timeout t = Some w \<and> w \<le> 20)"
  using timers_fire_when_due [OF sample_timers_reachable, of 130 0 0 timers_start]
  by (auto simp: sample_timers_list hint_live_def)

text \<open>
  A timer \<open>2^31\<close> ms away or more makes the wait negative as an \<open>int\<close>: it then has no end, and
  the timer fires only after an event of another kind. The constructor's \<open>-1\<close> is the same.
\<close>

lemma far_timer_waits_forever:
  assumes "2 ^ 31 \<le> tm_time u - now" "tm_time u - now < 2 ^ 32" "tw_list s = [u]"
  shows "\<exists>t. check_timeout now s = Inr ([], t) \<and> tw_list t = [u] \<and> epoll_timeout t = None"
proof -
  define d where "d = tm_time u - now"
  have d: "2 ^ 31 \<le> d" "d < 2 ^ 32" using assms(1,2) by (simp_all add: d_def)
  then have "(d + 2 ^ 31) mod 2 ^ 32 = d - 2 ^ 31" using mod_pos_geq [of "2 ^ 32" "d + 2 ^ 31"] by simp
  then have "sint (word_of_int d :: u32) < 0" using d(2) by (simp add: int_word_sint)
  then show ?thesis using assms by (simp add: check_timeout_def epoll_timeout_def d_def)
qed

text \<open>
  The timer of a signalled coroutine can be the one the hint stands on, after the timer
  of a socket before it was deleted: erasing it leaves the hint dangling, and the next
  timer of a socket uses it.
\<close>

theorem signalled_timer_leaves_dangling_hint:
  assumes "uint ms \<le> uint ms'"
  shows "bindR (add_timer now ms co timers_start) (\<lambda>(i, s). case add_ev_timer now ms' co' s of (j, s) \<Rightarrow>
    bindR (del_timer i s) (\<lambda>s. bindR (erase_ready j s) (add_timer now' ms'' co))) = Inl Out_Of_Range"
  using assms
  by (simp add: add_timer_def timers_start_def put_timer_def new_timer_def Let_def add_ev_timer_def shorten_wait_def
      del_timer_def position_def erase_at_def iterator_at_def erase_ready_def)

theorem signalled_timer_leaves_dangling_hint_witness:
  "bindR (add_timer 0 1024 1 timers_start) (\<lambda>(i, s). case add_ev_timer 0 2048 2 s of (j, s) \<Rightarrow>
    bindR (del_timer i s) (\<lambda>s. bindR (erase_ready j s) (add_timer 5 1024 1))) = Inl Out_Of_Range"
  by (rule signalled_timer_leaves_dangling_hint) simp

end
