(* ===== verification/CoEvent.thy ===== *)
theory CoEvent
  imports StepSystem "HOL-Library.Multiset"
begin

text \<open>
  The event of coroutines (\<open>co/base/co/impl/co.cc\<close>) with the part of the scheduler that wakes
  them (\<open>scheduler.h\<close>, \<open>scheduler.cc\<close>): coroutines of one scheduler wait on an event, with or
  without a time limit; threads signal it. What a coroutine waits for and what happens to
  the entries of the maps are steps between the accesses other threads can see. Timers are
  numbers in the order they were made, and when they are due is left open; erasing a timer
  that is not there any more is a fault.
\<close>

section \<open>State\<close>

datatype ev_status = Ev_None | Ev_Wait | Ev_Ready

datatype co_pc = Away | Awake | Sleeping

datatype loop_phase = Tasks_Phase | Ready_Phase | Due_Phase

type_synonym entry = "nat \<times> nat option"

record ev_system =
  es_ev :: "nat \<Rightarrow> ev_status"
  es_pc :: "nat \<Rightarrow> co_pc"
  es_current :: "nat option"
  es_phase :: loop_phase
  es_waiting :: "entry list"
  es_local :: "entry list"
  es_adding :: "entry list"
  es_tasks :: "entry list"
  es_ready :: "entry list"
  es_timers :: "(nat \<times> nat) list"
  es_due :: "nat list"
  es_next :: nat
  es_waits :: "nat \<Rightarrow> nat"
  es_returns :: "nat \<Rightarrow> nat"
  es_fault :: bool

definition es_start :: ev_system where
  "es_start = \<lparr>es_ev = (\<lambda>_. Ev_None), es_pc = (\<lambda>_. Away), es_current = None, es_phase = Tasks_Phase, es_waiting = [],
     es_local = [], es_adding = [], es_tasks = [], es_ready = [], es_timers = [], es_due = [], es_next = 0,
     es_waits = (\<lambda>_. 0), es_returns = (\<lambda>_. 0), es_fault = False\<rparr>"

section \<open>The operations\<close>

text \<open>\<open>insert\<close> of a map leaves an entry that is there.\<close>

definition insert_entry :: "entry \<Rightarrow> entry list \<Rightarrow> entry list" where
  "insert_entry e m = (if fst e \<in> fst ` set m then m else m @ [e])"

text \<open>\<open>wait\<close> up to the yield.\<close>

definition event_wait :: "bool \<Rightarrow> nat \<Rightarrow> ev_system \<Rightarrow> ev_system" where
  "event_wait timed co s =
     s\<lparr>es_ev := (es_ev s)(co := Ev_Wait),
       es_timers := (if timed then es_timers s @ [(es_next s, co)] else es_timers s),
       es_next := es_next s + 1,
       es_waiting := insert_entry (co, if timed then Some (es_next s) else None) (es_waiting s),
       es_pc := (es_pc s)(co := Sleeping), es_current := None, es_waits := (es_waits s)(co := es_waits s co + 1)\<rparr>"

text \<open>The rest of \<open>wait\<close>, after the coroutine was resumed.\<close>

definition event_return :: "nat \<Rightarrow> ev_system \<Rightarrow> ev_system" where
  "event_return co s =
     s\<lparr>es_ev := (es_ev s)(co := Ev_None), es_pc := (es_pc s)(co := Awake), es_current := Some co,
       es_returns := (es_returns s)(co := es_returns s co + 1)\<rparr>"

definition event_return_late :: "nat \<Rightarrow> ev_system \<Rightarrow> ev_system" where
  "event_return_late co s = event_return co (s\<lparr>es_waiting := filter (\<lambda>e. fst e \<noteq> co) (es_waiting s)\<rparr>)"

text \<open>\<open>signal\<close>: the swap, the compare-and-swap for an entry, and \<open>add_task\<close> for it.\<close>

definition signal_swap :: "ev_system \<Rightarrow> ev_system" where
  "signal_swap s = s\<lparr>es_local := es_local s @ es_waiting s, es_waiting := []\<rparr>"

definition signal_cas :: "entry \<Rightarrow> ev_system \<Rightarrow> ev_system" where
  "signal_cas e s =
     (let s = s\<lparr>es_local := remove1 e (es_local s)\<rparr>
      in if es_ev s (fst e) = Ev_Wait then s\<lparr>es_ev := (es_ev s)(fst e := Ev_Ready), es_adding := es_adding s @ [e]\<rparr>
         else s)"

definition signal_add :: "entry \<Rightarrow> ev_system \<Rightarrow> ev_system" where
  "signal_add e s = s\<lparr>es_adding := remove1 e (es_adding s), es_tasks := insert_entry e (es_tasks s)\<rparr>"

text \<open>The scheduler: taking the map of signalled coroutines, and one entry of it.\<close>

definition sched_take :: "ev_system \<Rightarrow> ev_system" where
  "sched_take s = s\<lparr>es_ready := es_ready s @ es_tasks s, es_tasks := [], es_phase := Ready_Phase\<rparr>"

definition sched_ready :: "entry \<Rightarrow> ev_system \<Rightarrow> ev_system" where
  "sched_ready e s =
     (let s = s\<lparr>es_ready := remove1 e (es_ready s)\<rparr>
      in if es_ev s (fst e) \<noteq> Ev_Ready then s
         else case snd e of
             None \<Rightarrow> event_return (fst e) s
           | Some t \<Rightarrow>
               if t \<in> fst ` set (es_timers s)
               then event_return (fst e) (s\<lparr>es_timers := filter (\<lambda>x. fst x \<noteq> t) (es_timers s)\<rparr>)
               else s\<lparr>es_fault := True\<rparr>)"

text \<open>\<open>check_timeout\<close>; \<open>due\<close> tells the timers whose time has come.\<close>

definition sched_check :: "(nat \<times> nat \<Rightarrow> bool) \<Rightarrow> ev_system \<Rightarrow> ev_system" where
  "sched_check due s =
     (let cos = map snd (filter due (es_timers s))
      in s\<lparr>es_timers := filter (\<lambda>x. \<not> due x) (es_timers s),
           es_ev := (\<lambda>co. if co \<in> set cos then Ev_None else es_ev s co), es_due := cos, es_phase := Due_Phase\<rparr>)"

section \<open>Steps\<close>

text \<open>
  With \<open>timed\<close> the coroutines may use time limits. The scheduler goes on when no coroutine
  runs; a coroutine may also run for reasons that are not this event.
\<close>

inductive es_step :: "bool \<Rightarrow> ev_system \<Rightarrow> ev_system \<Rightarrow> bool" for timed where
  run: "es_current s = None \<Longrightarrow> es_pc s co = Away \<Longrightarrow>
     es_step timed s (s\<lparr>es_pc := (es_pc s)(co := Awake), es_current := Some co\<rparr>)"
| leave: "es_current s = Some co \<Longrightarrow> es_step timed s (s\<lparr>es_pc := (es_pc s)(co := Away), es_current := None\<rparr>)"
| wait: "es_current s = Some co \<Longrightarrow> limit \<longrightarrow> timed \<Longrightarrow> es_step timed s (event_wait limit co s)"
| swap: "es_step timed s (signal_swap s)"
| cas: "e \<in> set (es_local s) \<Longrightarrow> es_step timed s (signal_cas e s)"
| add: "e \<in> set (es_adding s) \<Longrightarrow> es_step timed s (signal_add e s)"
| take: "es_current s = None \<Longrightarrow> es_phase s = Tasks_Phase \<Longrightarrow> es_step timed s (sched_take s)"
| ready: "es_current s = None \<Longrightarrow> es_phase s = Ready_Phase \<Longrightarrow> e \<in> set (es_ready s) \<Longrightarrow> es_step timed s (sched_ready e s)"
| check: "es_current s = None \<Longrightarrow> es_phase s = Ready_Phase \<Longrightarrow> es_ready s = [] \<Longrightarrow> es_step timed s (sched_check due s)"
| due: "es_current s = None \<Longrightarrow> es_phase s = Due_Phase \<Longrightarrow> es_due s = co # cos \<Longrightarrow>
     es_step timed s (event_return_late co (s\<lparr>es_due := cos\<rparr>))"
| due_done: "es_current s = None \<Longrightarrow> es_phase s = Due_Phase \<Longrightarrow> es_due s = [] \<Longrightarrow> es_step timed s (s\<lparr>es_phase := Tasks_Phase\<rparr>)"

section \<open>The invariant\<close>

definition entries :: "ev_system \<Rightarrow> entry multiset" where
  "entries s = mset (es_waiting s) + mset (es_local s) + mset (es_adding s) + mset (es_tasks s) + mset (es_ready s)"






lemma insert_entry_mset: "mset (insert_entry e m) = (if fst e \<in> fst ` set m then mset m else add_mset e (mset m))"
  by (simp add: insert_entry_def)






lemma cas_entries: "e \<in> set (es_local s) \<Longrightarrow> entries (signal_cas e s) \<subseteq># entries s"
proof -
  assume e: "e \<in> set (es_local s)"
  then obtain M where "mset (es_local s) = add_mset e M" by (metis mset_add set_mset_mset)
  then show ?thesis by (simp add: signal_cas_def entries_def Let_def)
qed

lemma add_entries: "e \<in> set (es_adding s) \<Longrightarrow> entries (signal_add e s) \<subseteq># entries s"
proof -
  assume e: "e \<in> set (es_adding s)"
  then obtain M where "mset (es_adding s) = add_mset e M" by (metis mset_add set_mset_mset)
  then show ?thesis by (simp add: signal_add_def entries_def insert_entry_mset)
qed








section \<open>Properties\<close>


lemma first_wait: "(es_step timed)\<^sup>*\<^sup>* es_start (event_wait False 3 (es_start\<lparr>es_pc := (\<lambda>_. Away)(3 := Awake), es_current := Some 3\<rparr>))"
proof -
  let ?s = "es_start\<lparr>es_pc := (\<lambda>_. Away)(3 := Awake), es_current := Some 3\<rparr>"
  have "es_step timed es_start ?s" using es_step.run [of es_start 3 timed] by (simp add: es_start_def)
  moreover have "es_step timed ?s (event_wait False 3 ?s)" by (rule es_step.wait) simp_all
  ultimately show ?thesis by (meson r_into_rtranclp rtranclp.rtrancl_into_rtrancl)
qed


text \<open>Without time limits no entry has a timer.\<close>

definition untimed :: "ev_system \<Rightarrow> bool" where
  "untimed s \<longleftrightarrow> \<not> es_fault s \<and> (\<forall>e \<in># entries s. snd e = None)"

lemma untimed_fewer: "untimed s \<Longrightarrow> entries t \<subseteq># entries s \<Longrightarrow> es_fault t = es_fault s \<Longrightarrow> untimed t"
  unfolding untimed_def by (meson mset_subset_eqD)

lemma untimed_step:
  assumes "untimed s" "es_step False s t"
  shows "untimed t"
  using assms(2)
proof cases
  case (wait co limit)
  then show ?thesis using assms(1) by (auto simp: untimed_def entries_def event_wait_def insert_entry_mset)
next
  case (ready e)
  then have "e \<in># entries s" by (simp add: entries_def)
  then have "snd e = None" using assms(1) unfolding untimed_def by blast
  then show ?thesis
    by (intro untimed_fewer [OF assms(1)]) (simp_all add: ready sched_ready_def Let_def entries_def event_return_def)
next
  case (cas e)
  then show ?thesis using cas_entries [of e s] by (intro untimed_fewer [OF assms(1)]) (simp_all add: signal_cas_def Let_def)
next
  case (add e)
  then show ?thesis using add_entries [of e s] by (intro untimed_fewer [OF assms(1)]) (simp_all add: signal_add_def)
qed ((rule untimed_fewer [OF assms(1)];
  simp add: entries_def signal_swap_def sched_take_def sched_check_def Let_def event_return_late_def event_return_def)+)

interpretation untimed_event: step_system "es_step False" es_start untimed
proof
  show "untimed es_start" by (simp add: untimed_def entries_def es_start_def)
qed (rule untimed_step)

text \<open>
  When no wait has a time limit, no dead timer is ever erased, whatever the threads that
  signal do.
\<close>

lemma untimed_waits_are_safe:
  assumes "(es_step False)\<^sup>*\<^sup>* es_start s"
  shows "\<not> es_fault s"
  using untimed_event.inv_reachable [OF assms] by (simp add: untimed_def)

lemma untimed_waits_are_safe_witness:
  "\<not> es_fault (event_wait False 3 (es_start\<lparr>es_pc := (\<lambda>_. Away)(3 := Awake), es_current := Some 3\<rparr>))"
  by (rule untimed_waits_are_safe [OF first_wait])

text \<open>A run, from a list of functions each of which is a step.\<close>

fun steps_ok :: "(ev_system \<Rightarrow> ev_system) list \<Rightarrow> ev_system \<Rightarrow> bool" where
  "steps_ok [] s \<longleftrightarrow> True"
| "steps_ok (f # fs) s \<longleftrightarrow> es_step True s (f s) \<and> steps_ok fs (f s)"

lemma steps_run: "steps_ok fs s \<Longrightarrow> (es_step True)\<^sup>*\<^sup>* s (fold (\<lambda>f. f) fs s)"
  by (induction fs arbitrary: s) (auto intro: converse_rtranclp_into_rtranclp)

text \<open>
  A coroutine waits with a limit and is signalled, but the scheduler comes to its time-out
  before it takes the map; it waits again and is signalled again: the old entry is still in
  the map, and the new one is not inserted.
\<close>

definition stale_run :: "(ev_system \<Rightarrow> ev_system) list" where
  "stale_run =
     [\<lambda>s. s\<lparr>es_pc := (es_pc s)(3 := Awake), es_current := Some 3\<rparr>, event_wait True 3, sched_take,
      signal_swap, signal_cas (3, Some 0), signal_add (3, Some 0), sched_check (\<lambda>_. True),
      \<lambda>s. event_return_late 3 (s\<lparr>es_due := []\<rparr>), event_wait True 3, signal_swap, \<lambda>s. s\<lparr>es_phase := Tasks_Phase\<rparr>]"

lemmas ev_ops = event_wait_def event_return_late_def event_return_def signal_swap_def signal_cas_def signal_add_def
  sched_take_def sched_ready_def sched_check_def insert_entry_def Let_def

definition stale_state :: ev_system where
  "stale_state = fold (\<lambda>f. f) stale_run es_start"

lemma stale_state_reachable: "(es_step True)\<^sup>*\<^sup>* es_start stale_state"
proof -
  have "steps_ok stale_run es_start"
    unfolding stale_run_def steps_ok.simps
    by (intro conjI TrueI; (rule es_step.run | rule es_step.wait | rule es_step.take | rule es_step.swap | rule es_step.cas
        | rule es_step.add | rule es_step.check | rule es_step.due | rule es_step.due_done | rule es_step.ready);
        simp add: ev_ops es_start_def)
  then show ?thesis unfolding stale_state_def by (rule steps_run)
qed

text \<open>
  C29. How a dead timer comes to be erased: when the entry of an earlier wait of a coroutine is
  still in the map of signalled coroutines although its timer is gone (the time-out crossed
  the signal), and the coroutine, waiting again, is signalled, then inserting the new entry
  leaves the map as it is. The coroutine's status is nevertheless the one the scheduler
  looks for, so when it takes the map it erases the timer of the old entry, which no longer
  exists, while that of the new one stays.
\<close>

theorem stale_entry_erases_dead_timer:
  assumes "(co, Some i) \<in> set (es_tasks s)" "i \<notin> fst ` set (es_timers s)"
    "es_ev s co = Ev_Wait" "(co, Some j) \<in> set (es_local s)" "es_current s = None" "es_phase s = Tasks_Phase"
  defines "t \<equiv> signal_add (co, Some j) (signal_cas (co, Some j) s)"
  defines "u \<equiv> sched_ready (co, Some i) (sched_take t)"
  shows "(es_step True)\<^sup>*\<^sup>* s t \<and> es_tasks t = es_tasks s \<and> es_timers t = es_timers s \<and> es_ev t co = Ev_Ready \<and>
    (es_step True)\<^sup>*\<^sup>* t u \<and> es_fault u"
proof -
  let ?c = "signal_cas (co, Some j) s"
  have c: "(co, Some j) \<in> set (es_adding ?c)" "es_tasks ?c = es_tasks s" "es_timers ?c = es_timers s" "es_ev ?c co = Ev_Ready"
    "es_current ?c = None" "es_phase ?c = Tasks_Phase"
    using assms(3,5,6) by (simp_all add: signal_cas_def Let_def)
  have "es_step True s ?c" by (rule es_step.cas [OF assms(4)])
  moreover have "es_step True ?c t" unfolding t_def by (rule es_step.add [OF c(1)])
  ultimately have 1: "(es_step True)\<^sup>*\<^sup>* s t" by auto
  have "co \<in> fst ` set (es_tasks s)" using assms(1) by force
  then have t: "es_tasks t = es_tasks s" "es_timers t = es_timers s" "es_ev t co = Ev_Ready" "es_current t = None" "es_phase t = Tasks_Phase"
    using c by (simp_all add: t_def signal_add_def insert_entry_def)
  have "es_step True t (sched_take t)" by (rule es_step.take [OF t(4,5)])
  moreover have "es_step True (sched_take t) u"
    unfolding u_def by (rule es_step.ready) (use t assms(1) in \<open>simp_all add: sched_take_def\<close>)
  ultimately have 2: "(es_step True)\<^sup>*\<^sup>* t u" by auto
  have "es_fault u" using t assms(2) by (simp add: u_def sched_ready_def sched_take_def Let_def)
  with 1 2 t show ?thesis by simp
qed

theorem stale_entry_erases_dead_timer_witness: "\<exists>u. (es_step True)\<^sup>*\<^sup>* es_start u \<and> es_fault u"
proof -
  have "(3, Some 0) \<in> set (es_tasks stale_state)" "0 \<notin> fst ` set (es_timers stale_state)" "es_ev stale_state 3 = Ev_Wait"
    "(3, Some 1) \<in> set (es_local stale_state)" "es_current stale_state = None" "es_phase stale_state = Tasks_Phase"
    by (simp_all add: stale_state_def stale_run_def ev_ops es_start_def)
  from stale_entry_erases_dead_timer [OF this] show ?thesis
    using rtranclp_trans [OF stale_state_reachable] rtranclp_trans by metis
qed

end
