(* ===== verification/CoPool.thy ===== *)
theory CoPool
  imports StepSystem
begin

unbundle bit_operations_syntax

text \<open>
  The coroutines of a scheduler and the choice of one (\<open>co/base/co/impl/scheduler.h\<close>,
  \<open>scheduler.cc\<close>), and the pools of a scheduler (\<open>co.cc\<close>). A coroutine is its number, the
  index of its structure; \<open>epoll\<close> knows coroutines by that number only.
\<close>

section \<open>Coroutines and the stack they share\<close>

text \<open>
  A coroutine and the part of its scheduler that runs it. The stack is a list of bytes from its
  low end; a context is the offset of a coroutine's lowest byte in it, \<open>None\<close> before the first run,
  and \<open>cr_stack\<close> is the copy made when the coroutine yielded.
\<close>

record ('f, 'b) coroutine =
  cr_id :: nat
  cr_ev :: int
  cr_ctx :: "nat option"
  cr_stack :: "'b list option"
  cr_cb :: "'f option"

definition main_coroutine :: "('f, 'b) coroutine" where
  "main_coroutine = \<lparr>cr_id = 0, cr_ev = 0, cr_ctx = None, cr_stack = None, cr_cb = None\<rparr>"

definition make_coroutine :: "nat \<Rightarrow> 'f \<Rightarrow> ('f, 'b) coroutine" where
  "make_coroutine i f = \<lparr>cr_id = i, cr_ev = 0, cr_ctx = None, cr_stack = None, cr_cb = Some f\<rparr>"

record ('f, 'b) co_sched =
  sc_stack :: "'b list option"
  sc_running :: "nat option"
  sc_pool :: "('f, 'b) coroutine list"
  sc_ids :: "nat list"

text \<open>The pool of a new scheduler holds the main coroutine.\<close>

definition sched_start :: "('f, 'b) co_sched" where
  "sched_start = \<lparr>sc_stack = None, sc_running = None, sc_pool = [main_coroutine], sc_ids = []\<rparr>"

definition new_coroutine :: "'f \<Rightarrow> ('f, 'b) co_sched \<Rightarrow> nat \<times> ('f, 'b) co_sched" where
  "new_coroutine f s =
     (if sc_ids s \<noteq> [] then
        let i = last (sc_ids s) in
        (i, s\<lparr>sc_pool := (sc_pool s)[i := (sc_pool s ! i)\<lparr>cr_cb := Some f, cr_ctx := None, cr_ev := 0\<rparr>],
              sc_ids := butlast (sc_ids s)\<rparr>)
      else (length (sc_pool s), s\<lparr>sc_pool := sc_pool s @ [make_coroutine (length (sc_pool s)) f]\<rparr>))"

definition recycle :: "nat \<Rightarrow> ('f, 'b) co_sched \<Rightarrow> ('f, 'b) co_sched" where
  "recycle co s = s\<lparr>sc_ids := sc_ids s @ [co]\<rparr>"

text \<open>Everything from the context up is copied; the copy of the time before is overwritten.\<close>

definition save_stack :: "nat \<Rightarrow> 'b list \<Rightarrow> ('f, 'b) coroutine \<Rightarrow> ('f, 'b) coroutine" where
  "save_stack c st co = co\<lparr>cr_stack := Some (drop c st)\<rparr>"

text \<open>What a run ends with: the coroutine yields with a new context, or its function has returned.\<close>

datatype 'b stop = Yielded nat "'b list" | Finished "'b list"

text \<open>
  The parameters of \<open>resume\<close>: \<open>fresh\<close>, what \<open>malloc\<close> gives for the stack; \<open>entry\<close>, the offset
  \<open>tb_context_make\<close> gives; \<open>run\<close>, the jump into the coroutine. \<open>None\<close> is a failed \<open>assert\<close>.
  A coroutine that returns has put its own number into \<open>_co_ids\<close> (\<open>main_func\<close>).
\<close>

definition restore_stack :: "'b list \<Rightarrow> nat \<Rightarrow> nat \<Rightarrow> ('f, 'b) co_sched \<Rightarrow> (nat \<times> 'b list) option" where
  "restore_stack fresh entry i s =
     (let st = (case sc_stack s of None \<Rightarrow> fresh | Some st \<Rightarrow> st); co = sc_pool s ! i in
      case cr_ctx co of
        None \<Rightarrow> Some (entry, st)
      | Some c \<Rightarrow>
          (let saved = (case cr_stack co of None \<Rightarrow> [] | Some d \<Rightarrow> d) in
           if length st = c + length saved then Some (c, List.take c st @ saved) else None))"

definition resume :: "'b list \<Rightarrow> nat \<Rightarrow> (nat \<Rightarrow> 'b list \<Rightarrow> 'b stop) \<Rightarrow> nat \<Rightarrow> ('f, 'b) co_sched \<Rightarrow> ('f, 'b) co_sched option" where
  "resume fresh entry run i s =
     (case restore_stack fresh entry i s of
        None \<Rightarrow> None
      | Some (c, st) \<Rightarrow>
          (let co = (sc_pool s ! i)\<lparr>cr_ctx := Some c\<rparr> in
           case run c st of
             Yielded c' st' \<Rightarrow>
               Some (s\<lparr>sc_running := Some i, sc_stack := Some st',
                       sc_pool := (sc_pool s)[i := save_stack c' st' (co\<lparr>cr_ctx := Some c'\<rparr>)]\<rparr>)
           | Finished st' \<Rightarrow>
               Some (recycle i (s\<lparr>sc_running := Some i, sc_stack := Some st', sc_pool := (sc_pool s)[i := co]\<rparr>))))"

text \<open>
  What the assembly does: a run keeps the size of the stack, and yields with a context inside it.
\<close>

definition run_in_bounds :: "nat \<Rightarrow> (nat \<Rightarrow> 'b list \<Rightarrow> 'b stop) \<Rightarrow> bool" where
  "run_in_bounds n run \<longleftrightarrow> (\<forall>c st. length st = n \<longrightarrow>
     (case run c st of Yielded c' st' \<Rightarrow> c' \<le> n \<and> length st' = n | Finished st' \<Rightarrow> length st' = n))"

text \<open>
  A coroutine is asleep when it has a context and is not in \<open>_co_ids\<close>: then its copy of the stack
  fits above its context.
\<close>

definition asleep :: "('f, 'b) co_sched \<Rightarrow> nat \<Rightarrow> bool" where
  "asleep s i \<longleftrightarrow> i < length (sc_pool s) \<and> i \<notin> set (sc_ids s) \<and> cr_ctx (sc_pool s ! i) \<noteq> None"

definition stacks_fit :: "nat \<Rightarrow> ('f, 'b) co_sched \<Rightarrow> bool" where
  "stacks_fit n s \<longleftrightarrow> (\<forall>st. sc_stack s = Some st \<longrightarrow> length st = n) \<and>
     (\<forall>i. asleep s i \<longrightarrow> (\<exists>c d. cr_ctx (sc_pool s ! i) = Some c \<and> cr_stack (sc_pool s ! i) = Some d \<and> c + length d = n))"

text \<open>Free numbers are distinct numbers of the pool, and never the main coroutine's.\<close>

definition ids_ok :: "('f, 'b) co_sched \<Rightarrow> bool" where
  "ids_ok s \<longleftrightarrow> distinct (sc_ids s) \<and> set (sc_ids s) \<subseteq> {0<..<length (sc_pool s)} \<and> sc_pool s \<noteq> []"

text \<open>What the loop of a scheduler does with them: a new task gets a coroutine, a coroutine in use is resumed.\<close>

inductive sched_step :: "nat \<Rightarrow> 'b list \<Rightarrow> nat \<Rightarrow> ('f, 'b) co_sched \<Rightarrow> ('f, 'b) co_sched \<Rightarrow> bool"
  for n fresh entry where
  task: "sched_step n fresh entry s (snd (new_coroutine f s))"
| run: "sched_step n fresh entry s t"
  if "0 < i" "i < length (sc_pool s)" "i \<notin> set (sc_ids s)" "run_in_bounds n run" "resume fresh entry run i s = Some t"

inductive_cases sched_stepE: "sched_step n fresh entry s t"

definition sched_inv :: "nat \<Rightarrow> 'b list \<Rightarrow> ('f, 'b) co_sched \<Rightarrow> bool" where
  "sched_inv n fresh s \<longleftrightarrow> ids_ok s \<and> (length fresh = n \<longrightarrow> stacks_fit n s)"

lemma last_id:
  assumes "ids_ok s" "sc_ids s \<noteq> []"
  shows "last (sc_ids s) \<in> {0<..<length (sc_pool s)}" "last (sc_ids s) \<notin> set (butlast (sc_ids s))"
    "set (butlast (sc_ids s)) \<subseteq> set (sc_ids s)" "set (sc_ids s) = insert (last (sc_ids s)) (set (butlast (sc_ids s)))"
proof -
  obtain fs f where f: "sc_ids s = fs @ [f]" using assms(2) by (metis append_butlast_last_id)
  show "last (sc_ids s) \<in> {0<..<length (sc_pool s)}" "last (sc_ids s) \<notin> set (butlast (sc_ids s))"
    "set (butlast (sc_ids s)) \<subseteq> set (sc_ids s)" "set (sc_ids s) = insert (last (sc_ids s)) (set (butlast (sc_ids s)))"
    using assms(1) by (auto simp: f ids_ok_def)
qed

lemma new_ids_ok: "ids_ok s \<Longrightarrow> ids_ok (snd (new_coroutine f s))"
  using last_id [of s] by (auto simp: ids_ok_def new_coroutine_def Let_def distinct_butlast)

lemma new_asleep:
  assumes "ids_ok s" "asleep (snd (new_coroutine f s)) i"
  shows "asleep s i \<and> sc_pool (snd (new_coroutine f s)) ! i = sc_pool s ! i"
proof (cases "sc_ids s = []")
  case True
  then show ?thesis using assms(2)
    by (auto simp: asleep_def new_coroutine_def make_coroutine_def nth_append less_Suc_eq split: if_splits)
next
  case False
  then show ?thesis using assms last_id [of s]
    by (cases "i = last (sc_ids s)") (auto simp: asleep_def new_coroutine_def Let_def)
qed

lemma new_keeps:
  assumes "ids_ok s" "asleep s i"
  shows "asleep (snd (new_coroutine f s)) i \<and> sc_pool (snd (new_coroutine f s)) ! i = sc_pool s ! i"
  using assms last_id [of s]
  by (cases "sc_ids s = []") (auto simp: asleep_def new_coroutine_def Let_def nth_append)

lemma new_stack [simp]: "sc_stack (snd (new_coroutine f s)) = sc_stack s"
  by (simp add: new_coroutine_def Let_def)

lemma new_stacks_fit: "ids_ok s \<Longrightarrow> stacks_fit n s \<Longrightarrow> stacks_fit n (snd (new_coroutine f s))"
  using new_asleep [of s f] by (fastforce simp: stacks_fit_def)

lemma restore_length:
  assumes "restore_stack fresh entry i s = Some (c, st)" "length fresh = n" "stacks_fit n s"
  shows "length st = n"
  using assms by (auto simp: restore_stack_def stacks_fit_def Let_def split: option.splits if_splits)

text \<open>The two ways a resumption ends.\<close>

lemma resume_cases:
  assumes "resume fresh entry run i s = Some t"
  obtains c st c' st' where "restore_stack fresh entry i s = Some (c, st)" "run c st = Yielded c' st'"
      "sc_stack t = Some st'" "sc_ids t = sc_ids s"
      "sc_pool t = (sc_pool s)[i := (sc_pool s ! i)\<lparr>cr_ctx := Some c', cr_stack := Some (drop c' st')\<rparr>]"
    | c st st' where "restore_stack fresh entry i s = Some (c, st)" "run c st = Finished st'"
      "sc_stack t = Some st'" "sc_ids t = sc_ids s @ [i]" "sc_pool t = (sc_pool s)[i := (sc_pool s ! i)\<lparr>cr_ctx := Some c\<rparr>]"
  using assms
  by (auto simp: resume_def recycle_def save_stack_def Let_def split: option.splits stop.splits)

lemma resume_ids_ok:
  assumes "resume fresh entry run i s = Some t" "ids_ok s" "0 < i" "i < length (sc_pool s)" "i \<notin> set (sc_ids s)"
  shows "ids_ok t"
  using assms(1) by (rule resume_cases) (use assms(2-) in \<open>auto simp: ids_ok_def\<close>)

lemma run_in_boundsD:
  assumes "run_in_bounds n run" "length st = n"
  shows "run c st = Yielded c' st' \<Longrightarrow> c' \<le> n \<and> length st' = n" "run c st = Finished st' \<Longrightarrow> length st' = n"
  using assms unfolding run_in_bounds_def by (force dest!: spec [of _ c])+

lemma resume_others:
  assumes "resume fresh entry run i s = Some t" "j \<noteq> i"
  shows "sc_pool t ! j = sc_pool s ! j" "asleep t j = asleep s j"
  using assms(1) by (rule resume_cases; use assms(2) in \<open>simp add: asleep_def\<close>)+

text \<open>A resumed coroutine is asleep again, with the stack it left, or it is free.\<close>

lemma resume_self:
  assumes "resume fresh entry run i s = Some t" "stacks_fit n s" "length fresh = n" "run_in_bounds n run" "asleep t i"
  shows "\<exists>c d. cr_ctx (sc_pool t ! i) = Some c \<and> cr_stack (sc_pool t ! i) = Some d \<and> c + length d = n"
  using assms(1)
proof (cases rule: resume_cases)
  case (1 c st c' st')
  have "c' \<le> n \<and> length st' = n" by (rule run_in_boundsD(1) [OF assms(4) restore_length [OF 1(1) assms(3,2)] 1(2)])
  then show ?thesis using 1 assms(5) by (simp add: asleep_def)
next
  case (2 c st st')
  then show ?thesis using assms(5) by (simp add: asleep_def)
qed

lemma resume_length:
  assumes "resume fresh entry run i s = Some t" "stacks_fit n s" "length fresh = n" "run_in_bounds n run"
  shows "\<exists>st. sc_stack t = Some st \<and> length st = n"
  using assms(1)
proof (cases rule: resume_cases)
  case (1 c st c' st')
  then show ?thesis using run_in_boundsD(1) [OF assms(4) restore_length [OF 1(1) assms(3,2)] 1(2)] by simp
next
  case (2 c st st')
  then show ?thesis using run_in_boundsD(2) [OF assms(4) restore_length [OF 2(1) assms(3,2)] 2(2)] by simp
qed

lemma resume_stacks_fit:
  assumes "resume fresh entry run i s = Some t" "stacks_fit n s" "length fresh = n" "run_in_bounds n run"
  shows "stacks_fit n t"
  unfolding stacks_fit_def
proof (intro conjI allI impI)
  show "length st = n" if "sc_stack t = Some st" for st using resume_length [OF assms] that by simp
  show "\<exists>c d. cr_ctx (sc_pool t ! j) = Some c \<and> cr_stack (sc_pool t ! j) = Some d \<and> c + length d = n" if "asleep t j" for j
  proof (cases "j = i")
    case True
    then show ?thesis using resume_self [OF assms] that by simp
  next
    case False
    then show ?thesis using resume_others [OF assms(1) False] that assms(2) by (simp add: stacks_fit_def)
  qed
qed

lemma sched_inv_step:
  assumes "sched_inv n fresh s" "sched_step n fresh entry s t"
  shows "sched_inv n fresh t"
  using assms(2)
proof cases
  case (task f)
  then show ?thesis using assms(1) by (auto simp: sched_inv_def new_ids_ok new_stacks_fit)
next
  case (run i run)
  then show ?thesis using assms(1) by (auto simp: sched_inv_def resume_ids_ok resume_stacks_fit)
qed

interpretation schedule: step_system "sched_step n fresh entry" sched_start "sched_inv n fresh"
proof
  show "sched_inv n fresh sched_start"
    by (auto simp: sched_inv_def ids_ok_def stacks_fit_def asleep_def sched_start_def main_coroutine_def nth_Cons')
qed (rule sched_inv_step)

lemma new_number_in_use:
  assumes "ids_ok s"
  shows "fst (new_coroutine f s) \<notin> set (sc_ids (snd (new_coroutine f s))) \<and> 0 < fst (new_coroutine f s) \<and>
    fst (new_coroutine f s) < length (sc_pool (snd (new_coroutine f s))) \<and>
    cr_ctx (sc_pool (snd (new_coroutine f s)) ! fst (new_coroutine f s)) = None"
  using assms last_id [OF assms] by (cases "sc_ids s = []") (auto simp: new_coroutine_def ids_ok_def make_coroutine_def Let_def)

section \<open>What the coroutines may rely on\<close>

text \<open>The assertion of \<open>resume\<close>, that the copy fits above the context, never fails.\<close>

lemma stack_assert_holds:
  assumes "(sched_step n fresh entry)\<^sup>*\<^sup>* sched_start s" "length fresh = n"
    "i < length (sc_pool s)" "i \<notin> set (sc_ids s)"
  shows "\<exists>t. resume fresh entry run i s = Some t"
proof -
  have fit: "stacks_fit n s" using schedule.inv_reachable [OF assms(1)] assms(2) by (simp add: sched_inv_def)
  have "\<exists>c st. restore_stack fresh entry i s = Some (c, st)"
  proof (cases "cr_ctx (sc_pool s ! i)")
    case (Some c)
    then have "asleep s i" using assms by (simp add: asleep_def)
    then obtain d where "cr_stack (sc_pool s ! i) = Some d" "c + length d = n" using fit Some by (auto simp: stacks_fit_def)
    then show ?thesis using fit Some assms(2) by (auto simp: restore_stack_def stacks_fit_def split: option.split)
  qed (simp add: restore_stack_def)
  then show ?thesis by (auto simp: resume_def Let_def split: stop.split)
qed

text \<open>The life of a scheduler: tasks and resumptions in the order of the loop.\<close>

datatype ('f, 'b) sched_op = Task 'f | Resume "nat \<Rightarrow> 'b list \<Rightarrow> 'b stop" nat

fun run_ops :: "'b list \<Rightarrow> nat \<Rightarrow> ('f, 'b) sched_op list \<Rightarrow> ('f, 'b) co_sched \<Rightarrow> ('f, 'b) co_sched option" where
  "run_ops fresh entry [] s = Some s"
| "run_ops fresh entry (Task f # ops) s = run_ops fresh entry ops (snd (new_coroutine f s))"
| "run_ops fresh entry (Resume run j # ops) s =
     (case resume fresh entry run j s of None \<Rightarrow> None | Some t \<Rightarrow> run_ops fresh entry ops t)"

fun op_of_other :: "nat \<Rightarrow> nat \<Rightarrow> ('f, 'b) sched_op \<Rightarrow> bool" where
  "op_of_other n i (Task f) = True"
| "op_of_other n i (Resume run j) = (j \<noteq> i \<and> run_in_bounds n run)"

text \<open>A free number is never resumed: only a coroutine in use is in a queue, a timer or \<open>epoll\<close>.\<close>

fun ops_in_use :: "'b list \<Rightarrow> nat \<Rightarrow> ('f, 'b) sched_op list \<Rightarrow> ('f, 'b) co_sched \<Rightarrow> bool" where
  "ops_in_use fresh entry [] s = True"
| "ops_in_use fresh entry (Task f # ops) s = ops_in_use fresh entry ops (snd (new_coroutine f s))"
| "ops_in_use fresh entry (Resume run j # ops) s =
     (0 < j \<and> j < length (sc_pool s) \<and> j \<notin> set (sc_ids s) \<and>
      (case resume fresh entry run j s of None \<Rightarrow> True | Some t \<Rightarrow> ops_in_use fresh entry ops t))"

lemma others_keep:
  assumes "run_ops fresh entry ops s = Some u" "ops_in_use fresh entry ops s" "list_all (op_of_other n i) ops"
    "asleep s i" "ids_ok s" "stacks_fit n s" "length fresh = n"
  shows "asleep u i \<and> sc_pool u ! i = sc_pool s ! i \<and> stacks_fit n u"
  using assms
proof (induction fresh entry ops s rule: run_ops.induct)
  case (2 fresh entry f ops s)
  then show ?case using new_keeps [of s i f] by (simp add: new_ids_ok new_stacks_fit)
next
  case (3 fresh entry run j ops s)
  then obtain t where t: "resume fresh entry run j s = Some t" by (auto split: option.splits)
  have "i \<noteq> j" using 3 by auto
  moreover have "ids_ok t" using resume_ids_ok [OF t] 3 by simp
  moreover have "stacks_fit n t" using resume_stacks_fit [OF t] 3 by simp
  ultimately show ?case using 3 t resume_others [OF t] by simp
qed simp

lemma yields_asleep:
  assumes "resume fresh entry run i s = Some t" "restore_stack fresh entry i s = Some (c, st)" "run c st = Yielded c' st'"
    "i < length (sc_pool s)" "i \<notin> set (sc_ids s)"
  shows "asleep t i \<and> cr_ctx (sc_pool t ! i) = Some c' \<and> cr_stack (sc_pool t ! i) = Some (drop c' st')"
  using assms(1) by (rule resume_cases) (use assms(2-) in \<open>auto simp: asleep_def\<close>)

text \<open>C5. A coroutine that yields is resumed on the stack it left, byte for byte from its context up,
  whatever tasks are started and whatever other coroutines run on the shared stack in between.\<close>

theorem coroutine_resumes_on_its_stack:
  assumes "(sched_step n fresh entry)\<^sup>*\<^sup>* sched_start s" "length fresh = n"
    and "0 < i" "i < length (sc_pool s)" "i \<notin> set (sc_ids s)" "run_in_bounds n run"
    and "restore_stack fresh entry i s = Some (c, st)" "run c st = Yielded c' st'" "resume fresh entry run i s = Some t"
    and "run_ops fresh entry ops t = Some u" "ops_in_use fresh entry ops t" "list_all (op_of_other n i) ops"
  shows "\<exists>st1. restore_stack fresh entry i u = Some (c', st1) \<and> drop c' st1 = drop c' st'"
proof -
  have inv: "sched_inv n fresh s" by (rule schedule.inv_reachable [OF assms(1)])
  then have t: "ids_ok t" "stacks_fit n t"
    using resume_ids_ok [OF assms(9) _ assms(3-5)] resume_stacks_fit [OF assms(9) _ assms(2,6)] assms(2)
    by (simp_all add: sched_inv_def)
  note y = yields_asleep [OF assms(9,7,8,4,5)]
  have u: "sc_pool u ! i = sc_pool t ! i" "stacks_fit n u" "asleep u i"
    using others_keep [OF assms(10,11,12) _ t assms(2)] y by auto
  then have d: "c' + length (drop c' st') = n" using y unfolding stacks_fit_def by force
  have "length (case sc_stack u of None \<Rightarrow> fresh | Some st \<Rightarrow> st) = n"
    using u(2) assms(2) by (auto simp: stacks_fit_def split: option.split)
  then show ?thesis using u(1) y d by (simp add: restore_stack_def Let_def)
qed

definition demo_yield :: "nat \<Rightarrow> nat list \<Rightarrow> nat stop" where
  "demo_yield c st = Yielded 2 [0, 0, 7, 8]"

definition demo_overwrite :: "nat \<Rightarrow> nat list \<Rightarrow> nat stop" where
  "demo_overwrite c st = Yielded 1 [9, 9, 9, 9]"

definition demo_sched :: "(nat, nat) co_sched" where
  "demo_sched = snd (new_coroutine 5 (snd (new_coroutine 6 sched_start)))"

lemmas demo_simps = demo_sched_def demo_yield_def demo_overwrite_def new_coroutine_def sched_start_def
  main_coroutine_def make_coroutine_def restore_stack_def resume_def save_stack_def run_in_bounds_def

lemma demo_reachable: "(sched_step n fresh entry)\<^sup>*\<^sup>* sched_start demo_sched"
  unfolding demo_sched_def by (rule rtranclp.rtrancl_into_rtrancl, rule rtranclp.rtrancl_into_rtrancl, rule rtranclp.rtrancl_refl)
    (rule sched_step.task)+

theorem coroutine_resumes_on_its_stack_witness:
  "\<exists>t u st1. resume [0, 0, 0, 0] 3 demo_yield 1 demo_sched = Some t \<and>
     run_ops [0, 0, 0, 0] 3 [Task 4, Resume demo_overwrite 2] t = Some u \<and>
     restore_stack [0, 0, 0, 0] 3 1 u = Some (2, st1) \<and> drop 2 st1 = [7, 8]"
proof -
  let ?f = "[0, 0, 0, 0] :: nat list"
  obtain t where t: "resume ?f 3 demo_yield 1 demo_sched = Some t" by (simp add: demo_simps)
  then have ops: "\<exists>u. run_ops ?f 3 [Task 4, Resume demo_overwrite 2] t = Some u"
      "ops_in_use ?f 3 [Task 4, Resume demo_overwrite 2] t"
    by (auto simp: demo_simps)
  then obtain u where u: "run_ops ?f 3 [Task 4, Resume demo_overwrite 2] t = Some u" by blast
  have "\<exists>st1. restore_stack ?f 3 1 u = Some (2, st1) \<and> drop 2 st1 = drop 2 [0, 0, 7, 8]"
    by (rule coroutine_resumes_on_its_stack [where n = 4, OF demo_reachable _ _ _ _ _ _ _ t u ops(2)])
      (simp_all add: demo_simps)
  then show ?thesis using t u by auto
qed

section \<open>Choice of a scheduler\<close>

text \<open>The mask is a number of schedulers that is a power of two, less one; with \<open>&&\<close> for \<open>&\<close> it is so for one only.\<close>

definition mgr_mask :: "u32 \<Rightarrow> u32" where
  "mgr_mask n = (if n \<noteq> 0 \<and> n - 1 \<noteq> 0 then - 1 else n - 1)"

definition next_scheduler :: "u32 \<Rightarrow> u32 \<Rightarrow> u32 \<Rightarrow> u32 \<times> u32" where
  "next_scheduler n msk index =
     (let index = index + 1 in (if msk \<noteq> - 1 then index AND msk else index mod n, index))"

lemma scheduler_in_range: "n > 0 \<Longrightarrow> fst (next_scheduler n (mgr_mask n) index) < n"
proof (cases "n = 1")
  case False
  assume n: "n > 0"
  with False have "mgr_mask n = - 1" by (auto simp: mgr_mask_def)
  then show ?thesis using n by (simp add: next_scheduler_def Let_def word_mod_less_divisor)
qed (simp add: mgr_mask_def next_scheduler_def Let_def)

section \<open>Pools of a scheduler\<close>

type_synonym 'a pools = "'a list list"

definition pool_pop :: "nat \<Rightarrow> 'a pools \<Rightarrow> 'a option \<times> 'a pools" where
  "pool_pop sched ps =
     (if ps ! sched \<noteq> [] then (Some (last (ps ! sched)), ps[sched := butlast (ps ! sched)]) else (None, ps))"

text \<open>A null pointer is not kept.\<close>

definition pool_push :: "nat \<Rightarrow> 'a option \<Rightarrow> 'a pools \<Rightarrow> 'a pools" where
  "pool_push sched x ps = (case x of None \<Rightarrow> ps | Some x \<Rightarrow> ps[sched := ps ! sched @ [x]])"

definition pool_clear :: "nat \<Rightarrow> 'a pools \<Rightarrow> 'a list \<times> 'a pools" where
  "pool_clear sched ps = (ps ! sched, ps[sched := []])"

lemma pool_push_pop: "sched < length ps \<Longrightarrow> pool_pop sched (pool_push sched (Some x) ps) = (Some x, ps)"
  by (simp add: pool_pop_def pool_push_def)

lemma pool_others: "d \<noteq> sched \<Longrightarrow> pool_push sched x ps ! d = ps ! d \<and> snd (pool_pop sched ps) ! d = ps ! d"
  by (simp add: pool_push_def pool_pop_def split: option.split)

end
