(* ===== verification/CoIo.thy ===== *)
theory CoIo
  imports CoTimers CoEpoll
begin

text \<open>
  Blocking calls of a coroutine (\<open>co/base/co/impl/co_unix.cc\<close>) and the two objects they wait with,
  \<open>EvRead\<close> and \<open>EvWrite\<close> (\<open>scheduler.h\<close>), over the timers and the registrations of its scheduler.
  What the bytes are is left to \<open>CoSocket\<close>; here a call is what it does to the scheduler and
  the number it returns. Each system call takes the next turn of a list: what the kernel
  answers, the clock, the pending error of the socket, and, when the coroutine then yields, what the others do meanwhile and
  whether it was woken by an event or by its time limit.
\<close>

section \<open>Turns and results\<close>

datatype sys_error = E_Again | E_Intr | E_In_Progress | E_Timed_Out | E_Other int

datatype io_value = Value int | Failure sys_error

record io_world =
  iw_timers :: timers
  iw_epoll :: epoll

record turn =
  tn_answer :: "sys_error + int"
  tn_now :: int
  tn_so_error :: "sys_error + int"
  tn_woke :: bool
  tn_others :: "io_world \<Rightarrow> io_world"

text \<open>A call that still waits when the turns are used up has no result.\<close>

datatype 'a io_out = Never | Broken fault | Done 'a "turn list" io_world

fun then_io :: "'a io_out \<Rightarrow> ('a \<Rightarrow> io_world \<Rightarrow> ('b \<times> io_world) outcome) \<Rightarrow> 'b io_out" where
  "then_io (Done a ts w) f = (case f a w of Inl e \<Rightarrow> Broken e | Inr (b, w') \<Rightarrow> Done b ts w')"
| "then_io Never f = Never"
| "then_io (Broken e) f = Broken e"

text \<open>The coroutine that runs, the kernel behind \<open>epoll_ctl\<close>, and the descriptor of the call.\<close>

record io_env =
  ie_co :: nat
  ie_ctl :: "ctl_log \<Rightarrow> ctl \<Rightarrow> bool"
  ie_fd :: int

section \<open>The scheduler's calls\<close>

definition sched_add_read :: "io_env \<Rightarrow> io_world \<Rightarrow> io_world" where
  "sched_add_read v w = w\<lparr>iw_epoll := snd (add_ev_read (ie_ctl v) (ie_fd v) (of_nat (ie_co v)) (iw_epoll w))\<rparr>"

definition sched_add_write :: "io_env \<Rightarrow> io_world \<Rightarrow> io_world" where
  "sched_add_write v w = w\<lparr>iw_epoll := snd (add_ev_write (ie_ctl v) (ie_fd v) (of_nat (ie_co v)) (iw_epoll w))\<rparr>"

definition sched_del_read :: "io_env \<Rightarrow> io_world \<Rightarrow> io_world" where
  "sched_del_read v w = w\<lparr>iw_epoll := del_ev_read (ie_ctl v) (ie_fd v) (iw_epoll w)\<rparr>"

definition sched_del_write :: "io_env \<Rightarrow> io_world \<Rightarrow> io_world" where
  "sched_del_write v w = w\<lparr>iw_epoll := del_ev_write (ie_ctl v) (ie_fd v) (iw_epoll w)\<rparr>"

definition sched_del_event :: "io_env \<Rightarrow> io_world \<Rightarrow> io_world" where
  "sched_del_event v w = w\<lparr>iw_epoll := del_event (ie_ctl v) (ie_fd v) (iw_epoll w)\<rparr>"

text \<open>\<open>add_timer\<close>, or \<open>add_ev_timer\<close> when the caller of a wait gives an error of its own.\<close>

definition sched_timer :: "io_env \<Rightarrow> bool \<Rightarrow> u32 \<Rightarrow> int \<Rightarrow> io_world \<Rightarrow> (nat \<times> io_world) outcome" where
  "sched_timer v own_error ms now w =
     (if own_error then (case add_ev_timer now ms (ie_co v) (iw_timers w) of (i, t) \<Rightarrow> Inr (i, w\<lparr>iw_timers := t\<rparr>))
      else bindR (add_timer now ms (ie_co v) (iw_timers w)) (\<lambda>(i, t). Inr (i, w\<lparr>iw_timers := t\<rparr>)))"

definition sched_del_timer :: "nat \<Rightarrow> io_world \<Rightarrow> io_world outcome" where
  "sched_del_timer i w = bindR (del_timer i (iw_timers w)) (\<lambda>t. Inr (w\<lparr>iw_timers := t\<rparr>))"

section \<open>EvRead and EvWrite\<close>

text \<open>An \<open>EvRead\<close> is its timer, an \<open>EvWrite\<close> also whether it registered the socket.\<close>

type_synonym ev_read = "nat option"

type_synonym ev_write = "bool \<times> nat option"

type_synonym 'e waiter = "turn \<Rightarrow> 'e \<Rightarrow> io_world \<Rightarrow> (bool \<times> 'e \<times> io_world) outcome"

definition read_wait :: "io_env \<Rightarrow> unit waiter" where
  "read_wait v tn e w = Inr (True, (), tn_others tn (sched_add_read v w))"

definition read_wait_ms :: "io_env \<Rightarrow> u32 \<Rightarrow> ev_read waiter" where
  "read_wait_ms v ms tn e w =
     bindR (case e of
              None \<Rightarrow> bindR (sched_timer v False ms (tn_now tn) (sched_add_read v w)) (\<lambda>(i, w). Inr (Some i, w))
            | Some i \<Rightarrow> Inr (Some i, w)) (\<lambda>(e, w).
       let w = tn_others tn w in
       if tn_woke tn then Inr (True, e, w) else Inr (False, None, sched_del_read v w))"

definition read_end :: "ev_read \<Rightarrow> io_world \<Rightarrow> io_world outcome" where
  "read_end e w = (case e of None \<Rightarrow> Inr w | Some i \<Rightarrow> sched_del_timer i w)"

definition write_wait :: "io_env \<Rightarrow> ev_write waiter" where
  "write_wait v tn e w =
     (let (e, w) = (if fst e then (e, w) else ((True, snd e), sched_add_write v w)) in Inr (True, e, tn_others tn w))"

definition write_wait_ms :: "io_env \<Rightarrow> bool \<Rightarrow> u32 \<Rightarrow> ev_write waiter" where
  "write_wait_ms v own_error ms tn e w =
     bindR (if fst e then Inr (e, w)
            else bindR (sched_timer v own_error ms (tn_now tn) (sched_add_write v w)) (\<lambda>(i, w). Inr ((True, Some i), w))) (\<lambda>(e, w).
       let w = tn_others tn w in
       if tn_woke tn then Inr (True, e, w) else Inr (False, (fst e, None), w))"

definition write_end :: "io_env \<Rightarrow> ev_write \<Rightarrow> io_world \<Rightarrow> io_world outcome" where
  "write_end v e w =
     (let w = (if fst e then sched_del_write v w else w) in
      case snd e of None \<Rightarrow> Inr w | Some i \<Rightarrow> sched_del_timer i w)"

section \<open>The loops\<close>

text \<open>
  The loop of most calls: an answer ends it, an interrupted call is repeated, and one that
  would block waits first. The second part of the result is the state of the waiting object.
\<close>

fun retry :: "'e waiter \<Rightarrow> turn list \<Rightarrow> 'e \<Rightarrow> io_world \<Rightarrow> (io_value \<times> 'e) io_out" where
  "retry wait [] e w = Never"
| "retry wait (tn # ts) e w =
     (case tn_answer tn of
        Inr r \<Rightarrow> Done (Value r, e) ts w
      | Inl E_Again \<Rightarrow>
          (case wait tn e w of
             Inl f \<Rightarrow> Broken f
           | Inr (True, e, w) \<Rightarrow> retry wait ts e w
           | Inr (False, e, w) \<Rightarrow> Done (Failure E_Timed_Out, e) ts w)
      | Inl E_Intr \<Rightarrow> retry wait ts e w
      | Inl x \<Rightarrow> Done (Failure x, e) ts w)"

text \<open>The loop that goes on until \<open>n\<close> bytes are through; a reader stops at the end of the stream.\<close>

fun fill :: "bool \<Rightarrow> 'e waiter \<Rightarrow> int \<Rightarrow> int \<Rightarrow> turn list \<Rightarrow> 'e \<Rightarrow> io_world \<Rightarrow> (io_value \<times> 'e) io_out" where
  "fill reader wait n remain [] e w = Never"
| "fill reader wait n remain (tn # ts) e w =
     (case tn_answer tn of
        Inr r \<Rightarrow>
          if r = remain then Done (Value n, e) ts w
          else if reader \<and> r = 0 then Done (Value 0, e) ts w
          else fill reader wait n (remain - r) ts e w
      | Inl E_Again \<Rightarrow>
          (case wait tn e w of
             Inl f \<Rightarrow> Broken f
           | Inr (True, e, w) \<Rightarrow> fill reader wait n remain ts e w
           | Inr (False, e, w) \<Rightarrow> Done (Failure E_Timed_Out, e) ts w)
      | Inl E_Intr \<Rightarrow> fill reader wait n remain ts e w
      | Inl x \<Rightarrow> Done (Failure x, e) ts w)"

text \<open>The destructors, at every return.\<close>

definition ending :: "('e \<Rightarrow> io_world \<Rightarrow> io_world outcome) \<Rightarrow> (io_value \<times> 'e) io_out \<Rightarrow> io_value io_out" where
  "ending close r = then_io r (\<lambda>(x, e) w. bindR (close e w) (\<lambda>w. Inr (x, w)))"

section \<open>The calls\<close>

definition io_accept :: "io_env \<Rightarrow> turn list \<Rightarrow> io_world \<Rightarrow> io_value io_out" where
  "io_accept v ts w = ending (\<lambda>e. Inr) (retry (read_wait v) ts () w)"

definition io_recv :: "io_env \<Rightarrow> turn list \<Rightarrow> io_world \<Rightarrow> io_value io_out" where
  "io_recv v ts w = ending (\<lambda>e. Inr) (retry (read_wait v) ts () w)"

definition io_recv_ms :: "io_env \<Rightarrow> u32 \<Rightarrow> turn list \<Rightarrow> io_world \<Rightarrow> io_value io_out" where
  "io_recv_ms v ms ts w = ending read_end (retry (read_wait_ms v ms) ts None w)"

definition io_recvfrom :: "io_env \<Rightarrow> turn list \<Rightarrow> io_world \<Rightarrow> io_value io_out" where
  "io_recvfrom v ts w = ending (\<lambda>e. Inr) (retry (read_wait v) ts () w)"

definition io_recvfrom_ms :: "io_env \<Rightarrow> u32 \<Rightarrow> turn list \<Rightarrow> io_world \<Rightarrow> io_value io_out" where
  "io_recvfrom_ms v ms ts w = ending read_end (retry (read_wait_ms v ms) ts None w)"

definition io_recvn :: "io_env \<Rightarrow> int \<Rightarrow> turn list \<Rightarrow> io_world \<Rightarrow> io_value io_out" where
  "io_recvn v n ts w = ending (\<lambda>e. Inr) (fill True (read_wait v) n n ts () w)"

definition io_recvn_part :: "io_env \<Rightarrow> u32 \<Rightarrow> int \<Rightarrow> turn list \<Rightarrow> io_world \<Rightarrow> io_value io_out" where
  "io_recvn_part v ms n ts w = ending read_end (fill True (read_wait_ms v ms) n n ts None w)"

definition io_send :: "io_env \<Rightarrow> int \<Rightarrow> turn list \<Rightarrow> io_world \<Rightarrow> io_value io_out" where
  "io_send v n ts w = ending (write_end v) (fill False (write_wait v) n n ts (False, None) w)"

definition io_send_part :: "io_env \<Rightarrow> u32 \<Rightarrow> int \<Rightarrow> turn list \<Rightarrow> io_world \<Rightarrow> io_value io_out" where
  "io_send_part v ms n ts w = ending (write_end v) (fill False (write_wait_ms v False ms) n n ts (False, None) w)"

definition io_sendto :: "io_env \<Rightarrow> turn list \<Rightarrow> io_world \<Rightarrow> io_value io_out" where
  "io_sendto v ts w =
     ending (\<lambda>e. Inr) (retry (\<lambda>tn e w. Inr (True, (), sched_del_write v (tn_others tn (sched_add_write v w)))) ts () w)"

definition io_sendto_ms :: "io_env \<Rightarrow> u32 \<Rightarrow> turn list \<Rightarrow> io_world \<Rightarrow> io_value io_out" where
  "io_sendto_ms v ms ts w = ending (write_end v) (retry (write_wait_ms v False ms) ts (False, None) w)"

text \<open>Long buffers go in parts of at most \<open>m\<close> bytes; each call takes a turn, so the loop ends.\<close>

definition io_part :: "io_env \<Rightarrow> bool \<Rightarrow> u32 \<Rightarrow> int \<Rightarrow> turn list \<Rightarrow> io_world \<Rightarrow> io_value io_out" where
  "io_part v reader ms n ts w = (if reader then io_recvn_part v ms n ts w else io_send_part v ms n ts w)"

lemma then_io_turns: "then_io r f = Done b ts w \<Longrightarrow> \<exists>a w'. r = Done a ts w' \<and> f a w' = Inr (b, w)"
  by (cases r) (auto split: sum.splits prod.splits)

lemma fill_turns: "fill reader wait n remain ts e w = Done x ts' w' \<Longrightarrow> length ts' < length ts"
  by (induction reader wait n remain ts e w rule: fill.induct)
    (force split: sum.splits if_splits sys_error.splits prod.splits bool.splits)+

lemma io_part_turns: "io_part v reader ms n ts w = Done x ts' w' \<Longrightarrow> length ts' < length ts"
  by (auto simp: io_part_def io_recvn_part_def io_send_part_def ending_def dest!: then_io_turns fill_turns split: if_splits)

function io_chunks :: "io_env \<Rightarrow> bool \<Rightarrow> u32 \<Rightarrow> int \<Rightarrow> int \<Rightarrow> int \<Rightarrow> turn list \<Rightarrow> io_world \<Rightarrow> io_value io_out" where
  "io_chunks v reader ms m n remain ts w =
     (if remain > m then
        (case io_part v reader ms m ts w of
           Done r ts' w' \<Rightarrow> if r \<noteq> Value m then Done r ts' w' else io_chunks v reader ms m n (remain - m) ts' w'
         | Never \<Rightarrow> Never
         | Broken e \<Rightarrow> Broken e)
      else
        (case io_part v reader ms remain ts w of
           Done r ts' w' \<Rightarrow> Done (if r \<noteq> Value remain then r else Value n) ts' w'
         | Never \<Rightarrow> Never
         | Broken e \<Rightarrow> Broken e))"
  by pat_completeness auto

termination io_chunks
  by (relation "measure (\<lambda>(v, reader, ms, m, n, remain, ts, w). length ts)") (auto dest: io_part_turns)

declare io_chunks.simps [simp del]

definition io_recvn_ms :: "io_env \<Rightarrow> u32 \<Rightarrow> int \<Rightarrow> int \<Rightarrow> turn list \<Rightarrow> io_world \<Rightarrow> io_value io_out" where
  "io_recvn_ms v ms m n ts w = io_chunks v True ms m n n ts w"

definition io_send_ms :: "io_env \<Rightarrow> u32 \<Rightarrow> int \<Rightarrow> int \<Rightarrow> turn list \<Rightarrow> io_world \<Rightarrow> io_value io_out" where
  "io_send_ms v ms m n ts w = io_chunks v False ms m n n ts w"

text \<open>\<open>connect\<close> asks the socket for its error when the coroutine runs again.\<close>

definition socket_error :: "turn \<Rightarrow> io_value" where
  "socket_error tn =
     (case tn_so_error tn of
        Inl e \<Rightarrow> Failure e
      | Inr err \<Rightarrow> if err = 0 then Value 0 else Failure (E_Other err))"

fun io_connect :: "io_env \<Rightarrow> turn list \<Rightarrow> io_world \<Rightarrow> io_value io_out" where
  "io_connect v [] w = Never"
| "io_connect v (tn # ts) w =
     (case tn_answer tn of
        Inr r \<Rightarrow> Done (Value 0) ts w
      | Inl E_In_Progress \<Rightarrow> Done (socket_error tn) ts (sched_del_event v (tn_others tn (sched_add_write v w)))
      | Inl E_Intr \<Rightarrow> io_connect v ts w
      | Inl x \<Rightarrow> Done (Failure x) ts w)"

fun io_connect_ms :: "io_env \<Rightarrow> u32 \<Rightarrow> turn list \<Rightarrow> io_world \<Rightarrow> io_value io_out" where
  "io_connect_ms v ms [] w = Never"
| "io_connect_ms v ms (tn # ts) w =
     (case tn_answer tn of
        Inr r \<Rightarrow> Done (Value 0) ts w
      | Inl E_In_Progress \<Rightarrow>
          ending (write_end v)
            (case write_wait_ms v True ms tn (False, None) w of
               Inl f \<Rightarrow> Broken f
             | Inr (woke, e, w) \<Rightarrow> Done (if woke then socket_error tn else Failure E_Timed_Out, e) ts w)
      | Inl E_Intr \<Rightarrow> io_connect_ms v ms ts w
      | Inl x \<Rightarrow> Done (Failure x) ts w)"

fun close_loop :: "turn list \<Rightarrow> io_world \<Rightarrow> io_value io_out" where
  "close_loop [] w = Never"
| "close_loop (tn # ts) w =
     (case tn_answer tn of
        Inr r \<Rightarrow> Done (Value r) ts w
      | Inl E_Intr \<Rightarrow> close_loop ts w
      | Inl x \<Rightarrow> Done (Failure x) ts w)"

definition io_close :: "io_env \<Rightarrow> turn list \<Rightarrow> io_world \<Rightarrow> io_value io_out" where
  "io_close v ts w = close_loop ts (sched_del_event v w)"

text \<open>The first turn is that of \<open>sleep\<close>.\<close>

definition io_close_ms :: "io_env \<Rightarrow> u32 \<Rightarrow> turn list \<Rightarrow> io_world \<Rightarrow> io_value io_out" where
  "io_close_ms v ms ts w =
     (case ts of
        [] \<Rightarrow> Never
      | tn # ts \<Rightarrow>
          (case sched_timer v True ms (tn_now tn) (sched_del_event v w) of
             Inl e \<Rightarrow> Broken e
           | Inr (i, w) \<Rightarrow> close_loop ts (tn_others tn w)))"

text \<open>\<open>shutdown\<close> is one system call.\<close>

definition io_shutdown :: "io_env \<Rightarrow> char \<Rightarrow> turn list \<Rightarrow> io_world \<Rightarrow> io_value io_out" where
  "io_shutdown v c ts w =
     (let w = (if c = CHR ''r'' then sched_del_read v w else if c = CHR ''w'' then sched_del_write v w
               else sched_del_event v w)
      in case ts of
           [] \<Rightarrow> Never
         | tn # ts \<Rightarrow> Done (case tn_answer tn of Inl x \<Rightarrow> Failure x | Inr r \<Rightarrow> Value r) ts w)"

datatype io_req =
    Accept | Recv | Recv_Ms u32 | Recvn int | Recvn_Ms u32 int | Recvfrom | Recvfrom_Ms u32
  | Send_All int | Send_Ms u32 int | Sendto | Sendto_Ms u32 | Connect | Connect_Ms u32
  | Close | Close_Ms u32 | Shutdown char

text \<open>The calls of the file; \<open>m\<close> is the largest part, the flags \<open>tcp_max_recv_size\<close> and \<open>tcp_max_send_size\<close>.\<close>

definition io_call :: "io_env \<Rightarrow> int \<Rightarrow> io_req \<Rightarrow> turn list \<Rightarrow> io_world \<Rightarrow> io_value io_out" where
  "io_call v m req ts w =
     (case req of
        Accept \<Rightarrow> io_accept v ts w
      | Recv \<Rightarrow> io_recv v ts w
      | Recv_Ms ms \<Rightarrow> io_recv_ms v ms ts w
      | Recvn n \<Rightarrow> io_recvn v n ts w
      | Recvn_Ms ms n \<Rightarrow> io_recvn_ms v ms m n ts w
      | Recvfrom \<Rightarrow> io_recvfrom v ts w
      | Recvfrom_Ms ms \<Rightarrow> io_recvfrom_ms v ms ts w
      | Send_All n \<Rightarrow> io_send v n ts w
      | Send_Ms ms n \<Rightarrow> io_send_ms v ms m n ts w
      | Sendto \<Rightarrow> io_sendto v ts w
      | Sendto_Ms ms \<Rightarrow> io_sendto_ms v ms ts w
      | Connect \<Rightarrow> io_connect v ts w
      | Connect_Ms ms \<Rightarrow> io_connect_ms v ms ts w
      | Close \<Rightarrow> io_close v ts w
      | Close_Ms ms \<Rightarrow> io_close_ms v ms ts w
      | Shutdown c \<Rightarrow> io_shutdown v c ts w)"

section \<open>What a call does to the timers\<close>

definition timers_of :: "nat \<Rightarrow> io_world \<Rightarrow> timer set" where
  "timers_of co w = {t \<in> set (tw_list (iw_timers w)). tm_co t = co}"


text \<open>The coroutine has just the timer of the waiting object; \<open>T\<close> are the timers of \<open>d\<close>.\<close>

definition owns_timer :: "nat \<Rightarrow> nat \<Rightarrow> timer set \<Rightarrow> nat option \<Rightarrow> io_world \<Rightarrow> bool" where
  "owns_timer co d T own w \<longleftrightarrow> tw_inv (iw_timers w) \<and> tm_id ` timers_of co w = set_option own \<and> (d \<noteq> co \<longrightarrow> timers_of d w = T)"

lemma epoll_timers [simp]:
  "iw_timers (sched_add_read v w) = iw_timers w" "iw_timers (sched_add_write v w) = iw_timers w"
  "iw_timers (sched_del_read v w) = iw_timers w" "iw_timers (sched_del_write v w) = iw_timers w"
  "iw_timers (sched_del_event v w) = iw_timers w"
  by (simp_all add: sched_add_read_def sched_add_write_def sched_del_read_def sched_del_write_def sched_del_event_def)

lemma epoll_owns [simp]:
  "owns_timer co d T own (sched_add_read v w) = owns_timer co d T own w" "owns_timer co d T own (sched_add_write v w) = owns_timer co d T own w"
  "owns_timer co d T own (sched_del_read v w) = owns_timer co d T own w" "owns_timer co d T own (sched_del_write v w) = owns_timer co d T own w"
  "owns_timer co d T own (sched_del_event v w) = owns_timer co d T own w"
  by (simp_all add: owns_timer_def timers_of_def)






section \<open>The interface of a waiting object\<close>


section \<open>The waiting objects\<close>












section \<open>Every call takes its timer back\<close>






























section \<open>Calls return\<close>

text \<open>An answer that is an error of its own, the loss of the connection for one, ends every loop.\<close>

definition fatal :: "turn list \<Rightarrow> bool" where
  "fatal ts \<longleftrightarrow> (\<exists>tn \<in> set ts. \<exists>e. tn_answer tn = Inl (E_Other e))"

lemma fatal_simps [simp]: "\<not> fatal []" "fatal (tn # ts) \<longleftrightarrow> (\<exists>e. tn_answer tn = Inl (E_Other e)) \<or> fatal ts"
  by (auto simp: fatal_def)

lemma retry_returns: "fatal ts \<Longrightarrow> retry wait ts e w \<noteq> Never"
proof (induction ts arbitrary: e w)
  case (Cons tn ts)
  show ?case
  proof (cases "tn_answer tn")
    case (Inl x)
    then show ?thesis
    proof (cases "x = E_Again")
      case True
      then show ?thesis using Inl Cons
        by (cases "wait tn e w") (auto split: bool.splits)
    next
      case False
      then show ?thesis using Inl Cons by (cases x) auto
    qed
  qed simp
qed simp

text \<open>When a loop ended well, the error is still to come.\<close>

definition ends_or_fatal :: "(io_value \<times> 'e) io_out \<Rightarrow> bool" where
  "ends_or_fatal r \<longleftrightarrow>
     (case r of Never \<Rightarrow> False | Broken f \<Rightarrow> True | Done (Value k, e) ts w \<Rightarrow> fatal ts | Done (Failure x, e) ts w \<Rightarrow> True)"

lemma fill_returns: "fatal ts \<Longrightarrow> ends_or_fatal (fill reader wait n remain ts e w)"
proof (induction ts arbitrary: remain e w)
  case (Cons tn ts)
  show ?case
  proof (cases "tn_answer tn")
    case (Inl x)
    then show ?thesis
    proof (cases "x = E_Again")
      case True
      then show ?thesis using Inl Cons
        by (cases "wait tn e w") (auto simp: ends_or_fatal_def split: bool.splits)
    next
      case False
      then show ?thesis using Inl Cons by (cases x) (auto simp: ends_or_fatal_def)
    qed
  next
    case (Inr r)
    then show ?thesis using Cons by (simp add: ends_or_fatal_def)
  qed
qed simp

lemma ending_never [simp]: "ending close r = Never \<longleftrightarrow> r = Never"
  by (cases r) (auto simp: ending_def split: sum.split prod.split)

lemma ending_value:
  assumes "ends_or_fatal r"
  shows "ending close r \<noteq> Never" "ending close r = Done (Value k) ts w \<Longrightarrow> fatal ts"
proof -
  show "ending close r \<noteq> Never" using assms by (auto simp: ends_or_fatal_def)
  assume "ending close r = Done (Value k) ts w"
  then obtain e u where "r = Done (Value k, e) ts u"
    unfolding ending_def by (auto simp: bindR_eq_Inr dest!: then_io_turns)
  then show "fatal ts" using assms by (simp add: ends_or_fatal_def)
qed

lemma part_returns:
  assumes "fatal ts"
  shows "io_part v reader ms n ts w \<noteq> Never" "io_part v reader ms n ts w = Done (Value k) ts' w' \<Longrightarrow> fatal ts'"
proof -
  note d = io_part_def io_recvn_part_def io_send_part_def
  show "io_part v reader ms n ts w \<noteq> Never"
    by (cases reader) (simp_all add: d ending_value(1) [OF fill_returns [OF assms], unfolded ending_never])
  assume "io_part v reader ms n ts w = Done (Value k) ts' w'"
  then show "fatal ts'"
    by (cases reader) (simp_all add: d ending_value(2) [OF fill_returns [OF assms]])
qed

lemma chunks_return: "fatal ts \<Longrightarrow> io_chunks v reader ms m n remain ts w \<noteq> Never"
proof (induction v reader ms m n remain ts w rule: io_chunks.induct)
  case (1 v reader ms m n remain ts w)
  note p = part_returns [OF 1(2), of v reader ms] and e = io_chunks.simps [of v reader ms m n remain ts w]
  show ?case
  proof (cases "remain > m")
    case True
    show ?thesis
    proof (cases "io_part v reader ms m ts w")
      case (Done r ts' w')
      then show ?thesis unfolding e using 1(1) [OF True Done] p(2) [of m w] True by (cases "r = Value m") simp_all
    qed (unfold e, use True p in simp_all)
  next
    case False
    then show ?thesis unfolding e using p(1) [of remain w] by (cases "io_part v reader ms remain ts w") simp_all
  qed
qed

lemma connect_returns: "fatal ts \<Longrightarrow> io_connect v ts w \<noteq> Never"
  by (induction v ts w rule: io_connect.induct) (auto split: sum.split sys_error.split)

lemma connect_ms_returns: "fatal ts \<Longrightarrow> io_connect_ms v ms ts w \<noteq> Never"
  by (induction v ms ts w rule: io_connect_ms.induct) (auto split: sum.split sys_error.split)

lemma close_returns: "fatal ts \<Longrightarrow> close_loop ts w \<noteq> Never"
  by (induction ts w rule: close_loop.induct) (auto split: sum.split sys_error.split)

lemma failing_call_returns: "fatal (tl ts) \<Longrightarrow> io_call v m req ts w \<noteq> Never"
proof -
  assume t: "fatal (tl ts)"
  then have f: "fatal ts" by (cases ts) simp_all
  have cm: "io_close_ms v ms ts w \<noteq> Never" for ms
    using close_returns [OF t] by (cases ts) (use f in \<open>auto simp: io_close_ms_def split: sum.split\<close>)
  have sd: "io_shutdown v c ts w \<noteq> Never" for c
    using f by (cases ts) (simp_all add: io_shutdown_def)
  show ?thesis
    by (cases req)
      (simp_all add: io_call_def io_accept_def io_recv_def io_recv_ms_def io_recvfrom_def io_recvfrom_ms_def io_recvn_def
        io_recvn_ms_def io_send_def io_send_ms_def io_sendto_def io_sendto_ms_def io_close_def cm sd retry_returns [OF f]
        ending_value(1) [OF fill_returns [OF f], unfolded ending_never] chunks_return [OF f] connect_returns [OF f]
        connect_ms_returns [OF f] close_returns [OF f])
qed

end
