(* ===== verification/GraphManager.thy ===== *)
theory GraphManager
  imports StepSystem
begin

text \<open>
  \<open>Common/GraphManager\<close>: chips and graphs are started one after the other, data is sent to a
  graph and the replies of the last engine are counted. The device is a function from the
  calls so far and a call to whether it succeeds; the calls are a log.
\<close>

section \<open>The operations\<close>

datatype graph_call =
    Init_Chip u32
  | Create string
  | Get_Instance u32
  | Set_Recv u32 u32
  | Send u32 u32 string
  | Destroy u32

type_synonym graph_device = "graph_call list \<Rightarrow> graph_call \<Rightarrow> bool"

record graph_manager =
  gm_chips :: "u32 list"
  gm_running :: bool
  gm_paths :: "string list"
  gm_graphs :: "u32 list"
  gm_send_flag :: int
  gm_log :: "graph_call list"

definition graph_call :: "graph_device \<Rightarrow> graph_call \<Rightarrow> graph_manager \<Rightarrow> bool \<times> graph_manager" where
  "graph_call dv c s = (dv (gm_log s) c, s\<lparr>gm_log := gm_log s @ [c]\<rparr>)"

text \<open>The loops of the three functions over an array: the first failure ends them.\<close>

fun call_each :: "graph_device \<Rightarrow> graph_call list \<Rightarrow> graph_manager \<Rightarrow> bool \<times> graph_manager" where
  "call_each dv [] s = (True, s)"
| "call_each dv (c # cs) s = (case graph_call dv c s of (False, s) \<Rightarrow> (False, s) | (True, s) \<Rightarrow> call_each dv cs s)"

definition InitChip :: "graph_device \<Rightarrow> graph_manager \<Rightarrow> bool \<times> graph_manager" where
  "InitChip dv s = call_each dv (map Init_Chip (gm_chips s)) s"

definition StartGraph :: "graph_device \<Rightarrow> graph_manager \<Rightarrow> bool \<times> graph_manager" where
  "StartGraph dv s = call_each dv (map Create (gm_paths s)) s"

definition DestroyAllGraph :: "graph_device \<Rightarrow> graph_manager \<Rightarrow> bool \<times> graph_manager" where
  "DestroyAllGraph dv s = call_each dv (map Destroy (gm_graphs s)) s"

text \<open>A graph that cannot be found is used all the same.\<close>

definition SetAllGraphRecvFunctor :: "graph_device \<Rightarrow> u32 \<Rightarrow> u32 \<Rightarrow> graph_manager \<Rightarrow> (bool \<times> graph_manager) outcome" where
  "SetAllGraphRecvFunctor dv graph_id engine_id s =
     (case graph_call dv (Get_Instance graph_id) s of
        (False, s) \<Rightarrow> Inl Null_Deref
      | (True, s) \<Rightarrow> Inr (graph_call dv (Set_Recv graph_id engine_id) s))"

text \<open>\<open>SendData\<close> in the two parts between which a reply can come in.\<close>

definition send_out :: "graph_device \<Rightarrow> u32 \<Rightarrow> u32 \<Rightarrow> string \<Rightarrow> graph_manager \<Rightarrow> (bool \<times> graph_manager) outcome" where
  "send_out dv graph_id engine_id type s =
     (case graph_call dv (Get_Instance graph_id) (s\<lparr>gm_running := True\<rparr>) of
        (False, s) \<Rightarrow> Inl Null_Deref
      | (True, s) \<Rightarrow> Inr (graph_call dv (Send graph_id engine_id type) s))"

definition send_count :: "bool \<Rightarrow> graph_manager \<Rightarrow> graph_manager" where
  "send_count ok s = (if ok then s\<lparr>gm_send_flag := gm_send_flag s + 1\<rparr> else s)"

definition SendData :: "graph_device \<Rightarrow> u32 \<Rightarrow> u32 \<Rightarrow> string \<Rightarrow> graph_manager \<Rightarrow> (bool \<times> graph_manager) outcome" where
  "SendData dv graph_id engine_id type s =
     bindR (send_out dv graph_id engine_id type s) (\<lambda>(ok, s). Inr (ok, send_count ok s))"

definition RecvData :: "graph_manager \<Rightarrow> graph_manager" where
  "RecvData s =
     (let s = s\<lparr>gm_send_flag := gm_send_flag s - 1\<rparr>
      in if gm_send_flag s \<le> 0 then s\<lparr>gm_running := False\<rparr> else s)"

definition IsRunning :: "graph_manager \<Rightarrow> bool" where
  "IsRunning s = gm_running s"

section \<open>Facts\<close>

lemma graph_call_simps [simp]:
  "gm_chips (snd (graph_call dv c s)) = gm_chips s" "gm_running (snd (graph_call dv c s)) = gm_running s"
  "gm_send_flag (snd (graph_call dv c s)) = gm_send_flag s" "gm_log (snd (graph_call dv c s)) = gm_log s @ [c]"
  by (simp_all add: graph_call_def)

text \<open>What the loops do: the calls up to the first that fails.\<close>

lemma call_each_log:
  "call_each dv cs s = (ok, t) \<Longrightarrow> \<exists>n \<le> length cs. gm_log t = gm_log s @ take n cs \<and> (ok \<longleftrightarrow> (n = length cs \<and> (\<forall>i < n. dv (gm_log s @ take i cs) (cs ! i)))) \<and>
    (\<not> ok \<longrightarrow> n > 0 \<and> \<not> dv (gm_log s @ take (n - 1) cs) (cs ! (n - 1)))"
proof (induction cs arbitrary: s)
  case Nil
  then show ?case by simp
next
  case (Cons c cs)
  define s1 where "s1 = s\<lparr>gm_log := gm_log s @ [c]\<rparr>"
  show ?case
  proof (cases "dv (gm_log s) c")
    case False
    then have "ok = False" "t = s1" using Cons.prems by (auto simp: graph_call_def s1_def)
    then show ?thesis using False by (intro exI [of _ 1]) (simp add: s1_def)
  next
    case True
    then have "call_each dv cs s1 = (ok, t)" using Cons.prems by (simp add: graph_call_def s1_def)
    from Cons.IH [OF this] obtain n where n: "n \<le> length cs" "gm_log t = gm_log s1 @ take n cs"
      "ok \<longleftrightarrow> (n = length cs \<and> (\<forall>i < n. dv (gm_log s1 @ take i cs) (cs ! i)))"
      "\<not> ok \<longrightarrow> n > 0 \<and> \<not> dv (gm_log s1 @ take (n - 1) cs) (cs ! (n - 1))" by blast
    have "(\<forall>i < Suc n. dv (gm_log s @ take i (c # cs)) ((c # cs) ! i)) \<longleftrightarrow> (\<forall>i < n. dv (gm_log s1 @ take i cs) (cs ! i))"
      using True by (simp add: All_less_Suc2 s1_def)
    moreover have "\<not> ok \<longrightarrow> \<not> dv (gm_log s @ take (Suc n - 1) (c # cs)) ((c # cs) ! (Suc n - 1))"
      using n(4) by (cases n) (auto simp: s1_def)
    ultimately show ?thesis using n by (intro exI [of _ "Suc n"]) (simp add: s1_def)
  qed
qed

section \<open>Messages in flight\<close>

text \<open>Sending and receiving in any order, one after the other; the device answers as it likes.\<close>

inductive gm_step :: "graph_manager \<Rightarrow> graph_manager \<Rightarrow> bool" where
  sent: "SendData dv g e ty s = Inr (ok, t) \<Longrightarrow> gm_step s t"
| received: "gm_step s (RecvData s)"

text \<open>While more messages went out than came back, the manager says it is running.\<close>

definition gm_inv :: "graph_manager \<Rightarrow> bool" where
  "gm_inv s \<longleftrightarrow> (gm_send_flag s > 0 \<longrightarrow> gm_running s)"

definition gm_start :: graph_manager where
  "gm_start = \<lparr>gm_chips = [], gm_running = False, gm_paths = [], gm_graphs = [], gm_send_flag = 0, gm_log = []\<rparr>"

lemma send_out_ok:
  "send_out dv g e ty s = Inr (ok, t) \<Longrightarrow> gm_running t \<and> gm_send_flag t = gm_send_flag s"
  by (auto simp: send_out_def graph_call_def split: bool.splits)

lemma send_ok: "SendData dv g e ty s = Inr (ok, t) \<Longrightarrow> gm_running t \<and> gm_send_flag t = gm_send_flag s + (if ok then 1 else 0)"
  by (auto simp: SendData_def bindR_eq_Inr send_count_def dest!: send_out_ok)

lemma gm_inv_step:
  assumes "gm_inv s" "gm_step s t"
  shows "gm_inv t"
  using assms(2)
proof cases
  case (sent dv g e ty ok)
  from send_ok [OF this] show ?thesis by (simp add: gm_inv_def)
next
  case received
  then show ?thesis using assms(1) by (simp add: gm_inv_def RecvData_def Let_def)
qed

interpretation graph_messages: step_system gm_step gm_start gm_inv
proof
  show "gm_inv gm_start" by (simp add: gm_inv_def gm_start_def)
qed (rule gm_inv_step)

lemma manager_runs_while_messages_are_out:
  "gm_step\<^sup>*\<^sup>* gm_start s \<Longrightarrow> gm_send_flag s > 0 \<Longrightarrow> IsRunning s"
  using graph_messages.inv_reachable by (simp add: gm_inv_def IsRunning_def)

text \<open>
  A message that could not be sent leaves the manager running with nothing in flight: who
  waits until it stops waits for ever.
\<close>

lemma failed_send_keeps_running:
  "SendData dv g e ty s = Inr (False, t) \<Longrightarrow> gm_send_flag s = 0 \<Longrightarrow> IsRunning t \<and> gm_send_flag t = 0"
  using send_ok by (force simp: IsRunning_def)

text \<open>
  The reply to an earlier message that comes in between the sending of a message and its
  counting stops the manager with the message in flight.
\<close>

lemma early_reply_stops_manager:
  assumes "gm_send_flag s = 1" "send_out dv g e ty s = Inr (True, t)"
  shows "\<not> IsRunning (send_count True (RecvData t)) \<and> gm_send_flag (send_count True (RecvData t)) = 1"
  using send_out_ok [OF assms(2)] assms(1) by (simp add: send_count_def RecvData_def Let_def IsRunning_def)

end
