(* ===== verification/CoPath.thy ===== *)
theory CoPath
  imports CText
begin

text \<open>
  Paths of the \<open>co\<close> library (\<open>co/base/path.h\<close>, \<open>path.cc\<close>): cleaning a path in place, its parts, and
  the definition of a clean path by its elements that the first is shown to compute.
\<close>

section \<open>The code\<close>

definition slash :: char where "slash = CHR 0x2F"

definition dot :: char where "dot = CHR 0x2E"

text \<open>\<open>r[p++] = c\<close>.\<close>

definition put_char :: "char \<Rightarrow> string \<times> nat \<Rightarrow> (string \<times> nat) outcome" where
  "put_char c rp = (case rp of (r, p) \<Rightarrow> if p < length r then Inr (r[p := c], p + 1) else Inl Out_Of_Range)"

text \<open>The loop that goes back to the last slash; it starts where \<open>p\<close> was decremented once.\<close>

fun back_to :: "string \<Rightarrow> nat \<Rightarrow> nat \<Rightarrow> nat outcome" where
  "back_to r dotdot 0 = Inr 0"
| "back_to r dotdot (Suc p) =
     (if Suc p > dotdot
      then bindR (read_at r (Suc p)) (\<lambda>c. if c \<noteq> slash then back_to r dotdot p else Inr (Suc p))
      else Inr (Suc p))"

text \<open>Copying an element: the index behind it, the buffer and its fill level.\<close>

function copy_element :: "string \<Rightarrow> nat \<Rightarrow> string \<times> nat \<Rightarrow> (nat \<times> string \<times> nat) outcome" where
  "copy_element s i rp =
     (if i < length s \<and> s ! i \<noteq> slash
      then bindR (put_char (s ! i) rp) (copy_element s (i + 1))
      else Inr (i, rp))"
  by pat_completeness auto

termination by (relation "measure (\<lambda>(s, i, rp). length s - i)") auto

declare copy_element.simps [simp del]

lemma copy_element_ge: "copy_element s i rp = Inr (j, rp') \<Longrightarrow> i \<le> j"
proof (induction s i rp rule: copy_element.induct)
  case (1 s i rp)
  show ?case
  proof (cases "i < length s \<and> s ! i \<noteq> slash")
    case True
    then obtain rp1 where r: "put_char (s ! i) rp = Inr rp1" "copy_element s (i + 1) rp1 = Inr (j, rp')"
      using 1(2) by (subst (asm) copy_element.simps) (auto simp: bindR_eq_Inr)
    from 1(1) [OF True r(2)] show ?thesis by simp
  qed (use 1(2) in \<open>subst (asm) copy_element.simps; auto\<close>)
qed

lemma copy_element_progress:
  "copy_element s i rp = Inr (j, rp') \<Longrightarrow> i < length s \<Longrightarrow> s ! i \<noteq> slash \<Longrightarrow> i < j"
  by (subst (asm) copy_element.simps) (auto simp: bindR_eq_Inr dest: copy_element_ge)

text \<open>The loop of \<open>clean\<close>: \<open>i\<close> goes through \<open>s\<close>, \<open>r\<close> is written up to \<open>p\<close>.\<close>

function clean_loop :: "string \<Rightarrow> bool \<Rightarrow> nat \<Rightarrow> nat \<Rightarrow> string \<times> nat \<Rightarrow> (string \<times> nat) outcome" where
  "clean_loop s rooted i dotdot rp =
     (if \<not> i < length s then Inr rp
      else if s ! i = slash \<or> s ! i = dot \<and> (i + 1 = length s \<or> s ! (i + 1) = slash)
      then clean_loop s rooted (i + 1) dotdot rp
      else if s ! i = dot \<and> s ! (i + 1) = dot \<and> (i + 2 = length s \<or> s ! (i + 2) = slash)
      then (case rp of (r, p) \<Rightarrow>
        if p > dotdot then bindR (back_to r dotdot (p - 1)) (\<lambda>p. clean_loop s rooted (i + 2) dotdot (r, p))
        else if \<not> rooted
        then bindR (if p > 0 then put_char slash (r, p) else Inr (r, p)) (\<lambda>rp.
             bindR (put_char dot rp) (\<lambda>rp. bindR (put_char dot rp) (\<lambda>rp.
               clean_loop s rooted (i + 2) (snd rp) rp)))
        else clean_loop s rooted (i + 2) dotdot rp)
      else
        bindR (if rooted \<and> snd rp \<noteq> 1 \<or> \<not> rooted \<and> snd rp \<noteq> 0 then put_char slash rp else Inr rp) (\<lambda>rp.
          case copy_element s i rp of
            Inl e \<Rightarrow> Inl e
          | Inr (j, rp) \<Rightarrow> clean_loop s rooted j dotdot rp))"
  by pat_completeness auto

termination
  by (relation "measure (\<lambda>(s, rooted, i, dotdot, rp). length s - i)")
    (auto dest: copy_element_progress intro: diff_less_mono2)

declare clean_loop.simps [simp del]

definition path_clean :: "string \<Rightarrow> string outcome" where
  "path_clean s =
     (if s = [] then Inr [dot]
      else
        let rooted = (s ! 0 = slash); start = (if rooted then 1 else 0)
        in bindR (clean_loop s rooted start start (s, start)) (\<lambda>(r, p).
             Inr (if p = 0 then [dot] else List.take p r)))"

text \<open>\<open>base\<close>, \<open>ext\<close>, \<open>split\<close>, \<open>dir\<close> and \<open>join\<close>.\<close>

definition after_slash :: "string \<Rightarrow> nat" where
  "after_slash s = length (dropWhile (\<lambda>c. c \<noteq> slash) (rev s))"

definition path_base :: "string \<Rightarrow> string" where
  "path_base s =
     (if s = [] then [dot]
      else
        let p = length (dropWhile (\<lambda>c. c = slash) (rev s)); x = List.take p s
        in if p = 0 then [slash] else drop (after_slash x) x)"

fun ext_from :: "string \<Rightarrow> nat \<Rightarrow> string" where
  "ext_from s 0 = []"
| "ext_from s (Suc i) = (if s ! i = slash then [] else if s ! i = dot then drop i s else ext_from s i)"

definition path_ext :: "string \<Rightarrow> string" where
  "path_ext s = ext_from s (length s)"

definition path_split :: "string \<Rightarrow> string \<times> string" where
  "path_split s = (List.take (after_slash s) s, drop (after_slash s) s)"

definition path_dir :: "string \<Rightarrow> string outcome" where
  "path_dir s = path_clean (fst (path_split s))"

fun join_raw :: "string list \<Rightarrow> string" where
  "join_raw [] = []"
| "join_raw [s] = s"
| "join_raw (x # ss) = (if x \<noteq> [] then x @ slash # join_raw ss else join_raw ss)"

definition path_join :: "string list \<Rightarrow> string outcome" where
  "path_join ss = (let v = join_raw ss in if v \<noteq> [] then path_clean v else Inr v)"

section \<open>What a clean path is\<close>

text \<open>The elements of a path, and the list of elements that is left of it.\<close>

fun elements :: "string \<Rightarrow> string list" where
  "elements [] = [[]]"
| "elements (c # s) = (if c = slash then [] # elements s else (c # hd (elements s)) # tl (elements s))"

definition step_up :: "bool \<Rightarrow> string list \<Rightarrow> string list" where
  "step_up rooted st =
     (if st \<noteq> [] \<and> last st \<noteq> [dot, dot] then butlast st else if rooted then st else st @ [[dot, dot]])"

definition add_element :: "bool \<Rightarrow> string \<Rightarrow> string list \<Rightarrow> string list" where
  "add_element rooted c st =
     (if c = [] \<or> c = [dot] then st else if c = [dot, dot] then step_up rooted st else st @ [c])"

fun slashed :: "string list \<Rightarrow> string" where
  "slashed [] = []"
| "slashed [c] = c"
| "slashed (c # cs) = c @ slash # slashed cs"

definition render :: "bool \<Rightarrow> string list \<Rightarrow> string" where
  "render rooted st = (if rooted then slash # slashed st else slashed st)"

definition norm_path :: "string \<Rightarrow> string" where
  "norm_path s =
     (let rooted = (s \<noteq> [] \<and> hd s = slash); v = render rooted (fold (add_element rooted) (elements s) [])
      in if v = [] then [dot] else v)"

section \<open>Facts: elements and rendering\<close>

lemma slash_dot [simp]: "slash \<noteq> dot" "dot \<noteq> slash"
  by (simp_all add: slash_def dot_def)

lemma elements_ne [simp]: "elements s \<noteq> []"
  by (cases s) auto

lemma elements_append: "slash \<notin> set c \<Longrightarrow> elements (c @ s) = (c @ hd (elements s)) # tl (elements s)"
  by (induction c) auto

text \<open>The text that follows an element.\<close>

abbreviation boundary :: "string \<Rightarrow> bool" where
  "boundary s \<equiv> s = [] \<or> hd s = slash"

lemma fold_element:
  assumes "slash \<notin> set c" "boundary s"
  shows "fold (add_element rooted) (elements (c @ s)) st = fold (add_element rooted) (elements s) (add_element rooted c st)"
proof -
  have "elements s = [] # tl (elements s)" using assms(2) by (cases s) auto
  then have "fold (add_element rooted) (elements s) x = fold (add_element rooted) (tl (elements s)) x" for x
    by (metis add_element_def fold_simps(2))
  moreover have "hd (elements s) = []" using assms(2) by (cases s) auto
  ultimately show ?thesis using assms(1) by (simp add: elements_append)
qed

lemma slashed_snoc: "slashed (cs @ [c]) = slashed cs @ (if cs = [] then [] else [slash]) @ c"
  by (induction cs rule: slashed.induct) auto

lemma render_snoc: "render rooted (st @ [c]) = render rooted st @ (if st = [] then [] else [slash]) @ c"
  by (simp add: render_def slashed_snoc)

lemma render_longer: "length (render rooted xs) \<le> length (render rooted (xs @ ys))"
proof (induction ys rule: rev_induct)
  case (snoc y ys)
  then show ?case using render_snoc [of rooted "xs @ ys" y] by simp
qed simp

text \<open>The elements left so far: what climbs, and names below it.\<close>

definition name_ok :: "string \<Rightarrow> bool" where
  "name_ok c \<longleftrightarrow> c \<noteq> [] \<and> c \<noteq> [dot] \<and> c \<noteq> [dot, dot] \<and> slash \<notin> set c"

definition stack_ok :: "bool \<Rightarrow> nat \<Rightarrow> string list \<Rightarrow> bool" where
  "stack_ok rooted k ns \<longleftrightarrow> (rooted \<longrightarrow> k = 0) \<and> list_all name_ok ns"

abbreviation ups :: "nat \<Rightarrow> string list" where
  "ups k \<equiv> replicate k [dot, dot]"

lemma slashed_empty: "[] \<notin> set st \<Longrightarrow> slashed st = [] \<longleftrightarrow> st = []"
  by (cases st rule: slashed.cases) auto

lemma stack_no_empty: "stack_ok rooted k ns \<Longrightarrow> [] \<notin> set (ups k @ ns)"
  by (auto simp: stack_ok_def name_ok_def list_all_iff)

lemma render_length:
  "stack_ok rooted k ns \<Longrightarrow> length (render rooted (ups k @ ns)) = (if rooted then 1 else 0) \<longleftrightarrow> ups k @ ns = []"
  using slashed_empty [OF stack_no_empty, of rooted k ns] by (simp add: render_def)

section \<open>Facts: the buffer\<close>

lemma put_char_take:
  assumes "p < length r"
  shows "\<exists>r'. put_char c (r, p) = Inr (r', p + 1) \<and> length r' = length r \<and> List.take (p + 1) r' = List.take p r @ [c]"
  using assms by (simp add: put_char_def take_Suc_conv_app_nth)

lemma copy_element_take:
  assumes "slash \<notin> set c" "boundary t" "drop i s = c @ t" "p + length c \<le> length r"
  shows "\<exists>r'. copy_element s i (r, p) = Inr (i + length c, r', p + length c) \<and> length r' = length r \<and>
    List.take (p + length c) r' = List.take p r @ c"
  using assms
proof (induction c arbitrary: i r p)
  case Nil
  then have "\<not> (i < length s \<and> s ! i \<noteq> slash)" by (cases t) (auto simp: drop_eq_Nil2 hd_drop_conv_nth dest: arg_cong [of _ _ hd])
  then have "copy_element s i (r, p) = Inr (i, r, p)" by (subst copy_element.simps) auto
  then show ?case by simp
next
  case (Cons x c)
  then have d: "drop i s = x # c @ t" by simp
  then have i: "i < length s" "s ! i = x" using drop_lt [OF d] hd_drop_conv_nth [of i s] by auto
  obtain r1 where r1: "put_char x (r, p) = Inr (r1, p + 1)" "length r1 = length r" "List.take (p + 1) r1 = List.take p r @ [x]"
    using put_char_take [of p r x] Cons.prems(4) by auto
  have "drop (i + 1) s = c @ t" using Cons.prems(3) by (simp add: drop_Suc_of)
  from Cons.IH [OF _ Cons.prems(2) this, of "p + 1" r1] Cons.prems(1,4) r1
  show ?case using i by (subst copy_element.simps) auto
qed

lemma back_to_start:
  assumes "q < length r" "b \<le> q" "dotdot \<le> b" "\<And>j. b < j \<Longrightarrow> j \<le> q \<Longrightarrow> r ! j \<noteq> slash" "b = dotdot \<or> r ! b = slash"
  shows "back_to r dotdot q = Inr b"
  using assms
proof (induction q)
  case (Suc q)
  show ?case
  proof (cases "b = Suc q")
    case True
    then show ?thesis using Suc.prems by auto
  next
    case False
    then have "back_to r dotdot q = Inr b" using Suc by auto
    moreover have "r ! Suc q \<noteq> slash" using Suc.prems False by auto
    ultimately show ?thesis using Suc.prems False by auto
  qed
qed simp

section \<open>The loop computes the elements that are left\<close>

text \<open>
  At the head of the loop: the buffer holds the elements left so far, \<open>dotdot\<close> is the length of
  those that climb, and after an element there is room for a slash unless one comes next.
\<close>

definition loop_inv :: "string \<Rightarrow> bool \<Rightarrow> nat \<Rightarrow> nat \<Rightarrow> string \<Rightarrow> nat \<Rightarrow> nat \<Rightarrow> string list \<Rightarrow> bool" where
  "loop_inv s rooted i dotdot r p k ns \<longleftrightarrow>
     length r = length s \<and> p \<le> i \<and> i \<le> length s \<and> stack_ok rooted k ns \<and>
     List.take p r = render rooted (ups k @ ns) \<and> dotdot = length (render rooted (ups k)) \<and>
     (ups k @ ns = [] \<or> boundary (drop i s) \<or> p < i)"

lemma loop_invD:
  assumes "loop_inv s rooted i dotdot r p k ns"
  shows "p = length (render rooted (ups k @ ns))" "p \<le> length r" "dotdot \<le> p" "p > dotdot \<longleftrightarrow> ns \<noteq> []"
proof -
  have t: "List.take p r = render rooted (ups k @ ns)" "p \<le> length r" using assms by (auto simp: loop_inv_def)
  then show p: "p = length (render rooted (ups k @ ns))" by (metis length_take min.absorb2)
  show "p \<le> length r" by fact
  have d: "dotdot = length (render rooted (ups k))" using assms by (simp add: loop_inv_def)
  show le: "dotdot \<le> p" unfolding p d by (rule render_longer)
  show "p > dotdot \<longleftrightarrow> ns \<noteq> []"
  proof
    assume "ns \<noteq> []"
    then obtain n ms where ns: "ns = n # ms" by (cases ns) auto
    then have "n \<noteq> []" using assms by (simp add: loop_inv_def stack_ok_def name_ok_def)
    then have "length (render rooted (ups k)) < length (render rooted (ups k @ [n]))" by (simp add: render_snoc)
    also have "\<dots> \<le> p" unfolding p ns using render_longer [of rooted "ups k @ [n]" ms] by simp
    finally show "p > dotdot" using d by simp
  qed (use p d in auto)
qed

text \<open>Going up removes the last name.\<close>

lemma loop_back:
  assumes "loop_inv s rooted i dotdot r p k (ns @ [c])"
  shows "\<exists>q. back_to r dotdot (p - 1) = Inr q \<and> q \<le> p \<and> List.take q r = render rooted (ups k @ ns)"
proof -
  let ?st = "ups k @ ns" and ?sep = "if ups k @ ns = [] then [] else [slash]"
  note D = loop_invD [OF assms]
  have c: "c \<noteq> []" "slash \<notin> set c" using assms by (simp_all add: loop_inv_def stack_ok_def name_ok_def)
  have t: "List.take p r = render rooted ?st @ ?sep @ c" using assms render_snoc [of rooted ?st c] by (simp add: loop_inv_def)
  define b where "b = length (render rooted ?st)"
  have p: "p = b + length ?sep + length c" using D(1) render_snoc [of rooted ?st c] by (simp add: b_def)
  have nth: "r ! j = (render rooted ?st @ ?sep @ c) ! j" if "j < p" for j using that t by (metis nth_take)
  have "back_to r dotdot (p - 1) = Inr b"
  proof (rule back_to_start)
    show "p - 1 < length r" "b \<le> p - 1" using p c D(2) by (cases c; simp)+
    show "dotdot \<le> b" using assms render_longer [of rooted "ups k" ns] by (simp add: loop_inv_def b_def)
    show "b = dotdot \<or> r ! b = slash"
    proof (cases "?st = []")
      case True
      then show ?thesis using assms by (simp add: loop_inv_def b_def)
    next
      case False
      then have "?sep = [slash]" by auto
      moreover have "b < p" using p c by (cases c) simp_all
      ultimately have "r ! b = (render rooted ?st @ [slash] @ c) ! b" using nth [of b] by metis
      then show ?thesis by (simp add: b_def nth_append)
    qed
    show "r ! j \<noteq> slash" if "b < j" "j \<le> p - 1" for j
    proof -
      have "j < p" using that p c by (cases c) auto
      then have "r ! j = c ! (j - b - length ?sep)" "j - b - length ?sep < length c"
        using nth [of j] that p by (auto simp: nth_append b_def split: if_splits)
      then show ?thesis using c(2) by (metis nth_mem)
    qed
  qed
  moreover have "List.take b r = render rooted ?st"
  proof -
    have "List.take b r = List.take b (List.take p r)" using p by simp
    then show ?thesis unfolding t by (simp add: b_def)
  qed
  ultimately show ?thesis using p by auto
qed

text \<open>Appending an element, behind a slash unless it is the first.\<close>

lemma loop_slash:
  assumes "loop_inv s rooted i dotdot r p k ns" "i < length s" "s ! i \<noteq> slash"
  shows "\<exists>r'. (if ups k @ ns \<noteq> [] then put_char slash (r, p) else Inr (r, p)) = Inr (r', p + (if ups k @ ns = [] then 0 else 1)) \<and>
    length r' = length r \<and> List.take (p + (if ups k @ ns = [] then 0 else 1)) r' = render rooted (ups k @ ns) @ (if ups k @ ns = [] then [] else [slash])
    \<and> p + (if ups k @ ns = [] then 0 else 1) \<le> i"
proof (cases "ups k @ ns = []")
  case True
  then show ?thesis using assms by (simp add: loop_inv_def)
next
  case False
  have "\<not> boundary (drop i s)" using assms(2,3) by (simp add: hd_drop_conv_nth)
  with False assms(1) have "p < i" by (auto simp: loop_inv_def)
  then show ?thesis using False assms put_char_take [of p r slash] by (auto simp: loop_inv_def)
qed

lemma drop_two: "i < length s \<Longrightarrow> drop i s = s ! i # drop (i + 1) s"
  by (simp add: Cons_nth_drop_Suc)

text \<open>The first element of the rest, when it is not a slash.\<close>

lemma split_element:
  assumes "t \<noteq> []" "hd t \<noteq> slash"
  obtains c u where "t = c @ u" "c \<noteq> []" "slash \<notin> set c" "boundary u"
proof
  show "t = takeWhile (\<lambda>x. x \<noteq> slash) t @ dropWhile (\<lambda>x. x \<noteq> slash) t" by simp
  show "takeWhile (\<lambda>x. x \<noteq> slash) t \<noteq> []" using assms by (cases t) auto
  show "slash \<notin> set (takeWhile (\<lambda>x. x \<noteq> slash) t)" by (auto dest: set_takeWhileD)
  show "boundary (dropWhile (\<lambda>x. x \<noteq> slash) t)" using hd_dropWhile [of "\<lambda>x. x \<noteq> slash" t] by auto
qed

text \<open>The tests of the loop, over the first element.\<close>

lemma dot_test:
  assumes "drop i s = c @ u" "c \<noteq> []" "slash \<notin> set c" "boundary u"
  shows "s ! i = dot \<and> (i + 1 = length s \<or> s ! (i + 1) = slash) \<longleftrightarrow> c = [dot]"
    "c \<noteq> [dot] \<Longrightarrow> s ! i = dot \<and> s ! (i + 1) = dot \<and> (i + 2 = length s \<or> s ! (i + 2) = slash) \<longleftrightarrow> c = [dot, dot]"
proof -
  have l: "length s = i + length c + length u" using arg_cong [OF assms(1), of length] assms(2) by (cases "i < length s") auto
  have n: "s ! (i + j) = (c @ u) ! j" for j using assms(1) l by (metis nth_drop le_add1 add.assoc)
  have ub: "u = [] \<or> u ! 0 = slash" using assms(4) by (cases u) auto
  consider x where "c = [x]" | x y where "c = [x, y]" | x y z zs where "c = x # y # z # zs"
    using assms(2) by (metis list.exhaust)
  then have "(s ! i = dot \<and> (i + 1 = length s \<or> s ! (i + 1) = slash) \<longleftrightarrow> c = [dot]) \<and>
    (c \<noteq> [dot] \<longrightarrow> (s ! i = dot \<and> s ! (i + 1) = dot \<and> (i + 2 = length s \<or> s ! (i + 2) = slash) \<longleftrightarrow> c = [dot, dot]))"
  proof cases
    case 1
    then show ?thesis using n [of 0] n [of 1] l ub by auto
  next
    case 2
    then show ?thesis using n [of 0] n [of 1] n [of 2] l ub assms(3) by auto
  next
    case 3
    then show ?thesis using n [of 0] n [of 1] n [of 2] l assms(3) by auto
  qed
  then show "s ! i = dot \<and> (i + 1 = length s \<or> s ! (i + 1) = slash) \<longleftrightarrow> c = [dot]"
    "c \<noteq> [dot] \<Longrightarrow> s ! i = dot \<and> s ! (i + 1) = dot \<and> (i + 2 = length s \<or> s ! (i + 2) = slash) \<longleftrightarrow> c = [dot, dot]"
    by blast+
qed

lemma clean_loop_computes:
  assumes "loop_inv s rooted i dotdot r p k ns"
  shows "\<exists>r' p'. clean_loop s rooted i dotdot (r, p) = Inr (r', p') \<and> p' \<le> length r' \<and>
    List.take p' r' = render rooted (fold (add_element rooted) (elements (drop i s)) (ups k @ ns)) \<and>
    (\<exists>k' ns'. stack_ok rooted k' ns' \<and> fold (add_element rooted) (elements (drop i s)) (ups k @ ns) = ups k' @ ns')"
  using assms
proof (induction "length s - i" arbitrary: i dotdot r p k ns rule: less_induct)
  case less
  note e = clean_loop.simps [of s rooted i dotdot "(r, p)"]
  note I = less.prems and D = loop_invD [OF less.prems]
  show ?case
  proof (cases "i < length s")
    case False
    then have "drop i s = []" by simp
    then show ?thesis using False I D(2) by (subst e) (auto simp: add_element_def loop_inv_def)
  next
    case i: True
    show ?thesis
    proof (cases "s ! i = slash")
      case True
      have "loop_inv s rooted (i + 1) dotdot r p k ns" using I i unfolding loop_inv_def by linarith
      from less.hyps [OF _ this] have ih: "\<exists>r' p'. clean_loop s rooted (i + 1) dotdot (r, p) = Inr (r', p') \<and> p' \<le> length r' \<and>
        List.take p' r' = render rooted (fold (add_element rooted) (elements (drop (i + 1) s)) (ups k @ ns)) \<and>
        (\<exists>k' ns'. stack_ok rooted k' ns' \<and> fold (add_element rooted) (elements (drop (i + 1) s)) (ups k @ ns) = ups k' @ ns')"
        using i by simp
      have "clean_loop s rooted i dotdot (r, p) = clean_loop s rooted (i + 1) dotdot (r, p)" using i True by (subst e) simp
      moreover have "fold (add_element rooted) (elements (drop i s)) (ups k @ ns) = fold (add_element rooted) (elements (drop (i + 1) s)) (ups k @ ns)"
        unfolding drop_two [OF i] True by (simp add: add_element_def)
      ultimately show ?thesis using ih by simp
    next
      case ns: False
      then have "drop i s \<noteq> []" "hd (drop i s) \<noteq> slash" using i by (simp_all add: hd_drop_conv_nth)
      then obtain c u where c: "drop i s = c @ u" "c \<noteq> []" "slash \<notin> set c" "boundary u" by (rule split_element)
      have u: "drop (i + length c) s = u" using drop_add_of [OF c(1)] .
      have len: "i + length c \<le> length s" using arg_cong [OF c(1), of length] i by simp
      note f = fold_element [OF c(3,4), of rooted "ups k @ ns", folded c(1)]
      note t = dot_test [OF c]
      have step: ?thesis
        if "loop_inv s rooted (i + length c) dotdot1 r1 p1 k1 ns1"
          "clean_loop s rooted i dotdot (r, p) = clean_loop s rooted (i + length c) dotdot1 (r1, p1)"
          "ups k1 @ ns1 = add_element rooted c (ups k @ ns)" for dotdot1 r1 p1 k1 ns1
      proof -
        have "length s - (i + length c) < length s - i" using i c(2) by (simp add: diff_less_mono2)
        from less.hyps [OF this that(1)] show ?thesis unfolding f u that(2,3) .
      qed
      have b: "boundary (drop (i + length c) s)" unfolding u by (rule c(4))
      consider "c = [dot]" | "c = [dot, dot]" | "name_ok c" using c by (auto simp: name_ok_def)
      then show ?thesis
      proof cases
        case 1
        have "loop_inv s rooted (i + length c) dotdot r p k ns" using I len b 1 by (simp add: loop_inv_def)
        moreover have "clean_loop s rooted i dotdot (r, p) = clean_loop s rooted (i + length c) dotdot (r, p)"
          using i ns t(1) 1 by (subst e) simp
        ultimately show ?thesis using 1 by (intro step) (simp_all add: add_element_def)
      next
        case 2
        then have t2: "s ! i = dot \<and> s ! (i + 1) = dot \<and> (i + 2 = length s \<or> s ! (i + 2) = slash)"
          "\<not> (s ! i = slash \<or> s ! i = dot \<and> (i + 1 = length s \<or> s ! (i + 1) = slash))" "i + length c = i + 2"
          using t ns by auto
        show ?thesis
        proof (cases ns rule: rev_exhaust)
          case Nil
          show ?thesis
          proof (cases rooted)
            case True
            have "loop_inv s rooted (i + length c) dotdot r p k ns" using I len b by (simp add: loop_inv_def)
            moreover have "clean_loop s rooted i dotdot (r, p) = clean_loop s rooted (i + length c) dotdot (r, p)"
              using i t2 D(4) Nil True by (subst e) simp
            moreover have "k = 0" using I True by (simp add: loop_inv_def stack_ok_def)
            ultimately show ?thesis using 2 True Nil by (intro step) (simp_all add: add_element_def step_up_def)
          next
            case False
            obtain q r1 where q: "(if ups k @ ns \<noteq> [] then put_char slash (r, p) else Inr (r, p)) = Inr (r1, q)" "length r1 = length r"
              "List.take q r1 = render rooted (ups k) @ (if ups k = [] then [] else [slash])" "q \<le> i"
              using loop_slash [OF I i ns] Nil by auto
            have "q + 2 \<le> length r1" using q(2,4) len 2 I by (simp add: loop_inv_def)
            then obtain r2 where r2: "put_char dot (r1, q) = Inr (r2, q + 1)" "length r2 = length r1" "List.take (q + 1) r2 = List.take q r1 @ [dot]"
              using put_char_take [of q r1 dot] by auto
            obtain r3 where r3: "put_char dot (r2, q + 1) = Inr (r3, q + 2)" "length r3 = length r2" "List.take (q + 2) r3 = List.take (q + 1) r2 @ [dot]"
              using put_char_take [of "q + 1" r2 dot] r2(2) \<open>q + 2 \<le> length r1\<close> by auto
            have tk: "List.take (q + 2) r3 = render rooted (ups (Suc k))"
              unfolding r3(3) r2(3) q(3) replicate_Suc replicate_append_same [symmetric] render_snoc by simp
            have "q + 2 = length (render rooted (ups (Suc k)))"
              using arg_cong [OF tk, of length] r2(2) r3(2) \<open>q + 2 \<le> length r1\<close> by simp
            then have "loop_inv s rooted (i + length c) (q + 2) r3 (q + 2) (Suc k) []"
              using I len b 2 q(2,4) r2(2) r3(2) tk False by (simp add: loop_inv_def stack_ok_def del: replicate_Suc)
            moreover have "(if p > 0 then put_char slash (r, p) else Inr (r, p)) = Inr (r1, q)"
            proof -
              have "p > 0 \<longleftrightarrow> ups k @ ns \<noteq> []"
                using D(1) render_length [of rooted k ns] I False unfolding loop_inv_def by auto
              then show ?thesis using q(1) by simp
            qed
            then have "clean_loop s rooted i dotdot (r, p) = clean_loop s rooted (i + length c) (q + 2) (r3, q + 2)"
              using i t2 D(4) Nil False r2(1) r3(1) by (subst e) simp
            moreover have "ups (Suc k) @ [] = add_element rooted c (ups k @ ns)"
              using 2 Nil False by (cases k) (simp_all add: add_element_def step_up_def replicate_append_same)
            ultimately show ?thesis by (rule step)
          qed
        next
          case (snoc ms d)
          obtain q where q: "back_to r dotdot (p - 1) = Inr q" "q \<le> p" "List.take q r = render rooted (ups k @ ms)"
            using loop_back [of s rooted i dotdot r p k ms d] I snoc by auto
          have "loop_inv s rooted (i + length c) dotdot r q k ms"
            using I len b q snoc by (auto simp: loop_inv_def stack_ok_def)
          moreover have "clean_loop s rooted i dotdot (r, p) = clean_loop s rooted (i + length c) dotdot (r, q)"
            using i t2 D(4) snoc q(1) by (subst e) simp
          moreover have "ups k @ ms = add_element rooted c (ups k @ ns)"
            using 2 snoc I by (simp add: add_element_def step_up_def loop_inv_def stack_ok_def name_ok_def butlast_append)
          ultimately show ?thesis by (rule step)
        qed
      next
        case 3
        obtain q r1 where q: "(if ups k @ ns \<noteq> [] then put_char slash (r, p) else Inr (r, p)) = Inr (r1, q)" "length r1 = length r"
          "List.take q r1 = render rooted (ups k @ ns) @ (if ups k @ ns = [] then [] else [slash])" "q \<le> i"
          using loop_slash [OF I i ns] by auto
        have "q + length c \<le> length r1" using q(2,4) len I by (simp add: loop_inv_def)
        from copy_element_take [OF c(3,4,1) this] obtain r2 where
          r2: "copy_element s i (r1, q) = Inr (i + length c, r2, q + length c)" "length r2 = length r1"
            "List.take (q + length c) r2 = List.take q r1 @ c" by auto
        have tk: "List.take (q + length c) r2 = render rooted (ups k @ ns @ [c])"
          unfolding r2(3) q(3) append_assoc [symmetric] render_snoc by simp
        have i2: "\<not> \<not> i < length s" using i by simp
        have n1: "\<not> (s ! i = slash \<or> s ! i = dot \<and> (i + 1 = length s \<or> s ! (i + 1) = slash))"
          and n2: "\<not> (s ! i = dot \<and> s ! (i + 1) = dot \<and> (i + 2 = length s \<or> s ! (i + 2) = slash))"
          using t ns 3 unfolding name_ok_def by blast+
        have "loop_inv s rooted (i + length c) dotdot r2 (q + length c) k (ns @ [c])"
          using I len b q(2,4) r2(2) tk 3 by (simp add: loop_inv_def stack_ok_def)
        moreover have "(rooted \<and> p \<noteq> 1 \<or> \<not> rooted \<and> p \<noteq> 0) \<longleftrightarrow> ups k @ ns \<noteq> []"
        proof -
          have "stack_ok rooted k ns" using I by (simp add: loop_inv_def)
          from render_length [OF this] D(1) show ?thesis by (cases rooted) simp_all
        qed
        then have "clean_loop s rooted i dotdot (r, p) = clean_loop s rooted (i + length c) dotdot (r2, q + length c)"
          using q(1) r2(1) unfolding e [unfolded if_not_P [OF i2] if_not_P [OF n1] if_not_P [OF n2]] by (simp del: append_is_Nil_conv)
        moreover have "ups k @ ns @ [c] = add_element rooted c (ups k @ ns)" using 3 by (simp add: add_element_def name_ok_def)
        ultimately show ?thesis by (rule step)
      qed
    qed
  qed
qed

section \<open>Clean paths\<close>

lemma path_clean_form:
  "\<exists>rooted k ns. path_clean s = Inr (norm_path s) \<and> stack_ok rooted k ns \<and>
    norm_path s = (if render rooted (ups k @ ns) = [] then [dot] else render rooted (ups k @ ns))"
proof (cases "s = []")
  case True
  have "stack_ok False 0 []" by (simp add: stack_ok_def)
  moreover have "render False (ups 0 @ []) = []" by (simp add: render_def)
  moreover have "path_clean s = Inr [dot] \<and> norm_path s = [dot]"
    using True by (simp add: path_clean_def norm_path_def add_element_def render_def)
  ultimately show ?thesis by metis
next
  case False
  define rooted where "rooted = (hd s = slash)"
  define start where "start = (if rooted then 1 else 0 :: nat)"
  have hd: "(s ! 0 = slash) = rooted" using False by (simp add: hd_conv_nth rooted_def)
  have "List.take start s = render rooted []"
    using False by (cases s) (auto simp: start_def rooted_def render_def)
  moreover have "start = length (render rooted [])" by (simp add: start_def render_def)
  moreover have "start \<le> length s" using False by (cases s) (simp_all add: start_def)
  ultimately have "loop_inv s rooted start start s start 0 []" by (simp add: loop_inv_def stack_ok_def)
  from clean_loop_computes [OF this] obtain r p k ns where
    r: "clean_loop s rooted start start (s, start) = Inr (r, p)" "p \<le> length r"
       "List.take p r = render rooted (fold (add_element rooted) (elements (drop start s)) [])"
       "stack_ok rooted k ns" "fold (add_element rooted) (elements (drop start s)) [] = ups k @ ns" by auto
  have "fold (add_element rooted) (elements s) [] = ups k @ ns"
    using False r(5) by (cases s) (auto simp: start_def rooted_def add_element_def)
  moreover have "p = 0 \<longleftrightarrow> render rooted (ups k @ ns) = []" using r(2,3,5) by (metis length_take list.size(3) min.absorb2 take_0)
  ultimately have "path_clean s = Inr (norm_path s) \<and>
      norm_path s = (if render rooted (ups k @ ns) = [] then [dot] else render rooted (ups k @ ns))"
    using False r hd unfolding path_clean_def norm_path_def rooted_def [symmetric] start_def [symmetric] Let_def
    by (simp add: start_def [symmetric])
  then show ?thesis using r(4) by blast
qed

lemma elements_slashed: "st \<noteq> [] \<Longrightarrow> \<forall>c \<in> set st. slash \<notin> set c \<Longrightarrow> elements (slashed st) = st"
proof (induction st rule: slashed.induct)
  case (2 c)
  then show ?case using elements_append [of c "[]"] by simp
qed (simp_all add: elements_append)

lemma fold_ups: "fold (add_element False) (ups k) (ups j) = ups (j + k)"
proof (induction k arbitrary: j)
  case (Suc k)
  have "add_element False [dot, dot] (ups j) = ups (Suc j)"
    by (cases j) (simp_all add: add_element_def step_up_def replicate_append_same)
  then show ?case using Suc [of "Suc j"] by simp
qed simp

lemma fold_names: "list_all name_ok ns \<Longrightarrow> fold (add_element rooted) ns st = st @ ns"
  by (induction ns arbitrary: st) (auto simp: add_element_def name_ok_def)

lemma fold_clean: "stack_ok rooted k ns \<Longrightarrow> fold (add_element rooted) (ups k @ ns) [] = ups k @ ns"
  using fold_ups [of k 0] by (cases rooted) (auto simp: stack_ok_def fold_names)

lemma norm_render:
  assumes "stack_ok rooted k ns" "render rooted (ups k @ ns) \<noteq> []"
  shows "norm_path (render rooted (ups k @ ns)) = render rooted (ups k @ ns)"
proof -
  let ?st = "ups k @ ns"
  have "\<forall>c \<in> set ns. slash \<notin> set c \<and> c \<noteq> []" using assms(1) by (simp add: stack_ok_def name_ok_def list_all_iff)
  then have ns: "\<forall>c \<in> set ?st. slash \<notin> set c \<and> c \<noteq> []" by (simp add: ball_Un set_replicate_conv_if)
  have "fold (add_element rooted) (elements (render rooted ?st)) [] = ?st"
  proof (cases "?st = []")
    case True
    then show ?thesis using assms(2) by (cases rooted) (simp_all add: render_def add_element_def)
  next
    case False
    then have "elements (slashed ?st) = ?st" using ns by (intro elements_slashed) auto
    then show ?thesis using fold_clean [OF assms(1)] by (cases rooted) (simp_all add: render_def add_element_def)
  qed
  moreover have "hd (render rooted ?st) = slash \<longleftrightarrow> rooted"
  proof (cases rooted)
    case False
    then obtain c cs where st: "?st = c # cs" using assms(2) by (cases ?st) (auto simp: render_def)
    then have "c \<noteq> []" "slash \<notin> set c" using ns by auto
    then have "hd (slashed ?st) \<noteq> slash" unfolding st by (cases cs; cases c) auto
    then show ?thesis using False by (simp add: render_def)
  qed (simp add: render_def)
  ultimately show ?thesis using assms(2) by (simp add: norm_path_def)
qed

text \<open>
  C17. Cleaning a path in place computes what is left when its elements are taken one by one:
  empty ones and single dots are dropped, two dots take back the name before them, and at the
  root they vanish. The buffer is never left, and a clean path stays as it is.
\<close>

theorem path_clean_normalises:
  "path_clean s = Inr (norm_path s) \<and> path_clean (norm_path s) = Inr (norm_path s)"
proof -
  have "norm_path [dot] = [dot]" by (simp add: norm_path_def add_element_def render_def)
  moreover obtain rooted k ns where s: "path_clean s = Inr (norm_path s)" "stack_ok rooted k ns"
    "norm_path s = (if render rooted (ups k @ ns) = [] then [dot] else render rooted (ups k @ ns))"
    using path_clean_form by metis
  ultimately have "norm_path (norm_path s) = norm_path s" using norm_render [OF s(2)] by (cases "render rooted (ups k @ ns) = []") simp_all
  then show ?thesis using s(1) path_clean_form [of "norm_path s"] by metis
qed

text \<open>Splitting loses nothing, and the base of a path is its last element.\<close>

lemma path_split_joins: "fst (path_split s) @ snd (path_split s) = s"
  by (simp add: path_split_def)

lemma path_split_file: "slash \<notin> set (snd (path_split s))"
proof -
  let ?w = "takeWhile (\<lambda>c. c \<noteq> slash) (rev s)" and ?d = "dropWhile (\<lambda>c. c \<noteq> slash) (rev s)"
  have "s = rev ?d @ rev ?w" by (metis rev_append rev_rev_ident takeWhile_dropWhile_id)
  then have "drop (length ?d) s = rev ?w" by (metis append_eq_conv_conj length_rev)
  then show ?thesis by (auto simp: path_split_def after_slash_def dest: set_takeWhileD)
qed

end
