(* ===== verification/CoStr.thy ===== *)
theory CoStr
  imports CText
begin

text \<open>
  Strings of the \<open>co\<close> library (\<open>co/base/str.h\<close>, \<open>str.cc\<close>): splitting, replacing, stripping, and
  reading booleans and integers. What a \<open>const char*\<close> points to is a string without NUL; a
  \<open>fastring\<close> may have NULs in it. A search that never ends is \<open>None\<close>.
\<close>

section \<open>Splitting\<close>

text \<open>The rest becomes a piece unless it is empty.\<close>

definition tail_piece :: "string \<Rightarrow> string list" where
  "tail_piece from = (if from = [] then [] else [from])"

text \<open>The loop over a character: \<open>n\<close> pieces are there already, \<open>m\<close> is \<open>maxsplit\<close>.\<close>

function split_chars :: "char \<Rightarrow> nat \<Rightarrow> nat \<Rightarrow> string \<Rightarrow> string list" where
  "split_chars c m n from =
     (if c \<in> set from then
        let p = takeWhile (\<lambda>x. x \<noteq> c) from; rest = drop (length p + 1) from
        in p # (if n + 1 = m then tail_piece rest else split_chars c m (n + 1) rest)
      else tail_piece from)"
  by pat_completeness auto

termination
  by (relation "measure (\<lambda>(c, m, n, from). length from)") (auto dest: length_pos_if_in_set intro!: diff_less)

declare split_chars.simps [simp del]

definition str_split :: "string \<Rightarrow> char \<Rightarrow> u32 \<Rightarrow> string list" where
  "str_split s c m = split_chars c (unat m) 0 s"

text \<open>On a C string, \<open>strchr\<close> finds the end when asked for NUL, and the search goes on behind it.\<close>

definition cstr_split :: "string \<Rightarrow> char \<Rightarrow> u32 \<Rightarrow> string list outcome" where
  "cstr_split s c m = (if c = CHR 0x00 then Inl Out_Of_Range else Inr (split_chars c (unat m) 0 s))"

text \<open>\<open>strstr\<close>: where the first occurrence starts.\<close>

fun find_sub :: "string \<Rightarrow> string \<Rightarrow> nat option" where
  "find_sub sub [] = (if sub = [] then Some 0 else None)"
| "find_sub sub (c # t) = (if List.take (length sub) (c # t) = sub then Some 0 else map_option Suc (find_sub sub t))"

partial_function (option) split_strs :: "string \<Rightarrow> nat \<Rightarrow> nat \<Rightarrow> string \<Rightarrow> string list option" where
  "split_strs sub m n from =
     (case find_sub sub from of
        None \<Rightarrow> Some (tail_piece from)
      | Some p \<Rightarrow>
          (let rest = drop (p + length sub) from in
           if n + 1 = m then Some (List.take p from # tail_piece rest)
           else Option.bind (split_strs sub m (n + 1) rest) (\<lambda>v. Some (List.take p from # v))))"

definition cstr_split_str :: "string \<Rightarrow> string \<Rightarrow> u32 \<Rightarrow> string list option" where
  "cstr_split_str s sub m = split_strs sub (unat m) 0 s"

section \<open>Replacing\<close>

partial_function (option) replace_from :: "string \<Rightarrow> string \<Rightarrow> u32 \<Rightarrow> string \<Rightarrow> string option" where
  "replace_from sub to m from =
     (case find_sub sub from of
        None \<Rightarrow> Some from
      | Some p \<Rightarrow>
          (let rest = drop (p + length sub) from in
           if m - 1 = 0 then Some (List.take p from @ to @ rest)
           else Option.bind (replace_from sub to (m - 1) rest) (\<lambda>x. Some (List.take p from @ to @ x))))"

definition cstr_replace :: "string \<Rightarrow> string \<Rightarrow> string \<Rightarrow> u32 \<Rightarrow> string option" where
  "cstr_replace s sub to m = replace_from sub to m s"

text \<open>The version for a \<open>fastring\<close> searches it up to its first NUL.\<close>

definition until_nul :: "string \<Rightarrow> string" where
  "until_nul s = takeWhile (\<lambda>c. c \<noteq> CHR 0x00) s"

definition str_replace :: "string \<Rightarrow> string \<Rightarrow> string \<Rightarrow> u32 \<Rightarrow> string option" where
  "str_replace s sub to m =
     (if find_sub sub (until_nul s) = None then Some s else replace_from sub to m (until_nul s))"

section \<open>Stripping\<close>

text \<open>The five versions differ in how they tell the characters to strip.\<close>

definition str_strip :: "(char \<Rightarrow> bool) \<Rightarrow> char \<Rightarrow> string \<Rightarrow> string" where
  "str_strip bs d s =
     (let b = length (takeWhile bs s); e = length (dropWhile bs (rev s)) in
      if s = [] then []
      else if d = CHR ''l'' \<or> d = CHR ''L'' then drop b s
      else if d = CHR ''r'' \<or> d = CHR ''R'' then List.take e s
      else if b = length s then []
      else List.take (e - b) (drop b s))"

definition strip_of :: "string \<Rightarrow> char \<Rightarrow> bool" where
  "strip_of cs c \<longleftrightarrow> c \<in> set cs"

section \<open>Reading numbers\<close>

definition to_bool :: "string \<Rightarrow> bool outcome" where
  "to_bool s =
     (if s = ''false'' \<or> s = ''0'' then Inr False
      else if s = ''true'' \<or> s = ''1'' then Inr True
      else Inl (Thrown (''invalid value for bool: '' @ s)))"

text \<open>The value of a digit in any base, 36 for what is none.\<close>

definition digit36 :: "char \<Rightarrow> nat" where
  "digit36 c =
     (let k = of_char c in
      if 48 \<le> k \<and> k \<le> 57 then k - 48 else if 97 \<le> k \<and> k \<le> 122 then k - 87
      else if 65 \<le> k \<and> k \<le> 90 then k - 55 else (36 :: nat))"

definition digits_val :: "nat \<Rightarrow> string \<Rightarrow> nat" where
  "digits_val b ds = foldl (\<lambda>n c. b * n + digit36 c) 0 ds"

text \<open>
  The text \<open>strtoll\<close> and \<open>strtoull\<close> accept with base 0: sign, magnitude and the index behind it, 0
  when there is no number.
\<close>

definition is_x :: "char \<Rightarrow> bool" where
  "is_x c \<longleftrightarrow> c = CHR ''x'' \<or> c = CHR ''X''"

definition number_base :: "string \<Rightarrow> nat \<times> nat" where
  "number_base u =
     (if length u > 2 \<and> u ! 0 = CHR ''0'' \<and> is_x (u ! 1) \<and> digit36 (u ! 2) < 16 then (16, 2)
      else if u \<noteq> [] \<and> u ! 0 = CHR ''0'' then (8, 0) else (10, 0))"

definition c_number :: "string \<Rightarrow> bool \<times> nat \<times> nat" where
  "c_number s =
     (let w = length (takeWhile c_space s); t = drop w s;
          neg = (t \<noteq> [] \<and> hd t = CHR ''-''); sg = (if t \<noteq> [] \<and> (hd t = CHR ''-'' \<or> hd t = CHR ''+'') then 1 else 0);
          u = drop sg t; (b, pre) = number_base u;
          ds = takeWhile (\<lambda>c. digit36 c < b) (drop pre u)
      in if ds = [] then (False, 0, 0) else (neg, digits_val b ds, w + sg + pre + length ds))"

text \<open>Value, index behind the number, and whether it was out of range.\<close>

definition strtoll :: "string \<Rightarrow> int \<times> nat \<times> bool" where
  "strtoll s =
     (let (neg, v, e) = c_number s; x = (if neg then - int v else int v) in
      if x < - (2 ^ 63) then (- (2 ^ 63), e, True) else if x \<ge> 2 ^ 63 then (2 ^ 63 - 1, e, True) else (x, e, False))"

definition strtoull :: "string \<Rightarrow> u64 \<times> nat \<times> bool" where
  "strtoull s =
     (let (neg, v, e) = c_number s in
      if v \<ge> 2 ^ 64 then (- 1, e, True) else (if neg then - of_nat v else of_nat v, e, False))"

fun suffix_shift :: "char \<Rightarrow> nat" where
  "suffix_shift c =
     (if c = CHR ''k'' \<or> c = CHR ''K'' then 10
      else if c = CHR ''m'' \<or> c = CHR ''M'' then 20
      else if c = CHR ''g'' \<or> c = CHR ''G'' then 30
      else if c = CHR ''t'' \<or> c = CHR ''T'' then 40
      else if c = CHR ''p'' \<or> c = CHR ''P'' then 50
      else 0)"

definition not_integer :: "string \<Rightarrow> fault" where
  "not_integer s = Thrown (''invalid value for integer: '' @ s)"

text \<open>
  \<open>erange\<close> is whether \<open>errno\<close> is \<open>ERANGE\<close> before the call, the second result whether it is so after.
  A shift to the right of a negative number rounds down.
\<close>

definition to_int64 :: "bool \<Rightarrow> string \<Rightarrow> int outcome \<times> bool" where
  "to_int64 erange s =
     (if s = [] then (Inr 0, erange)
      else
        let (x, e, over) = strtoll s; erange = (erange \<or> over); range = Inl (Thrown (''out of range for int64: '' @ s)) in
        if erange \<and> (x = - (2 ^ 63) \<or> x = 2 ^ 63 - 1) then (range, False)
        else
          (if e = length s then Inr x
           else if e + 1 = length s \<and> suffix_shift (last s) \<noteq> 0 then
             (let k = suffix_shift (last s) in
              if x = 0 then Inr 0
              else if x < (- (2 ^ 63)) div 2 ^ k \<or> x > (2 ^ 63 - 1) div 2 ^ k then range
              else Inr (x * 2 ^ k))
           else Inl (not_integer s), erange))"

definition to_int32 :: "bool \<Rightarrow> string \<Rightarrow> int outcome \<times> bool" where
  "to_int32 erange s =
     (case to_int64 erange s of
        (r, erange) \<Rightarrow>
          (bindR r (\<lambda>x. if x > 2 ^ 31 - 1 \<or> x < - (2 ^ 31) then Inl (Thrown (''out of range for int32: '' @ s)) else Inr x), erange))"

text \<open>Negating the smallest signed number is undefined, a fault here.\<close>

definition signed_abs :: "u64 \<Rightarrow> int outcome" where
  "signed_abs x = (if sint x = - (2 ^ 63) then Inl Indeterminate else Inr (abs (sint x)))"

definition to_uint64 :: "bool \<Rightarrow> string \<Rightarrow> u64 outcome \<times> bool" where
  "to_uint64 erange s =
     (if s = [] then (Inr 0, erange)
      else
        let (x, e, over) = strtoull s; erange = (erange \<or> over); range = Inl (Thrown (''out of range for uint64: '' @ s)) in
        if erange \<and> x = - 1 then (range, False)
        else
          (if e = length s then Inr x
           else if e + 1 = length s \<and> suffix_shift (last s) \<noteq> 0 then
             (let k = suffix_shift (last s) in
              if x = 0 then Inr 0
              else bindR (signed_abs x) (\<lambda>a.
                if a > int (2 ^ 64 - 1) div 2 ^ k then range else Inr (push_bit k x)))
           else Inl (not_integer s), erange))"

definition to_uint32 :: "bool \<Rightarrow> string \<Rightarrow> u32 outcome \<times> bool" where
  "to_uint32 erange s =
     (case to_uint64 erange s of
        (r, erange) \<Rightarrow>
          (bindR r (\<lambda>x. bindR (signed_abs x) (\<lambda>a.
             if a > 2 ^ 32 - 1 then Inl (Thrown (''out of range for uint32: '' @ s)) else Inr (ucast x))), erange))"

text \<open>\<open>strtod\<close> is a parameter: the number, the index behind it, and whether it is out of range and infinite.\<close>

definition to_double :: "(string \<Rightarrow> 'd \<times> nat \<times> bool \<times> bool) \<Rightarrow> bool \<Rightarrow> string \<Rightarrow> 'd outcome \<times> bool" where
  "to_double strtod erange s =
     (let (x, e, over, huge) = strtod s; erange = (erange \<or> over) in
      if erange \<and> huge then (Inl (Thrown (''out of range for double: '' @ s)), False)
      else (if e \<noteq> length s then Inl (Thrown (''invalid value for double: '' @ s)) else Inr x, erange))"

section \<open>Pieces\<close>

text \<open>Pieces, each with a separator behind it.\<close>

definition with_seps :: "string \<Rightarrow> string list \<Rightarrow> string" where
  "with_seps sep ps = concat (map (\<lambda>p. p @ sep) ps)"

lemma with_seps_simps [simp]: "with_seps sep [] = []" "with_seps sep (p # ps) = p @ sep @ with_seps sep ps"
  by (simp_all add: with_seps_def)

lemma find_sub_here: "sub \<noteq> [] \<Longrightarrow> find_sub sub s = Some 0 \<longleftrightarrow> List.take (length sub) s = sub"
  by (cases s) auto

text \<open>The first occurrence: the text around it, and none that starts earlier.\<close>

lemma find_sub_first:
  assumes "find_sub sub s = Some p"
  shows "s = List.take p s @ sub @ drop (p + length sub) s \<and> p + length sub \<le> length s \<and>
    (\<forall>k < p. List.take (length sub) (drop k s) \<noteq> sub)"
  using assms
proof (induction s arbitrary: p)
  case (Cons c s)
  show ?case
  proof (cases "List.take (length sub) (c # s) = sub")
    case True
    moreover have "length sub \<le> length (c # s)" using arg_cong [OF True, of length] by simp
    moreover have "c # s = List.take (length sub) (c # s) @ drop (length sub) (c # s)" by simp
    ultimately show ?thesis using Cons.prems by auto
  next
    case False
    then obtain q where q: "find_sub sub s = Some q" "p = Suc q" using Cons.prems by auto
    with Cons.IH [of q] False show ?thesis by (auto simp: less_Suc_eq_0_disj)
  qed
qed (auto split: if_splits)

lemma find_sub_none: "find_sub sub s = None \<longleftrightarrow> (\<forall>k \<le> length s. List.take (length sub) (drop k s) \<noteq> sub)"
proof (induction s)
  case (Cons c s)
  have "(\<forall>k \<le> length (c # s). List.take (length sub) (drop k (c # s)) \<noteq> sub) \<longleftrightarrow>
      List.take (length sub) (c # s) \<noteq> sub \<and> (\<forall>k \<le> length s. List.take (length sub) (drop k s) \<noteq> sub)"
    by (metis Suc_le_mono drop0 drop_Suc_Cons le0 length_Cons not0_implies_Suc)
  then show ?case using Cons by auto
qed simp

text \<open>A text cut at every occurrence of \<open>sub\<close>, from the left.\<close>

definition cut_at :: "string \<Rightarrow> string \<Rightarrow> string list \<Rightarrow> string \<Rightarrow> bool" where
  "cut_at sub s u p \<longleftrightarrow> s = with_seps sub u @ p \<and> find_sub sub p = None \<and> (\<forall>q \<in> set u. find_sub sub (q @ butlast sub) = None)"

lemma take_butlast: "ys \<noteq> [] \<Longrightarrow> List.take (length xs + length ys - 1) (xs @ ys @ zs) = xs @ butlast ys"
  by (cases ys rule: rev_cases) auto

lemma first_piece:
  assumes "find_sub sub s = Some p" "sub \<noteq> []"
  shows "find_sub sub (List.take p s @ butlast sub) = None"
proof -
  note f = find_sub_first [OF assms(1)]
  have "length (List.take p s) = p" using f by simp
  then have t: "List.take p s @ butlast sub = List.take (p + length sub - 1) s"
    using take_butlast [OF assms(2), of "List.take p s" "drop (p + length sub) s"] conjunct1 [OF f] by metis
  have "List.take (length sub) (drop k (List.take (p + length sub - 1) s)) \<noteq> sub" for k
  proof (cases "k < p")
    case True
    then have "List.take (length sub) (drop k (List.take (p + length sub - 1) s)) = List.take (length sub) (drop k s)"
      using assms(2) by (simp add: drop_take min_def)
    then show ?thesis using f True by simp
  next
    case False
    then have "length (List.take (length sub) (drop k (List.take (p + length sub - 1) s))) < length sub"
      using assms(2) by (cases sub) auto
    then show ?thesis by (metis less_irrefl)
  qed
  then show ?thesis unfolding t find_sub_none by blast
qed

lemma cut_at_step:
  assumes "find_sub sub s = Some p" "sub \<noteq> []" "cut_at sub (drop (p + length sub) s) u r"
  shows "cut_at sub s (List.take p s # u) r"
  using assms(3) find_sub_first [OF assms(1)] first_piece [OF assms(1,2)]
  unfolding cut_at_def by simp

lemma find_sub_shorter: "find_sub sub s = Some p \<Longrightarrow> sub \<noteq> [] \<Longrightarrow> length (drop (p + length sub) s) < length s"
  using find_sub_first [of sub s p] by (cases sub) auto

lemma cut_exists: "sub \<noteq> [] \<Longrightarrow> \<exists>u p. cut_at sub s u p"
proof (induction s rule: length_induct)
  case (1 s)
  show ?case
  proof (cases "find_sub sub s")
    case None
    then have "cut_at sub s [] s" by (simp add: cut_at_def)
    then show ?thesis by blast
  next
    case (Some q)
    with find_sub_shorter 1 obtain u p where "cut_at sub (drop (q + length sub) s) u p" by blast
    from cut_at_step [OF Some 1(2) this] show ?thesis by blast
  qed
qed

text \<open>Splitting without a limit, and replacing, follow the cuts.\<close>

lemma split_strs_cuts: "sub \<noteq> [] \<Longrightarrow> \<exists>u p. cut_at sub s u p \<and> split_strs sub 0 n s = Some (u @ tail_piece p) \<and>
    (\<forall>m. length u < unat (m - 1) + 1 \<longrightarrow> replace_from sub to m s = Some (with_seps to u @ p))"
proof (induction s arbitrary: n rule: length_induct)
  case (1 s)
  show ?case
  proof (cases "find_sub sub s")
    case None
    then show ?thesis
      by (intro exI [of _ "[]"] exI [of _ s]) (simp add: cut_at_def split_strs.simps [of sub 0 n s] replace_from.simps [of sub to _ s])
  next
    case (Some q)
    let ?r = "drop (q + length sub) s"
    from 1(1) find_sub_shorter [OF Some 1(2)] 1(2) obtain u p where
      u: "cut_at sub ?r u p" "split_strs sub 0 (n + 1) ?r = Some (u @ tail_piece p)"
      and to: "\<And>m. length u < unat (m - 1) + 1 \<Longrightarrow> replace_from sub to m ?r = Some (with_seps to u @ p)" by meson
    have "replace_from sub to m s = Some (with_seps to (List.take q s # u) @ p)"
      if "length (List.take q s # u) < unat (m - 1) + 1" for m
    proof -
      have m: "m - 1 \<noteq> 0" using that by (auto simp: unat_eq_0)
      have "unat (m - 1 - 1) = unat (m - 1) - 1" using unat_minus_one [OF m] by simp
      moreover have "unat (m - 1) > 0" using m by (simp add: unat_gt_0)
      ultimately have "replace_from sub to (m - 1) ?r = Some (with_seps to u @ p)" using that by (intro to) simp
      then show ?thesis using Some m by (simp add: replace_from.simps [of sub to m s] Let_def)
    qed
    moreover have "split_strs sub 0 n s = Some ((List.take q s # u) @ tail_piece p)"
      using Some u(2) by (simp add: split_strs.simps [of sub 0 n s] Let_def)
    ultimately show ?thesis using cut_at_step [OF Some 1(2) u(1)] by blast
  qed
qed

text \<open>
  C27. Splitting a text at a separator and replacing it follow the same cuts, those at every
  first occurrence from the left: the pieces with the separator between them are the text, with
  the replacement between them they are the result, and no piece contains the separator.
\<close>

theorem split_and_replace_cut_alike:
  assumes "sub \<noteq> []" "length s < 2 ^ 32"
  shows "\<exists>u p. s = with_seps sub u @ p \<and> find_sub sub p = None \<and> (\<forall>q \<in> set u. find_sub sub (q @ butlast sub) = None) \<and>
    cstr_split_str s sub 0 = Some (u @ tail_piece p) \<and> cstr_replace s sub to 0 = Some (with_seps to u @ p)"
proof -
  from split_strs_cuts [OF assms(1)] obtain u p where
    u: "cut_at sub s u p" "split_strs sub 0 0 s = Some (u @ tail_piece p)"
    and r: "\<And>m. length u < unat (m - 1) + 1 \<Longrightarrow> replace_from sub to m s = Some (with_seps to u @ p)" by metis
  have "length u \<le> length (with_seps sub u)"
    using assms(1) by (induction u) (cases sub; simp)+
  then have "length u < 2 ^ 32" using u(1) assms(2) by (simp add: cut_at_def)
  moreover have "unat (0 - 1 :: u32) + 1 = 2 ^ 32" by (simp add: unsigned_minus_1_eq_mask mask_eq_exp_minus_1)
  ultimately have "replace_from sub to 0 s = Some (with_seps to u @ p)" by (intro r) linarith
  then show ?thesis using u unfolding cut_at_def cstr_split_str_def cstr_replace_def by auto
qed

theorem split_and_replace_cut_alike_witness:
  "\<exists>u p. ''a--b-'' = with_seps ''--'' u @ p \<and> cstr_replace ''a--b-'' ''--'' ''+'' 0 = Some (with_seps ''+'' u @ p)"
  using split_and_replace_cut_alike [of "''--''" "''a--b-''" "''+''"] by auto

text \<open>Looking for the empty text never gets on: without a limit the search does not end.\<close>

lemma split_at_nothing: "split_strs [] 0 n s = None"
proof -
  have "\<not> (sub = [] \<and> m = 0)" if "split_strs sub m n s = Some v" for sub m n s v
    using that
    by (rule split_strs.raw_induct [rotated])
      (auto simp: Let_def bind_eq_Some_conv split: option.splits if_splits; case_tac "from"; simp)
  then show ?thesis by (cases "split_strs [] 0 n s") blast+
qed

text \<open>Characters: each cut is at the next one.\<close>

lemma split_chars_cuts: "\<exists>u p. s = with_seps [c] u @ p \<and> c \<notin> set p \<and> (\<forall>q \<in> set u. c \<notin> set q) \<and> split_chars c 0 n s = u @ tail_piece p"
proof (induction s arbitrary: n rule: length_induct)
  case (1 s)
  show ?case
  proof (cases "c \<in> set s")
    case False
    then show ?thesis by (intro exI [of _ "[]"] exI [of _ s]) (simp add: split_chars.simps [of c 0 n s])
  next
    case True
    let ?p = "takeWhile (\<lambda>x. x \<noteq> c) s"
    let ?r = "drop (length ?p + 1) s"
    have s: "s = ?p @ c # ?r"
    proof -
      have "dropWhile (\<lambda>x. x \<noteq> c) s \<noteq> []" using True by (auto simp: dropWhile_eq_Nil_conv)
      then obtain r where r: "dropWhile (\<lambda>x. x \<noteq> c) s = c # r" using hd_dropWhile [of "\<lambda>x. x \<noteq> c" s] by (cases "dropWhile (\<lambda>x. x \<noteq> c) s") auto
      then have "s = ?p @ c # r" using takeWhile_dropWhile_id [of "\<lambda>x. x \<noteq> c" s] by metis
      moreover from this have "drop (length ?p + 1) s = r" by (metis append_eq_conv_conj drop_drop drop_Suc_Cons drop0 add.commute Suc_eq_plus1_left)
      ultimately show ?thesis by simp
    qed
    then have "length ?r < length s" by (metis length_append length_Cons less_add_Suc2 add_Suc_right)
    with 1 obtain u p where u: "?r = with_seps [c] u @ p" "c \<notin> set p" "\<forall>q \<in> set u. c \<notin> set q" "split_chars c 0 (n + 1) ?r = u @ tail_piece p"
      by meson
    have "c \<notin> set ?p" by (auto dest: set_takeWhileD)
    moreover have "split_chars c 0 n s = (?p # u) @ tail_piece p" using True u(4) by (simp add: split_chars.simps [of c 0 n s] Let_def)
    moreover have "s = with_seps [c] (?p # u) @ p" using s u(1) by simp
    ultimately show ?thesis using u by (intro exI [of _ "?p # u"] exI [of _ p]) simp
  qed
qed

section \<open>Stripping leaves the middle\<close>

lemma strip_left: "str_strip bs CHR ''l'' s = dropWhile bs s"
  by (simp add: str_strip_def dropWhile_eq_drop Let_def)

lemma take_stripped: "List.take (length (dropWhile P (rev s))) s = rev (dropWhile P (rev s))"
proof -
  have "s = rev (dropWhile P (rev s)) @ rev (takeWhile P (rev s))" by (metis rev_append rev_rev_ident takeWhile_dropWhile_id)
  then show ?thesis by (metis append_eq_conv_conj length_rev)
qed

lemma strip_right: "str_strip bs CHR ''r'' s = rev (dropWhile bs (rev s))"
  by (simp add: str_strip_def Let_def take_stripped)

text \<open>What is taken away on both sides is of the characters given, and nothing more can be.\<close>

lemma strip_both:
  assumes "d \<notin> set ''lLrR''"
  shows "\<exists>l r. s = l @ str_strip bs d s @ r \<and> list_all bs l \<and> list_all bs r \<and>
    (str_strip bs d s \<noteq> [] \<longrightarrow> \<not> bs (hd (str_strip bs d s)) \<and> \<not> bs (last (str_strip bs d s)))"
proof (cases "list_all bs s")
  case True
  then have t: "takeWhile bs s = s" by (simp add: list_all_iff takeWhile_eq_all_conv)
  have "str_strip bs d s = []" unfolding str_strip_def t Let_def using assms by simp
  then show ?thesis using True by (intro exI [of _ s] exI [of _ "[]"]) simp
next
  case False
  define l where "l = takeWhile bs s"
  define r where "r = rev (takeWhile bs (rev s))"
  define e where "e = length (dropWhile bs (rev s))"
  have e: "List.take e s = rev (dropWhile bs (rev s))" unfolding e_def by (rule take_stripped)
  have sr: "s = List.take e s @ r" unfolding e r_def by (metis rev_append rev_rev_ident takeWhile_dropWhile_id)
  obtain x t where x: "dropWhile bs s = x # t" "\<not> bs x"
    using False hd_dropWhile [of bs s] by (cases "dropWhile bs s") (auto simp: list_all_iff)
  have s: "s = l @ x # t" using x(1) takeWhile_dropWhile_id [of bs s] by (simp add: l_def)
  have "r = rev (takeWhile bs (rev t))"
    unfolding r_def s using x(2) by (simp add: takeWhile_tail)
  then obtain m where m: "x # t = m @ r" "m \<noteq> []" "hd m = x"
    by (metis append_Cons hd_append2 list.sel(1) list.discI rev_append rev_rev_ident takeWhile_dropWhile_id)
  have te: "List.take e s = l @ m" using sr s m(1) by (metis append.assoc append_same_eq)
  then have "length (l @ m) = e" unfolding e_def using e by (metis e_def length_rev)
  then have "str_strip bs d s = List.take (length m) (drop (length l) s)"
  proof -
    have "s \<noteq> []" "length l \<noteq> length s" using s by auto
    moreover have "e - length l = length m" using \<open>length (l @ m) = e\<close> by auto
    ultimately show ?thesis using assms unfolding str_strip_def l_def [symmetric] e_def [symmetric] Let_def by simp
  qed
  also have "\<dots> = m" using s m(1) by simp
  finally have strip: "str_strip bs d s = m" .
  have "last m = hd (dropWhile bs (rev s))"
    using te e m(2) by (metis last_appendR last_rev rev_is_Nil_conv append_is_Nil_conv rev_rev_ident hd_rev)
  moreover have "dropWhile bs (rev s) \<noteq> []" using e te m(2) by (metis append_is_Nil_conv rev_is_Nil_conv)
  ultimately have "\<not> bs (last m)" using hd_dropWhile [of bs "rev s"] by simp
  moreover have "list_all bs l" "list_all bs r" by (auto simp: l_def r_def list_all_iff dest: set_takeWhileD)
  ultimately show ?thesis unfolding strip using s m x(2) by (intro exI [of _ l] exI [of _ r]) simp
qed

section \<open>Numbers\<close>

lemma digit36_dec: "is_digit c \<Longrightarrow> digit36 c = digit_val c \<and> digit36 c < 10"
  by (auto simp: is_digit_def digit36_def digit_val_def Let_def)

lemma is_digit36: "digit36 c < 10 \<longleftrightarrow> is_digit c"
  by (auto simp: is_digit_def digit36_def Let_def split: if_splits)

lemma digits_val_dec: "list_all is_digit ds \<Longrightarrow> digits_val 10 ds = nat_of_digits ds"
proof (induction ds rule: rev_induct)
  case (snoc c ds)
  then show ?case by (simp add: digits_val_def nat_of_digits_def digit36_dec)
qed (simp add: digits_val_def nat_of_digits_def)

lemma dec_nat_nth0: "n \<noteq> 0 \<Longrightarrow> dec_nat n ! 0 \<noteq> CHR ''0''"
proof -
  assume "n \<noteq> 0"
  then obtain d r where d: "dec_nat n = digit_char d # r" "0 < d" "d < 10" using dec_nat_first [of n] by auto
  have "digit_char d \<noteq> CHR ''0''"
  proof
    assume "digit_char d = CHR ''0''"
    then have "digit_val (digit_char d) = digit_val (CHR ''0'')" by simp
    then show False using d(2,3) by (simp add: digit_val_def del: digit_char.simps)
  qed
  then show ?thesis using d(1) by simp
qed

lemma dec_nat_zero: "dec_nat 0 = ''0''"
  by code_simp

text \<open>The number a decimal text stands for, whatever follows it.\<close>

abbreviation ends_number :: "string \<Rightarrow> bool" where
  "ends_number r \<equiv> (case r of [] \<Rightarrow> True | c # _ \<Rightarrow> \<not> is_digit c \<and> \<not> is_x c)"

lemma unsigned_number:
  assumes "ends_number r"
  shows "\<exists>b. number_base (dec_nat n @ r) = (b, 0) \<and> takeWhile (\<lambda>c. digit36 c < b) (dec_nat n @ r) = dec_nat n \<and>
    digits_val b (dec_nat n) = n"
proof (cases "n = 0")
  case True
  have r: "takeWhile (\<lambda>c. digit36 c < 8) r = []"
    using assms is_digit36 by (cases r) force+
  have "number_base (''0'' @ r) = (8, 0)" using assms by (cases r) (simp_all add: number_base_def)
  then show ?thesis using r True by (simp add: dec_nat_zero digits_val_def digit36_def)
next
  case False
  obtain c t where ct: "dec_nat n = c # t" by (cases "dec_nat n") auto
  have "number_base (dec_nat n @ r) = (10, 0)" using dec_nat_nth0 [OF False] by (simp add: number_base_def ct)
  moreover have "takeWhile is_digit (dec_nat n @ r) = dec_nat n"
    using assms by (intro takeWhile_digits_dec) (auto split: list.splits)
  moreover have "digits_val 10 (dec_nat n) = n" using digits_val_dec [OF dec_nat_digits, of n] by simp
  ultimately show ?thesis by (simp add: is_digit36)
qed

lemma c_number_dec:
  assumes "ends_number r"
  shows "c_number (dec_int x @ r) = (x < 0, nat \<bar>x\<bar>, length (dec_int x))"
proof -
  obtain b where b: "number_base (dec_nat (nat \<bar>x\<bar>) @ r) = (b, 0)"
    "takeWhile (\<lambda>c. digit36 c < b) (dec_nat (nat \<bar>x\<bar>) @ r) = dec_nat (nat \<bar>x\<bar>)" "digits_val b (dec_nat (nat \<bar>x\<bar>)) = nat \<bar>x\<bar>"
    using unsigned_number [OF assms] by blast
  show ?thesis
  proof (cases "x < 0")
    case True
    then have "nat \<bar>x\<bar> = nat (- x)" by simp
    then show ?thesis using True b by (simp add: c_number_def dec_int_def c_space_def)
  next
    case False
    then have n: "nat \<bar>x\<bar> = nat x" by simp
    obtain c t where ct: "dec_nat (nat x) = c # t" by (cases "dec_nat (nat x)") auto
    then have "is_digit c" using dec_nat_digits [of "nat x"] by simp
    with digit_not_sign have "c \<noteq> CHR ''-''" "c \<noteq> CHR ''+''" "\<not> c_space c" by auto
    then show ?thesis using False b unfolding n by (simp add: c_number_def dec_int_def ct)
  qed
qed

lemma suffix_cases:
  assumes "suffix_shift c \<noteq> 0"
  shows "c \<in> set ''kKmMgGtTpP'' \<and> suffix_shift c \<in> {10, 20, 30, 40, 50}"
proof -
  have "c \<in> set ''kKmMgGtTpP''"
  proof (rule ccontr)
    assume "\<not> ?thesis"
    then have "suffix_shift c = 0" by (simp only: list.set suffix_shift.simps insert_iff de_Morgan_disj if_False simp_thms)
    with assms show False by blast
  qed
  then show ?thesis by auto
qed

declare suffix_shift.simps [simp del]

lemma suffix_not_digit: "suffix_shift c \<noteq> 0 \<Longrightarrow> \<not> is_digit c \<and> \<not> is_x c"
  by (drule suffix_cases, drule conjunct1) (auto simp: is_digit_def is_x_def)

text \<open>Sizes with a letter behind them.\<close>

definition scaled_text :: "int \<Rightarrow> char option \<Rightarrow> string" where
  "scaled_text x c = dec_int x @ (case c of None \<Rightarrow> [] | Some c \<Rightarrow> [c])"

definition scaled :: "int \<Rightarrow> char option \<Rightarrow> int" where
  "scaled x c = x * 2 ^ (case c of None \<Rightarrow> 0 | Some c \<Rightarrow> suffix_shift c)"

abbreviation in_int64 :: "int \<Rightarrow> bool" where
  "in_int64 x \<equiv> - (2 ^ 63) \<le> x \<and> x < 2 ^ 63"

lemma dec_int_ne [simp]: "dec_int x \<noteq> []"
  by (simp add: dec_int_def)

lemma shift_range:
  assumes "k \<in> {10, 20, 30, 40, 50 :: nat}"
  shows "(x < (- (2 ^ 63)) div 2 ^ k \<or> x > (2 ^ 63 - 1) div 2 ^ k) \<longleftrightarrow> \<not> in_int64 (x * 2 ^ k)"
  using assms by auto

lemma strtoll_dec:
  assumes "ends_number r" "in_int64 x"
  shows "strtoll (dec_int x @ r) = (x, length (dec_int x), False)"
  using assms(2) c_number_dec [OF assms(1), of x] by (cases "x < 0") (simp_all add: strtoll_def)

lemma strtoll_dec_over:
  assumes "ends_number r" "\<not> in_int64 x"
  shows "strtoll (dec_int x @ r) = ((if x < 0 then - (2 ^ 63) else 2 ^ 63 - 1), length (dec_int x), True)"
  using assms(2) c_number_dec [OF assms(1), of x] by (cases "x < 0") (auto simp: strtoll_def)

lemma scaled_grows: "in_int64 (scaled x suffix) \<Longrightarrow> in_int64 x"
proof (cases suffix)
  case (Some c)
  assume a: "in_int64 (scaled x suffix)"
  have p: "(1 :: int) \<le> 2 ^ suffix_shift c" by simp
  have "x \<le> x * 2 ^ suffix_shift c" if "0 \<le> x" using mult_left_mono [OF p that] by (simp only: mult_1_right)
  moreover have "x * 2 ^ suffix_shift c \<le> x" if "x \<le> 0" using mult_left_mono_neg [OF p that] by (simp only: mult_1_right)
  moreover have "in_int64 (x * 2 ^ suffix_shift c)" using a Some by (simp only: scaled_def option.case)
  ultimately show ?thesis by linarith
qed (simp add: scaled_def)

lemma scaled_text_ends:
  assumes "\<forall>c. suffix = Some c \<longrightarrow> suffix_shift c \<noteq> 0"
  obtains r where "scaled_text x suffix = dec_int x @ r" "ends_number r"
  using assms suffix_not_digit by (cases suffix) (auto simp: scaled_text_def)

text \<open>
  C26. A decimal number of any size, alone or with a letter for a power of 1024, is read as the
  number it stands for when that fits 64 bits; when it does not, be it the number before the
  letter or only the product, an error is thrown, never a wrapped value. \<open>errno\<close> is not cleared
  before the number is read: if an earlier call has left \<open>ERANGE\<close> in it, the least and the
  greatest 64-bit number are refused as well.
\<close>

theorem to_int64_reads_sizes:
  assumes "\<forall>c. suffix = Some c \<longrightarrow> suffix_shift c \<noteq> 0"
  shows "fst (to_int64 erange (scaled_text x suffix)) =
    (if in_int64 (scaled x suffix) \<and> \<not> (erange \<and> (x = - (2 ^ 63) \<or> x = 2 ^ 63 - 1)) then Inr (scaled x suffix)
     else Inl (Thrown (''out of range for int64: '' @ scaled_text x suffix)))"
proof (cases "in_int64 x \<and> \<not> (erange \<and> (x = - (2 ^ 63) \<or> x = 2 ^ 63 - 1))")
  case False
  obtain r where r: "scaled_text x suffix = dec_int x @ r" "ends_number r" using scaled_text_ends [OF assms] by blast
  have "\<not> (in_int64 (scaled x suffix) \<and> \<not> (erange \<and> (x = - (2 ^ 63) \<or> x = 2 ^ 63 - 1)))"
    using False scaled_grows by blast
  moreover have "fst (to_int64 erange (dec_int x @ r)) = Inl (Thrown (''out of range for int64: '' @ dec_int x @ r))"
    using False strtoll_dec_over [OF r(2), of x] strtoll_dec [OF r(2), of x]
    by (cases "in_int64 x") (auto simp: to_int64_def)
  ultimately show ?thesis using r(1) by simp
next
  case True
  show ?thesis
  proof (cases suffix)
    case None
    then show ?thesis using strtoll_dec [of "[]" x] True by (auto simp: to_int64_def scaled_text_def scaled_def)
  next
    case (Some c)
    then have c: "suffix_shift c \<noteq> 0" using assms by blast
    then have s: "strtoll (dec_int x @ [c]) = (x, length (dec_int x), False)"
      using suffix_not_digit True by (intro strtoll_dec) simp_all
    note r = shift_range [OF conjunct2 [OF suffix_cases [OF c]], of x]
    have n: "(erange \<and> (x = - (2 ^ 63) \<or> x = 2 ^ 63 - 1)) = False" using True by blast
    show ?thesis
    proof (cases "x = 0")
      case x: True
      then show ?thesis using s c Some by (simp add: to_int64_def scaled_text_def scaled_def Let_def)
    next
      case False
      have "fst (to_int64 erange (dec_int x @ [c])) =
          (if x < (- (2 ^ 63)) div 2 ^ suffix_shift c \<or> x > (2 ^ 63 - 1) div 2 ^ suffix_shift c
           then Inl (Thrown (''out of range for int64: '' @ dec_int x @ [c])) else Inr (x * 2 ^ suffix_shift c))"
        using False s c unfolding to_int64_def Let_def s prod.case simp_thms n by simp
      then show ?thesis unfolding r Some scaled_text_def scaled_def option.case n by simp
    qed
  qed
qed

theorem to_int64_reads_sizes_witness:
  "fst (to_int64 False (scaled_text (- 8) (Some (CHR ''k'')))) = Inr (- 8192) \<and>
   fst (to_int64 False (scaled_text (2 ^ 60) (Some (CHR ''m'')))) =
     Inl (Thrown (''out of range for int64: '' @ scaled_text (2 ^ 60) (Some (CHR ''m'')))) \<and>
   fst (to_int64 False (scaled_text (2 ^ 70) None)) = Inl (Thrown (''out of range for int64: '' @ scaled_text (2 ^ 70) None))"
proof -
  have "suffix_shift (CHR ''k'') = 10" "suffix_shift (CHR ''m'') = 20" by (simp_all add: suffix_shift.simps)
  then show ?thesis
    using to_int64_reads_sizes [of "Some (CHR ''k'')" False "- 8"] to_int64_reads_sizes [of "Some (CHR ''m'')" False "2 ^ 60"]
      to_int64_reads_sizes [of None False "2 ^ 70"]
    by (simp add: scaled_def)
qed

text \<open>A number out of the range of 32 bits that \<open>to_uint32\<close> takes for 1: read as a signed one it is small.\<close>

lemma to_uint32_wraps: "fst (to_uint32 False (dec_int 18446744069414584321)) = Inr 1"
  using c_number_dec [of "[]" 18446744069414584321]
  by (simp add: to_uint32_def to_uint64_def strtoull_def signed_abs_def)

end
