(* ===== verification/CoFastring.thy ===== *)
theory CoFastring
  imports StepSystem CoStr "HOL-Library.Sublist"
begin

unbundle bit_operations_syntax

text \<open>
  \<open>fastring\<close> (\<open>co/base/fastring.h\<close>, \<open>fastring.cc\<close>): strings whose copies share a counted buffer. The
  heap is explicit, since a change through one string shows in every string that shares its
  buffer. Sizes are 32-bit numbers, as in the buffer; what is written behind the capacity of
  a buffer is a fault. There are fewer than \<open>2 ^ 32\<close> copies of a string.
\<close>

section \<open>Buffers and strings\<close>

record mem =
  m_cap :: u32
  m_refn :: nat
  m_s :: string

record store =
  st_mem :: "nat \<Rightarrow> mem option"
  st_next :: nat
  st_var :: "nat \<Rightarrow> nat option"

definition store_start :: store where
  "store_start = \<lparr>st_mem = (\<lambda>_. None), st_next = 0, st_var = (\<lambda>_. None)\<rparr>"

text \<open>The buffer of a string, and its text.\<close>

definition buffer :: "store \<Rightarrow> nat \<Rightarrow> mem option" where
  "buffer st v = (case st_var st v of None \<Rightarrow> None | Some a \<Rightarrow> st_mem st a)"

definition text_of :: "store \<Rightarrow> nat \<Rightarrow> string" where
  "text_of st v = (case buffer st v of None \<Rightarrow> [] | Some m \<Rightarrow> m_s m)"

text \<open>A step over the buffer of a string; what a freed buffer holds is indeterminate.\<close>

definition with_buffer :: "store \<Rightarrow> nat \<Rightarrow> (nat \<Rightarrow> mem \<Rightarrow> 'a outcome) \<Rightarrow> 'a outcome" where
  "with_buffer st v f =
     (case st_var st v of
        None \<Rightarrow> Inl Null_Deref
      | Some a \<Rightarrow> (case st_mem st a of None \<Rightarrow> Inl Indeterminate | Some m \<Rightarrow> f a m))"

definition set_mem :: "nat \<Rightarrow> mem option \<Rightarrow> store \<Rightarrow> store" where
  "set_mem a m st = st\<lparr>st_mem := (st_mem st)(a := m)\<rparr>"

definition set_var :: "nat \<Rightarrow> nat option \<Rightarrow> store \<Rightarrow> store" where
  "set_var v a st = st\<lparr>st_var := (st_var st)(v := a)\<rparr>"

text \<open>\<open>_Init\<close>: a new buffer for the string.\<close>

definition fs_init :: "u32 \<Rightarrow> string \<Rightarrow> nat \<Rightarrow> store \<Rightarrow> store" where
  "fs_init cap s v st =
     (set_var v (Some (st_next st)) (set_mem (st_next st) (Some \<lparr>m_cap = cap, m_refn = 1, m_s = s\<rparr>) st))
       \<lparr>st_next := st_next st + 1\<rparr>"

text \<open>\<open>_Reserve\<close>: a shared buffer is left to the others, and the string gets one of its own.\<close>

definition fs_reserve_mem :: "u32 \<Rightarrow> nat \<Rightarrow> store \<Rightarrow> store outcome" where
  "fs_reserve_mem n v st =
     with_buffer st v (\<lambda>a m.
       if m_cap m < n then
         (if m_refn m = 1 then Inr (set_mem a (Some (m\<lparr>m_cap := n\<rparr>)) st)
          else Inr (fs_init n (m_s m) v (set_mem a (Some (m\<lparr>m_refn := m_refn m - 1\<rparr>)) st)))
       else Inr st)"

definition m_size :: "mem \<Rightarrow> u32" where
  "m_size m = of_nat (length (m_s m))"

definition fs_ensure :: "u32 \<Rightarrow> nat \<Rightarrow> store \<Rightarrow> store outcome" where
  "fs_ensure n v st =
     with_buffer st v (\<lambda>a m.
       if m_cap m < m_size m + n then fs_reserve_mem (drop_bit 1 (m_cap m * 3) + n) v st else Inr st)"

text \<open>Writing behind the text.\<close>

definition fs_write :: "string \<Rightarrow> nat \<Rightarrow> store \<Rightarrow> store outcome" where
  "fs_write bs v st =
     with_buffer st v (\<lambda>a m.
       if length (m_s m) + length bs \<le> unat (m_cap m) then Inr (set_mem a (Some (m\<lparr>m_s := m_s m @ bs\<rparr>)) st)
       else Inl Out_Of_Range)"

text \<open>Giving up a buffer: the last string frees it.\<close>

definition fs_drop :: "nat \<Rightarrow> store \<Rightarrow> store outcome" where
  "fs_drop v st =
     (if st_var st v = None then Inr st
      else with_buffer st v (\<lambda>a m.
        Inr (set_var v None (set_mem a (if m_refn m = 1 then None else Some (m\<lparr>m_refn := m_refn m - 1\<rparr>)) st))))"

definition fs_share :: "nat \<Rightarrow> nat \<Rightarrow> store \<Rightarrow> store outcome" where
  "fs_share v w st =
     (case st_var st w of
        None \<Rightarrow> Inr (set_var v None st)
      | Some a \<Rightarrow> with_buffer st w (\<lambda>a m. Inr (set_var v (Some a) (set_mem a (Some (m\<lparr>m_refn := m_refn m + 1\<rparr>)) st))))"

section \<open>The operations\<close>

text \<open>Construction from bytes, copying, assignment, moving, and the end of a string.\<close>

definition fs_make :: "string \<Rightarrow> nat \<Rightarrow> store \<Rightarrow> store" where
  "fs_make s v st = fs_init (of_nat (length s + 1)) s v st"

definition fs_make_c :: "string \<Rightarrow> nat \<Rightarrow> store \<Rightarrow> store" where
  "fs_make_c s v st = (if s = [] then set_var v None st else fs_make s v st)"

definition fs_copy :: "nat \<Rightarrow> nat \<Rightarrow> store \<Rightarrow> store outcome" where
  "fs_copy v w st = fs_share v w st"

definition fs_assign :: "nat \<Rightarrow> nat \<Rightarrow> store \<Rightarrow> store outcome" where
  "fs_assign v w st = (if v = w then Inr st else bindR (fs_drop v st) (fs_share v w))"

definition fs_move :: "nat \<Rightarrow> nat \<Rightarrow> store \<Rightarrow> store outcome" where
  "fs_move v w st = bindR (fs_drop v st) (\<lambda>st. Inr (set_var w None (set_var v (st_var st w) st)))"

definition fs_swap :: "nat \<Rightarrow> nat \<Rightarrow> store \<Rightarrow> store" where
  "fs_swap v w st = set_var w (st_var st v) (set_var v (st_var st w) st)"

text \<open>Appending: bytes, a character, a character several times, and another string or the same.\<close>

definition fs_append_bytes :: "string \<Rightarrow> nat \<Rightarrow> store \<Rightarrow> store outcome" where
  "fs_append_bytes bs v st =
     bindR (if st_var st v = None then Inr (fs_init (of_nat (length bs + 1)) [] v st) else fs_ensure (of_nat (length bs)) v st)
       (fs_write bs v)"

definition fs_append_char :: "char \<Rightarrow> nat \<Rightarrow> store \<Rightarrow> store outcome" where
  "fs_append_char c v st =
     bindR (if st_var st v = None then Inr (fs_init 16 [] v st) else fs_ensure 1 v st) (fs_write [c] v)"

definition fs_append_chars :: "char \<Rightarrow> nat \<Rightarrow> nat \<Rightarrow> store \<Rightarrow> store outcome" where
  "fs_append_chars c n v st = fs_append_bytes (replicate n c) v st"

definition fs_append :: "nat \<Rightarrow> nat \<Rightarrow> store \<Rightarrow> store outcome" where
  "fs_append v w st =
     (if v \<noteq> w then fs_append_bytes (text_of st w) v st
      else if st_var st v = None then Inr st
      else with_buffer st v (\<lambda>a m. bindR (fs_reserve_mem (push_bit 1 (m_size m)) v st) (fs_write (m_s m) v)))"

text \<open>What changes the text in place. \<open>junk\<close> is what the memory held that \<open>resize\<close> does not set.\<close>

definition fs_clear :: "nat \<Rightarrow> store \<Rightarrow> store outcome" where
  "fs_clear v st = (if st_var st v = None then Inr st else with_buffer st v (\<lambda>a m. Inr (set_mem a (Some (m\<lparr>m_s := []\<rparr>)) st)))"

definition fs_resize :: "string \<Rightarrow> nat \<Rightarrow> nat \<Rightarrow> store \<Rightarrow> store outcome" where
  "fs_resize junk n v st =
     bindR (if st_var st v = None then Inr (fs_init (of_nat n) [] v st) else fs_reserve_mem (of_nat n) v st) (\<lambda>st.
       with_buffer st v (\<lambda>a m. Inr (set_mem a (Some (m\<lparr>m_s := List.take n (m_s m @ List.take n junk)\<rparr>)) st)))"

definition fs_reserve :: "nat \<Rightarrow> nat \<Rightarrow> store \<Rightarrow> store outcome" where
  "fs_reserve n v st = (if st_var st v = None then Inr (fs_init (of_nat n) [] v st) else fs_reserve_mem (of_nat n) v st)"

text \<open>\<open>c_str\<close> makes room for the NUL and sets it.\<close>

definition fs_c_str :: "nat \<Rightarrow> store \<Rightarrow> store outcome" where
  "fs_c_str v st =
     (if st_var st v = None then Inr st
      else bindR (with_buffer st v (\<lambda>a m. fs_reserve_mem (m_size m + 1) v st)) (\<lambda>st.
        with_buffer st v (\<lambda>a m. if length (m_s m) < unat (m_cap m) then Inr st else Inl Out_Of_Range)))"

text \<open>\<open>strip\<close>, \<open>toupper\<close> and \<open>tolower\<close> rewrite the text in its buffer.\<close>

definition fs_rewrite :: "(string \<Rightarrow> string) \<Rightarrow> nat \<Rightarrow> store \<Rightarrow> store outcome" where
  "fs_rewrite f v st = (if st_var st v = None then Inr st else with_buffer st v (\<lambda>a m. Inr (set_mem a (Some (m\<lparr>m_s := f (m_s m)\<rparr>)) st)))"

definition trim_left :: "(char \<Rightarrow> bool) \<Rightarrow> string \<Rightarrow> string" where
  "trim_left bs s = drop (length (takeWhile bs s)) s"

definition trim_right :: "(char \<Rightarrow> bool) \<Rightarrow> string \<Rightarrow> string" where
  "trim_right bs s = List.take (length (dropWhile bs (rev s))) s"

definition fs_strip :: "(char \<Rightarrow> bool) \<Rightarrow> char \<Rightarrow> nat \<Rightarrow> store \<Rightarrow> store outcome" where
  "fs_strip bs d =
     fs_rewrite (if d = CHR ''l'' \<or> d = CHR ''L'' then trim_left bs
       else if d = CHR ''r'' \<or> d = CHR ''R'' then trim_right bs
       else (\<lambda>s. trim_left bs (trim_right bs s)))"

definition upper_char :: "char \<Rightarrow> char" where
  "upper_char c = (let k = of_char c in if 97 \<le> k \<and> k \<le> (122 :: nat) then char_of (k - 32) else c)"

definition lower_char :: "char \<Rightarrow> char" where
  "lower_char c = (let k = of_char c in if 65 \<le> k \<and> k \<le> (90 :: nat) then char_of (k + 32) else c)"

definition fs_toupper :: "nat \<Rightarrow> store \<Rightarrow> store outcome" where
  "fs_toupper = fs_rewrite (map upper_char)"

definition fs_tolower :: "nat \<Rightarrow> store \<Rightarrow> store outcome" where
  "fs_tolower = fs_rewrite (map lower_char)"

text \<open>Parts of a string are strings of their own.\<close>

definition fs_substr :: "nat \<Rightarrow> nat \<Rightarrow> nat \<Rightarrow> nat \<Rightarrow> store \<Rightarrow> store" where
  "fs_substr pos n v w st =
     (if pos \<ge> length (text_of st w) then set_var v None st else fs_make (List.take n (drop pos (text_of st w))) v st)"

definition fs_clone :: "nat \<Rightarrow> nat \<Rightarrow> store \<Rightarrow> store" where
  "fs_clone v w st = (if st_var st w = None then set_var v None st else fs_make (text_of st w) v st)"

text \<open>Assigning a C string keeps the buffer, shared or not; the bytes may be the string's own.\<close>

definition fs_set_text :: "string \<Rightarrow> nat \<Rightarrow> store \<Rightarrow> store outcome" where
  "fs_set_text s v st =
     with_buffer st v (\<lambda>a m. if length s \<le> unat (m_cap m) then Inr (set_mem a (Some (m\<lparr>m_s := s\<rparr>)) st) else Inl Out_Of_Range)"

definition fs_assign_c :: "string \<Rightarrow> nat \<Rightarrow> store \<Rightarrow> store outcome" where
  "fs_assign_c s v st =
     (if s = [] then fs_clear v st
      else if st_var st v = None then Inr (fs_make s v st)
      else bindR (fs_reserve_mem (of_nat (length s + 1)) v st) (fs_set_text s v))"

text \<open>\<open>replace\<close>; \<open>None\<close> when the search never ends.\<close>

definition fs_replace :: "string \<Rightarrow> string \<Rightarrow> u32 \<Rightarrow> nat \<Rightarrow> store \<Rightarrow> store outcome option" where
  "fs_replace sub to k v st =
     (if st_var st v = None then Some (Inr st)
      else
        let from = until_nul (text_of st v) in
        if find_sub sub from = None then Some (fs_c_str v st)
        else map_option (\<lambda>x.
          bindR (fs_c_str v st) (\<lambda>st. bindR (fs_resize x (length x) v st) (fs_set_text x v))) (replace_from sub to k from))"

section \<open>Programs over strings\<close>

datatype fs_op =
    Create string nat
  | Create_Room nat nat
  | Copy nat nat
  | Take_Over nat nat
  | End_Of nat
  | Assign nat nat
  | Move nat nat
  | Swap nat nat
  | Assign_Text string nat
  | Append_Text string nat
  | Append_Char char nat
  | Append_String nat nat
  | Clear nat
  | Resize string nat nat
  | Reserve nat nat
  | Zero_End nat
  | Strip string char nat
  | Upper nat
  | Lower nat
  | Substring nat nat nat nat
  | Clone nat nat
  | Replace string string u32 nat

text \<open>Running one; \<open>None\<close> when it never ends.\<close>

fun fs_do :: "fs_op \<Rightarrow> store \<Rightarrow> store outcome option" where
  "fs_do (Create s v) st = Some (Inr (fs_make_c s v st))"
| "fs_do (Create_Room n v) st = Some (Inr (fs_init (of_nat n) [] v st))"
| "fs_do (Copy v w) st = Some (fs_copy v w st)"
| "fs_do (Take_Over v w) st = Some (Inr (set_var w None (set_var v (st_var st w) st)))"
| "fs_do (End_Of v) st = Some (fs_drop v st)"
| "fs_do (Assign v w) st = Some (fs_assign v w st)"
| "fs_do (Move v w) st = Some (fs_move v w st)"
| "fs_do (Swap v w) st = Some (Inr (fs_swap v w st))"
| "fs_do (Assign_Text s v) st = Some (fs_assign_c s v st)"
| "fs_do (Append_Text s v) st = Some (fs_append_bytes s v st)"
| "fs_do (Append_Char c v) st = Some (fs_append_char c v st)"
| "fs_do (Append_String v w) st = Some (fs_append v w st)"
| "fs_do (Clear v) st = Some (fs_clear v st)"
| "fs_do (Resize junk n v) st = Some (fs_resize junk n v st)"
| "fs_do (Reserve n v) st = Some (fs_reserve n v st)"
| "fs_do (Zero_End v) st = Some (fs_c_str v st)"
| "fs_do (Strip cs d v) st = Some (fs_strip (\<lambda>c. c \<in> set cs) d v st)"
| "fs_do (Upper v) st = Some (fs_toupper v st)"
| "fs_do (Lower v) st = Some (fs_tolower v st)"
| "fs_do (Substring pos n v w) st = Some (Inr (fs_substr pos n v w st))"
| "fs_do (Clone v w) st = Some (Inr (fs_clone v w st))"
| "fs_do (Replace sub to k v) st = fs_replace sub to k v st"

text \<open>What the language and the size field ask: a string is constructed where there is none, and sizes fit 32 bits.\<close>

fun fs_allowed :: "fs_op \<Rightarrow> store \<Rightarrow> bool" where
  "fs_allowed (Create s v) st \<longleftrightarrow> st_var st v = None \<and> length s + 1 < 2 ^ 32"
| "fs_allowed (Create_Room n v) st \<longleftrightarrow> st_var st v = None \<and> n < 2 ^ 32"
| "fs_allowed (Copy v w) st \<longleftrightarrow> st_var st v = None"
| "fs_allowed (Take_Over v w) st \<longleftrightarrow> st_var st v = None"
| "fs_allowed (Assign_Text s v) st \<longleftrightarrow> length s + 1 < 2 ^ 32"
| "fs_allowed (Resize junk n v) st \<longleftrightarrow> n < 2 ^ 32"
| "fs_allowed (Reserve n v) st \<longleftrightarrow> n < 2 ^ 32"
| "fs_allowed (Substring pos n v w) st \<longleftrightarrow> st_var st v = None \<and> length (text_of st w) + 1 < 2 ^ 32"
| "fs_allowed (Clone v w) st \<longleftrightarrow> st_var st v = None \<and> length (text_of st w) + 1 < 2 ^ 32"
| "fs_allowed (Replace sub to k v) st \<longleftrightarrow>
     (case replace_from sub to k (until_nul (text_of st v)) of None \<Rightarrow> True | Some x \<Rightarrow> length x < 2 ^ 32)"
| "fs_allowed _ st \<longleftrightarrow> True"

text \<open>A program whose operations are allowed where they run.\<close>

inductive fs_step :: "store \<Rightarrow> store \<Rightarrow> bool" where
  "fs_allowed x st \<Longrightarrow> fs_do x st = Some (Inr st') \<Longrightarrow> fs_step st st'"

section \<open>Searching, matching and comparing\<close>

text \<open>
  \<open>rfind\<close>: the table of the first place of each byte in \<open>sub\<close>, counted from 1, 0 for none; the
  way back \<open>x\<close> is never 0.
\<close>

definition first_place :: "string \<Rightarrow> char \<Rightarrow> nat" where
  "first_place p c = (if c \<in> set p then length (takeWhile (\<lambda>x. x \<noteq> c) p) + 1 else 0)"

fun rfind_from :: "string \<Rightarrow> string \<Rightarrow> nat \<Rightarrow> nat option" where
  "rfind_from p s j =
     (if List.take (length p) (drop j s) = p then Some j
      else if j = 0 then None
      else
        let x = first_place p (s ! (j - 1)); x = (if x = 0 then length p + 1 else x)
        in if j < x \<or> x = 0 then None else rfind_from p s (j - x))"

declare rfind_from.simps [simp del]

definition rfind_char :: "char \<Rightarrow> string \<Rightarrow> nat option" where
  "rfind_char c s = (if c \<in> set s then Some (length s - 1 - length (takeWhile (\<lambda>x. x \<noteq> c) (rev s))) else None)"

definition fs_rfind :: "string \<Rightarrow> string \<Rightarrow> nat option" where
  "fs_rfind p s =
     (if length p = 1 then rfind_char (hd p) s
      else if length s < length p then None
      else rfind_from p s (length s - length p))"

text \<open>\<open>find\<close>, from a place on, and for characters in or not in a set.\<close>

definition fs_find_from :: "string \<Rightarrow> nat \<Rightarrow> string \<Rightarrow> nat option" where
  "fs_find_from sub pos s = (if pos \<ge> length s then None else map_option (\<lambda>k. pos + k) (find_sub sub (drop pos s)))"

definition fs_find :: "string \<Rightarrow> string \<Rightarrow> nat option" where
  "fs_find sub s = (if s = [] then None else find_sub sub s)"

definition find_char :: "char \<Rightarrow> string \<Rightarrow> nat option" where
  "find_char c s = (if c \<in> set s then Some (length (takeWhile (\<lambda>x. x \<noteq> c) s)) else None)"

text \<open>These search the string up to its first NUL.\<close>

definition find_first_that :: "(char \<Rightarrow> bool) \<Rightarrow> string \<Rightarrow> nat option" where
  "find_first_that P s = (let t = until_nul s; r = length (takeWhile (\<lambda>x. \<not> P x) t) in if r < length t then Some r else None)"

definition find_first_of :: "string \<Rightarrow> string \<Rightarrow> nat option" where
  "find_first_of cs s = find_first_that (\<lambda>c. c \<in> set cs) s"

definition find_first_not_of :: "string \<Rightarrow> string \<Rightarrow> nat option" where
  "find_first_not_of cs s = find_first_that (\<lambda>c. c \<notin> set cs) s"

definition find_last_that :: "(char \<Rightarrow> bool) \<Rightarrow> string \<Rightarrow> nat option" where
  "find_last_that P s = (let r = length (dropWhile (\<lambda>x. \<not> P x) (rev s)) in if r = 0 then None else Some (r - 1))"

definition find_last_of :: "string \<Rightarrow> string \<Rightarrow> nat option" where
  "find_last_of cs s = find_last_that (\<lambda>c. c \<in> set cs) s"

definition find_last_not_of :: "string \<Rightarrow> string \<Rightarrow> nat option" where
  "find_last_not_of cs s = find_last_that (\<lambda>c. c \<notin> set cs) s"

definition starts_with :: "string \<Rightarrow> string \<Rightarrow> bool" where
  "starts_with p s \<longleftrightarrow> length s \<ge> length p \<and> List.take (length p) s = p"

definition ends_with :: "string \<Rightarrow> string \<Rightarrow> bool" where
  "ends_with p s \<longleftrightarrow> length s \<ge> length p \<and> drop (length s - length p) s = p"

text \<open>\<open>_Match\<close>, for C strings.\<close>

definition star :: char where "star = CHR ''*''"

definition any_char :: char where "any_char = CHR 0x3F"

function match_pat :: "string \<Rightarrow> string \<Rightarrow> bool" where
  "match_pat e p =
     (if p = [star] then True
      else if p = [] \<or> e = [] then p = [star] \<or> p = [] \<and> e = []
      else if hd p = star then match_pat e (tl p) \<or> match_pat (tl e) p
      else if hd p \<noteq> any_char \<and> hd p \<noteq> hd e then False
      else match_pat (tl e) (tl p))"
  by pat_completeness auto

termination
  by (relation "measure (\<lambda>(e, p). length e + length p)") (auto simp: neq_Nil_conv)

declare match_pat.simps [simp del]

text \<open>The order of two strings, as \<open>operator<\<close> and \<open>operator>\<close> compute it from \<open>memcmp\<close>.\<close>

fun mem_less :: "nat \<Rightarrow> string \<Rightarrow> string \<Rightarrow> bool" where
  "mem_less 0 a b = False"
| "mem_less (Suc n) a b =
     (case (a, b) of
        (x # a, y # b) \<Rightarrow> (of_char x :: nat) < of_char y \<or> x = y \<and> mem_less n a b
      | _ \<Rightarrow> False)"

definition mem_equal :: "nat \<Rightarrow> string \<Rightarrow> string \<Rightarrow> bool" where
  "mem_equal n a b \<longleftrightarrow> List.take n a = List.take n b"

definition fs_less :: "string \<Rightarrow> string \<Rightarrow> bool" where
  "fs_less a b =
     (if length a < length b then a = [] \<or> mem_less (length a) a b \<or> mem_equal (length a) a b
      else mem_less (length b) a b)"

definition fs_greater :: "string \<Rightarrow> string \<Rightarrow> bool" where
  "fs_greater a b =
     (if length a > length b then b = [] \<or> mem_less (length b) b a \<or> mem_equal (length b) a b
      else mem_less (length a) b a)"

section \<open>Who owns a buffer\<close>

definition refs :: "nat \<Rightarrow> store \<Rightarrow> nat" where
  "refs a st = card {v. st_var st v = Some a}"

text \<open>
  Finitely many strings; a buffer counts the strings that point to it, there is at least one,
  and its text fits; a string points to a buffer that is there.
\<close>

definition mem_ok :: "nat \<Rightarrow> store \<Rightarrow> bool" where
  "mem_ok a st \<longleftrightarrow>
     (case st_mem st a of
        None \<Rightarrow> refs a st = 0
      | Some m \<Rightarrow> m_refn m = refs a st \<and> 0 < m_refn m \<and> length (m_s m) \<le> unat (m_cap m) \<and> a < st_next st)"

definition store_inv :: "store \<Rightarrow> bool" where
  "store_inv st \<longleftrightarrow> finite {v. st_var st v \<noteq> None} \<and> (\<forall>a. mem_ok a st)"

lemma store_invD:
  assumes "store_inv st"
  shows "finite {v. st_var st v = Some a}" "mem_ok a st"
  using assms unfolding store_inv_def by (auto elim: rev_finite_subset)

lemma live_buffer:
  assumes "store_inv st" "st_var st v = Some a"
  shows "\<exists>m. st_mem st a = Some m \<and> 0 < m_refn m \<and> length (m_s m) \<le> unat (m_cap m) \<and> a < st_next st"
proof -
  have "v \<in> {v. st_var st v = Some a}" using assms(2) by simp
  then have "refs a st \<noteq> 0" unfolding refs_def using store_invD(1) [OF assms(1)] by (metis card_0_eq empty_iff)
  then show ?thesis using store_invD(2) [OF assms(1), of a] by (auto simp: mem_ok_def split: option.splits)
qed

lemma refs_fewer:
  assumes "store_inv st" "st_var st v = Some a"
  shows "refs b (set_var v None st) = (if b = a then refs b st - 1 else refs b st)"
proof -
  have "{w. st_var (set_var v None st) w = Some b} = {w. st_var st w = Some b} - {v}" by (auto simp: set_var_def)
  then show ?thesis using assms(2) store_invD(1) [OF assms(1), of b] by (auto simp: refs_def card_Diff_singleton)
qed

lemma refs_more:
  assumes "store_inv st" "st_var st v = None"
  shows "refs b (set_var v (Some a) st) = (if b = a then refs b st + 1 else refs b st)"
proof -
  have "{w. st_var (set_var v (Some a) st) w = Some b} = (if b = a then insert v {w. st_var st w = Some b} else {w. st_var st w = Some b})"
    using assms(2) by (auto simp: set_var_def)
  moreover have "card (insert v {w. st_var st w = Some b}) = Suc (card {w. st_var st w = Some b})"
    using assms(2) by (intro card_insert_disjoint store_invD(1) [OF assms(1)]) simp
  ultimately show ?thesis by (cases "b = a") (metis Suc_eq_plus1 refs_def, metis refs_def)
qed

lemma finite_vars: "finite {v. st_var st v \<noteq> None} \<Longrightarrow> finite {u. st_var (set_var v x st) u \<noteq> None}"
  by (rule finite_subset [of _ "insert v {v. st_var st v \<noteq> None}"]) (auto simp: set_var_def)

lemma set_mem_refs [simp]: "refs b (set_mem a m st) = refs b st" "st_var (set_mem a m st) = st_var st" "st_next (set_mem a m st) = st_next st"
  by (simp_all add: refs_def set_mem_def)

lemma set_mem_at [simp]: "st_mem (set_mem a m st) b = (if b = a then m else st_mem st b)"
  by (simp add: set_mem_def)

lemma set_var_mem [simp]: "st_mem (set_var v x st) = st_mem st" "st_next (set_var v x st) = st_next st"
  by (simp_all add: set_var_def)

text \<open>A buffer whose text or capacity changes; giving up a buffer; sharing one; a new one.\<close>

lemma change_inv:
  assumes "store_inv st" "st_mem st a = Some m" "m_refn m' = m_refn m" "length (m_s m') \<le> unat (m_cap m')"
  shows "store_inv (set_mem a (Some m') st)"
proof -
  have "mem_ok b (set_mem a (Some m') st)" for b
    using store_invD(2) [OF assms(1), of b] assms(2-4) by (auto simp: mem_ok_def split: option.splits)
  then show ?thesis using assms(1) by (simp add: store_inv_def)
qed

lemma drop_inv:
  assumes "store_inv st" "st_var st v = Some a" "st_mem st a = Some m"
  shows "store_inv (set_var v None (set_mem a (if m_refn m = 1 then None else Some (m\<lparr>m_refn := m_refn m - 1\<rparr>)) st))"
proof -
  let ?m = "if m_refn m = 1 then None else Some (m\<lparr>m_refn := m_refn m - 1\<rparr>)"
  have r: "refs b (set_var v None (set_mem a ?m st)) = (if b = a then refs b st - 1 else refs b st)" for b
    using refs_fewer [OF assms(1,2), of b] by (simp add: refs_def set_var_def set_mem_def)
  have "mem_ok b (set_var v None (set_mem a ?m st))" for b
    using store_invD(2) [OF assms(1), of b] assms(3) unfolding mem_ok_def r by (auto split: option.splits)
  then show ?thesis using assms(1) finite_vars [of "set_mem a ?m st" v None] by (simp add: store_inv_def)
qed

lemma share_inv:
  assumes "store_inv st" "st_var st v = None" "st_mem st a = Some m"
  shows "store_inv (set_var v (Some a) (set_mem a (Some (m\<lparr>m_refn := m_refn m + 1\<rparr>)) st))"
proof -
  let ?m = "Some (m\<lparr>m_refn := m_refn m + 1\<rparr>)"
  have r: "refs b (set_var v (Some a) (set_mem a ?m st)) = (if b = a then refs b st + 1 else refs b st)" for b
    using refs_more [OF assms(1,2), of b a] by (simp add: refs_def set_var_def set_mem_def)
  have "mem_ok b (set_var v (Some a) (set_mem a ?m st))" for b
    using store_invD(2) [OF assms(1), of b] assms(3) unfolding mem_ok_def r by (auto split: option.splits)
  then show ?thesis using assms(1) finite_vars [of "set_mem a ?m st" v "Some a"] by (simp add: store_inv_def)
qed

lemma init_inv:
  assumes "store_inv st" "st_var st v = None" "length s \<le> unat cap"
  shows "store_inv (fs_init cap s v st)"
proof -
  let ?a = "st_next st" and ?st = "fs_init cap s v st"
  have fresh: "st_mem st ?a = None" "refs ?a st = 0"
    using store_invD(2) [OF assms(1), of ?a] by (auto simp: mem_ok_def split: option.splits)
  have r: "refs b ?st = (if b = ?a then 1 else refs b st)" for b
    using refs_more [OF assms(1,2), of b ?a] fresh(2) by (simp add: refs_def set_var_def set_mem_def fs_init_def)
  have "mem_ok b ?st" for b
    using store_invD(2) [OF assms(1), of b] assms(3) unfolding mem_ok_def r by (auto simp: fs_init_def split: option.splits)
  moreover have "finite {u. st_var ?st u \<noteq> None}"
    using assms(1) finite_vars [of "set_mem ?a (Some \<lparr>m_cap = cap, m_refn = 1, m_s = s\<rparr>) st" v "Some ?a"]
    by (simp add: store_inv_def fs_init_def)
  ultimately show ?thesis by (simp add: store_inv_def)
qed

text \<open>Two strings that change places.\<close>

lemma swap_inv: "store_inv st \<Longrightarrow> store_inv (fs_swap v w st)"
proof -
  assume i: "store_inv st"
  let ?f = "\<lambda>u. if u = v then w else if u = w then v else u"
  have "inj ?f" by (auto simp: inj_def split: if_splits)
  have img: "{u. st_var (fs_swap v w st) u = x} = ?f ` {u. st_var st u = x}" for x
    by (auto simp: fs_swap_def set_var_def image_iff split: if_splits)
  have r: "refs a (fs_swap v w st) = refs a st" for a
    unfolding refs_def img by (rule card_image) (use \<open>inj ?f\<close> in \<open>auto intro: inj_on_subset\<close>)
  have d: "{u. st_var (fs_swap v w st) u \<noteq> None} = ?f ` {u. st_var st u \<noteq> None}"
    by (auto simp: fs_swap_def set_var_def image_iff split: if_splits)
  have "finite {u. st_var (fs_swap v w st) u \<noteq> None}"
    unfolding d by (rule finite_imageI) (use i in \<open>simp add: store_inv_def\<close>)
  moreover have "mem_ok a (fs_swap v w st)" for a
    using store_invD(2) [OF i, of a] unfolding mem_ok_def r by (simp add: fs_swap_def split: option.splits)
  ultimately show ?thesis unfolding store_inv_def by blast
qed

section \<open>What each operation does\<close>

text \<open>A string that points to a buffer, with its text and a capacity.\<close>

definition holds :: "store \<Rightarrow> nat \<Rightarrow> string \<Rightarrow> u32 \<Rightarrow> bool" where
  "holds st v s c \<longleftrightarrow> (\<exists>a m. st_var st v = Some a \<and> st_mem st a = Some m \<and> m_s m = s \<and> m_cap m = c)"

lemma holdsE:
  assumes "store_inv st" "st_var st v \<noteq> None"
  obtains s c where "holds st v s c" "length s \<le> unat c"
proof -
  obtain a where a: "st_var st v = Some a" using assms(2) by blast
  obtain m where "st_mem st a = Some m" "length (m_s m) \<le> unat (m_cap m)" using live_buffer [OF assms(1) a] by blast
  then show thesis using that [of "m_s m" "m_cap m"] a by (auto simp: holds_def)
qed

lemma holds_text: "holds st v s c \<Longrightarrow> text_of st v = s"
  by (auto simp: holds_def text_of_def buffer_def)

lemma holds_same: "holds st v s c \<Longrightarrow> holds st v s' c' \<Longrightarrow> s' = s \<and> c' = c"
  by (auto simp: holds_def)

lemma no_text: "st_var st v = None \<Longrightarrow> text_of st v = []"
  by (simp add: text_of_def buffer_def)

lemma init_over: "fs_init c s v (set_var v x st) = fs_init c s v st"
  by (simp add: fs_init_def set_var_def set_mem_def)

lemma init_holds: "holds (fs_init c s v st) v s c"
  by (simp add: holds_def fs_init_def set_var_def set_mem_def)

lemma init_others:
  assumes "store_inv st" "w \<noteq> v"
  shows "text_of (fs_init c s v st) w = text_of st w"
proof (cases "st_var st w")
  case (Some b)
  then have "b \<noteq> st_next st" using live_buffer [OF assms(1) Some] by auto
  then show ?thesis using Some assms(2) by (simp add: text_of_def buffer_def fs_init_def set_var_def set_mem_def)
qed (use assms(2) in \<open>simp add: text_of_def buffer_def fs_init_def set_var_def set_mem_def\<close>)

text \<open>Making room keeps every text.\<close>

lemma reserve_spec:
  assumes i: "store_inv st" and v: "holds st v s c"
  shows "\<exists>st' c'. fs_reserve_mem n v st = Inr st' \<and> store_inv st' \<and> holds st' v s c' \<and> n \<le> c' \<and> c \<le> c' \<and>
    (\<forall>w. text_of st' w = text_of st w) \<and> (\<forall>w. st_var st' w = None \<longleftrightarrow> st_var st w = None) \<and>
    (\<forall>w. w \<noteq> v \<longrightarrow> st_var st' w = st_var st w) \<and> (c < n \<longrightarrow> (\<forall>w. w \<noteq> v \<longrightarrow> st_var st' w \<noteq> st_var st' v))"
proof -
  obtain a m where a: "st_var st v = Some a" "st_mem st a = Some m" "m_s m = s" "m_cap m = c"
    using v by (auto simp: holds_def)
  have len: "length (m_s m) \<le> unat (m_cap m)" using live_buffer [OF i a(1)] a(2) by auto
  consider "\<not> c < n" | "c < n" "m_refn m = 1" | "c < n" "m_refn m \<noteq> 1" by blast
  then show ?thesis
  proof cases
    case 1
    then show ?thesis using i v a by (auto simp: fs_reserve_mem_def with_buffer_def)
  next
    case 2
    let ?st = "set_mem a (Some (m\<lparr>m_cap := n\<rparr>)) st"
    have "unat c \<le> unat n" using 2(1) by (simp add: word_less_nat_alt)
    then have "store_inv ?st" using len a(4) by (intro change_inv [OF i a(2)]) simp_all
    moreover have "holds ?st v s n" using a by (simp add: holds_def)
    moreover have "text_of ?st w = text_of st w" for w
      using a(2) by (simp add: text_of_def buffer_def split: option.splits)
    moreover have "fs_reserve_mem n v st = Inr ?st" using 2 a by (simp add: fs_reserve_mem_def with_buffer_def)
    moreover have "w = v" if "st_var st w = st_var st v" for w
    proof -
      have "refs a st = 1" using store_invD(2) [OF i, of a] a(2) 2(2) by (simp add: mem_ok_def)
      then obtain x where x: "{u. st_var st u = Some a} = {x}" unfolding refs_def by (auto simp: card_1_singleton_iff)
      have "w \<in> {u. st_var st u = Some a}" "v \<in> {u. st_var st u = Some a}" using that a(1) by simp_all
      then show ?thesis unfolding x by simp
    qed
    ultimately show ?thesis using 2(1) by (intro exI [of _ ?st] exI [of _ n]) auto
  next
    case 3
    let ?left = "set_mem a (Some (m\<lparr>m_refn := m_refn m - 1\<rparr>)) st"
    let ?st = "fs_init n s v ?left"
    have fi: "fs_reserve_mem n v st = Inr ?st" using 3 a by (simp add: fs_reserve_mem_def with_buffer_def)
    have d: "store_inv (set_var v None ?left)" using drop_inv [OF i a(1,2)] 3(2) by simp
    have "length s \<le> unat n" using len a(3,4) 3(1) by (simp add: word_less_nat_alt)
    then have "store_inv ?st" using init_inv [OF d, of v s n] by (simp add: init_over) (simp add: set_var_def)
    moreover have "text_of ?st w = text_of st w" for w
    proof (cases "w = v")
      case True
      then show ?thesis using holds_text [OF init_holds] holds_text [OF v] by simp
    next
      case False
      have "text_of ?st w = text_of (set_var v None ?left) w" using init_others [OF d False] by (simp add: init_over)
      also have "\<dots> = text_of st w" using False a(2) by (simp add: text_of_def buffer_def set_var_def split: option.splits)
      finally show ?thesis .
    qed
    moreover have "st_var ?st w = None \<longleftrightarrow> st_var st w = None" for w using a(1) by (simp add: fs_init_def set_var_def)
    moreover have "w \<noteq> v \<Longrightarrow> st_var ?st w = st_var st w" for w by (simp add: fs_init_def set_var_def)
    moreover have "w \<noteq> v \<Longrightarrow> st_var ?st w \<noteq> st_var ?st v" for w
      using live_buffer [OF i, of w "st_next st"] by (auto simp: fs_init_def set_var_def)
    ultimately show ?thesis using fi 3(1) init_holds [of n s v ?left] by (intro exI [of _ ?st] exI [of _ n]) simp
  qed
qed

lemma ensure_spec:
  assumes i: "store_inv st" and v: "holds st v s c"
  shows "\<exists>st' c'. fs_ensure n v st = Inr st' \<and> store_inv st' \<and> holds st' v s c' \<and> c \<le> c' \<and>
    (\<forall>w. text_of st' w = text_of st w) \<and> (\<forall>w. w \<noteq> v \<longrightarrow> st_var st' w = st_var st w) \<and>
    (c < c' \<longrightarrow> (\<forall>w. w \<noteq> v \<longrightarrow> st_var st' w \<noteq> st_var st' v)) \<and>
    (c' = c \<longrightarrow> st' = st) \<and> (of_nat (length s) + n \<le> c \<longrightarrow> st' = st) \<and>
    (c < of_nat (length s) + n \<longrightarrow> drop_bit 1 (c * 3) + n \<le> c')"
proof -
  have e: "fs_ensure n v st = (if c < of_nat (length s) + n then fs_reserve_mem (drop_bit 1 (c * 3) + n) v st else Inr st)"
    using v by (auto simp: holds_def fs_ensure_def with_buffer_def m_size_def)
  show ?thesis
  proof (cases "c < of_nat (length s) + n")
    case True
    obtain st' c' where r: "fs_reserve_mem (drop_bit 1 (c * 3) + n) v st = Inr st'" "store_inv st'" "holds st' v s c'"
      "drop_bit 1 (c * 3) + n \<le> c'" "c \<le> c'" "\<forall>w. text_of st' w = text_of st w" "\<forall>w. w \<noteq> v \<longrightarrow> st_var st' w = st_var st w"
      "c < drop_bit 1 (c * 3) + n \<longrightarrow> (\<forall>w. w \<noteq> v \<longrightarrow> st_var st' w \<noteq> st_var st' v)"
      using reserve_spec [OF i v, of "drop_bit 1 (c * 3) + n"] by blast
    have same: "st' = st" if "\<not> c < drop_bit 1 (c * 3) + n"
      using that r(1) v by (auto simp: holds_def fs_reserve_mem_def with_buffer_def)
    have "st' = st" if "c' = c" using same r(4) that by simp
    moreover have "c < drop_bit 1 (c * 3) + n" if "c < c'"
      using same r(3) holds_same [OF v, of s c'] that by blast
    moreover have "\<not> of_nat (length s) + n \<le> c" using True by simp
    moreover have "fs_ensure n v st = Inr st'" using e True r(1) by simp
    ultimately show ?thesis using r(2-8) by blast
  next
    case False
    then show ?thesis using e i v by (intro exI [of _ st] exI [of _ c]) auto
  qed
qed

text \<open>A change of a buffer shows in the strings that point to it.\<close>

lemma change_text:
  "text_of (set_mem a (Some m) st) w = (if st_var st w = Some a then m_s m else text_of st w)"
  by (simp add: text_of_def buffer_def split: option.splits)

lemma write_spec:
  assumes i: "store_inv st" and v: "holds st v s c" and fits: "length s + length bs \<le> unat c"
  shows "\<exists>st'. fs_write bs v st = Inr st' \<and> store_inv st' \<and> holds st' v (s @ bs) c \<and> st_var st' = st_var st \<and>
    (\<forall>w. text_of st' w = (if st_var st w = st_var st v then s @ bs else text_of st w))"
proof -
  obtain a m where a: "st_var st v = Some a" "st_mem st a = Some m" "m_s m = s" "m_cap m = c"
    using v by (auto simp: holds_def)
  let ?m = "m\<lparr>m_s := m_s m @ bs\<rparr>"
  have "fs_write bs v st = Inr (set_mem a (Some ?m) st)" using a fits by (simp add: fs_write_def with_buffer_def)
  moreover have "store_inv (set_mem a (Some ?m) st)" by (rule change_inv [OF i a(2)]) (use a fits in simp_all)
  ultimately show ?thesis using a by (intro exI [of _ "set_mem a (Some ?m) st"]) (simp add: holds_def change_text)
qed

text \<open>Appending to a string of moderate size.\<close>

lemma append_grows:
  assumes i: "store_inv st" and v: "holds st v s c" and fit: "length s \<le> unat c"
    and small: "3 * unat c < 2 ^ 32" "3 * unat c div 2 + length bs < 2 ^ 32"
  shows "\<exists>st'. fs_append_bytes bs v st = Inr st' \<and> store_inv st' \<and>
    (\<forall>w. text_of st' w =
       (if w = v \<or> st_var st w = st_var st v \<and> length s + length bs \<le> unat c then s @ bs else text_of st w))"
proof -
  have lb: "unat (of_nat (length bs) :: u32) = length bs" using small by (simp add: unat_of_nat)
  have ls: "unat (of_nat (length s) + of_nat (length bs) :: u32) = length s + length bs"
    using fit small by (simp add: unat_word_ariths unat_of_nat)
  have grown: "unat (drop_bit 1 (c * 3) + of_nat (length bs)) = 3 * unat c div 2 + length bs"
    using small by (simp add: unat_word_ariths unat_drop_bit_eq drop_bit_eq_div unat_of_nat mult.commute)
  obtain st' c' where e: "fs_ensure (of_nat (length bs)) v st = Inr st'" "store_inv st'" "holds st' v s c'" "c \<le> c'"
    "\<And>w. text_of st' w = text_of st w" "\<And>w. w \<noteq> v \<Longrightarrow> st_var st' w = st_var st w"
    "c < c' \<Longrightarrow> w \<noteq> v \<Longrightarrow> st_var st' w \<noteq> st_var st' v"
    "of_nat (length s) + of_nat (length bs) \<le> c \<Longrightarrow> st' = st"
    "c < of_nat (length s) + of_nat (length bs) \<Longrightarrow> drop_bit 1 (c * 3) + of_nat (length bs) \<le> c'" for w
    using ensure_spec [OF i v, of "of_nat (length bs)"] by blast
  obtain a where "st_var st v = Some a" using v by (auto simp: holds_def)
  then have f: "fs_append_bytes bs v st = fs_write bs v st'" using e(1) by (simp add: fs_append_bytes_def)
  show ?thesis
  proof (cases "length s + length bs \<le> unat c")
    case True
    then have "st' = st" using e(8) ls by (simp add: word_le_nat_alt)
    then show ?thesis using write_spec [OF i v True] f True by auto
  next
    case False
    then have lt: "c < of_nat (length s) + of_nat (length bs)" using ls by (simp add: word_less_nat_alt)
    then have "3 * unat c div 2 + length bs \<le> unat c'" using e(9) grown by (metis word_le_nat_alt)
    then have fits: "length s + length bs \<le> unat c'" using fit by linarith
    then have "c < c'" using False by (simp add: word_less_nat_alt)
    then have alone: "st_var st' w \<noteq> st_var st' v" if "w \<noteq> v" for w using e(7) that by blast
    obtain st2 where w: "fs_write bs v st' = Inr st2" "store_inv st2"
      "\<And>w. text_of st2 w = (if st_var st' w = st_var st' v then s @ bs else text_of st' w)"
      using write_spec [OF e(2,3) fits] by blast
    show ?thesis using w f e(5) alone False by (intro exI [of _ st2]) auto
  qed
qed

section \<open>Every operation keeps the counts\<close>

text \<open>An outcome for a string: the invariant and a buffer, or a write outside it.\<close>

definition fine :: "nat option \<Rightarrow> store outcome \<Rightarrow> bool" where
  "fine v r \<longleftrightarrow>
     (case r of
        Inl f \<Rightarrow> f = Out_Of_Range
      | Inr st \<Rightarrow> store_inv st \<and> (case v of None \<Rightarrow> True | Some v \<Rightarrow> st_var st v \<noteq> None))"

lemma fine_Inr [simp]: "fine None (Inr st) = store_inv st" "fine (Some v) (Inr st) = (store_inv st \<and> st_var st v \<noteq> None)"
  "fine x (Inl f) = (f = Out_Of_Range)"
  by (simp_all add: fine_def)

lemma fine_bind:
  "fine (Some v) r \<Longrightarrow> (\<And>st. store_inv st \<Longrightarrow> st_var st v \<noteq> None \<Longrightarrow> fine x (f st)) \<Longrightarrow> fine x (bindR r f)"
  by (cases r) simp_all

lemma fine_any: "fine (Some v) r \<Longrightarrow> fine None r"
  by (cases r) simp_all

lemma fine_buffer:
  assumes i: "store_inv st" and v: "st_var st v \<noteq> None"
    and f: "\<And>a m. st_var st v = Some a \<Longrightarrow> st_mem st a = Some m \<Longrightarrow> length (m_s m) \<le> unat (m_cap m) \<Longrightarrow> fine x (f a m)"
  shows "fine x (with_buffer st v f)"
proof -
  obtain a where a: "st_var st v = Some a" using v by blast
  obtain m where "st_mem st a = Some m" "length (m_s m) \<le> unat (m_cap m)" using live_buffer [OF i a] by blast
  then show ?thesis using a f by (simp add: with_buffer_def)
qed

lemma fine_change:
  assumes "store_inv st" "st_mem st a = Some m" "m_refn m' = m_refn m" "length (m_s m') \<le> unat (m_cap m')" "st_var st v \<noteq> None"
  shows "fine (Some v) (Inr (set_mem a (Some m') st))"
  using change_inv [OF assms(1-4)] assms(5) by simp

lemma fine_reserve:
  assumes "store_inv st" "st_var st v \<noteq> None"
  shows "fine (Some v) (fs_reserve_mem n v st)"
proof -
  obtain s c where "holds st v s c" using holdsE [OF assms] by blast
  from reserve_spec [OF assms(1) this, of n] show ?thesis by (auto simp: holds_def)
qed

lemma fine_ensure:
  assumes "store_inv st" "st_var st v \<noteq> None"
  shows "fine (Some v) (fs_ensure n v st)"
  unfolding fs_ensure_def by (rule fine_buffer [OF assms]) (use assms fine_reserve in auto)

lemma fine_write:
  assumes "store_inv st" "st_var st v \<noteq> None"
  shows "fine (Some v) (fs_write bs v st)"
  unfolding fs_write_def by (rule fine_buffer [OF assms]) (use assms in \<open>auto intro!: change_inv\<close>)

lemma fine_set_text:
  assumes "store_inv st" "st_var st v \<noteq> None"
  shows "fine (Some v) (fs_set_text s v st)"
  unfolding fs_set_text_def by (rule fine_buffer [OF assms]) (use assms in \<open>auto intro!: change_inv\<close>)

lemma fine_rewrite:
  assumes "store_inv st" "\<And>s. length (f s) \<le> length s"
  shows "fine None (fs_rewrite f v st)"
proof (cases "st_var st v = None")
  case False
  have "fine (Some v) (with_buffer st v (\<lambda>a m. Inr (set_mem a (Some (m\<lparr>m_s := f (m_s m)\<rparr>)) st)))"
    by (rule fine_buffer [OF assms(1) False]) (rule fine_change [OF assms(1)], use False assms(2) in \<open>auto intro: le_trans\<close>)
  then show ?thesis unfolding fs_rewrite_def if_not_P [OF False] by (rule fine_any)
qed (use assms in \<open>simp add: fs_rewrite_def\<close>)

lemma fine_init: "store_inv st \<Longrightarrow> st_var st v = None \<Longrightarrow> length s \<le> unat c \<Longrightarrow> fine (Some v) (Inr (fs_init c s v st))"
  using init_inv by (simp add: fs_init_def set_var_def)

lemma init_var [simp]: "st_var (fs_init c s v st) v = Some (st_next st)"
  by (simp add: fs_init_def set_var_def)

lemma u32_of_nat: "n < 2 ^ 32 \<Longrightarrow> unat (of_nat n :: u32) = n"
  by (simp add: unat_of_nat)

text \<open>The counted copies.\<close>

lemma fine_drop:
  assumes i: "store_inv st"
  shows "\<exists>st'. fs_drop v st = Inr st' \<and> store_inv st' \<and> st_var st' v = None \<and> (\<forall>w. w \<noteq> v \<longrightarrow> st_var st' w = st_var st w)"
proof (cases "st_var st v")
  case (Some a)
  obtain m where m: "st_mem st a = Some m" using live_buffer [OF i Some] by blast
  show ?thesis using drop_inv [OF i Some m] Some m by (simp add: fs_drop_def with_buffer_def set_var_def)
qed (use i in \<open>simp add: fs_drop_def\<close>)

lemma fine_share:
  assumes i: "store_inv st" and v: "st_var st v = None"
  shows "fine None (fs_share v w st)"
proof (cases "st_var st w")
  case None
  have "set_var v None st = st" using v by (simp add: set_var_def fun_upd_idem)
  then show ?thesis using None i by (simp add: fs_share_def)
next
  case (Some a)
  obtain m where m: "st_mem st a = Some m" using live_buffer [OF i Some] by blast
  show ?thesis using share_inv [OF i v m] Some m by (simp add: fs_share_def with_buffer_def)
qed

lemma take_over_inv:
  assumes "store_inv st" "st_var st v = None"
  shows "store_inv (set_var w None (set_var v (st_var st w) st))"
  using swap_inv [OF assms(1), of v w] assms(2) by (cases "v = w") (simp_all add: fs_swap_def)

lemma fine_assign: "store_inv st \<Longrightarrow> fine None (fs_assign v w st)"
  using fine_drop [of st v] fine_share by (fastforce simp: fs_assign_def)

lemma fine_move: "store_inv st \<Longrightarrow> fine None (fs_move v w st)"
  using fine_drop [of st v] take_over_inv by (fastforce simp: fs_move_def)

text \<open>Texts.\<close>

lemma fine_append_bytes: "store_inv st \<Longrightarrow> fine (Some v) (fs_append_bytes bs v st)"
  unfolding fs_append_bytes_def by (rule fine_bind [of v]) (auto intro: init_inv fine_ensure fine_write)

lemma fine_append_char: "store_inv st \<Longrightarrow> fine (Some v) (fs_append_char c v st)"
  unfolding fs_append_char_def by (rule fine_bind [of v]) (auto intro: init_inv fine_ensure fine_write)

lemma fine_append:
  assumes i: "store_inv st"
  shows "fine None (fs_append v w st)"
proof (cases "v \<noteq> w \<or> st_var st v = None")
  case True
  then show ?thesis using i by (auto simp: fs_append_def intro: fine_any fine_append_bytes)
next
  case False
  then have v: "st_var st v \<noteq> None" by simp
  have "fine (Some v) (with_buffer st v (\<lambda>a m. bindR (fs_reserve_mem (push_bit 1 (m_size m)) v st) (fs_write (m_s m) v)))"
    by (rule fine_buffer [OF i v]) (rule fine_bind [OF fine_reserve [OF i v]], rule fine_write)
  then show ?thesis using False fine_any by (auto simp: fs_append_def)
qed

lemma fine_room: "store_inv st \<Longrightarrow> fine (Some v) (fs_reserve n v st)"
  unfolding fs_reserve_def by (auto intro: init_inv fine_reserve)

lemma fine_clear: "store_inv st \<Longrightarrow> fine None (fs_clear v st)"
  using fine_rewrite [of st "\<lambda>_. []" v] by (simp add: fs_clear_def fs_rewrite_def)

lemma fine_resize:
  assumes i: "store_inv st" and n: "n < 2 ^ 32"
  shows "fine (Some v) (fs_resize junk n v st)"
proof -
  let ?f = "\<lambda>st. with_buffer st v (\<lambda>a m. Inr (set_mem a (Some (m\<lparr>m_s := List.take n (m_s m @ List.take n junk)\<rparr>)) st))"
  have k: "fine (Some v) (?f st')" if sti: "store_inv st'" and h: "holds st' v s c" and le: "n \<le> unat c" for st' s c
  proof -
    obtain a m where a: "st_var st' v = Some a" "st_mem st' a = Some m" "m_cap m = c" using h by (auto simp: holds_def)
    show ?thesis using fine_change [OF sti a(2), of "m\<lparr>m_s := List.take n (m_s m @ List.take n junk)\<rparr>" v] a le
      by (simp add: with_buffer_def)
  qed
  show ?thesis
  proof (cases "st_var st v = None")
    case True
    have "fine (Some v) (?f (fs_init (of_nat n) [] v st))"
      by (rule k [OF init_inv [OF i True] init_holds]) (use u32_of_nat [OF n] in simp_all)
    then show ?thesis using True by (simp add: fs_resize_def)
  next
    case False
    obtain s c where h: "holds st v s c" using holdsE [OF i False] by blast
    obtain st' c' where r: "fs_reserve_mem (of_nat n) v st = Inr st'" "store_inv st'" "holds st' v s c'" "of_nat n \<le> c'"
      using reserve_spec [OF i h, of "of_nat n"] by blast
    have "n \<le> unat c'" using r(4) u32_of_nat [OF n] by (simp add: word_le_nat_alt)
    then show ?thesis using k [OF r(2,3)] r(1) by (simp add: fs_resize_def if_not_P [OF False])
  qed
qed

lemma fine_c_str:
  assumes i: "store_inv st"
  shows "fine None (fs_c_str v st)" "st_var st v \<noteq> None \<Longrightarrow> fine (Some v) (fs_c_str v st)"
proof -
  show b: "fine (Some v) (fs_c_str v st)" if v: "st_var st v \<noteq> None"
  proof -
    have "fine (Some v) (bindR (with_buffer st v (\<lambda>a m. fs_reserve_mem (m_size m + 1) v st)) (\<lambda>st.
        with_buffer st v (\<lambda>a m. if length (m_s m) < unat (m_cap m) then Inr st else Inl Out_Of_Range)))"
      by (rule fine_bind [OF fine_buffer [OF i v]]) (rule fine_reserve [OF i v], rule fine_buffer, auto)
    then show ?thesis unfolding fs_c_str_def if_not_P [OF v] .
  qed
  show "fine None (fs_c_str v st)"
    using fine_any [OF b] i by (cases "st_var st v = None") (simp_all add: fs_c_str_def)
qed

lemma fine_assign_c:
  assumes i: "store_inv st" and n: "length s + 1 < 2 ^ 32"
  shows "fine None (fs_assign_c s v st)"
proof -
  consider "s = []" | "s \<noteq> []" "st_var st v = None" | "s \<noteq> []" "st_var st v \<noteq> None" by blast
  then show ?thesis
  proof cases
    case 2
    then show ?thesis using init_inv [OF i 2(2), of s] u32_of_nat [OF n] by (simp add: fs_assign_c_def fs_make_def)
  next
    case 3
    have "fine (Some v) (bindR (fs_reserve_mem (of_nat (length s + 1)) v st) (fs_set_text s v))"
      by (rule fine_bind [OF fine_reserve [OF i 3(2)]]) (rule fine_set_text)
    then show ?thesis unfolding fs_assign_c_def if_not_P [OF 3(1)] if_not_P [OF 3(2)] by (rule fine_any)
  qed (use fine_clear [OF i] in \<open>simp add: fs_assign_c_def\<close>)
qed

lemma fine_replace:
  assumes i: "store_inv st" and n: "fs_allowed (Replace sub to k v) st" and r: "fs_replace sub to k v st = Some r"
  shows "fine None r"
proof (cases "st_var st v = None")
  case False
  note d = r [unfolded fs_replace_def if_not_P [OF False] Let_def]
  show ?thesis
  proof (cases "find_sub sub (until_nul (text_of st v)) = None")
    case True
    then show ?thesis using d fine_c_str(1) [OF i, of v] by simp
  next
    case found: False
    then obtain x where x: "replace_from sub to k (until_nul (text_of st v)) = Some x"
      and e: "r = bindR (fs_c_str v st) (\<lambda>st. bindR (fs_resize x (length x) v st) (fs_set_text x v))"
      using d by auto
    have len: "length x < 2 ^ 32" using n x by simp
    have "fine (Some v) r" unfolding e
      by (rule fine_bind [OF fine_c_str(2) [OF i False]], rule fine_bind [OF fine_resize [OF _ len]]) (auto intro: fine_set_text)
    then show ?thesis by (rule fine_any)
  qed
qed (use i r in \<open>auto simp: fs_replace_def\<close>)

lemma make_inv: "store_inv st \<Longrightarrow> st_var st v = None \<Longrightarrow> length s + 1 < 2 ^ 32 \<Longrightarrow> store_inv (fs_make s v st)"
  using u32_of_nat [of "length s + 1"] unfolding fs_make_def by (intro init_inv) simp_all

lemma unset_idle: "st_var st v = None \<Longrightarrow> set_var v None st = st"
  by (simp add: set_var_def fun_upd_idem)

lemma trim_shorter: "length (trim_left P s) \<le> length s" "length (trim_right P s) \<le> length s"
  by (simp_all add: trim_left_def trim_right_def)

lemma fine_strip: "store_inv st \<Longrightarrow> fine None (fs_strip P d v st)"
  unfolding fs_strip_def
  by (rule fine_rewrite) (auto simp: trim_shorter intro: le_trans [OF trim_shorter(1) trim_shorter(2)])

lemma fine_do:
  assumes i: "store_inv st" and g: "fs_allowed x st" and r: "fs_do x st = Some r"
  shows "fine None r"
proof (cases x)
  case (Create s v)
  then show ?thesis using i g r make_inv [OF i, of v s] by (auto simp: fs_make_c_def unset_idle)
next
  case (Create_Room n v)
  then show ?thesis using i g r init_inv [OF i, of v "[]"] by auto
next
  case (Copy v w)
  then show ?thesis using i g r fine_share by (auto simp: fs_copy_def)
next
  case (Take_Over v w)
  then show ?thesis using i g r take_over_inv by auto
next
  case (End_Of v)
  then show ?thesis using r fine_drop [OF i, of v] by auto
next
  case (Assign v w)
  then show ?thesis using r fine_assign [OF i, of v w] by auto
next
  case (Move v w)
  then show ?thesis using r fine_move [OF i, of v w] by auto
next
  case (Swap v w)
  then show ?thesis using r swap_inv [OF i, of v w] by auto
next
  case (Assign_Text s v)
  then show ?thesis using g r fine_assign_c [OF i, of s v] by auto
next
  case (Append_Text s v)
  then show ?thesis using r fine_any [OF fine_append_bytes [OF i, of v s]] by auto
next
  case (Append_Char c v)
  then show ?thesis using r fine_any [OF fine_append_char [OF i, of v c]] by auto
next
  case (Append_String v w)
  then show ?thesis using r fine_append [OF i, of v w] by auto
next
  case (Clear v)
  then show ?thesis using r fine_clear [OF i, of v] by auto
next
  case (Resize junk n v)
  then show ?thesis using g r fine_any [OF fine_resize [OF i, of n v junk]] by auto
next
  case (Reserve n v)
  then show ?thesis using r fine_any [OF fine_room [OF i, of v n]] by auto
next
  case (Zero_End v)
  then show ?thesis using r fine_c_str(1) [OF i, of v] by auto
next
  case (Strip cs d v)
  then show ?thesis using r fine_strip [OF i] by auto
next
  case (Upper v)
  then show ?thesis using r fine_rewrite [OF i, of "map upper_char" v] by (auto simp: fs_toupper_def)
next
  case (Lower v)
  then show ?thesis using r fine_rewrite [OF i, of "map lower_char" v] by (auto simp: fs_tolower_def)
next
  case (Substring pos n v w)
  then show ?thesis using i g r make_inv [OF i, of v "List.take n (drop pos (text_of st w))"]
    by (auto simp: fs_substr_def unset_idle)
next
  case (Clone v w)
  then show ?thesis using i g r make_inv [OF i, of v "text_of st w"] by (auto simp: fs_clone_def unset_idle)
next
  case (Replace sub to k v)
  then show ?thesis using fine_replace [OF i, of sub to k v] g r by simp
qed

interpretation fs: step_system fs_step store_start store_inv
proof
  show "store_inv store_start"
    by (simp add: store_inv_def store_start_def mem_ok_def refs_def)
  show "store_inv t" if "store_inv s" "fs_step s t" for s t
    using that fine_do by (fastforce elim: fs_step.cases)
qed

lemma reached_inv: "fs_step\<^sup>*\<^sup>* store_start st \<Longrightarrow> store_inv st"
  by (rule fs.inv_reachable)

text \<open>
  C13. Whatever strings are made, copied, assigned, moved, changed and destroyed, a string points
  to a live buffer that counts exactly the strings that share it and has room for its text; no
  buffer is left that no string points to; and the next operation may write outside a buffer
  at worst, it never uses a freed one or a null pointer.
\<close>

theorem buffers_live_while_used:
  assumes "fs_step\<^sup>*\<^sup>* store_start st" "fs_allowed x st" "fs_do x st = Some r"
  shows "(\<forall>v a. st_var st v = Some a \<longrightarrow>
        (\<exists>m. st_mem st a = Some m \<and> m_refn m = card {u. st_var st u = Some a} \<and> length (m_s m) \<le> unat (m_cap m))) \<and>
      (\<forall>a. st_mem st a \<noteq> None \<longrightarrow> (\<exists>v. st_var st v = Some a)) \<and>
      (\<forall>f. r = Inl f \<longrightarrow> f = Out_Of_Range)"
proof -
  note i = reached_inv [OF assms(1)]
  have "\<exists>m. st_mem st a = Some m \<and> m_refn m = card {u. st_var st u = Some a} \<and> length (m_s m) \<le> unat (m_cap m)"
    if v: "st_var st v = Some a" for v a
    using live_buffer [OF i v] store_invD(2) [OF i, of a] by (auto simp: mem_ok_def refs_def)
  moreover have "\<exists>v. st_var st v = Some a" if "st_mem st a = Some m" for a m
  proof -
    have "refs a st \<noteq> 0" using store_invD(2) [OF i, of a] that by (simp add: mem_ok_def)
    then show ?thesis unfolding refs_def by (metis (mono_tags, lifting) card.empty Collect_empty_eq)
  qed
  moreover have "f = Out_Of_Range" if "r = Inl f" for f using fine_do [OF i assms(2,3)] that by simp
  ultimately show ?thesis by blast
qed

text \<open>Two strings that share the text \<open>ab\<close>.\<close>

definition shared_ab :: store where
  "shared_ab = \<lparr>st_mem = [0 \<mapsto> \<lparr>m_cap = 3, m_refn = 2, m_s = ''ab''\<rparr>], st_next = 1, st_var = [0 \<mapsto> 0, 1 \<mapsto> 0]\<rparr>"

lemma shared_ab_reached: "fs_step\<^sup>*\<^sup>* store_start shared_ab"
proof -
  let ?st = "fs_make ''ab'' 0 store_start"
  have "fs_step store_start ?st"
    by (rule fs_step.intros [of "Create ''ab'' 0"]) (simp_all add: store_start_def fs_make_c_def)
  moreover have "fs_step ?st shared_ab"
    by (rule fs_step.intros [of "Copy 1 0"])
      (simp_all add: store_start_def fs_make_def fs_init_def set_var_def set_mem_def fs_copy_def fs_share_def with_buffer_def shared_ab_def eval_nat_numeral)
  ultimately show ?thesis by (meson converse_rtranclp_into_rtranclp rtranclp.rtrancl_refl)
qed

theorem buffers_live_while_used_witness:
  "\<exists>m. st_mem shared_ab 0 = Some m \<and> m_refn m = card {u. st_var shared_ab u = Some 0} \<and> length (m_s m) \<le> unat (m_cap m)"
proof -
  have "st_var shared_ab 1 = Some 0" by (simp add: shared_ab_def)
  moreover have "fs_do (Clear 0) shared_ab = Some (fs_clear 0 shared_ab)" "fs_allowed (Clear 0) shared_ab" by simp_all
  ultimately show ?thesis using buffers_live_while_used [OF shared_ab_reached] by blast
qed

text \<open>
  C18. Appending to a string also changes its copies, when the text fits in the shared buffer:
  they end with the same bytes. When it does not fit, the string gets a buffer of its own,
  and only it is longer. Strings with another buffer are as they were.
\<close>

theorem append_shows_in_copies:
  assumes "fs_step\<^sup>*\<^sup>* store_start st" "st_var st v = Some a" "st_mem st a = Some m"
    and "3 * unat (m_cap m) < 2 ^ 32" "3 * unat (m_cap m) div 2 + length bs < 2 ^ 32"
  shows "\<exists>st'. fs_append_bytes bs v st = Inr st' \<and> text_of st' v = text_of st v @ bs \<and>
    (\<forall>w. w \<noteq> v \<longrightarrow> text_of st' w =
       (if st_var st w = Some a \<and> length (m_s m) + length bs \<le> unat (m_cap m) then text_of st w @ bs else text_of st w))"
proof -
  note i = reached_inv [OF assms(1)]
  have h: "holds st v (m_s m) (m_cap m)" using assms(2,3) by (auto simp: holds_def)
  have w: "text_of st w = m_s m" if "st_var st w = Some a" for w using that assms(3) by (simp add: text_of_def buffer_def)
  have "length (m_s m) \<le> unat (m_cap m)" using live_buffer [OF i assms(2)] assms(3) by auto
  from append_grows [OF i h this assms(4,5)] show ?thesis using w assms(2) by auto
qed

theorem append_shows_in_copies_witness:
  "\<exists>st'. fs_append_bytes ''c'' 0 shared_ab = Inr st' \<and> text_of st' 0 = ''abc'' \<and> text_of st' 1 = ''abc''"
proof -
  have m: "st_var shared_ab 0 = Some 0" "st_mem shared_ab 0 = Some \<lparr>m_cap = 3, m_refn = 2, m_s = ''ab''\<rparr>" "st_var shared_ab 1 = Some 0"
    "text_of shared_ab 0 = ''ab''" "text_of shared_ab 1 = ''ab''"
    by (simp_all add: shared_ab_def text_of_def buffer_def)
  obtain st' where st': "fs_append_bytes ''c'' 0 shared_ab = Inr st'" "text_of st' 0 = ''ab'' @ ''c''"
    "\<And>w. w \<noteq> 0 \<Longrightarrow> text_of st' w =
       (if st_var shared_ab w = Some 0 \<and> length ''ab'' + length ''c'' \<le> unat (3 :: u32) then text_of shared_ab w @ ''c'' else text_of shared_ab w)"
    using append_shows_in_copies [OF shared_ab_reached m(1,2), of "''c''"] m(4) by (auto simp: if_distrib)
  from st'(3) [of 1] have "text_of st' 1 = ''abc''" using m(3,5) by simp
  then show ?thesis using st'(1,2) by simp
qed

text \<open>
  From a third of \<open>2 ^ 32\<close> bytes on, the size of the next buffer overflows: a full string of
  that size is not moved to a bigger buffer, and appending a byte writes behind its end.
\<close>

lemma large_append_overruns:
  assumes "st_var st v = Some a" "st_mem st a = Some m" "length (m_s m) = unat (m_cap m)"
    and "2 ^ 32 \<le> 3 * unat (m_cap m)"
  shows "fs_append_char c v st = Inl Out_Of_Range"
proof -
  let ?c = "m_cap m" and ?n = "unat (m_cap m)"
  have lt: "?n < 2 ^ 32" using unsigned_less [of ?c, where 'a = nat] by simp
  have "unat (drop_bit 1 (?c * 3) + 1) \<le> ?n"
  proof -
    have "unat (?c * 3) = (3 * ?n) mod 2 ^ 32" by (simp add: unat_word_ariths mult.commute)
    moreover have "(3 * ?n) mod 2 ^ 32 \<le> 2 * ?n - 2"
    proof (cases "3 * ?n < 2 * 2 ^ 32")
      case True
      then have "(3 * ?n) mod 2 ^ 32 = 3 * ?n - 2 ^ 32" using assms(4) by (simp add: mod_if)
      then show ?thesis using True assms(4) by simp
    next
      case False
      then have "(3 * ?n) mod 2 ^ 32 = 3 * ?n - 2 * 2 ^ 32" using lt by (simp add: mod_if)
      then show ?thesis using lt by simp
    qed
    moreover have "unat (drop_bit 1 x) = unat x div 2" for x :: u32
      by (rule trans [OF unat_drop_bit_eq]) (simp only: drop_bit_eq_div power_one_right)
    ultimately have h: "unat (drop_bit 1 (?c * 3)) \<le> ?n - 1" by (simp only:)
    have "0 < ?n" using assms(4) by (cases "?n") simp_all
    moreover have "unat (drop_bit 1 (?c * 3) + 1) \<le> unat (drop_bit 1 (?c * 3)) + 1" by (simp add: unat_word_ariths)
    ultimately show ?thesis using h by linarith
  qed
  then have "\<not> ?c < drop_bit 1 (?c * 3) + 1" by (simp add: word_less_nat_alt)
  then have "fs_ensure 1 v st = Inr st"
    using assms(1,2) by (simp add: fs_ensure_def fs_reserve_mem_def with_buffer_def)
  then show ?thesis using assms(1-3) by (simp add: fs_append_char_def fs_write_def with_buffer_def)
qed

lemma large_append_overruns_at:
  "\<exists>s. length s = 1431655766 \<and>
     fs_append_char CHR ''x'' 0
       \<lparr>st_mem = [0 \<mapsto> \<lparr>m_cap = 1431655766, m_refn = 1, m_s = s\<rparr>], st_next = 1, st_var = [0 \<mapsto> 0]\<rparr> = Inl Out_Of_Range"
proof -
  have "\<exists>s :: string. length s = 1431655766" by (rule exI) (rule length_replicate)
  then obtain s :: string where s: "length s = 1431655766" by blast
  let ?m = "\<lparr>m_cap = 1431655766, m_refn = 1, m_s = s\<rparr>"
  let ?st = "\<lparr>st_mem = [0 \<mapsto> ?m], st_next = 1, st_var = [0 \<mapsto> 0]\<rparr>"
  have "fs_append_char CHR ''x'' 0 ?st = Inl Out_Of_Range"
    by (rule large_append_overruns [of ?st 0 0 ?m]) (simp_all add: s)
  then show ?thesis using s by blast
qed

section \<open>The searches are right\<close>

text \<open>The last place of a text in another.\<close>

definition occurs_at :: "string \<Rightarrow> string \<Rightarrow> nat \<Rightarrow> bool" where
  "occurs_at p s j \<longleftrightarrow> List.take (length p) (drop j s) = p"

definition last_place :: "string \<Rightarrow> string \<Rightarrow> nat option" where
  "last_place p s = find (occurs_at p s) (rev [0..<length s + 1])"

lemma find_append_first: "find P (xs @ ys) = (case find P xs of None \<Rightarrow> find P ys | Some x \<Rightarrow> Some x)"
  by (induction xs) simp_all

lemma last_place_below:
  assumes "\<And>k. j < k \<Longrightarrow> k \<le> length s \<Longrightarrow> \<not> occurs_at p s k" "j \<le> length s"
  shows "last_place p s = find (occurs_at p s) (rev [0..<j + 1])"
proof -
  have "[0..<length s + 1] = [0..<j + 1] @ [j + 1..<length s + 1]"
    using assms(2) upt_add_eq_append [of 0 "j + 1" "length s - j"] by simp
  moreover have "find (occurs_at p s) (rev [j + 1..<length s + 1]) = None"
    using assms(1) by (auto simp: find_None_iff)
  ultimately show ?thesis by (simp add: last_place_def find_append_first)
qed

lemma occurs_char:
  assumes "occurs_at p s k" "i < length p"
  shows "k + i < length s" "s ! (k + i) = p ! i"
proof -
  have l: "length (List.take (length p) (drop k s)) = length p" using assms(1) by (simp add: occurs_at_def)
  then show "k + i < length s" using assms(2) by simp
  have "List.take (length p) (drop k s) ! i = p ! i" using assms(1) by (simp add: occurs_at_def)
  then show "s ! (k + i) = p ! i" using assms(2) l by simp
qed

lemma first_place_least:
  assumes "i < length p" "p ! i = c"
  shows "0 < first_place p c" "first_place p c \<le> i + 1"
proof -
  have "c \<in> set p" using assms by auto
  then show "0 < first_place p c" by (simp add: first_place_def)
  have "length (takeWhile (\<lambda>x. x \<noteq> c) p) \<le> i"
    using assms nth_mem [of i "takeWhile (\<lambda>x. x \<noteq> c) p"] by (metis (mono_tags, lifting) leI set_takeWhileD takeWhile_nth)
  then show "first_place p c \<le> i + 1" using \<open>c \<in> set p\<close> by (simp add: first_place_def)
qed

text \<open>No occurrence lies between a place that failed and the place the table leads to.\<close>

lemma shift_skips:
  assumes "x = (if first_place p (s ! (j - 1)) = 0 then length p + 1 else first_place p (s ! (j - 1)))"
    and "0 < j" "k < j" "j < k + x" "j \<le> length s"
  shows "\<not> occurs_at p s k"
proof
  assume o: "occurs_at p s k"
  let ?i = "j - 1 - k"
  show False
  proof (cases "?i < length p")
    case True
    then have "p ! ?i = s ! (j - 1)" using occurs_char(2) [OF o True] assms(2,3) by simp
    then show False using first_place_least [OF True] assms by (auto split: if_splits)
  next
    case False
    then show False using assms length_takeWhile_le [of "\<lambda>c. c \<noteq> s ! (j - 1)" p] by (simp add: first_place_def split: if_splits)
  qed
qed

lemma rfind_from_is_last:
  assumes "j \<le> length s"
  shows "rfind_from p s j = find (occurs_at p s) (rev [0..<j + 1])"
  using assms
proof (induction j rule: less_induct)
  case (less j)
  let ?y = "first_place p (s ! (j - 1))"
  let ?x = "if ?y = 0 then length p + 1 else ?y"
  have x: "0 < ?x" by simp
  show ?case
  proof (cases "occurs_at p s j \<or> j = 0")
    case True
    then show ?thesis by (subst rfind_from.simps) (auto simp: occurs_at_def)
  next
    case False
    have split: "rev [0..<j + 1] = rev [k + 1..<j + 1] @ rev [0..<k + 1]" if "k \<le> j" for k
      using upt_add_eq_append [of 0 "k + 1" "j - k"] that by (simp flip: rev_append)
    have none: "find (occurs_at p s) xs = None" if "\<And>k. k \<in> set xs \<Longrightarrow> \<not> occurs_at p s k" for xs
      using that by (auto simp: find_None_iff)
    have skip: "\<not> occurs_at p s k" if "k \<le> j" "j < k + ?x" for k
      using shift_skips [OF refl, of j k p s] that False less.prems by (cases "k = j") auto
    show ?thesis
    proof (cases "j < ?x")
      case True
      have "rfind_from p s j = None"
        using False True by (cases "?y = 0"; subst rfind_from.simps) (simp_all add: occurs_at_def Let_def)
      moreover have "find (occurs_at p s) (rev [0..<j + 1]) = None"
        by (rule none, rule skip) (use True in \<open>simp_all del: upt_Suc\<close>)
      ultimately show ?thesis by simp
    next
      case le: False
      let ?k = "j - ?x"
      have "rfind_from p s j = rfind_from p s ?k"
        using False le by (cases "?y = 0"; subst rfind_from.simps) (simp_all add: occurs_at_def Let_def)
      also have "\<dots> = find (occurs_at p s) (rev [0..<?k + 1])"
        using le x less.prems False by (intro less.IH) linarith+
      also have "\<dots> = find (occurs_at p s) (rev [0..<j + 1])"
      proof -
        have "find (occurs_at p s) (rev [?k + 1..<j + 1]) = None"
          by (rule none, rule skip) (use le in auto)
        then show ?thesis unfolding split [of ?k, OF diff_le_self] find_append_first by simp
      qed
      finally show ?thesis .
    qed
  qed
qed

lemma last_char_place:
  "find (occurs_at [c] s) (rev [0..<length s + 1]) = rfind_char c s"
proof (induction s rule: rev_induct)
  case Nil
  show ?case by (simp add: occurs_at_def rfind_char_def)
next
  case (snoc x s)
  have n: "occurs_at [c] (s @ [x]) (length (s @ [x])) = False" by (simp add: occurs_at_def)
  have l: "occurs_at [c] (s @ [x]) (length s) \<longleftrightarrow> x = c" by (simp add: occurs_at_def)
  have o: "occurs_at [c] (s @ [x]) k = occurs_at [c] s k" if "k < length s" for k
    using that by (auto simp: occurs_at_def)
  have e: "\<not> occurs_at [c] s (length s)" by (simp add: occurs_at_def)
  have "find (occurs_at [c] (s @ [x])) (rev [0..<length s]) = find (occurs_at [c] s) (rev [0..<length s])"
    by (rule find_cong) (use o in auto)
  also have "\<dots> = rfind_char c s" using snoc.IH e by simp
  finally have f: "find (occurs_at [c] (s @ [x])) (rev [0..<length s]) = rfind_char c s" .
  show ?case using n l f by (auto simp: rfind_char_def)
qed

text \<open>
  C32. Searching a string from its end, by one character or with the table of the first places
  of every byte, finds the last place where the text occurs.
\<close>

theorem rfind_is_last_place: "fs_rfind p s = last_place p s"
proof -
  consider "length p = 1" | "length p \<noteq> 1" "length s < length p" | "length p \<noteq> 1" "length p \<le> length s" by linarith
  then show ?thesis
  proof cases
    case 1
    then obtain c where "p = [c]" by (auto simp: length_Suc_conv)
    then show ?thesis using last_char_place [of c s] by (simp add: fs_rfind_def last_place_def)
  next
    case 2
    have "\<not> occurs_at p s k" for k using 2(2) by (auto simp: occurs_at_def dest: arg_cong [where f = length])
    then show ?thesis using 2 by (auto simp: fs_rfind_def last_place_def find_None_iff2)
  next
    case 3
    have "\<not> occurs_at p s k" if "length s - length p < k" "k \<le> length s" for k
      using occurs_char(1) [of p s k "length p - 1"] that 3 by (cases p) auto
    then show ?thesis using 3 last_place_below [of "length s - length p" s p] rfind_from_is_last [of "length s - length p" s p]
      by (simp add: fs_rfind_def)
  qed
qed

text \<open>What a pattern stands for, and that the matcher agrees unless the pattern ends in two stars.\<close>

fun glob :: "string \<Rightarrow> string \<Rightarrow> bool" where
  "glob [] e \<longleftrightarrow> e = []"
| "glob (c # p) e \<longleftrightarrow>
     (if c = star then (\<exists>k \<le> length e. glob p (drop k e))
      else e \<noteq> [] \<and> (c = any_char \<or> c = hd e) \<and> glob p (tl e))"

lemma ex_up_to: "(\<exists>k \<le> Suc n. P k) \<longleftrightarrow> P 0 \<or> (\<exists>k \<le> n. P (Suc k))"
  by (metis Suc_le_mono not0_implies_Suc zero_le)

lemma glob_star: "glob (star # p) e \<longleftrightarrow> glob p e \<or> e \<noteq> [] \<and> glob (star # p) (tl e)"
  by (cases e) (simp_all add: ex_up_to)

lemma two_stars: "replicate (Suc (Suc n)) c = replicate n c @ [c, c]"
  by (induction n) simp_all

lemma glob_all: "glob [star] e"
  by (auto intro: exI [of _ "length e"])

lemma match_is_glob: "\<not> suffix [star, star] p \<Longrightarrow> match_pat e p = glob p e"
proof (induction e p rule: match_pat.induct)
  case (1 e p)
  consider "p = [star]" | "p \<noteq> [star]" "p = []" | "p \<noteq> [star]" "p \<noteq> []" "e = []"
    | "p \<noteq> [star]" "p \<noteq> []" "e \<noteq> []" by blast
  then show ?case
  proof cases
    case 1
    then show ?thesis using glob_all by (simp add: match_pat.simps)
  next
    case 2
    then show ?thesis by (simp add: match_pat.simps)
  next
    case 3
    then obtain c q where p: "p = c # q" by (cases p) auto
    have "\<not> glob q []" if "c = star"
    proof
      assume g: "glob q []"
      then have "set q \<subseteq> {star}" by (induction q) (auto split: if_splits)
      then have q: "q = replicate (length q) star" by (simp add: replicate_length_same subset_iff)
      have "q \<noteq> []" using 3(1) p that by auto
      then obtain n where "length q = Suc n" by (cases q) auto
      then have "p = replicate (Suc (Suc n)) star" using p q that by simp
      then have "p = replicate n star @ [star, star]" by (simp only: two_stars)
      then show False using "1.prems" by (auto simp: suffix_def)
    qed
    then show ?thesis using 3 p by (subst match_pat.simps) auto
  next
    case 4
    then obtain c q where p: "p = c # q" by (cases p) auto
    have q: "\<not> suffix [star, star] q" using "1.prems" p by (auto simp: suffix_Cons)
    show ?thesis
    proof (cases "c = star")
      case True
      have "match_pat e p = (match_pat e q \<or> match_pat (tl e) p)" using 4 p True by (subst match_pat.simps) simp
      also have "\<dots> = (glob q e \<or> glob p (tl e))" using "1.IH"(1,2) 4 p True q "1.prems" by simp
      finally show ?thesis using glob_star [of q e] 4 p True by simp
    next
      case False
      have "match_pat e p = ((c = any_char \<or> c = hd e) \<and> match_pat (tl e) q)" using 4 p False by (subst match_pat.simps) auto
      also have "\<dots> = ((c = any_char \<or> c = hd e) \<and> glob q (tl e))" using "1.IH"(3) 4 p False q by auto
      finally show ?thesis using 4 p False by simp
    qed
  qed
qed

lemma two_stars_miss: "\<not> match_pat [] [star, star]" "glob [star, star] []"
  by (simp_all add: match_pat.simps)

text \<open>The order is the one of byte strings.\<close>

definition byte_less :: "char rel" where
  "byte_less = {(x, y). (of_char x :: nat) < of_char y}"

lemma mem_less_lex: "mem_less (min (length a) (length b)) a b \<or> List.take (length a) b = a \<and> length a < length b \<longleftrightarrow> (a, b) \<in> lexord byte_less"
  by (induction a b rule: list_induct2') (auto simp: byte_less_def)

lemma lex_orders: "fs_less a b \<longleftrightarrow> (a, b) \<in> lexord byte_less" "fs_greater a b \<longleftrightarrow> (b, a) \<in> lexord byte_less"
  using mem_less_lex [of a b] mem_less_lex [of b a]
  by (auto simp: fs_less_def fs_greater_def mem_equal_def min_def split: if_splits)

end
