(* ===== verification/CoFlag.thy ===== *)
theory CoFlag
  imports CoFastring
begin

text \<open>
  Flags (\<open>co/base/flag.h\<close>, \<open>flag.cc\<close>): variables that the command line or a configuration file
  sets, and the file \<open>--mkconf\<close> writes. Reading and printing of a \<open>double\<close> is a parameter; an
  output is the text for the terminal; ending the process is a result.
\<close>

section \<open>Flags and their values\<close>

datatype 'd flag_value =
    FV_Bool bool
  | FV_Int32 int
  | FV_Int64 int
  | FV_Uint32 u32
  | FV_Uint64 u64
  | FV_String string
  | FV_Double 'd

record 'd flag =
  fl_type_str :: string
  fl_default :: string
  fl_help :: string
  fl_file :: string
  fl_value :: "'d flag_value"

text \<open>All flags by name, and whether \<open>errno\<close> is \<open>ERANGE\<close>.\<close>

record 'd flag_state =
  fg_flags :: "(string \<times> 'd flag) list"
  fg_errno :: bool

record 'd doubles =
  dbl_read :: "string \<Rightarrow> 'd \<times> nat \<times> bool \<times> bool"
  dbl_show :: "'d \<Rightarrow> string"

datatype 'a flag_ending =
    Exits int string
  | Returns 'a

definition as_value :: "('v \<Rightarrow> 'd flag_value) \<Rightarrow> 'v outcome \<times> bool \<Rightarrow> 'd flag_value outcome \<times> bool" where
  "as_value c r = (bindR (fst r) (\<lambda>x. Inr (c x)), snd r)"

fun flag_set_value :: "'d doubles \<Rightarrow> 'd flag_value \<Rightarrow> string \<Rightarrow> bool \<Rightarrow> 'd flag_value outcome \<times> bool" where
  "flag_set_value D (FV_String _) v e = (Inr (FV_String v), e)"
| "flag_set_value D (FV_Bool _) v e = as_value FV_Bool (to_bool (until_nul v), e)"
| "flag_set_value D (FV_Int32 _) v e = as_value FV_Int32 (to_int32 e (until_nul v))"
| "flag_set_value D (FV_Uint32 _) v e = as_value FV_Uint32 (to_uint32 e (until_nul v))"
| "flag_set_value D (FV_Int64 _) v e = as_value FV_Int64 (to_int64 e (until_nul v))"
| "flag_set_value D (FV_Uint64 _) v e = as_value FV_Uint64 (to_uint64 e (until_nul v))"
| "flag_set_value D (FV_Double _) v e = as_value FV_Double (to_double (dbl_read D) e (until_nul v))"

fun flag_get_value :: "'d doubles \<Rightarrow> 'd flag_value \<Rightarrow> string" where
  "flag_get_value D (FV_String s) = s"
| "flag_get_value D (FV_Bool b) = (if b then ''true'' else ''false'')"
| "flag_get_value D (FV_Int32 x) = dec_int x"
| "flag_get_value D (FV_Uint32 x) = dec_nat (unat x)"
| "flag_get_value D (FV_Int64 x) = dec_int x"
| "flag_get_value D (FV_Uint64 x) = dec_nat (unat x)"
| "flag_get_value D (FV_Double x) = dbl_show D x"

definition put_value :: "string \<Rightarrow> 'd flag \<Rightarrow> 'd flag_value \<Rightarrow> 'd flag_state \<Rightarrow> 'd flag_state" where
  "put_value name f x st = st\<lparr>fg_flags := map_put name (f\<lparr>fl_value := x\<rparr>) (fg_flags st)\<rparr>"

text \<open>A second flag of the same name ends the process.\<close>

definition add_flag :: "string \<Rightarrow> 'd flag \<Rightarrow> 'd flag_state \<Rightarrow> 'd flag_state flag_ending" where
  "add_flag name f st =
     (case map_find name (fg_flags st) of
        Some g \<Rightarrow> Exits (- 1) (''multiple definitions of flag: '' @ name @ '', from '' @ fl_file g @ '' and '' @ fl_file f @ [CHR 0x0A])
      | None \<Rightarrow> Returns (st\<lparr>fg_flags := map_put name f (fg_flags st)\<rparr>))"

text \<open>The text is the error, empty when the flag was set.\<close>

definition set_flag_value :: "'d doubles \<Rightarrow> string \<Rightarrow> string \<Rightarrow> 'd flag_state \<Rightarrow> (string \<times> 'd flag_state) outcome" where
  "set_flag_value D name v st =
     (case map_find name (fg_flags st) of
        None \<Rightarrow> Inr (''flag not defined: '' @ name, st)
      | Some f \<Rightarrow>
          (case flag_set_value D (fl_value f) v (fg_errno st) of
             (Inr x, e) \<Rightarrow> Inr ([], put_value name f x (st\<lparr>fg_errno := e\<rparr>))
           | (Inl (Thrown m), e) \<Rightarrow> Inr (m, st\<lparr>fg_errno := e\<rparr>)
           | (Inl g, e) \<Rightarrow> Inl g))"

definition is_bool_flag :: "'d flag \<Rightarrow> bool" where
  "is_bool_flag f \<longleftrightarrow> (case fl_value f of FV_Bool _ \<Rightarrow> True | _ \<Rightarrow> False)"

fun set_letters :: "string \<Rightarrow> string \<Rightarrow> 'd flag_state \<Rightarrow> string \<times> 'd flag_state" where
  "set_letters name [] st = ([], st)"
| "set_letters name (c # cs) st =
     (case map_find [c] (fg_flags st) of
        None \<Rightarrow> (''undefined bool flag -'' @ [c] @ '' in -'' @ name, st)
      | Some f \<Rightarrow>
          if \<not> is_bool_flag f then (CHR ''-'' # c # '' is not bool in -'' @ name, st)
          else set_letters name cs (put_value [c] f (FV_Bool True) st))"

definition set_bool_flags :: "string \<Rightarrow> 'd flag_state \<Rightarrow> string \<times> 'd flag_state" where
  "set_bool_flags name st =
     (case map_find name (fg_flags st) of
        Some f \<Rightarrow>
          if is_bool_flag f then ([], put_value name f (FV_Bool True) st)
          else (''value not set for non-bool flag: -'' @ name, st)
      | None \<Rightarrow>
          if length name = 1 then (''undefined bool flag -'' @ name, st)
          else set_letters name name st)"

section \<open>The command line\<close>

definition nl :: string where "nl = [CHR 0x0A]"

definition tab :: string where "tab = [CHR 0x09]"

definition flag_to_str :: "string \<Rightarrow> 'd flag \<Rightarrow> string" where
  "flag_to_str name f =
     ''--'' @ name @ '': '' @ fl_help f @ nl @ tab @ '' type: '' @ fl_type_str f @ tab @ ''     default: '' @ fl_default f @
     nl @ tab @ '' from: '' @ fl_file f"

definition show_flags_info :: "'d flag_state \<Rightarrow> string" where
  "show_flags_info st = concat (map (\<lambda>(n, f). if fl_help f = [] then [] else flag_to_str n f @ nl) (fg_flags st))"

definition show_help_info :: "string \<Rightarrow> string" where
  "show_help_info s =
     ''usage:'' @ nl @
     ''    '' @ s @ '' --                   print flags info'' @ nl @
     ''    '' @ s @ '' --help               print this help info'' @ nl @
     ''    '' @ s @ '' --mkconf             generate config file'' @ nl @
     ''    '' @ s @ '' --daemon             run as a daemon (Linux)'' @ nl @
     ''    '' @ s @ '' xx.conf              run with config file'' @ nl @
     ''    '' @ s @ '' config=xx.conf       run with config file'' @ nl @
     ''    '' @ s @ '' -x -i=8k -s=ok       run with commandline flags'' @ nl @
     ''    '' @ s @ '' x=true i=8192 s=ok   run with commandline flags'' @ nl"

text \<open>One argument: an ending, or a further argument that is not a flag, and the flags.\<close>

definition flag_arg :: "'d doubles \<Rightarrow> string \<Rightarrow> 'd flag_state \<Rightarrow> (string list \<times> 'd flag_state) flag_ending outcome" where
  "flag_arg D arg st =
     (let finish = (\<lambda>r. if fst r \<noteq> [] then Exits (- 1) (fst r @ nl) else Returns ([], snd r)) in
      case (find_first_not_of ''-'' arg, find_char CHR ''='' arg) of
        (None, _) \<Rightarrow> Inr (Exits (- 1) (''invalid parameter: '' @ arg @ nl))
      | (Some bp, None) \<Rightarrow>
          Inr (if bp = 0 then Returns ([arg], st) else finish (set_bool_flags (drop bp arg) st))
      | (Some bp, Some ep) \<Rightarrow>
          if ep \<le> bp then Inr (Exits (- 1) (''invalid parameter: '' @ arg @ nl))
          else bindR (set_flag_value D (List.take (ep - bp) (drop bp arg)) (drop (ep + 1) arg) st) (\<lambda>r. Inr (finish r)))"

fun flag_args :: "'d doubles \<Rightarrow> string list \<Rightarrow> 'd flag_state \<Rightarrow> (string list \<times> 'd flag_state) flag_ending outcome" where
  "flag_args D [] st = Inr (Returns ([], st))"
| "flag_args D (arg # args) st =
     bindR (flag_arg D arg st) (\<lambda>r.
       case r of
         Exits k out \<Rightarrow> Inr (Exits k out)
       | Returns (v, st) \<Rightarrow>
           bindR (flag_args D args st) (\<lambda>r.
             case r of Exits k out \<Rightarrow> Inr (Exits k out) | Returns (w, st) \<Rightarrow> Inr (Returns (v @ w, st))))"

text \<open>\<open>exists\<close> is whether there is such a file.\<close>

definition set_config :: "string \<Rightarrow> 'd flag_state \<Rightarrow> 'd flag_state" where
  "set_config arg st =
     (case map_find ''config'' (fg_flags st) of None \<Rightarrow> st | Some f \<Rightarrow> put_value ''config'' f (FV_String arg) st)"

definition parse_command_line_flags ::
  "'d doubles \<Rightarrow> (string \<Rightarrow> bool) \<Rightarrow> string \<Rightarrow> string list \<Rightarrow> 'd flag_state \<Rightarrow> (string list \<times> 'd flag_state) flag_ending outcome" where
  "parse_command_line_flags D exists exe args st =
     (case args of
        [arg] \<Rightarrow>
          if arg = ''--help'' then Inr (Exits 0 (show_help_info exe))
          else if find_first_not_of ''-'' arg = None then Inr (Exits 0 (show_flags_info st))
          else if \<not> starts_with ''-'' arg \<and> CHR ''='' \<notin> set arg \<and> (ends_with ''.conf'' arg \<or> ends_with ''config'' arg) \<and> exists arg
          then Inr (Returns ([], set_config arg st))
          else flag_args D args st
      | _ \<Rightarrow> flag_args D args st)"

section \<open>The configuration file\<close>

text \<open>Quotes around a place: the outer one, and another within it.\<close>

definition is_quote :: "char \<Rightarrow> bool" where
  "is_quote c \<longleftrightarrow> c = CHR 0x22 \<or> c = CHR 0x27"

definition quote_step :: "char \<Rightarrow> char option \<times> char option \<Rightarrow> char option \<times> char option" where
  "quote_step c q =
     (let (x, y) = q in
      if \<not> is_quote c then (x, y)
      else if x = Some c then (None, None)
      else if y = Some c then (x, None)
      else if x = None then (Some c, y)
      else (x, Some c))"

text \<open>The first place of \<open>c # cs\<close> that no quotes are around; a quote that is never closed does not count.\<close>

function find_outside :: "string \<Rightarrow> char \<Rightarrow> string \<Rightarrow> nat \<Rightarrow> char option \<times> char option \<Rightarrow> nat option" where
  "find_outside s c cs i q =
     (case find_sub (c # cs) (drop i s) of
        None \<Rightarrow> None
      | Some k \<Rightarrow>
          (let p = i + k; (x, y) = fold quote_step (List.take (k + 1) (drop i s)) q in
           if x = None then Some p
           else
             let j = p + 1 + length cs;
                 m = length (takeWhile (\<lambda>d. \<not> (is_quote d \<and> (Some d = x \<or> Some d = y))) (drop j s))
             in if j + m \<ge> length s then Some p else find_outside s c cs (j + m + 1) (None, None)))"
  by pat_completeness auto

termination
  by (relation "measure (\<lambda>(s, c, cs, i, q). length s - i)") auto

declare find_outside.simps [simp del]

definition find_not_in_qm :: "string \<Rightarrow> char \<Rightarrow> string \<Rightarrow> nat option" where
  "find_not_in_qm s c cs = (if s = [] then None else find_outside s c cs 0 (None, None))"

text \<open>A line with the ones it continues on: a backslash at its end. Wide blanks become blanks.\<close>

definition wide_blank :: string where
  "wide_blank = [CHR 0xE3, CHR 0x80, CHR 0x80]"

definition blanks :: "char \<Rightarrow> bool" where
  "blanks c \<longleftrightarrow> c = CHR '' '' \<or> c = CHR 0x09 \<or> c = CHR 0x0D \<or> c = CHR 0x0A"

definition widened :: "string \<Rightarrow> string" where
  "widened s = (case str_replace s wide_blank '' '' (- 1) of None \<Rightarrow> [] | Some t \<Rightarrow> t)"

definition tidy :: "string \<Rightarrow> string" where
  "tidy l = trim_left blanks (trim_right blanks (widened l))"

definition backslash :: char where "backslash = CHR 0x5C"

fun getline :: "string list \<Rightarrow> string \<times> string list" where
  "getline [] = ([], [])"
| "getline (l # ls) =
     (let s = tidy l in
      if s = [] \<or> last s \<noteq> backslash then (s, ls)
      else
        let (t, r) = getline ls in (str_strip (\<lambda>c. blanks c \<or> c = backslash) CHR ''r'' s @ t, r))"

lemma getline_shorter: "ls \<noteq> [] \<Longrightarrow> length (snd (getline ls)) < length ls"
proof (induction ls)
  case (Cons l ls)
  then show ?case by (cases "ls = []") (auto simp: Let_def split: prod.splits)
qed simp

datatype conf_line =
    Blank
  | Invalid string
  | Setting string string

definition sp_tab :: "char \<Rightarrow> bool" where
  "sp_tab c \<longleftrightarrow> c = CHR '' '' \<or> c = CHR 0x09"

definition cut_comment :: "string \<Rightarrow> string" where
  "cut_comment s =
     (let p = find_not_in_qm (until_nul s) CHR 0x23 []; q = find_not_in_qm (until_nul s) CHR ''/'' ''/'';
          r = (case (p, q) of (None, _) \<Rightarrow> q | (_, None) \<Rightarrow> p | (Some a, Some b) \<Rightarrow> Some (min a b))
      in case r of None \<Rightarrow> s | Some k \<Rightarrow> str_strip sp_tab CHR ''r'' (List.take k s))"

definition unquoted :: "string \<Rightarrow> string" where
  "unquoted v =
     (if length v > 1 \<and> is_quote (hd v) \<and> hd v = last v
      then trim_left (\<lambda>c. c = hd v) (trim_right (\<lambda>c. c = hd v) v) else v)"

definition config_setting :: "string \<Rightarrow> conf_line" where
  "config_setting s =
     (if s = [] \<or> hd s = CHR 0x23 \<or> starts_with ''//'' s then Blank
      else
        let s = cut_comment s in
        case find_not_in_qm (until_nul s) CHR ''='' [] of
          None \<Rightarrow> Invalid s
        | Some p \<Rightarrow>
            if p = 0 then Invalid s
            else Setting (str_strip sp_tab CHR ''r'' (List.take p s)) (unquoted (str_strip sp_tab CHR ''l'' (drop (p + 1) s))))"

text \<open>The lines that are left of \<open>n\<close>.\<close>

function run_lines :: "'d doubles \<Rightarrow> string \<Rightarrow> nat \<Rightarrow> string list \<Rightarrow> 'd flag_state \<Rightarrow> 'd flag_state flag_ending outcome" where
  "run_lines D config n ls st =
     (if ls = [] then Inr (Returns st)
      else
        let place = '', at '' @ config @ '':'' @ dec_nat (n - length ls + 1) @ nl in
        case config_setting (fst (getline ls)) of
          Blank \<Rightarrow> run_lines D config n (snd (getline ls)) st
        | Invalid s \<Rightarrow> Inr (Exits (- 1) (''invalid config: '' @ s @ place))
        | Setting flg v \<Rightarrow>
            bindR (set_flag_value D flg v st) (\<lambda>r.
              if fst r \<noteq> [] then Inr (Exits (- 1) (fst r @ place))
              else run_lines D config n (snd (getline ls)) (snd r)))"
  by pat_completeness auto

termination
  by (relation "measure (\<lambda>(D, config, n, ls, st). length ls)") (auto simp: getline_shorter)

declare run_lines.simps [simp del]

definition config_split :: "string \<Rightarrow> string list" where
  "config_split s =
     str_split s (if CHR 0x0A \<notin> set s \<and> CHR 0x0D \<in> set s then CHR 0x0D else CHR 0x0A) 0"

definition parse_config :: "'d doubles \<Rightarrow> (string \<Rightarrow> string option) \<Rightarrow> string \<Rightarrow> 'd flag_state \<Rightarrow> 'd flag_state flag_ending outcome" where
  "parse_config D files config st =
     (case files config of
        None \<Rightarrow> Inr (Exits (- 1) (''can't open config file: '' @ config @ nl))
      | Some s \<Rightarrow> run_lines D config (length (config_split s)) (config_split s) st)"

section \<open>Writing the configuration file\<close>

definition format_str :: "string \<Rightarrow> string" where
  "format_str s =
     (if CHR 0x22 \<notin> set s \<and> CHR 0x27 \<notin> set s then s
      else if CHR 0x22 \<notin> set s then [CHR 0x22] @ s @ [CHR 0x22]
      else if CHR 0x27 \<notin> set s then [CHR 0x27] @ s @ [CHR 0x27]
      else [CHR 0x27] @ (case str_replace s [CHR 0x27] [backslash, CHR 0x27] 0 of None \<Rightarrow> [] | Some t \<Rightarrow> t) @ [CHR 0x27])"

definition group_flags :: "(string \<times> 'd flag) list \<Rightarrow> (string \<times> (string \<times> 'd flag) list) list" where
  "group_flags fs =
     foldl (\<lambda>g (n, f).
       map_put (fl_file f) (map_put n f (case map_find (fl_file f) g of None \<Rightarrow> [] | Some m \<Rightarrow> m)) g) [] fs"

definition hidden :: "'d flag \<Rightarrow> bool" where
  "hidden f \<longleftrightarrow> fl_help f = [] \<or> hd (fl_help f) = CHR ''.''"

definition value_text :: "'d doubles \<Rightarrow> 'd flag_value \<Rightarrow> string" where
  "value_text D x = (case x of FV_String s \<Rightarrow> format_str s | _ \<Rightarrow> flag_get_value D x)"

definition flag_lines :: "'d doubles \<Rightarrow> string \<times> 'd flag \<Rightarrow> string" where
  "flag_lines D nf =
     (let (n, f) = nf in
      if hidden f then [] else ''# '' @ fl_help f @ nl @ n @ '' = '' @ value_text D (fl_value f) @ nl @ nl)"

definition group_lines :: "'d doubles \<Rightarrow> string \<times> (string \<times> 'd flag) list \<Rightarrow> string" where
  "group_lines D g = concat (map (flag_lines D) (snd g)) @ nl"

definition exe_name :: "string \<Rightarrow> string" where
  "exe_name exe =
     (case rfind_char backslash exe of
        Some p \<Rightarrow> drop (p + 1) exe
      | None \<Rightarrow> (case rfind_char CHR ''/'' exe of Some p \<Rightarrow> drop (p + 1) exe | None \<Rightarrow> exe))"

definition config_head :: "string \<Rightarrow> string" where
  "config_head exe =
     replicate 49 CHR 0x23 @ nl @ ''###  config for '' @ exe_name exe @ nl @ ''###  # or // for comments'' @ nl @
     replicate 49 CHR 0x23 @ nl @ nl"

definition config_text :: "'d doubles \<Rightarrow> string \<Rightarrow> (string \<times> 'd flag) list \<Rightarrow> string" where
  "config_text D exe fs = config_head exe @ concat (map (group_lines D) (group_flags fs))"

text \<open>The output and the file that is written, when it can be opened.\<close>

definition mkconf :: "'d doubles \<Rightarrow> (string \<Rightarrow> bool) \<Rightarrow> string \<Rightarrow> 'd flag_state \<Rightarrow> string \<times> (string \<times> string) option" where
  "mkconf D can_write exe st =
     (let fname = (if ends_with ''.exe'' exe then List.take (length exe - 4) exe else exe) @ ''.conf'' in
      if can_write fname then ([], Some (fname, config_text D exe (fg_flags st)))
      else (''can't open config file: '' @ fname @ nl, None))"

section \<open>Initialisation\<close>

definition bool_flag :: "string \<Rightarrow> 'd flag_state \<Rightarrow> bool" where
  "bool_flag n st \<longleftrightarrow> (case map_find n (fg_flags st) of Some f \<Rightarrow> (case fl_value f of FV_Bool b \<Rightarrow> b | _ \<Rightarrow> False) | None \<Rightarrow> False)"

definition string_flag :: "string \<Rightarrow> 'd flag_state \<Rightarrow> string" where
  "string_flag n st = (case map_find n (fg_flags st) of Some f \<Rightarrow> (case fl_value f of FV_String s \<Rightarrow> s | _ \<Rightarrow> []) | None \<Rightarrow> [])"

text \<open>The arguments that are not flags, the flags, whether the process becomes a daemon; the file written.\<close>

definition flag_init ::
  "'d doubles \<Rightarrow> (string \<Rightarrow> string option) \<Rightarrow> (string \<Rightarrow> bool) \<Rightarrow> string \<Rightarrow> string list \<Rightarrow> 'd flag_state \<Rightarrow>
     (string list \<times> 'd flag_state \<times> bool) flag_ending outcome \<times> (string \<times> string) option" where
  "flag_init D files can_write exe args st =
     (case parse_command_line_flags D (\<lambda>p. files p \<noteq> None) exe args st of
        Inl f \<Rightarrow> (Inl f, None)
      | Inr (Exits k out) \<Rightarrow> (Inr (Exits k out), None)
      | Inr (Returns (v, st)) \<Rightarrow>
          if bool_flag ''mkconf'' st then
            (let (out, w) = mkconf D can_write exe st in (Inr (Exits 0 out), w))
          else
            (bindR (if string_flag ''config'' st = [] then Inr (Returns st) else parse_config D files (string_flag ''config'' st) st)
               (\<lambda>r. Inr (case r of Exits k out \<Rightarrow> Exits k out | Returns st \<Rightarrow> Returns (v, st, bool_flag ''daemon'' st))), None))"

section \<open>The file is read back\<close>

text \<open>Texts without a byte that means something to the reader.\<close>

definition plain :: "string \<Rightarrow> bool" where
  "plain s \<longleftrightarrow> CHR 0x0A \<notin> set s \<and> CHR 0x00 \<notin> set s \<and> backslash \<notin> set s \<and> CHR 0xE3 \<notin> set s"

lemma plain_append [simp]: "plain (s @ t) \<longleftrightarrow> plain s \<and> plain t"
  by (auto simp: plain_def)

lemma find_sub_needs: "find_sub sub s = Some k \<Longrightarrow> set sub \<subseteq> set s"
  using find_sub_first [of sub s k] by (metis Un_iff set_append subsetI)

lemma until_nul_plain: "plain s \<Longrightarrow> until_nul s = s"
  by (auto simp: until_nul_def plain_def takeWhile_eq_all_conv)

lemma widened_plain: "plain s \<Longrightarrow> widened s = s"
proof -
  assume p: "plain s"
  have "find_sub wide_blank s = None"
    using find_sub_needs [of wide_blank s] p by (cases "find_sub wide_blank s") (auto simp: wide_blank_def plain_def)
  then show ?thesis using until_nul_plain [OF p] by (simp add: widened_def str_replace_def)
qed

lemma trims: "trim_left P s = dropWhile P s" "trim_right P s = rev (dropWhile P (rev s))"
  unfolding trim_left_def trim_right_def by (rule dropWhile_eq_drop [symmetric], rule take_stripped)

lemma tidy_plain: "plain s \<Longrightarrow> tidy s = dropWhile blanks (rev (dropWhile blanks (rev s)))"
  by (simp add: tidy_def widened_plain trims)

lemma set_tidy: "plain s \<Longrightarrow> set (tidy s) \<subseteq> set s"
  by (auto simp: tidy_plain dest!: set_dropWhileD)

lemma getline_plain: "plain l \<Longrightarrow> getline (l # ls) = (tidy l, ls)"
proof -
  assume p: "plain l"
  have "last (tidy l) \<noteq> backslash" if "tidy l \<noteq> []"
    using last_in_set [OF that] set_tidy [OF p] p by (auto simp: plain_def)
  then show ?thesis by (auto simp: Let_def)
qed

text \<open>Splitting takes the lines apart again.\<close>

lemma split_lines:
  assumes "\<forall>l \<in> set ls. c \<notin> set l"
  shows "split_chars c 0 n (concat (map (\<lambda>l. l @ [c]) ls)) = ls"
  using assms
proof (induction ls arbitrary: n)
  case (Cons l ls)
  let ?s = "concat (map (\<lambda>l. l @ [c]) (l # ls))"
  have "takeWhile (\<lambda>x. x \<noteq> c) ?s = l" using Cons.prems by (auto simp: takeWhile_append1 takeWhile_tail)
  moreover have "c \<in> set ?s" by simp
  ultimately have "split_chars c 0 n ?s = l # split_chars c 0 (n + 1) (concat (map (\<lambda>l. l @ [c]) ls))"
    by (subst split_chars.simps) (simp add: Let_def)
  then show ?case using Cons by simp
qed (simp add: split_chars.simps tail_piece_def)

text \<open>A line \<open>name = value\<close>.\<close>

definition name_char :: "char \<Rightarrow> bool" where
  "name_char c \<longleftrightarrow> \<not> blanks c \<and> \<not> is_quote c \<and> c \<notin> {CHR ''='', CHR 0x23, CHR ''/''}"

definition flag_name :: "string \<Rightarrow> bool" where
  "flag_name n \<longleftrightarrow> n \<noteq> [] \<and> plain n \<and> list_all name_char n"

definition value_line :: "string \<Rightarrow> bool" where
  "value_line w \<longleftrightarrow>
     plain w \<and> CHR 0x23 \<notin> set w \<and> find_sub ''//'' w = None \<and> (w = [] \<or> \<not> blanks (hd w) \<and> \<not> blanks (last w))"

lemma find_sub_absent: "x \<in> set sub \<Longrightarrow> x \<notin> set s \<Longrightarrow> find_sub sub s = None"
  using find_sub_needs by (cases "find_sub sub s") auto

lemma find_sub_first_char: "c \<notin> set u \<Longrightarrow> find_sub [c] (u @ c # r) = Some (length u)"
  by (induction u) auto

lemma find_sub_behind: "c \<notin> set u \<Longrightarrow> find_sub (c # cs) w = None \<Longrightarrow> find_sub (c # cs) (u @ w) = None"
  by (induction u) auto

lemma no_quotes: "list_all (\<lambda>c. \<not> is_quote c) s \<Longrightarrow> fold quote_step s (None, None) = (None, None)"
  by (induction s) (auto simp: quote_step_def)

lemma find_outside_none: "find_sub (c # cs) s = None \<Longrightarrow> find_not_in_qm s c cs = None"
  by (simp add: find_not_in_qm_def find_outside.simps)

lemma find_outside_first:
  assumes "c \<notin> set u" "list_all (\<lambda>d. \<not> is_quote d) (u @ [c])"
  shows "find_not_in_qm (u @ c # r) c [] = Some (length u)"
  using no_quotes [OF assms(2)] find_sub_first_char [OF assms(1), of r]
  by (simp add: find_not_in_qm_def find_outside.simps)

lemma written_setting:
  assumes n: "flag_name n" and w: "value_line w"
  shows "config_setting (tidy (n @ '' = '' @ w)) = Setting n (unquoted w)"
proof -
  let ?w = "if w = [] then [] else CHR '' '' # w"
  let ?u = "n @ '' ''"
  let ?l = "?u @ CHR ''='' # ?w"
  have nc: "c \<in> set n \<Longrightarrow> name_char c" for c using n by (auto simp: flag_name_def list_all_iff)
  have ne: "n \<noteq> []" using n by (simp add: flag_name_def)
  then have h: "name_char (hd n)" "name_char (last n)" using nc by simp_all
  have pl: "plain ?l" "plain (n @ '' = '' @ w)" using n w by (auto simp: flag_name_def value_line_def plain_def backslash_def)
  have "dropWhile blanks (rev (n @ '' = '' @ w)) = rev ?l"
  proof (cases w rule: rev_cases)
    case (snoc v c)
    then have "\<not> blanks c" using w by (simp add: value_line_def)
    then show ?thesis using snoc by simp
  qed (simp add: blanks_def)
  then have l: "tidy (n @ '' = '' @ w) = ?l"
    using tidy_plain [OF pl(2)] h(1) ne by (simp add: name_char_def dropWhile_eq_self_iff)
  have "CHR 0x23 \<notin> set ?l" using nc w by (auto simp: value_line_def name_char_def)
  then have "find_sub [CHR 0x23] ?l = None" by (rule find_sub_absent [rotated]) simp
  then have hash: "find_not_in_qm ?l CHR 0x23 [] = None" by (rule find_outside_none)
  have "find_sub ''//'' (?u @ (CHR ''='' # ?w)) = None"
    by (rule find_sub_behind) (use nc w in \<open>auto simp: name_char_def value_line_def\<close>)
  then have slash: "find_not_in_qm ?l CHR ''/'' ''/'' = None" by (rule find_outside_none)
  have cut: "cut_comment ?l = ?l" by (simp only: cut_comment_def until_nul_plain [OF pl(1)] hash slash Let_def prod.case option.case)
  have eq: "find_not_in_qm ?l CHR ''='' [] = Some (length ?u)"
    by (rule find_outside_first) (use nc in \<open>auto simp: name_char_def list_all_iff is_quote_def\<close>)
  have start: "hd ?l \<noteq> CHR 0x23" "\<not> starts_with ''//'' ?l" "?l \<noteq> []"
    using h(1) ne by (cases n; auto simp: name_char_def starts_with_def)+
  have left: "str_strip sp_tab CHR ''r'' ?u = n"
    unfolding strip_right using h(2) ne
    by (cases n rule: rev_cases) (auto simp: sp_tab_def name_char_def blanks_def)
  have right: "str_strip sp_tab CHR ''l'' ?w = w"
    unfolding strip_left using w by (cases w) (auto simp: sp_tab_def value_line_def blanks_def)
  show ?thesis
    unfolding l config_setting_def using start
    by (simp only: cut until_nul_plain [OF pl(1)] eq Let_def option.case if_False simp_thms)
      (use left right ne in \<open>simp del: append_assoc\<close>)
qed

text \<open>
  Values that are read back: texts without a byte the reader treats in its own way, without
  comment marks, with quotes of one kind at most, and without blanks at the ends unless they
  are quoted; numbers in range; doubles whose printed text has none of those bytes and is
  read by the C library as the same double.
\<close>

text \<open>A byte the reader passes on as it is.\<close>

definition calm :: "char \<Rightarrow> bool" where
  "calm c \<longleftrightarrow> \<not> blanks c \<and> \<not> is_quote c \<and> c \<noteq> CHR 0x0A \<and> c \<noteq> CHR 0x00 \<and> c \<noteq> backslash \<and> c \<noteq> CHR 0xE3 \<and> c \<noteq> CHR 0x23 \<and> c \<noteq> CHR ''/''"

definition writable_text :: "string \<Rightarrow> bool" where
  "writable_text s \<longleftrightarrow> plain s \<and> CHR 0x23 \<notin> set s \<and> find_sub ''//'' s = None \<and>
     (if list_all (\<lambda>c. \<not> is_quote c) s then s = [] \<or> \<not> blanks (hd s) \<and> \<not> blanks (last s)
      else \<not> (CHR 0x22 \<in> set s \<and> CHR 0x27 \<in> set s))"

fun writable :: "'d doubles \<Rightarrow> 'd flag_value \<Rightarrow> bool" where
  "writable D (FV_String s) = writable_text s"
| "writable D (FV_Bool b) = True"
| "writable D (FV_Int32 x) = (- (2 ^ 31) \<le> x \<and> x < 2 ^ 31)"
| "writable D (FV_Int64 x) = (- (2 ^ 63) \<le> x \<and> x < 2 ^ 63)"
| "writable D (FV_Uint32 x) = True"
| "writable D (FV_Uint64 x) = True"
| "writable D (FV_Double x) = (list_all calm (dbl_show D x) \<and> dbl_read D (dbl_show D x) = (x, length (dbl_show D x), False, False))"

fun same_type :: "'d flag_value \<Rightarrow> 'd flag_value \<Rightarrow> bool" where
  "same_type (FV_String _) (FV_String _) = True"
| "same_type (FV_Bool _) (FV_Bool _) = True"
| "same_type (FV_Int32 _) (FV_Int32 _) = True"
| "same_type (FV_Int64 _) (FV_Int64 _) = True"
| "same_type (FV_Uint32 _) (FV_Uint32 _) = True"
| "same_type (FV_Uint64 _) (FV_Uint64 _) = True"
| "same_type (FV_Double _) (FV_Double _) = True"
| "same_type _ _ = False"

lemma trim_same: "\<not> P c \<Longrightarrow> c \<in> set s \<Longrightarrow> dropWhile P (s @ t) = dropWhile P s @ t"
  by (simp add: dropWhile_append1)

lemma unquote_none: "list_all (\<lambda>c. \<not> is_quote c) s \<Longrightarrow> unquoted s = s"
  by (cases s) (auto simp: unquoted_def)

lemma unquote_one:
  assumes "is_quote c" "c \<notin> set s" "s \<noteq> []"
  shows "unquoted ([c] @ s @ [c]) = s"
proof -
  have "dropWhile (\<lambda>d. d = c) (rev s @ [c]) = rev s @ [c]" using assms(2,3) by (cases s rule: rev_cases) auto
  moreover have "dropWhile (\<lambda>d. d = c) s = s" using assms(2,3) by (cases s) auto
  moreover have "dropWhile (\<lambda>d. d = c) (s @ [c]) = s @ [c]" using assms(2,3) by (cases s) auto
  moreover have "dropWhile (\<lambda>d. d = c) (rev s) = rev s" using assms(2,3) by (cases s rule: rev_cases) auto
  ultimately show ?thesis using assms by (simp add: unquoted_def trims)
qed

lemma find_double: "find_sub ''//'' s = None \<Longrightarrow> c \<noteq> CHR ''/'' \<Longrightarrow> find_sub ''//'' ([c] @ s @ [c]) = None"
proof -
  assume a: "find_sub ''//'' s = None" "c \<noteq> CHR ''/''"
  have "find_sub ''//'' (s @ [c]) = None" using a by (induction s rule: induct_list012) (auto split: if_splits)
  then show ?thesis using a(2) by simp
qed

lemma written_text:
  assumes "writable_text s"
  shows "value_line (format_str s)" "unquoted (format_str s) = s"
proof -
  have q: "list_all (\<lambda>c. \<not> is_quote c) s \<longleftrightarrow> CHR 0x22 \<notin> set s \<and> CHR 0x27 \<notin> set s"
    by (auto simp: list_all_iff is_quote_def)
  consider "list_all (\<lambda>c. \<not> is_quote c) s" "format_str s = s" "s = [] \<or> \<not> blanks (hd s) \<and> \<not> blanks (last s)"
    | c where "format_str s = [c] @ s @ [c]" "is_quote c" "c \<notin> set s" "s \<noteq> []"
  proof (cases "list_all (\<lambda>c. \<not> is_quote c) s")
    case True
    then show thesis using assms q that(1) by (simp add: writable_text_def format_str_def)
  next
    case False
    then have ne: "s \<noteq> []" by auto
    have "\<not> (CHR 0x22 \<in> set s \<and> CHR 0x27 \<in> set s)" using assms False by (simp add: writable_text_def)
    then show thesis
      using that(2) [of "CHR 0x22"] that(2) [of "CHR 0x27"] q False ne by (auto simp: format_str_def is_quote_def)
  qed
  then have "value_line (format_str s) \<and> unquoted (format_str s) = s"
  proof cases
    case 1
    then show ?thesis using assms unquote_none by (simp add: writable_text_def value_line_def)
  next
    case 2
    have c: "plain [c]" "\<not> blanks c" "c \<noteq> CHR 0x23" "c \<noteq> CHR ''/''" using 2(2) by (auto simp: is_quote_def plain_def backslash_def blanks_def)
    have "find_sub ''//'' ([c] @ s @ [c]) = None" using find_double c(4) assms by (simp add: writable_text_def)
    moreover have "plain ([c] @ s @ [c])" using c(1) assms by (simp only: plain_append writable_text_def)
    ultimately have "value_line ([c] @ s @ [c])" using c assms unfolding value_line_def by (simp add: writable_text_def)
    then show ?thesis using unquote_one [OF 2(2-4)] 2(1) by simp
  qed
  then show "value_line (format_str s)" "unquoted (format_str s) = s" by simp_all
qed

text \<open>Numbers.\<close>

definition number_char :: "char \<Rightarrow> bool" where
  "number_char c \<longleftrightarrow> is_digit c \<or> c = CHR ''-''"

lemma number_chars: "list_all number_char (dec_int x)"
  using dec_nat_digits by (auto simp: dec_int_def number_char_def list_all_iff)

lemma calm_number: "number_char c \<Longrightarrow> calm c"
  unfolding calm_def by (intro conjI notI) (auto simp: number_char_def is_digit_def blanks_def is_quote_def backslash_def)

lemma dec_int_nat: "dec_int (int n) = dec_nat n"
  by (simp add: dec_int_def)

lemma plain_line:
  assumes "\<forall>c \<in> set s. calm c"
  shows "value_line s" "unquoted s = s"
proof -
  have "CHR ''/'' \<notin> set s" using assms by (auto simp: calm_def)
  then have "find_sub ''//'' s = None" by (intro find_sub_absent [of "CHR ''/''"]) simp_all
  moreover have "s \<noteq> [] \<Longrightarrow> \<not> blanks (hd s) \<and> \<not> blanks (last s)" using assms by (simp add: calm_def)
  moreover have "plain s" "CHR 0x23 \<notin> set s" using assms by (auto simp: plain_def calm_def)
  ultimately show "value_line s" by (auto simp: value_line_def)
  show "unquoted s = s" by (rule unquote_none) (use assms in \<open>simp add: list_all_iff calm_def\<close>)
qed

lemma number_line: "value_line (dec_int x)" "unquoted (dec_int x) = dec_int x"
  by (rule plain_line, use number_chars [of x] calm_number in \<open>simp add: list_all_iff\<close>)+

lemma number_until_nul: "until_nul (dec_int x) = dec_int x"
  using number_line(1) [of x] by (intro until_nul_plain) (simp add: value_line_def)

lemma to_int64_dec: "in_int64 x \<Longrightarrow> to_int64 False (dec_int x) = (Inr x, False)"
  using strtoll_dec [of "[]" x] by (simp add: to_int64_def)

lemma to_int32_dec: "- (2 ^ 31) \<le> x \<Longrightarrow> x < 2 ^ 31 \<Longrightarrow> to_int32 False (dec_int x) = (Inr x, False)"
  using to_int64_dec [of x] by (simp add: to_int32_def)

lemma to_uint64_dec:
  assumes "n < 2 ^ 64"
  shows "to_uint64 False (dec_nat n) = (Inr (of_nat n), False)"
proof -
  have "c_number (dec_nat n) = (False, n, length (dec_nat n))" using c_number_dec [of "[]" "int n"] by (simp add: dec_int_nat)
  then have "strtoull (dec_nat n) = (of_nat n, length (dec_nat n), False)" using assms by (simp add: strtoull_def)
  then show ?thesis by (simp add: to_uint64_def)
qed

lemma to_uint32_dec:
  assumes "n < 2 ^ 32"
  shows "to_uint32 False (dec_nat n) = (Inr (of_nat n), False)"
proof -
  have "sint (word_of_int (int n) :: u64) = int n" using assms by (simp add: signed_of_nat signed_take_bit_int_eq_self)
  then have s: "signed_abs (of_nat n) = Inr (int n)" by (simp add: signed_abs_def)
  have "(ucast (of_nat n :: u64) :: u32) = of_nat n" using assms by (simp add: unsigned_of_nat take_bit_nat_eq_self)
  then show ?thesis using to_uint64_dec [of n] s assms by (simp add: to_uint32_def)
qed

lemma written_value:
  assumes "writable D x"
  shows "value_line (value_text D x)" "same_type y x \<Longrightarrow> flag_set_value D y (unquoted (value_text D x)) False = (Inr x, False)"
proof -
  have nat_line: "value_line (dec_nat n)" "unquoted (dec_nat n) = dec_nat n" "until_nul (dec_nat n) = dec_nat n" for n
    using number_line [of "int n"] number_until_nul [of "int n"] by (simp_all add: dec_int_nat)
  have bools: "value_line ''true''" "value_line ''false''" "unquoted ''true'' = ''true''" "unquoted ''false'' = ''false''"
    by (rule plain_line, simp add: calm_def blanks_def is_quote_def backslash_def)+
  have nul: "until_nul ''true'' = ''true''" "until_nul ''false'' = ''false''" by (simp_all add: until_nul_def)
  show "value_line (value_text D x)"
    using assms written_text(1) number_line(1) nat_line(1) bools(1,2) plain_line(1)
    by (cases x) (auto simp: value_text_def list_all_iff)
  show "flag_set_value D y (unquoted (value_text D x)) False = (Inr x, False)" if t: "same_type y x"
  proof (cases x)
    case (FV_Uint32 u)
    moreover have "unat u < 2 ^ 32" using unsigned_less [of u, where 'a = nat] by simp
    ultimately show ?thesis using t nat_line to_uint32_dec [of "unat u"] by (cases y) (simp_all add: value_text_def as_value_def)
  next
    case (FV_Uint64 u)
    moreover have "unat u < 2 ^ 64" using unsigned_less [of u, where 'a = nat] by simp
    ultimately show ?thesis using t nat_line to_uint64_dec [of "unat u"] by (cases y) (simp_all add: value_text_def as_value_def)
  next
    case (FV_Int32 i)
    then show ?thesis using t assms number_line(2) [of i] number_until_nul [of i] to_int32_dec [of i]
      by (cases y) (simp_all add: value_text_def as_value_def)
  next
    case (FV_Int64 i)
    then show ?thesis using t assms number_line(2) [of i] number_until_nul [of i] to_int64_dec [of i]
      by (cases y) (simp_all add: value_text_def as_value_def)
  next
    case (FV_Bool b)
    then show ?thesis using t bools nul by (cases y) (simp_all add: value_text_def as_value_def to_bool_def)
  next
    case (FV_String v)
    then show ?thesis using t assms written_text(2) by (cases y) (simp_all add: value_text_def)
  next
    case (FV_Double v)
    let ?s = "dbl_show D v"
    have c: "\<forall>c \<in> set ?s. calm c" using assms FV_Double by (simp add: list_all_iff)
    have "until_nul ?s = ?s" using plain_line(1) [OF c] by (intro until_nul_plain) (simp add: value_line_def)
    then show ?thesis using t assms FV_Double plain_line(2) [OF c]
      by (cases y) (simp_all add: value_text_def as_value_def to_double_def)
  qed
qed

text \<open>The file as lines.\<close>

definition head_lines :: "string \<Rightarrow> string list" where
  "head_lines exe =
     [replicate 49 CHR 0x23, ''###  config for '' @ exe_name exe, ''###  # or // for comments'', replicate 49 CHR 0x23, []]"

definition setting_lines :: "'d doubles \<Rightarrow> string \<times> 'd flag \<Rightarrow> string list" where
  "setting_lines D nf =
     (let (n, f) = nf in if hidden f then [] else [''# '' @ fl_help f, n @ '' = '' @ value_text D (fl_value f), []])"

definition file_lines :: "'d doubles \<Rightarrow> string \<Rightarrow> (string \<times> 'd flag) list \<Rightarrow> string list" where
  "file_lines D exe fs = head_lines exe @ concat (map (\<lambda>g. concat (map (setting_lines D) (snd g)) @ [[]]) (group_flags fs))"

definition with_nl :: "string list \<Rightarrow> string" where
  "with_nl ls = concat (map (\<lambda>l. l @ [CHR 0x0A]) ls)"

lemma with_nl_simps [simp]: "with_nl [] = []" "with_nl (l # ls) = l @ [CHR 0x0A] @ with_nl ls" "with_nl (ls @ ls') = with_nl ls @ with_nl ls'"
  by (simp_all add: with_nl_def)

lemma with_nl_concat: "with_nl (concat xs) = concat (map with_nl xs)"
  by (induction xs) simp_all

lemma flag_lines_nl: "flag_lines D nf = with_nl (setting_lines D nf)"
  by (simp add: flag_lines_def setting_lines_def nl_def split: prod.split)

lemma config_text_lines: "config_text D exe fs = with_nl (file_lines D exe fs)"
proof -
  have fl: "flag_lines D = (\<lambda>x. with_nl (setting_lines D x))" by (rule ext) (rule flag_lines_nl)
  have "group_lines D g = with_nl (concat (map (setting_lines D) (snd g)) @ [[]])" for g
    by (simp add: group_lines_def with_nl_concat fl nl_def comp_def)
  then have "group_lines D = (\<lambda>g. with_nl (concat (map (setting_lines D) (snd g)) @ [[]]))" by blast
  moreover have "config_head exe = with_nl (head_lines exe)" by (simp add: config_head_def head_lines_def nl_def)
  ultimately show ?thesis
    by (simp add: config_text_def file_lines_def with_nl_concat comp_def)
qed

text \<open>Ordered maps that get a value for a key they have, or another pair.\<close>

lemma map_put_same:
  assumes "keys_sorted m" "map_find k m = Some v0"
  shows "map_put k v m = map (\<lambda>e. if fst e = k then (k, v) else e) m"
  using assms
proof (induction m)
  case (Cons e m)
  obtain k' v' where e: "e = (k', v')" by (cases e)
  have o: "\<forall>x \<in> fst ` set m. str_less k' x" "keys_sorted m" using Cons.prems(1) e by (auto simp: keys_sorted_Cons)
  show ?case
  proof (cases "k = k'")
    case True
    then have "\<forall>x \<in> set m. fst x \<noteq> k" using o(1) by auto
    then have "map (\<lambda>e. if fst e = k then (k, v) else e) m = m" by (intro map_idI) auto
    then show ?thesis using True e by simp
  next
    case False
    then have f: "map_find k m = Some v0" using Cons.prems(2) e by (simp add: map_find_def)
    then have "k \<in> fst ` set m" by (auto simp: map_find_def dest: map_of_SomeD intro: rev_image_eqI)
    then have "\<not> str_less k k'" using o(1) str_less_asym by blast
    then show ?thesis using Cons.IH [OF o(2) f] False e by simp
  qed
qed (simp add: map_find_def)

lemma set_map_put_sorted: "keys_sorted m \<Longrightarrow> set (map_put k v m) = insert (k, v) {e \<in> set m. fst e \<noteq> k}"
proof (induction k v m rule: map_put.induct)
  case (2 k v k' v' m)
  have o: "\<forall>x \<in> fst ` set m. str_less k' x" "keys_sorted m" using "2.prems" by (auto simp: keys_sorted_Cons)
  have a: "k \<notin> fst ` set m" if "k = k' \<or> str_less k k'" using o(1) that str_less_trans str_less_irrefl by metis
  have b: "{e \<in> set m. fst e \<noteq> k} = set m" if "k = k' \<or> str_less k k'" using a [OF that] by force
  consider "k = k'" | "k \<noteq> k'" "str_less k k'" | "k \<noteq> k'" "\<not> str_less k k'" by blast
  then show ?case
  proof cases
    case 1
    have "{e \<in> set ((k', v') # m). fst e \<noteq> k} = {e \<in> set m. fst e \<noteq> k}" using 1 by auto
    then show ?thesis using 1 b by simp
  next
    case 2
    have "{e \<in> set ((k', v') # m). fst e \<noteq> k} = insert (k', v') {e \<in> set m. fst e \<noteq> k}" using 2 by auto
    then show ?thesis using 2 b by simp
  next
    case 3
    have "{e \<in> set ((k', v') # m). fst e \<noteq> k} = insert (k', v') {e \<in> set m. fst e \<noteq> k}" using 3 by auto
    moreover have "set (map_put k v m) = insert (k, v) {e \<in> set m. fst e \<noteq> k}" using "2.IH" 3 o(2) by blast
    ultimately show ?thesis using 3 by (simp add: insert_commute)
  qed
qed simp

lemma keys_distinct: "keys_sorted m \<Longrightarrow> distinct (map fst m)"
proof (induction m)
  case (Cons e m)
  obtain k v where "e = (k, v)" by (cases e)
  then show ?case using Cons by (auto simp: keys_sorted_Cons)
qed simp

lemma group_flags_members:
  "distinct (map fst fs) \<Longrightarrow> keys_sorted (group_flags fs) \<and> (\<Union>g \<in> set (group_flags fs). set (snd g)) = set fs \<and>
     (\<forall>g \<in> set (group_flags fs). keys_sorted (snd g))"
proof (induction fs rule: rev_induct)
  case (snoc e fs)
  obtain n f where e: "e = (n, f)" by (cases e)
  let ?G = "group_flags fs"
  let ?m = "case map_find (fl_file f) ?G of None \<Rightarrow> [] | Some m \<Rightarrow> m"
  have IH: "keys_sorted ?G" "(\<Union>g \<in> set ?G. set (snd g)) = set fs" "\<forall>g \<in> set ?G. keys_sorted (snd g)"
    using snoc by auto
  have G: "group_flags (fs @ [e]) = map_put (fl_file f) (map_put n f ?m) ?G" by (simp add: group_flags_def e)
  have inm: "map_find (fl_file f) ?G = Some m \<Longrightarrow> (fl_file f, m) \<in> set ?G" for m
    by (simp add: map_find_def map_of_SomeD)
  have ks: "keys_sorted ?m"
  proof (cases "map_find (fl_file f) ?G")
    case (Some m)
    then show ?thesis using bspec [OF IH(3) inm [OF Some]] by simp
  qed simp
  have sub: "set ?m \<subseteq> set fs"
  proof (cases "map_find (fl_file f) ?G")
    case (Some m)
    have "set m \<subseteq> (\<Union>g \<in> set ?G. set (snd g))" using UN_upper [OF inm [OF Some], of "\<lambda>g. set (snd g)"] by simp
    then show ?thesis using Some IH(2) by simp
  qed simp
  have "n \<notin> fst ` set fs" using snoc.prems e by auto
  then have sm: "set (map_put n f ?m) = insert (n, f) (set ?m)"
  proof -
    have "fst e \<noteq> n" if "e \<in> set ?m" for e using imageI [OF subsetD [OF sub that], of fst] \<open>n \<notin> fst ` set fs\<close> by blast
    then have "{e \<in> set ?m. fst e \<noteq> n} = set ?m" by blast
    then show ?thesis using set_map_put_sorted [OF ks, of n f] by simp
  qed
  have sG: "set (map_put (fl_file f) (map_put n f ?m) ?G) =
      insert (fl_file f, map_put n f ?m) {g \<in> set ?G. fst g \<noteq> fl_file f}"
    by (rule set_map_put_sorted [OF IH(1)])
  have other: "set (snd g) \<subseteq> set ?m" if "g \<in> set ?G" "fst g = fl_file f" for g
  proof -
    have "map_find (fl_file f) ?G = Some (snd g)"
      using that keys_distinct [OF IH(1)] by (metis map_find_def map_of_is_SomeI prod.collapse)
    then show ?thesis by simp
  qed
  have "(\<Union>g \<in> set (group_flags (fs @ [e])). set (snd g)) = set (fs @ [e])"
  proof -
    let ?O = "{g \<in> set ?G. fst g \<noteq> fl_file f}"
    have "(\<Union>g \<in> ?O. set (snd g)) \<subseteq> set fs" using IH(2) by blast
    moreover have "set fs \<subseteq> set ?m \<union> (\<Union>g \<in> ?O. set (snd g))" using IH(2) other by blast
    ultimately have "set (map_put n f ?m) \<union> (\<Union>g \<in> ?O. set (snd g)) = insert (n, f) (set fs)" using sm sub by blast
    then show ?thesis unfolding G sG by (simp add: e)
  qed
  moreover have "keys_sorted (group_flags (fs @ [e]))" unfolding G by (rule keys_sorted_put [OF IH(1)])
  moreover have "\<forall>g \<in> set (group_flags (fs @ [e])). keys_sorted (snd g)"
    unfolding G sG using IH(3) keys_sorted_put [OF ks] by auto
  ultimately show ?case by blast
qed (simp add: group_flags_def)

text \<open>Reading the lines of some flags gives them their values.\<close>

definition with_values :: "(string \<Rightarrow> 'd flag_value) \<Rightarrow> (string \<times> 'd flag) list \<Rightarrow> (string \<times> 'd flag) list" where
  "with_values w fs = map (\<lambda>(n, f). (n, f\<lparr>fl_value := w n\<rparr>)) fs"

lemma with_values_keys: "map fst (with_values w fs) = map fst fs"
  by (simp add: with_values_def case_prod_unfold)

lemma with_values_sorted: "keys_sorted (with_values w fs) = keys_sorted fs"
  by (simp add: keys_sorted_def with_values_keys)

lemma with_values_find: "distinct (map fst fs) \<Longrightarrow> (n, f) \<in> set fs \<Longrightarrow> map_find n (with_values w fs) = Some (f\<lparr>fl_value := w n\<rparr>)"
  unfolding map_find_def
proof (rule map_of_is_SomeI)
  show "distinct (map fst fs) \<Longrightarrow> distinct (map fst (with_values w fs))" by (simp only: with_values_keys)
  show "(n, f) \<in> set fs \<Longrightarrow> (n, f\<lparr>fl_value := w n\<rparr>) \<in> set (with_values w fs)" by (force simp: with_values_def)
qed

lemma with_values_put:
  assumes "keys_sorted fs" "(n, f) \<in> set fs"
  shows "map_put n (f\<lparr>fl_value := x\<rparr>) (with_values w fs) = with_values (w(n := x)) fs"
proof -
  note d = keys_distinct [OF assms(1)]
  have "map_put n (f\<lparr>fl_value := x\<rparr>) (with_values w fs) = map (\<lambda>e. if fst e = n then (n, f\<lparr>fl_value := x\<rparr>) else e) (with_values w fs)"
    by (rule map_put_same [OF _ with_values_find [OF d assms(2)]]) (simp add: with_values_sorted assms(1))
  also have "\<dots> = with_values (w(n := x)) fs"
  proof -
    have "g = f" if "(n, g) \<in> set fs" for g using eq_key_imp_eq_value [OF d that assms(2)] .
    then have "map (\<lambda>e. if fst e = n then (n, f\<lparr>fl_value := x\<rparr>) else e) (map (\<lambda>(n, f). (n, f\<lparr>fl_value := w n\<rparr>)) fs) =
        map (\<lambda>(m, g). (m, g\<lparr>fl_value := (w(n := x)) m\<rparr>)) fs"
      unfolding map_map by (intro map_cong refl) (auto split: prod.splits)
    then show ?thesis by (simp only: with_values_def)
  qed
  finally show ?thesis .
qed

text \<open>A flag that can be written: its name, its help text and its value.\<close>

definition flag_ok :: "'d doubles \<Rightarrow> string \<times> 'd flag \<Rightarrow> bool" where
  "flag_ok D nf \<longleftrightarrow> (let (n, f) = nf in hidden f \<or> flag_name n \<and> plain (fl_help f) \<and> writable D (fl_value f))"

lemma comment_line: "plain s \<Longrightarrow> s \<noteq> [] \<Longrightarrow> hd s = CHR 0x23 \<Longrightarrow> config_setting (tidy s) = Blank"
proof -
  assume a: "plain s" "s \<noteq> []" "hd s = CHR 0x23"
  obtain t where s: "s = CHR 0x23 # t" using a(2,3) by (cases s) auto
  have "dropWhile blanks (rev t @ [CHR 0x23]) = dropWhile blanks (rev t) @ [CHR 0x23]"
    by (induction "rev t" arbitrary: t) (simp_all add: blanks_def dropWhile_append3 dropWhile_append)
  then have "tidy s = CHR 0x23 # rev (dropWhile blanks (rev t))" using tidy_plain [OF a(1)] s by (simp add: blanks_def)
  then show ?thesis by (simp add: config_setting_def)
qed

lemma empty_line: "config_setting (tidy []) = Blank"
  by (simp add: tidy_plain plain_def config_setting_def)

lemma blank_step:
  assumes "plain l" "config_setting (tidy l) = Blank"
  shows "run_lines D c n (l # ls) st = run_lines D c n ls st"
  using getline_plain [OF assms(1)] assms(2) by (subst run_lines.simps) (simp add: Let_def)

lemma blank_lines:
  "\<forall>l \<in> set ls. plain l \<and> config_setting (tidy l) = Blank \<Longrightarrow> run_lines D c n (ls @ rest) st = run_lines D c n rest st"
  by (induction ls) (auto simp: blank_step)

lemma plain_const: "plain []" "plain ''# ''" "plain '' = ''"
  by (simp_all add: plain_def backslash_def)

lemma value_plain: "value_line w \<Longrightarrow> plain w" by (simp add: value_line_def)

lemma setting_step:
  assumes "keys_sorted fs" "(n, f) \<in> set fs" "flag_ok D (n, f)" "same_type (w n) (fl_value f)"
    and st: "fg_flags st = with_values w fs" "\<not> fg_errno st"
  shows "\<exists>st'. run_lines D c k (setting_lines D (n, f) @ rest) st = run_lines D c k rest st' \<and>
    fg_flags st' = with_values (if hidden f then w else w(n := fl_value f)) fs \<and> \<not> fg_errno st'"
proof (cases "hidden f")
  case True
  then show ?thesis using st by (intro exI [of _ st]) (simp add: setting_lines_def)
next
  case False
  then have ok: "flag_name n" "plain (fl_help f)" "writable D (fl_value f)" using assms(3) by (simp_all add: flag_ok_def)
  let ?l = "n @ '' = '' @ value_text D (fl_value f)"
  let ?st = "put_value n (f\<lparr>fl_value := w n\<rparr>) (fl_value f) (st\<lparr>fg_errno := False\<rparr>)"
  note wv = written_value [OF ok(3)]
  have pl: "plain ?l" using ok(1) value_plain [OF wv(1)] plain_const(3) unfolding flag_name_def plain_append by blast
  have cl: "plain (''# '' @ fl_help f)" using ok(2) plain_const by (simp only: plain_append)
  have "config_setting (tidy (''# '' @ fl_help f)) = Blank" by (rule comment_line [OF cl]) simp_all
  then have 1: "run_lines D c k (setting_lines D (n, f) @ rest) st = run_lines D c k (?l # [] # rest) st"
    using blank_step [OF cl] False by (simp add: setting_lines_def)
  have set: "set_flag_value D n (unquoted (value_text D (fl_value f))) st = Inr ([], ?st)"
    using with_values_find [OF keys_distinct [OF assms(1)] assms(2), of w] wv(2) [OF assms(4)] st by (simp add: set_flag_value_def)
  have "run_lines D c k (?l # [] # rest) st = run_lines D c k ([] # rest) ?st"
    using getline_plain [OF pl, of "[] # rest"] written_setting [OF ok(1) wv(1)] set
    by (subst run_lines.simps) (simp add: Let_def)
  also have "\<dots> = run_lines D c k rest ?st" by (rule blank_step [OF plain_const(1) empty_line])
  finally have 2: "run_lines D c k (?l # [] # rest) st = run_lines D c k rest ?st" .
  have "fg_flags ?st = with_values (w(n := fl_value f)) fs"
    using with_values_put [OF assms(1,2), of "fl_value f" w] st by (simp add: put_value_def)
  moreover have "\<not> fg_errno ?st" by (simp add: put_value_def)
  ultimately show ?thesis using 1 2 False by auto
qed

text \<open>All lines of some flags, and of the groups.\<close>

definition visible_in :: "(string \<times> 'd flag) list \<Rightarrow> string \<Rightarrow> bool" where
  "visible_in M n \<longleftrightarrow> (\<exists>f. (n, f) \<in> set M \<and> \<not> hidden f)"

definition own_value :: "(string \<times> 'd flag) list \<Rightarrow> string \<Rightarrow> 'd flag_value \<Rightarrow> 'd flag_value" where
  "own_value fs n x = (case map_find n fs of None \<Rightarrow> x | Some f \<Rightarrow> fl_value f)"

lemma own_value_of: "distinct (map fst fs) \<Longrightarrow> (n, f) \<in> set fs \<Longrightarrow> own_value fs n x = fl_value f"
  by (simp add: own_value_def map_find_def)

lemma same_refl: "same_type x x"
  by (cases x) simp_all

lemma members_step:
  assumes fs: "keys_sorted fs" "\<forall>e \<in> set fs. flag_ok D e"
    and M: "set M \<subseteq> set fs"
    and w: "\<forall>(n, f) \<in> set fs. same_type (w n) (fl_value f)"
    and st: "fg_flags st = with_values w fs" "\<not> fg_errno st"
  shows "\<exists>st'. run_lines D c k (concat (map (setting_lines D) M) @ rest) st = run_lines D c k rest st' \<and>
    fg_flags st' = with_values (\<lambda>n. if visible_in M n then own_value fs n (w n) else w n) fs \<and> \<not> fg_errno st'"
  using M w st
proof (induction M arbitrary: w st)
  case Nil
  then show ?case by (intro exI [of _ st]) (simp add: visible_in_def)
next
  case (Cons e M)
  note d = keys_distinct [OF fs(1)]
  obtain n f where e: "e = (n, f)" by (cases e)
  have m: "(n, f) \<in> set fs" "set M \<subseteq> set fs" using Cons.prems(1) e by auto
  have t: "same_type (w n) (fl_value f)" using Cons.prems(2) m(1) by blast
  let ?w = "if hidden f then w else w(n := fl_value f)"
  obtain st1 where s1: "run_lines D c k (setting_lines D (n, f) @ concat (map (setting_lines D) M) @ rest) st =
      run_lines D c k (concat (map (setting_lines D) M) @ rest) st1"
    "fg_flags st1 = with_values ?w fs" "\<not> fg_errno st1"
    using setting_step [OF fs(1) m(1) bspec [OF fs(2) m(1)] t Cons.prems(3,4)] by blast
  have w': "same_type (?w u) (fl_value g)" if "(u, g) \<in> set fs" for u g
  proof (cases "u = n")
    case True
    then have "g = f" using eq_key_imp_eq_value [OF d] that m(1) by blast
    then show ?thesis using t True by (simp add: same_refl)
  next
    case False
    then show ?thesis using Cons.prems(2) that by auto
  qed
  obtain st2 where s2: "run_lines D c k (concat (map (setting_lines D) M) @ rest) st1 = run_lines D c k rest st2"
    "fg_flags st2 = with_values (\<lambda>u. if visible_in M u then own_value fs u (?w u) else ?w u) fs" "\<not> fg_errno st2"
    using Cons.IH [OF m(2) _ s1(2,3)] w' by blast
  have "(if visible_in M u then own_value fs u (?w u) else ?w u) = (if visible_in (e # M) u then own_value fs u (w u) else w u)"
    if g: "(u, g) \<in> set fs" for u g
  proof -
    have ov: "own_value fs u x = fl_value g" for x by (rule own_value_of [OF d g])
    have "u = n \<Longrightarrow> g = f" using eq_key_imp_eq_value [OF d g] m(1) by blast
    then show ?thesis unfolding ov e by (auto simp: visible_in_def)
  qed
  then have "with_values (\<lambda>u. if visible_in M u then own_value fs u (?w u) else ?w u) fs =
      with_values (\<lambda>u. if visible_in (e # M) u then own_value fs u (w u) else w u) fs"
    unfolding with_values_def by (intro map_cong refl) force
  then show ?case using s1(1) s2 e by (intro exI [of _ st2]) simp
qed

lemma groups_step:
  assumes fs: "keys_sorted fs" "\<forall>e \<in> set fs. flag_ok D e"
    and G: "\<forall>g \<in> set G. set (snd g) \<subseteq> set fs"
    and w: "\<forall>(n, f) \<in> set fs. same_type (w n) (fl_value f)"
    and st: "fg_flags st = with_values w fs" "\<not> fg_errno st"
  shows "\<exists>st'. run_lines D c k (concat (map (\<lambda>g. concat (map (setting_lines D) (snd g)) @ [[]]) G) @ rest) st = run_lines D c k rest st' \<and>
    fg_flags st' = with_values (\<lambda>n. if visible_in (concat (map snd G)) n then own_value fs n (w n) else w n) fs \<and> \<not> fg_errno st'"
  using G w st
proof (induction G arbitrary: w st)
  case Nil
  then show ?case by (intro exI [of _ st]) (simp add: visible_in_def)
next
  case (Cons g G)
  note d = keys_distinct [OF fs(1)]
  have g: "set (snd g) \<subseteq> set fs" "\<forall>g \<in> set G. set (snd g) \<subseteq> set fs" using Cons.prems(1) by auto
  let ?w = "\<lambda>n. if visible_in (snd g) n then own_value fs n (w n) else w n"
  let ?rest = "concat (map (\<lambda>g. concat (map (setting_lines D) (snd g)) @ [[]]) G) @ rest"
  obtain st1 where s1: "run_lines D c k (concat (map (setting_lines D) (snd g)) @ [] # ?rest) st = run_lines D c k ([] # ?rest) st1"
    "fg_flags st1 = with_values ?w fs" "\<not> fg_errno st1"
    using members_step [OF fs g(1) Cons.prems(2-4)] by blast
  have s1b: "run_lines D c k ([] # ?rest) st1 = run_lines D c k ?rest st1" by (rule blank_step [OF plain_const(1) empty_line])
  have w': "\<forall>(u, f) \<in> set fs. same_type (?w u) (fl_value f)"
    using Cons.prems(2) own_value_of [OF d] by (auto simp: same_refl)
  obtain st2 where s2: "run_lines D c k ?rest st1 = run_lines D c k rest st2"
    "fg_flags st2 = with_values (\<lambda>u. if visible_in (concat (map snd G)) u then own_value fs u (?w u) else ?w u) fs" "\<not> fg_errno st2"
    using Cons.IH [OF g(2) w' s1(2,3)] by blast
  have "(if visible_in (concat (map snd G)) u then own_value fs u (?w u) else ?w u) =
      (if visible_in (concat (map snd (g # G))) u then own_value fs u (w u) else w u)"
    if "(u, f) \<in> set fs" for u f
    using own_value_of [OF d that] by (auto simp: visible_in_def)
  then have "with_values (\<lambda>u. if visible_in (concat (map snd G)) u then own_value fs u (?w u) else ?w u) fs =
      with_values (\<lambda>u. if visible_in (concat (map snd (g # G))) u then own_value fs u (w u) else w u) fs"
    unfolding with_values_def by (intro map_cong refl) force
  then show ?case using s1(1) s1b s2 by (intro exI [of _ st2]) simp
qed

lemma exe_name_plain: "plain exe \<Longrightarrow> plain (exe_name exe)"
  by (auto simp: plain_def exe_name_def split: option.splits dest: in_set_dropD)

lemma head_blank: "plain exe \<Longrightarrow> \<forall>l \<in> set (head_lines exe). plain l \<and> config_setting (tidy l) = Blank"
proof -
  assume e: "plain exe"
  have r: "plain (replicate 49 CHR 0x23)" by (simp add: plain_def backslash_def)
  have a: "plain ''###  config for ''" "plain ''###  # or // for comments''" by (simp_all add: plain_def backslash_def)
  have b: "plain (''###  config for '' @ exe_name exe)" using a(1) exe_name_plain [OF e] by (simp only: plain_append)
  have "config_setting (tidy (replicate 49 CHR 0x23)) = Blank" by (rule comment_line [OF r]) simp_all
  moreover have "config_setting (tidy (''###  config for '' @ exe_name exe)) = Blank" by (rule comment_line [OF b]) simp_all
  moreover have "config_setting (tidy ''###  # or // for comments'') = Blank" by (rule comment_line [OF a(2)]) simp_all
  ultimately show ?thesis using r a b empty_line plain_const(1) unfolding head_lines_def by (simp only: list.set ball_simps)
qed

lemma setting_lines_plain:
  assumes "flag_ok D e"
  shows "\<forall>l \<in> set (setting_lines D e). plain l"
proof -
  obtain n f where e: "e = (n, f)" by (cases e)
  show ?thesis
  proof (cases "hidden f")
    case False
    then have ok: "flag_name n" "plain (fl_help f)" "writable D (fl_value f)" using assms e by (simp_all add: flag_ok_def)
    have "plain (n @ '' = '' @ value_text D (fl_value f))" "plain (''# '' @ fl_help f)"
      using ok value_plain [OF written_value(1) [OF ok(3)]] plain_const unfolding flag_name_def plain_append by blast+
    then show ?thesis using e False plain_const(1) by (simp add: setting_lines_def)
  qed (simp add: e setting_lines_def)
qed

lemma file_lines_plain:
  assumes "keys_sorted fs" "\<forall>e \<in> set fs. flag_ok D e" "plain exe" "l \<in> set (file_lines D exe fs)"
  shows "plain l"
proof -
  have u: "(\<Union>g \<in> set (group_flags fs). set (snd g)) = set fs" using group_flags_members [OF keys_distinct [OF assms(1)]] by blast
  consider "l \<in> set (head_lines exe)" | g e where "g \<in> set (group_flags fs)" "e \<in> set (snd g)" "l \<in> set (setting_lines D e)" | "l = []"
    using assms(4) by (fastforce simp: file_lines_def split: if_splits)
  then show ?thesis
  proof cases
    case 2
    then have "e \<in> set fs" using u by blast
    then show ?thesis using setting_lines_plain assms(2) 2(3) by blast
  qed (use head_blank [OF assms(3)] plain_const(1) in auto)
qed

text \<open>
  C16. The configuration file a program writes for its flags is read back to the same flags,
  whatever values of the same types the visible flags had before: comments, the order of the
  groups, quotes and numbers included. The flags stand in the order of their names and hidden
  ones keep their values. Of the visible ones, the names consist of characters other than
  blanks, quotes, equality signs, hashes and slashes and are not empty; names, help texts and
  values, and the path of the program, have no newline, NUL, backslash or byte \<open>E3\<close> (the reader's wide blank begins with it); text
  values have no comment mark (a hash or two slashes), not both kinds of quotes, and, if they
  have no quote, no blanks at the ends; numbers are in the range of their type; and a double
  prints as a text without any of these bytes, blanks or quotes that the C library reads as
  the same double. \<open>errno\<close> is clear when the reading starts. The lemmas below show what becomes
  of other values.
\<close>

theorem written_config_is_read_back:
  assumes "keys_sorted fs" "\<forall>e \<in> set fs. flag_ok D e" "plain exe"
    and "\<forall>(n, f) \<in> set fs. same_type (w n) (fl_value f) \<and> (hidden f \<longrightarrow> w n = fl_value f)"
    and "files conf = Some (config_text D exe fs)"
  shows "\<exists>st. parse_config D files conf \<lparr>fg_flags = with_values w fs, fg_errno = False\<rparr> = Inr (Returns st) \<and> fg_flags st = fs"
proof -
  let ?ls = "file_lines D exe fs" and ?st = "\<lparr>fg_flags = with_values w fs, fg_errno = False\<rparr>"
  note d = keys_distinct [OF assms(1)]
  have u: "(\<Union>g \<in> set (group_flags fs). set (snd g)) = set fs" using group_flags_members [OF d] by blast
  have "CHR 0x0A \<in> set (with_nl ?ls)" by (simp add: file_lines_def head_lines_def)
  moreover have "\<forall>l \<in> set ?ls. CHR 0x0A \<notin> set l" using file_lines_plain [OF assms(1-3)] by (auto simp: plain_def)
  ultimately have split: "config_split (config_text D exe fs) = ?ls"
    using split_lines [of ?ls] by (simp add: config_split_def str_split_def config_text_lines with_nl_def)
  have 1: "parse_config D files conf ?st = run_lines D conf (length ?ls) ?ls ?st"
    using assms(5) split by (simp add: parse_config_def)
  have 2: "run_lines D conf (length ?ls) ?ls ?st =
      run_lines D conf (length ?ls) (concat (map (\<lambda>g. concat (map (setting_lines D) (snd g)) @ [[]]) (group_flags fs)) @ []) ?st"
    using blank_lines [OF head_blank [OF assms(3)]] by (simp only: file_lines_def append_Nil2)
  obtain st where st: "run_lines D conf (length ?ls) (concat (map (\<lambda>g. concat (map (setting_lines D) (snd g)) @ [[]]) (group_flags fs)) @ []) ?st =
      run_lines D conf (length ?ls) [] st"
    "fg_flags st = with_values (\<lambda>n. if visible_in (concat (map snd (group_flags fs))) n then own_value fs n (w n) else w n) fs"
    using groups_step [OF assms(1,2), of "group_flags fs" w ?st conf "length ?ls" "[]"] u assms(4) by fastforce
  have v: "visible_in (concat (map snd (group_flags fs))) n \<longleftrightarrow> (\<exists>f. (n, f) \<in> set fs \<and> \<not> hidden f)" for n
    using u by (auto simp: visible_in_def)
  have "(if visible_in (concat (map snd (group_flags fs))) n then own_value fs n (w n) else w n) = fl_value f" if "(n, f) \<in> set fs" for n f
    unfolding v own_value_of [OF d that] using that assms(4) by auto
  then have "fg_flags st = map (\<lambda>(n, f). (n, f\<lparr>fl_value := fl_value f\<rparr>)) fs"
    unfolding st(2) with_values_def by (intro map_cong refl) auto
  also have "\<dots> = fs" by (intro map_idI) auto
  finally show ?thesis using 1 2 st(1) by (simp add: run_lines.simps)
qed

definition sample_flags :: "(string \<times> unit flag) list" where
  "sample_flags =
     [(''d'', \<lparr>fl_type_str = ''double'', fl_default = ''1'', fl_help = ''how far'', fl_file = ''a.cc'', fl_value = FV_Double ()\<rparr>),
      (''n'', \<lparr>fl_type_str = ''int32'', fl_default = ''1'', fl_help = ''how many'', fl_file = ''a.cc'', fl_value = FV_Int32 (- 5)\<rparr>),
      (''s'', \<lparr>fl_type_str = ''string'', fl_default = [], fl_help = ''a text'', fl_file = ''b.cc'', fl_value = FV_String [CHR ''a'', CHR 0x27, CHR ''='']\<rparr>)]"

definition sample_doubles :: "unit doubles" where
  "sample_doubles = \<lparr>dbl_read = (\<lambda>s. ((), length s, False, False)), dbl_show = (\<lambda>_. ''0.5'')\<rparr>"

definition values_before :: "string \<Rightarrow> unit flag_value" where
  "values_before n = (if n = ''d'' then FV_Double () else if n = ''n'' then FV_Int32 1 else FV_String [])"

theorem written_config_is_read_back_witness:
  "\<exists>st. parse_config sample_doubles [''t.conf'' \<mapsto> config_text sample_doubles ''t'' sample_flags] ''t.conf''
     \<lparr>fg_flags = with_values values_before sample_flags, fg_errno = False\<rparr> = Inr (Returns st) \<and> fg_flags st = sample_flags"
proof (rule written_config_is_read_back)
  show "keys_sorted sample_flags" by (simp add: sample_flags_def keys_sorted_def)
  show "\<forall>e \<in> set sample_flags. flag_ok sample_doubles e"
    by (simp add: sample_flags_def sample_doubles_def flag_ok_def flag_name_def plain_def name_char_def blanks_def is_quote_def
        backslash_def writable_text_def calm_def)
  show "plain ''t''" by (simp add: plain_def backslash_def)
qed (simp_all add: sample_flags_def hidden_def values_before_def)

text \<open>A comment mark in a value cuts it, and the quotes that are escaped stay escaped.\<close>

lemma comment_marks_cut_values:
  "config_setting (tidy (''url = '' @ format_str ''http://a'')) = Setting ''url'' ''http:''"
  by code_simp

lemma both_quotes_not_restored:
  "config_setting (tidy (''s = '' @ format_str [CHR 0x22, CHR ''a'', CHR 0x27])) = Setting ''s'' [CHR 0x22, CHR ''a'', backslash]"
proof -
  have f: "format_str [CHR 0x22, CHR ''a'', CHR 0x27] = [CHR 0x27, CHR 0x22, CHR ''a'', backslash, CHR 0x27, CHR 0x27]"
    by (simp add: format_str_def str_replace_def until_nul_def replace_from.simps)
  show ?thesis unfolding f by code_simp
qed

text \<open>A value that ends in a backslash swallows the next line.\<close>

lemma backslash_joins_lines:
  "getline [''d = c:'' @ [backslash], [], ''# next''] = (''d = c:'', [''# next''])"
  by code_simp

section \<open>What the command line leaves\<close>

definition is_rest :: "string \<Rightarrow> bool" where
  "is_rest a \<longleftrightarrow> a \<noteq> [] \<and> hd a \<noteq> CHR ''-'' \<and> CHR ''='' \<notin> set a"

lemma put_value_keys:
  assumes "keys_sorted (fg_flags st)" "map_find n (fg_flags st) = Some g"
  shows "map fst (fg_flags (put_value n f x st)) = map fst (fg_flags st)"
  using map_put_same [OF assms, of "f\<lparr>fl_value := x\<rparr>"] by (simp add: put_value_def comp_def)

lemma first_not_dash:
  assumes "find_first_not_of ''-'' a = Some k"
  shows "a \<noteq> []" "k = 0 \<longleftrightarrow> hd a \<noteq> CHR ''-''"
proof -
  have l: "k = length (takeWhile (\<lambda>x. x = CHR ''-'') (until_nul a))" "k < length (until_nul a)"
    using assms by (auto simp: find_first_not_of_def find_first_that_def Let_def split: if_splits)
  then obtain c t where c: "until_nul a = c # t" by (cases "until_nul a") auto
  then obtain r where a: "a = c # r" by (cases a) (auto simp: until_nul_def split: if_splits)
  show "a \<noteq> []" using a by simp
  show "k = 0 \<longleftrightarrow> hd a \<noteq> CHR ''-''" using l(1) c a by simp
qed

lemma flag_arg_rest:
  assumes "flag_arg D a st = Inr (Returns (v, st'))"
  shows "v = (if is_rest a then [a] else [])"
proof (cases "find_first_not_of ''-'' a")
  case (Some k)
  note f = first_not_dash [OF Some]
  show ?thesis
  proof (cases "CHR ''='' \<in> set a")
    case True
    then show ?thesis using assms Some f
      by (auto simp: flag_arg_def find_char_def is_rest_def Let_def bindR_eq_Inr split: if_splits)
  next
    case False
    then show ?thesis using assms Some f by (auto simp: flag_arg_def find_char_def is_rest_def Let_def split: if_splits)
  qed
qed (use assms in \<open>simp add: flag_arg_def\<close>)

lemma flag_args_rest: "flag_args D args st = Inr (Returns (v, st')) \<Longrightarrow> v = filter is_rest args"
proof (induction args arbitrary: st v)
  case (Cons a args)
  from Cons.prems obtain r where r: "flag_arg D a st = Inr r"
    and e: "(case r of
         Exits k out \<Rightarrow> Inr (Exits k out)
       | Returns (v, st) \<Rightarrow>
           bindR (flag_args D args st) (\<lambda>r.
             case r of Exits k out \<Rightarrow> Inr (Exits k out) | Returns (w, st) \<Rightarrow> Inr (Returns (v @ w, st)))) = Inr (Returns (v, st'))"
    by (auto simp: bindR_eq_Inr)
  obtain u st1 where u: "r = Returns (u, st1)" using e by (cases r) auto
  obtain q where q: "flag_args D args st1 = Inr q" using e u by (cases "flag_args D args st1") auto
  then obtain w where w: "flag_args D args st1 = Inr (Returns (w, st'))" "v = u @ w" using e u by (cases q) auto
  have "u = (if is_rest a then [a] else [])" using flag_arg_rest r u by blast
  moreover have "w = filter is_rest args" using Cons.IH w(1) by blast
  ultimately show ?case using w(2) by simp
qed simp

text \<open>The arguments that are neither options nor settings come back in their order, unless the only one names the configuration file.\<close>

lemma command_line_rest:
  assumes "parse_command_line_flags D ex exe args st = Inr (Returns (v, st'))"
  shows "v = filter is_rest args \<or> (\<exists>arg. args = [arg] \<and> ex arg \<and> v = [] \<and> st' = set_config arg st)"
proof (cases "\<exists>arg. args = [arg]")
  case True
  then obtain arg where a: "args = [arg]" by blast
  let ?conf = "\<not> starts_with ''-'' arg \<and> CHR ''='' \<notin> set arg \<and> (ends_with ''.conf'' arg \<or> ends_with ''config'' arg) \<and> ex arg"
  note p = assms [unfolded a parse_command_line_flags_def list.case]
  have n: "arg \<noteq> ''--help''" using p by (rule contrapos_pn) simp
  have "find_first_not_of ''-'' arg \<noteq> None" using p [unfolded if_not_P [OF n]] by (rule contrapos_pn) simp
  with n have e: "(if ?conf then Inr (Returns ([], set_config arg st)) else flag_args D args st) = Inr (Returns (v, st'))"
    using assms unfolding a parse_command_line_flags_def list.case by (simp only: if_False)
  show ?thesis
  proof (cases ?conf)
    case True
    then show ?thesis using e [unfolded if_P [OF True]] a by simp
  next
    case False
    show ?thesis using flag_args_rest [OF e [unfolded if_not_P [OF False]]] by (rule disjI1)
  qed
next
  case False
  then have "flag_args D args st = Inr (Returns (v, st'))"
    using assms by (simp add: parse_command_line_flags_def del: flag_args.simps split: list.splits)
  then show ?thesis using flag_args_rest by blast
qed

text \<open>A flag that is not a boolean is not set by its name alone, and a setting of an unknown flag ends the process.\<close>

lemma unknown_flag_ends:
  assumes "map_find n (fg_flags st) = None"
  shows "set_flag_value D n v st = Inr (''flag not defined: '' @ n, st)"
  using assms by (simp add: set_flag_value_def)

end
