(* ===== verification/Spec2Isabelle.thy ===== *)
theory Spec2Isabelle
  imports AlarmQueue CropResize StreamPuller Pipeline RpcSession FastText CoMutex CoWakeup CoEpoll CoTimers CoEvent CoPool CoIo
    GraphManager CoPath CoFastring CoFlag
begin

text \<open>
  A verification library for the intrusion detection server in \<open>src/hengda_server-cj\<close> and
  the parts of the \<open>co\<close> library it uses (\<open>src/include/co/base\<close>).

  The program. A task request starts a graph of engines (\<open>graph.config\<close>): \<open>StreamPuller\<close>
  reads packets of a camera, \<open>VDecEngine\<close> decodes them, \<open>SSDDetection\<close> detects persons and
  draws their boxes, \<open>JpegEncode\<close> encodes the picture and \<open>DstEngine\<close> compares the persons
  with the borders of the camera, follows them as trails, reports alarms and keeps the
  pictures around an alarm as a clip. Borders are set by a second request and kept in a
  JSON file.

  Theories and what they model:
  \<^item> \<open>Prelude\<close>: machine words, truncating division (\<open>cpp_div\<close>), outcomes of computations that
    may fault (\<open>outcome\<close>, \<open>bindR\<close>, \<open>foldR\<close>), the interfaces \<open>codec\<close> and \<open>invariant_step\<close>.
  \<^item> \<open>CText\<close>: decimal and hexadecimal text, \<open>atoi\<close>, positions in strings, ordered maps.
  \<^item> \<open>Geometry\<close> (\<open>DstEngine/judge.cpp\<close>): points, segments, rectangle, polygon and line tests.
  \<^item> \<open>Trails\<close> (\<open>DstEngine/trail.h\<close>): the trail of a person, its age and its weight.
  \<^item> \<open>Base64\<close> (\<open>co/base/hash/base64.cc\<close>): the codec, with a signed and
    with an unsigned \<open>char\<close>; instance \<open>base64\<close> of \<open>codec\<close>.
  \<^item> \<open>Json11\<close>, \<open>JsonParser\<close>, \<open>JsonRoundTrip\<close> (\<open>utility/json11.cpp\<close>): values and their text,
    the recursive parser (its termination is proved), the instance \<open>json_text\<close> of \<open>codec\<close>.
  \<^item> \<open>Borders\<close> (\<open>utility/bordersloader.cpp\<close>, \<open>border.h\<close>): the border file.
  \<^item> \<open>CommonData\<close> (\<open>Common/stream_data.h\<close> and the small helpers): messages and buffers,
    configuration items, paths, files, the command line.
  \<^item> \<open>Dvpp\<close> (\<open>Common/dvpp_utils.h\<close>): requests to the picture hardware; \<open>CropResize\<close>
    (\<open>Common/CropResize\<close>) and \<open>JpegEncode\<close> (\<open>Common/DvppJpegEncode\<close>, \<open>JpegEncode\<close>) above it.
  \<^item> \<open>StreamPuller\<close>, \<open>VDecEngine\<close>, \<open>SSDDetection\<close>: the engines of these names.
  \<^item> \<open>DstEngine\<close> (\<open>DstEngine/DstEngine.cpp\<close>): the processing of a frame; instance \<open>dst\<close> of
    \<open>invariant_step\<close>. \<open>AlarmQueue\<close>: the coroutine that sends the alarms, as a step relation
    over all interleavings with the engine and the destructor.
  \<^item> \<open>Hash\<close> (\<open>co/base/hash\<close>): the checksum and the hash of method names; \<open>LruMap\<close>
    (\<open>co/base/lru_map.h\<close>): the bounded map and its specification.
  \<^item> \<open>CoJson\<close> (\<open>co/base/json.h\<close>, \<open>json.cc\<close>): the JSON values of requests and responses, both
    printers, the parser with the fill level of its key buffer; instance \<open>co_json\<close> of \<open>codec\<close>.
  \<^item> \<open>Md5\<close> (\<open>co/base/hash/md5.cc\<close>): the digest, beside a definition of RFC 1321 with
    a table, byte orders and output of its own.
  \<^item> \<open>DeServ\<close> (\<open>utility/de_serv.h\<close>, \<open>de_serv_impl.cpp\<close>, \<open>main.cpp\<close>): the service: dispatch of
    a request, the three methods with the files they read and write, the server's address.
  \<^item> \<open>CoSocket\<close> (\<open>co/base/co/impl/co_unix.cc\<close>): blocking reads and writes with a time limit over
    a socket that delivers and takes bytes in pieces, and the stream they stand for.
  \<^item> \<open>Rpc\<close> (\<open>co/base/rpc.cc\<close>, \<open>byte_order.h\<close>, \<open>random.h\<close>): messages, the server's loop on a
    connection, the password handshake on both sides, the client's calls. \<open>DeServ\<close> is an
    instance of \<open>rpc_service\<close>. \<open>RpcSession\<close>: what a session, the handshake and a broken
    connection amount to.
  \<^item> \<open>CoStr\<close> (\<open>co/base/str.cc\<close>), \<open>CoPath\<close> (\<open>co/base/path.cc\<close>): cutting, stripping and reading
    texts, paths. \<open>CoFastring\<close> (\<open>co/base/fastring.h\<close>, \<open>fastring.cc\<close>): strings that share counted
    buffers, on an explicit heap; an instance of \<open>step_system\<close>. \<open>CoFlag\<close> (\<open>co/base/flag.cc\<close>):
    flags, the command line and the configuration file.
  \<^item> \<open>FastText\<close> (\<open>co/base/fast.cc\<close>): the table-driven text of numbers and its cache.
  \<^item> \<open>StepSystem\<close>: the interface \<open>step_system\<close> of the concurrent parts, a step relation with an
    invariant. Its instances are the parts of the coroutine scheduler (\<open>co/base/co/impl\<close>):
    \<open>CoWakeup\<close>, how a scheduler learns of a task; \<open>CoPool\<close>, its coroutines, the stack they share
    and its pools; \<open>CoTimers\<close>, its timers; \<open>CoEpoll\<close>, the sockets it waits for; \<open>CoEvent\<close> and
    \<open>CoMutex\<close>, the event and the mutex of coroutines. \<open>CoIo\<close> (\<open>co_unix.cc\<close>): every blocking call
    over these timers and registrations; instances of \<open>wait_object\<close>. \<open>GraphManager\<close>
    (\<open>Common/GraphManager\<close>): starting graphs and counting messages.
  \<^item> \<open>Pipeline\<close>: the engines one behind the other, and what holds from end to end.

  Every operation is a function from the state (a record of the members) to the new state,
  in an \<open>outcome\<close> where the code can leave a buffer, use an unset value or throw. What a
  component sends is part of its state or result. Code that is not in the repository (the kernel, the
  device API, the model, the stream library, the clock, memory, the alignment macro) is an
  argument; device calls are collected in a log so that theorems can speak about them.

  What the lemmas show: the geometry equals the mathematical notions it stands for or is
  bounded by them; codecs and the border file round trip; the parser returns for every
  text; the window, marks and trails of the result engine keep their invariant over any
  run, no detection is lost, clips are centred; alarms are sent in order and cannot get
  stuck; drawing changes exactly the frame of a box and stays in the buffer; crop areas are
  disjoint as long as single precision is exact; the graph keeps the order of frames; a session of calls is the service applied
  to the requests in order, and who lacks the password is not served; a coroutine is
  resumed on the stack it left; no wake-up of a scheduler is lost when its signal flag starts
  cleared, and every one when it starts raised; timers fire when they are due while the hint
  for the next insertion is live, and what a dead hint leads to; a blocking call takes its
  timer back, but for a delayed close woken early; a wait returns once; the mutex is exclusive
  and handed on in order; a string points to a live buffer with a right count, a cleaned path is the path of the elements that are left, numbers are read as what they
  stand for. Where the code does not do what it means
  to, the fault itself is a theorem.

  Bounds and fuel: loops over data are structural or have a termination proof;
  the recursion of the two JSON parsers carries fuel that is shown never to run out (the
  nesting limit of the one, the length of the text for the other);
  and the pulling loop, which may run for ever, is a function of the
  rounds so far with a flag that tells whether it has returned. Floating point numbers are
  rationals or reals without rounding, except in \<open>CropResize\<close>, where the product that gives
  the crop sizes is rounded to single precision. Signed overflow, undefined in C++, is taken
  to wrap in \<open>fast.cc\<close> and \<open>json.cc\<close>, where the theories say so, and excluded by bounds in
  \<open>Geometry\<close>.

  Not modelled: threads and coroutines other than as steps, the jump between contexts
  (assembly), \<open>kqueue\<close> and the completion ports of Windows, the hooks of system calls,
  logging, the stack trace, the platform code under \<open>win\<close> and \<open>unix\<close>, the accept loop of
  the server and the start-up of \<open>main\<close>, reference counts of JSON values.
\<close>

end
